(* ===== verification/Prelude.thy ===== *)
theory Prelude
  imports Main "HOL-Library.Word" "HOL-Library.Monad_Syntax"
begin

text \<open>
  Shared vocabulary of the development: the machine types of the C sources, the memory model
  (a C object is a list of bytes; a pointer into it is the list from that byte on, or the list
  with an offset), failure as the value \<open>None\<close> of an option (a failed \<open>assert\<close> or an access
  outside the object), and the lemmas on lists and words that the components use.
\<close>

unbundle bit_operations_syntax

section \<open>Machine types\<close>

type_synonym byte = "8 word"
type_synonym u16 = "16 word"
type_synonym u32 = "32 word"
type_synonym u64 = "64 word"

text \<open>Addresses of the components that keep their objects in a memory from addresses to objects.\<close>

type_synonym addr = nat

text \<open>The number of values of the 64-bit \<open>size_t\<close>, and addition and product at that width.\<close>

definition size_t_mod :: nat where
  "size_t_mod = 2 ^ 64"

definition size_add :: "nat \<Rightarrow> nat \<Rightarrow> nat" where
  "size_add a b = (a + b) mod size_t_mod"

definition size_mult :: "nat \<Rightarrow> nat \<Rightarrow> nat" where
  "size_mult a b = (a * b) mod size_t_mod"

lemma size_add_less [simp]: "a + b < size_t_mod \<Longrightarrow> size_add a b = a + b"
  by (simp add: size_add_def)

section \<open>Failure\<close>

definition c_assert :: "bool \<Rightarrow> unit option" where
  "c_assert b = (if b then Some () else None)"

lemma bind_c_assert [simp]: "Option.bind (c_assert b) f = (if b then f () else None)"
  by (simp add: c_assert_def)

lemma c_assert_eq_Some [simp]: "c_assert b = Some u \<longleftrightarrow> b"
  by (simp add: c_assert_def)

lemma bind_eq_SomeE:
  assumes "Option.bind m f = Some y"
  obtains x where "m = Some x" and "f x = Some y"
  using assms by (cases m) auto

section \<open>Memory objects\<close>

text \<open>Reading and writing bytes of an object: \<open>None\<close> when any byte touched is outside it.\<close>

definition peek8 :: "byte list \<Rightarrow> nat \<Rightarrow> byte option" where
  "peek8 d i = (if i < length d then Some (d ! i) else None)"

definition peek_bytes :: "byte list \<Rightarrow> nat \<Rightarrow> nat \<Rightarrow> byte list option" where
  "peek_bytes d i n = (if i + n \<le> length d then Some (take n (drop i d)) else None)"

definition poke_bytes :: "byte list \<Rightarrow> nat \<Rightarrow> byte list \<Rightarrow> byte list option" where
  "poke_bytes d i xs =
     (if i + length xs \<le> length d then Some (take i d @ xs @ drop (i + length xs) d) else None)"

lemma peek8_Some_iff: "peek8 d i = Some b \<longleftrightarrow> i < length d \<and> d ! i = b"
  by (simp add: peek8_def)

lemma peek8_drop: "peek8 (drop k d) i = peek8 d (k + i)"
  by (auto simp: peek8_def add.commute)

lemma peek_bytes_length: "peek_bytes d i n = Some xs \<Longrightarrow> length xs = n"
  by (auto simp: peek_bytes_def split: if_splits)

lemma poke_bytes_length: "poke_bytes d i xs = Some d' \<Longrightarrow> length d' = length d"
  by (auto simp: poke_bytes_def split: if_splits)

lemma poke_peek_same: "poke_bytes d i xs = Some d' \<Longrightarrow> peek_bytes d' i (length xs) = Some xs"
  by (auto simp: poke_bytes_def peek_bytes_def split: if_splits)

lemma poke_take_before: "poke_bytes d i xs = Some d' \<Longrightarrow> k \<le> i \<Longrightarrow> take k d' = take k d"
  by (auto simp: poke_bytes_def split: if_splits)

lemma poke_bytes_exists: "i + length xs \<le> length d \<Longrightarrow> \<exists>d'. poke_bytes d i xs = Some d'"
  by (simp add: poke_bytes_def)

lemma poke_take_upto:
  "poke_bytes d i xs = Some d' \<Longrightarrow> take (i + length xs) d' = take i d @ xs"
  by (auto simp: poke_bytes_def split: if_splits)

text \<open>\<open>strlen\<close> of a NUL-terminated string: reading past the object fails.\<close>

fun c_strlen :: "byte list \<Rightarrow> nat option" where
  "c_strlen [] = None"
| "c_strlen (b # bs) = (if b = 0 then Some 0 else map_option Suc (c_strlen bs))"

lemma c_strlen_bound: "c_strlen s = Some n \<Longrightarrow> n < length s"
  by (induction s arbitrary: n) (auto split: if_splits)

section \<open>The C library's character functions on bytes\<close>

definition c_tolower :: "byte \<Rightarrow> byte" where
  "c_tolower b = (if 65 \<le> b \<and> b \<le> 90 then b + 32 else b)"

definition c_isdigit :: "byte \<Rightarrow> bool" where
  "c_isdigit b \<longleftrightarrow> 48 \<le> b \<and> b \<le> 57"

definition c_isalpha :: "byte \<Rightarrow> bool" where
  "c_isalpha b \<longleftrightarrow> (65 \<le> b \<and> b \<le> 90) \<or> (97 \<le> b \<and> b \<le> 122)"

definition c_isalnum :: "byte \<Rightarrow> bool" where
  "c_isalnum b \<longleftrightarrow> c_isdigit b \<or> c_isalpha b"

lemma c_tolower_idem [simp]: "c_tolower (c_tolower b) = c_tolower b"
  by (simp add: c_tolower_def word_le_nat_alt unat_word_ariths)

lemma c_tolower_0 [simp]: "c_tolower 0 = 0"
  by (simp add: c_tolower_def)

lemma c_tolower_eq_0 [simp]: "c_tolower b = 0 \<longleftrightarrow> b = 0"
  by (auto simp: c_tolower_def word_le_nat_alt unat_word_ariths word_unat_eq_iff split: if_splits)

section \<open>Words and bytes\<close>

lemma u16_bytes:
  "(push_bit 8 (ucast (ucast (drop_bit 8 w AND 0xff) :: byte)) OR ucast (ucast (w AND 0xff) :: byte))
     = (w :: u16)"
proof -
  have m: "(0xff :: u16) = mask 8"
    by (simp add: mask_eq_exp_minus_1)
  show ?thesis
    unfolding m by (rule bit_word_eqI) (auto simp: bit_simps)
qed

lemma unat_byte_less [simp]: "unat (b :: byte) < 256"
proof -
  have "unat b < 2 ^ LENGTH(8)"
    by (rule unsigned_less)
  then show ?thesis by simp
qed

lemma of_nat_length_byte: "length l < 256 \<Longrightarrow> unat (of_nat (length l) :: byte) = length l"
  by (simp add: unat_of_nat)

end
