(* ===== verification/Sbuffer.thy ===== *)
theory Sbuffer
  imports Prelude
begin

text \<open>
  The wire buffer of \<open>sldns/sbuffer.h\<close> and \<open>sldns/sbuffer.c\<close>: position, limit and capacity over
  a byte array. Every \<open>assert\<close> of the source is a failure branch (\<open>None\<close>). What \<open>malloc\<close> and
  \<open>realloc\<close> return is an argument: \<open>None\<close> for a null pointer, otherwise the bytes of the new
  object. The 64-bit sums of \<open>sldns_buffer_skip\<close> and \<open>sldns_buffer_reserve\<close> wrap as in C.
\<close>

section \<open>Big-endian integers in memory\<close>

definition sldns_read_uint16 :: "byte list \<Rightarrow> u16 option" where
  "sldns_read_uint16 src = do {
     p0 \<leftarrow> peek8 src 0; p1 \<leftarrow> peek8 src 1;
     Some (push_bit 8 (ucast p0) OR ucast p1) }"

definition sldns_read_uint32 :: "byte list \<Rightarrow> u32 option" where
  "sldns_read_uint32 src = do {
     p0 \<leftarrow> peek8 src 0; p1 \<leftarrow> peek8 src 1; p2 \<leftarrow> peek8 src 2; p3 \<leftarrow> peek8 src 3;
     Some (push_bit 24 (ucast p0) OR push_bit 16 (ucast p1) OR push_bit 8 (ucast p2) OR ucast p3) }"

definition sldns_write_uint16 :: "u16 \<Rightarrow> byte list" where
  "sldns_write_uint16 v = [ucast (drop_bit 8 v AND 0xff), ucast (v AND 0xff)]"

definition sldns_write_uint32 :: "u32 \<Rightarrow> byte list" where
  "sldns_write_uint32 v =
     [ucast (drop_bit 24 v AND 0xff), ucast (drop_bit 16 v AND 0xff),
      ucast (drop_bit 8 v AND 0xff), ucast (v AND 0xff)]"

definition sldns_write_uint48 :: "u64 \<Rightarrow> byte list" where
  "sldns_write_uint48 v =
     [ucast (drop_bit 40 v AND 0xff), ucast (drop_bit 32 v AND 0xff),
      ucast (drop_bit 24 v AND 0xff), ucast (drop_bit 16 v AND 0xff),
      ucast (drop_bit 8 v AND 0xff), ucast (v AND 0xff)]"

section \<open>The buffer\<close>

record sldns_buffer =
  buf_position :: nat
  buf_limit :: nat
  buf_capacity :: nat
  buf_data :: "byte list option"
  buf_fixed :: bool
  buf_status_err :: bool

text \<open>The bytes behind \<open>_data\<close>; a null pointer has none, so every access to it fails.\<close>

definition buf_mem :: "sldns_buffer \<Rightarrow> byte list" where
  "buf_mem b = (case buf_data b of None \<Rightarrow> [] | Some d \<Rightarrow> d)"

definition sldns_buffer_invariant :: "sldns_buffer \<Rightarrow> unit option" where
  "sldns_buffer_invariant b =
     c_assert (buf_position b \<le> buf_limit b \<and> buf_limit b \<le> buf_capacity b \<and> buf_data b \<noteq> None)"

definition sldns_buffer_new :: "nat \<Rightarrow> bool \<Rightarrow> byte list option \<Rightarrow> sldns_buffer option option" where
  "sldns_buffer_new capacity struct_ok mem =
     (if \<not> struct_ok then Some None
      else case mem of None \<Rightarrow> Some None
      | Some d \<Rightarrow>
        (let b = \<lparr>buf_position = 0, buf_limit = capacity, buf_capacity = capacity,
                  buf_data = Some d, buf_fixed = False, buf_status_err = False\<rparr>
         in do { sldns_buffer_invariant b; Some (Some b) }))"

definition sldns_buffer_new_frm_data ::
    "sldns_buffer \<Rightarrow> byte list \<Rightarrow> nat \<Rightarrow> byte list option \<Rightarrow> sldns_buffer option" where
  "sldns_buffer_new_frm_data b0 dat sz mem =
     (let b = b0\<lparr>buf_position := 0, buf_limit := sz, buf_capacity := sz, buf_fixed := False\<rparr>
      in case mem of
           None \<Rightarrow> Some (b\<lparr>buf_data := None, buf_status_err := True\<rparr>)
         | Some d \<Rightarrow> do {
             src \<leftarrow> peek_bytes dat 0 sz;
             d' \<leftarrow> poke_bytes d 0 src;
             let b = b\<lparr>buf_data := Some d', buf_status_err := False\<rparr>;
             sldns_buffer_invariant b;
             Some b })"

definition sldns_buffer_init_frm_data :: "byte list \<Rightarrow> nat \<Rightarrow> sldns_buffer" where
  "sldns_buffer_init_frm_data dat sz =
     \<lparr>buf_position = 0, buf_limit = sz, buf_capacity = sz, buf_data = Some dat,
      buf_fixed = True, buf_status_err = False\<rparr>"

definition sldns_buffer_clear :: "sldns_buffer \<Rightarrow> sldns_buffer option" where
  "sldns_buffer_clear b = do {
     sldns_buffer_invariant b;
     Some (b\<lparr>buf_position := 0, buf_limit := buf_capacity b\<rparr>) }"

definition sldns_buffer_flip :: "sldns_buffer \<Rightarrow> sldns_buffer option" where
  "sldns_buffer_flip b = do {
     sldns_buffer_invariant b;
     Some (b\<lparr>buf_limit := buf_position b, buf_position := 0\<rparr>) }"

definition sldns_buffer_rewind :: "sldns_buffer \<Rightarrow> sldns_buffer option" where
  "sldns_buffer_rewind b = do {
     sldns_buffer_invariant b;
     Some (b\<lparr>buf_position := 0\<rparr>) }"

definition sldns_buffer_position :: "sldns_buffer \<Rightarrow> nat" where
  "sldns_buffer_position b = buf_position b"

definition sldns_buffer_set_position :: "sldns_buffer \<Rightarrow> nat \<Rightarrow> sldns_buffer option" where
  "sldns_buffer_set_position b mark = do {
     c_assert (mark \<le> buf_limit b);
     Some (b\<lparr>buf_position := mark\<rparr>) }"

definition sldns_buffer_skip :: "sldns_buffer \<Rightarrow> int \<Rightarrow> sldns_buffer option" where
  "sldns_buffer_skip b count =
     (let p = nat ((int (buf_position b) + count) mod int size_t_mod)
      in do { c_assert (p \<le> buf_limit b); Some (b\<lparr>buf_position := p\<rparr>) })"

definition sldns_buffer_limit :: "sldns_buffer \<Rightarrow> nat" where
  "sldns_buffer_limit b = buf_limit b"

definition sldns_buffer_set_limit :: "sldns_buffer \<Rightarrow> nat \<Rightarrow> sldns_buffer option" where
  "sldns_buffer_set_limit b limit = do {
     c_assert (limit \<le> buf_capacity b);
     let b = b\<lparr>buf_limit := limit\<rparr>;
     Some (if buf_position b > buf_limit b then b\<lparr>buf_position := buf_limit b\<rparr> else b) }"

definition sldns_buffer_capacity :: "sldns_buffer \<Rightarrow> nat" where
  "sldns_buffer_capacity b = buf_capacity b"

definition sldns_buffer_set_capacity ::
    "sldns_buffer \<Rightarrow> nat \<Rightarrow> byte list option \<Rightarrow> (bool \<times> sldns_buffer) option" where
  "sldns_buffer_set_capacity b capacity mem = do {
     sldns_buffer_invariant b;
     c_assert (buf_position b \<le> capacity \<and> \<not> buf_fixed b);
     (case mem of
        None \<Rightarrow> Some (False, b\<lparr>buf_status_err := True\<rparr>)
      | Some d \<Rightarrow> Some (True, b\<lparr>buf_data := Some d, buf_limit := capacity, buf_capacity := capacity\<rparr>)) }"

definition sldns_buffer_reserve ::
    "sldns_buffer \<Rightarrow> nat \<Rightarrow> (nat \<Rightarrow> byte list option) \<Rightarrow> (bool \<times> sldns_buffer) option" where
  "sldns_buffer_reserve b amount realloc_data = do {
     sldns_buffer_invariant b;
     c_assert (\<not> buf_fixed b);
     if buf_capacity b < size_add (buf_position b) amount then
       (let c = size_mult (buf_capacity b) 3 div 2;
            new_capacity = (if c < size_add (buf_position b) amount
                            then size_add (buf_position b) amount else c)
        in do {
          (ok, b) \<leftarrow> sldns_buffer_set_capacity b new_capacity (realloc_data new_capacity);
          if \<not> ok then Some (False, b\<lparr>buf_status_err := True\<rparr>)
          else Some (True, b\<lparr>buf_limit := buf_capacity b\<rparr>) })
     else Some (True, b\<lparr>buf_limit := buf_capacity b\<rparr>) }"

text \<open>A pointer into the buffer is the data from that offset on.\<close>

definition sldns_buffer_at :: "sldns_buffer \<Rightarrow> nat \<Rightarrow> byte list option" where
  "sldns_buffer_at b i = do { c_assert (i \<le> buf_limit b); Some (drop i (buf_mem b)) }"

definition sldns_buffer_begin :: "sldns_buffer \<Rightarrow> byte list option" where
  "sldns_buffer_begin b = sldns_buffer_at b 0"

definition sldns_buffer_end :: "sldns_buffer \<Rightarrow> byte list option" where
  "sldns_buffer_end b = sldns_buffer_at b (buf_limit b)"

definition sldns_buffer_current :: "sldns_buffer \<Rightarrow> byte list option" where
  "sldns_buffer_current b = sldns_buffer_at b (buf_position b)"

definition sldns_buffer_remaining_at :: "sldns_buffer \<Rightarrow> nat \<Rightarrow> nat option" where
  "sldns_buffer_remaining_at b i = do {
     sldns_buffer_invariant b;
     c_assert (i \<le> buf_limit b);
     Some (if i < buf_limit b then buf_limit b - i else 0) }"

definition sldns_buffer_remaining :: "sldns_buffer \<Rightarrow> nat option" where
  "sldns_buffer_remaining b = sldns_buffer_remaining_at b (buf_position b)"

definition sldns_buffer_available_at :: "sldns_buffer \<Rightarrow> nat \<Rightarrow> nat \<Rightarrow> bool option" where
  "sldns_buffer_available_at b i count = do {
     r \<leftarrow> sldns_buffer_remaining_at b i; Some (count \<le> r) }"

definition sldns_buffer_available :: "sldns_buffer \<Rightarrow> nat \<Rightarrow> bool option" where
  "sldns_buffer_available b count = sldns_buffer_available_at b (buf_position b) count"

text \<open>The bytes of \<open>_data\<close> replaced from an offset on.\<close>

definition buf_poke :: "sldns_buffer \<Rightarrow> nat \<Rightarrow> byte list \<Rightarrow> sldns_buffer option" where
  "buf_poke b i xs = do { d \<leftarrow> poke_bytes (buf_mem b) i xs; Some (b\<lparr>buf_data := Some d\<rparr>) }"

definition sldns_buffer_write_at ::
    "sldns_buffer \<Rightarrow> nat \<Rightarrow> byte list \<Rightarrow> nat \<Rightarrow> sldns_buffer option" where
  "sldns_buffer_write_at b i dat count = do {
     ok \<leftarrow> sldns_buffer_available_at b i count; c_assert ok;
     src \<leftarrow> peek_bytes dat 0 count;
     buf_poke b i src }"

definition sldns_buffer_set_at ::
    "sldns_buffer \<Rightarrow> nat \<Rightarrow> byte \<Rightarrow> nat \<Rightarrow> sldns_buffer option" where
  "sldns_buffer_set_at b i c count = do {
     ok \<leftarrow> sldns_buffer_available_at b i count; c_assert ok;
     buf_poke b i (replicate count c) }"

definition buf_advance :: "sldns_buffer \<Rightarrow> nat \<Rightarrow> sldns_buffer" where
  "buf_advance b n = b\<lparr>buf_position := buf_position b + n\<rparr>"

definition sldns_buffer_write ::
    "sldns_buffer \<Rightarrow> byte list \<Rightarrow> nat \<Rightarrow> sldns_buffer option" where
  "sldns_buffer_write b dat count = do {
     b \<leftarrow> sldns_buffer_write_at b (buf_position b) dat count;
     Some (buf_advance b count) }"

definition sldns_buffer_write_string_at ::
    "sldns_buffer \<Rightarrow> nat \<Rightarrow> byte list \<Rightarrow> sldns_buffer option" where
  "sldns_buffer_write_string_at b i str = do {
     n \<leftarrow> c_strlen str; sldns_buffer_write_at b i str n }"

definition sldns_buffer_write_string :: "sldns_buffer \<Rightarrow> byte list \<Rightarrow> sldns_buffer option" where
  "sldns_buffer_write_string b str = do {
     n \<leftarrow> c_strlen str; sldns_buffer_write b str n }"

definition sldns_buffer_write_u8_at :: "sldns_buffer \<Rightarrow> nat \<Rightarrow> byte \<Rightarrow> sldns_buffer option" where
  "sldns_buffer_write_u8_at b i v = do {
     ok \<leftarrow> sldns_buffer_available_at b i 1; c_assert ok; buf_poke b i [v] }"

definition sldns_buffer_write_u8 :: "sldns_buffer \<Rightarrow> byte \<Rightarrow> sldns_buffer option" where
  "sldns_buffer_write_u8 b v = do {
     b \<leftarrow> sldns_buffer_write_u8_at b (buf_position b) v; Some (buf_advance b 1) }"

definition sldns_buffer_write_u16_at :: "sldns_buffer \<Rightarrow> nat \<Rightarrow> u16 \<Rightarrow> sldns_buffer option" where
  "sldns_buffer_write_u16_at b i v = do {
     ok \<leftarrow> sldns_buffer_available_at b i 2; c_assert ok; buf_poke b i (sldns_write_uint16 v) }"

definition sldns_buffer_write_u16 :: "sldns_buffer \<Rightarrow> u16 \<Rightarrow> sldns_buffer option" where
  "sldns_buffer_write_u16 b v = do {
     b \<leftarrow> sldns_buffer_write_u16_at b (buf_position b) v; Some (buf_advance b 2) }"

definition sldns_buffer_write_u32_at :: "sldns_buffer \<Rightarrow> nat \<Rightarrow> u32 \<Rightarrow> sldns_buffer option" where
  "sldns_buffer_write_u32_at b i v = do {
     ok \<leftarrow> sldns_buffer_available_at b i 4; c_assert ok; buf_poke b i (sldns_write_uint32 v) }"

definition sldns_buffer_write_u48_at :: "sldns_buffer \<Rightarrow> nat \<Rightarrow> u64 \<Rightarrow> sldns_buffer option" where
  "sldns_buffer_write_u48_at b i v = do {
     ok \<leftarrow> sldns_buffer_available_at b i 6; c_assert ok; buf_poke b i (sldns_write_uint48 v) }"

definition sldns_buffer_write_u32 :: "sldns_buffer \<Rightarrow> u32 \<Rightarrow> sldns_buffer option" where
  "sldns_buffer_write_u32 b v = do {
     b \<leftarrow> sldns_buffer_write_u32_at b (buf_position b) v; Some (buf_advance b 4) }"

definition sldns_buffer_write_u48 :: "sldns_buffer \<Rightarrow> u64 \<Rightarrow> sldns_buffer option" where
  "sldns_buffer_write_u48 b v = do {
     b \<leftarrow> sldns_buffer_write_u48_at b (buf_position b) v; Some (buf_advance b 6) }"

definition sldns_buffer_read_at :: "sldns_buffer \<Rightarrow> nat \<Rightarrow> nat \<Rightarrow> byte list option" where
  "sldns_buffer_read_at b i count = do {
     ok \<leftarrow> sldns_buffer_available_at b i count; c_assert ok;
     peek_bytes (buf_mem b) i count }"

definition sldns_buffer_read ::
    "sldns_buffer \<Rightarrow> nat \<Rightarrow> (byte list \<times> sldns_buffer) option" where
  "sldns_buffer_read b count = do {
     xs \<leftarrow> sldns_buffer_read_at b (buf_position b) count; Some (xs, buf_advance b count) }"

definition sldns_buffer_read_u8_at :: "sldns_buffer \<Rightarrow> nat \<Rightarrow> byte option" where
  "sldns_buffer_read_u8_at b i = do {
     ok \<leftarrow> sldns_buffer_available_at b i 1; c_assert ok; peek8 (buf_mem b) i }"

definition sldns_buffer_read_u8 :: "sldns_buffer \<Rightarrow> (byte \<times> sldns_buffer) option" where
  "sldns_buffer_read_u8 b = do {
     v \<leftarrow> sldns_buffer_read_u8_at b (buf_position b); Some (v, buf_advance b 1) }"

definition sldns_buffer_read_u16_at :: "sldns_buffer \<Rightarrow> nat \<Rightarrow> u16 option" where
  "sldns_buffer_read_u16_at b i = do {
     ok \<leftarrow> sldns_buffer_available_at b i 2; c_assert ok;
     sldns_read_uint16 (drop i (buf_mem b)) }"

definition sldns_buffer_read_u16 :: "sldns_buffer \<Rightarrow> (u16 \<times> sldns_buffer) option" where
  "sldns_buffer_read_u16 b = do {
     v \<leftarrow> sldns_buffer_read_u16_at b (buf_position b); Some (v, buf_advance b 2) }"

definition sldns_buffer_read_u32_at :: "sldns_buffer \<Rightarrow> nat \<Rightarrow> u32 option" where
  "sldns_buffer_read_u32_at b i = do {
     ok \<leftarrow> sldns_buffer_available_at b i 4; c_assert ok;
     sldns_read_uint32 (drop i (buf_mem b)) }"

definition sldns_buffer_read_u32 :: "sldns_buffer \<Rightarrow> (u32 \<times> sldns_buffer) option" where
  "sldns_buffer_read_u32 b = do {
     v \<leftarrow> sldns_buffer_read_u32_at b (buf_position b); Some (v, buf_advance b 4) }"

definition sldns_buffer_status :: "sldns_buffer \<Rightarrow> bool" where
  "sldns_buffer_status b = buf_status_err b"

text \<open>\<open>sldns_buffer_status_ok\<close> takes a possibly null pointer.\<close>

definition sldns_buffer_status_ok :: "sldns_buffer option \<Rightarrow> bool" where
  "sldns_buffer_status_ok bp = (case bp of None \<Rightarrow> False | Some b \<Rightarrow> \<not> sldns_buffer_status b)"

definition sldns_buffer_copy :: "sldns_buffer \<Rightarrow> sldns_buffer \<Rightarrow> sldns_buffer option" where
  "sldns_buffer_copy result src =
     (let tocopy = sldns_buffer_limit src;
          tocopy = (if tocopy > sldns_buffer_capacity result
                    then sldns_buffer_capacity result else tocopy)
      in do {
        r \<leftarrow> sldns_buffer_clear result;
        p \<leftarrow> sldns_buffer_begin src;
        r \<leftarrow> sldns_buffer_write r p tocopy;
        sldns_buffer_flip r })"

section \<open>Sequences of calls\<close>

text \<open>The operations that change a buffer without reallocating it, and their execution in order.\<close>

datatype buffer_op =
    OpClear | OpFlip | OpRewind
  | OpSetPosition nat | OpSkip int | OpSetLimit nat
  | OpWriteAt nat "byte list" nat | OpSetAt nat byte nat
  | OpWrite "byte list" nat | OpWriteString "byte list"
  | OpWriteU8 byte | OpWriteU16 u16 | OpWriteU32 u32 | OpWriteU48 u64
  | OpRead nat | OpReadU8 | OpReadU16 | OpReadU32

fun buffer_step :: "sldns_buffer \<Rightarrow> buffer_op \<Rightarrow> sldns_buffer option" where
  "buffer_step b OpClear = sldns_buffer_clear b"
| "buffer_step b OpFlip = sldns_buffer_flip b"
| "buffer_step b OpRewind = sldns_buffer_rewind b"
| "buffer_step b (OpSetPosition n) = sldns_buffer_set_position b n"
| "buffer_step b (OpSkip n) = sldns_buffer_skip b n"
| "buffer_step b (OpSetLimit n) = sldns_buffer_set_limit b n"
| "buffer_step b (OpWriteAt i xs n) = sldns_buffer_write_at b i xs n"
| "buffer_step b (OpSetAt i c n) = sldns_buffer_set_at b i c n"
| "buffer_step b (OpWrite xs n) = sldns_buffer_write b xs n"
| "buffer_step b (OpWriteString xs) = sldns_buffer_write_string b xs"
| "buffer_step b (OpWriteU8 v) = sldns_buffer_write_u8 b v"
| "buffer_step b (OpWriteU16 v) = sldns_buffer_write_u16 b v"
| "buffer_step b (OpWriteU32 v) = sldns_buffer_write_u32 b v"
| "buffer_step b (OpWriteU48 v) = sldns_buffer_write_u48 b v"
| "buffer_step b (OpRead n) = map_option snd (sldns_buffer_read b n)"
| "buffer_step b OpReadU8 = map_option snd (sldns_buffer_read_u8 b)"
| "buffer_step b OpReadU16 = map_option snd (sldns_buffer_read_u16 b)"
| "buffer_step b OpReadU32 = map_option snd (sldns_buffer_read_u32 b)"

fun buffer_run :: "sldns_buffer \<Rightarrow> buffer_op list \<Rightarrow> sldns_buffer option" where
  "buffer_run b [] = Some b"
| "buffer_run b (x # xs) = Option.bind (buffer_step b x) (\<lambda>b'. buffer_run b' xs)"

section \<open>Well-formed buffers\<close>

definition buf_wf :: "sldns_buffer \<Rightarrow> bool" where
  "buf_wf b \<longleftrightarrow>
     buf_position b \<le> buf_limit b \<and> buf_limit b \<le> buf_capacity b \<and>
     buf_capacity b < size_t_mod \<and> buf_data b \<noteq> None \<and> length (buf_mem b) = buf_capacity b"

lemmas buffer_index_defs =
  sldns_buffer_invariant_def sldns_buffer_remaining_def sldns_buffer_remaining_at_def
  sldns_buffer_available_def sldns_buffer_available_at_def sldns_buffer_position_def
  sldns_buffer_limit_def sldns_buffer_capacity_def sldns_buffer_at_def sldns_buffer_begin_def
  sldns_buffer_current_def sldns_buffer_end_def

lemmas buffer_write_defs =
  sldns_buffer_write_at_def sldns_buffer_set_at_def sldns_buffer_write_def
  sldns_buffer_write_string_at_def sldns_buffer_write_string_def
  sldns_buffer_write_u8_at_def sldns_buffer_write_u8_def
  sldns_buffer_write_u16_at_def sldns_buffer_write_u16_def
  sldns_buffer_write_u32_at_def sldns_buffer_write_u32_def
  sldns_buffer_write_u48_at_def sldns_buffer_write_u48_def

lemmas buffer_read_defs =
  sldns_buffer_read_at_def sldns_buffer_read_def
  sldns_buffer_read_u8_at_def sldns_buffer_read_u8_def
  sldns_buffer_read_u16_at_def sldns_buffer_read_u16_def
  sldns_buffer_read_u32_at_def sldns_buffer_read_u32_def

lemma write_uint_lengths [simp]:
  "length (sldns_write_uint16 v) = 2" "length (sldns_write_uint32 w) = 4"
  "length (sldns_write_uint48 x) = 6"
  by (simp_all add: sldns_write_uint16_def sldns_write_uint32_def sldns_write_uint48_def)

lemma buf_wf_remaining [simp]:
  "buf_wf b \<Longrightarrow> sldns_buffer_remaining b = Some (buf_limit b - buf_position b)"
  by (auto simp: buf_wf_def buffer_index_defs)

lemma buf_wf_available_at [simp]:
  "buf_wf b \<Longrightarrow> i \<le> buf_limit b \<Longrightarrow> sldns_buffer_available_at b i n = Some (n \<le> buf_limit b - i)"
  by (auto simp: buf_wf_def buffer_index_defs)

lemma buf_wf_invariant [simp]: "buf_wf b \<Longrightarrow> sldns_buffer_invariant b = Some ()"
  by (auto simp: buf_wf_def sldns_buffer_invariant_def)

lemma available_at_SomeD:
  "sldns_buffer_available_at b i n = Some True \<Longrightarrow> i \<le> buf_limit b \<and> n \<le> buf_limit b - i"
  by (auto simp: buffer_index_defs split: if_splits)

lemma buf_poke_frame:
  assumes "buf_poke b i xs = Some b'"
  shows "buf_position b' = buf_position b" "buf_limit b' = buf_limit b"
    "buf_capacity b' = buf_capacity b" "length (buf_mem b') = length (buf_mem b)"
    "buf_data b' \<noteq> None" "poke_bytes (buf_mem b) i xs = Some (buf_mem b')"
  using assms by (auto simp: buf_poke_def buf_mem_def poke_bytes_length elim!: bind_eq_SomeE)

lemma buf_wf_poke: "buf_wf b \<Longrightarrow> buf_poke b i xs = Some b' \<Longrightarrow> buf_wf b'"
  using buf_poke_frame [of b i xs b'] by (simp add: buf_wf_def)

lemma buf_wf_advance:
  "buf_wf b \<Longrightarrow> n \<le> buf_limit b - buf_position b \<Longrightarrow> buf_wf (buf_advance b n)"
  by (auto simp: buf_wf_def buf_advance_def buf_mem_def)

lemma buf_advance_frame [simp]:
  "buf_capacity (buf_advance b n) = buf_capacity b" "buf_limit (buf_advance b n) = buf_limit b"
  "buf_mem (buf_advance b n) = buf_mem b" "buf_position (buf_advance b n) = buf_position b + n"
  by (simp_all add: buf_advance_def buf_mem_def)

lemma buf_poke_advance_wf:
  assumes "buf_wf b" "buf_poke b (buf_position b) xs = Some b'" "n \<le> buf_limit b - buf_position b"
  shows "buf_wf (buf_advance b' n)"
  using assms buf_poke_frame [OF assms(2)] by (intro buf_wf_advance) (auto intro: buf_wf_poke)

lemma buf_wf_position_le [simp]: "buf_wf b \<Longrightarrow> buf_position b \<le> buf_limit b"
  by (simp add: buf_wf_def)

lemma buf_wf_reset:
  "buf_wf b \<Longrightarrow> buf_wf (b\<lparr>buf_position := 0\<rparr>)"
  "buf_wf b \<Longrightarrow> buf_wf (b\<lparr>buf_limit := buf_position b, buf_position := 0\<rparr>)"
  "buf_wf b \<Longrightarrow> buf_wf (b\<lparr>buf_position := 0, buf_limit := buf_capacity b\<rparr>)"
  by (auto simp: buf_wf_def buf_mem_def)

lemma buffer_step_wf:
  assumes wf: "buf_wf b" and step: "buffer_step b x = Some b'"
  shows "buf_wf b' \<and> buf_capacity b' = buf_capacity b"
proof (cases x)
  case (OpSkip n)
  with wf step show ?thesis
    by (auto simp: sldns_buffer_skip_def Let_def buf_wf_def buf_mem_def split: if_splits)
next
  case (OpWriteAt i xs n)
  with wf step show ?thesis
    by (auto simp: buffer_write_defs buf_poke_frame elim!: bind_eq_SomeE split: if_splits
        intro: buf_wf_poke)
next
  case (OpSetAt i c n)
  with wf step show ?thesis
    by (auto simp: buffer_write_defs buf_poke_frame elim!: bind_eq_SomeE split: if_splits
        intro: buf_wf_poke)
next
  case (OpSetLimit n)
  with wf step show ?thesis
    by (auto simp: sldns_buffer_set_limit_def Let_def buf_wf_def buf_mem_def split: if_splits)
next
  case (OpSetPosition n)
  with wf step show ?thesis
    by (auto simp: sldns_buffer_set_position_def buf_wf_def buf_mem_def split: if_splits)
qed (use wf step in \<open>auto simp: buffer_write_defs buffer_read_defs buf_poke_frame
       sldns_buffer_clear_def sldns_buffer_flip_def sldns_buffer_rewind_def
       elim!: bind_eq_SomeE split: if_splits
       intro: buf_poke_advance_wf buf_wf_advance buf_wf_reset\<close>)

section \<open>Contents: writes and reads\<close>

lemma buf_wf_poke_exists:
  assumes "buf_wf b" "i \<le> buf_limit b" "length xs \<le> buf_limit b - i"
  obtains b' where "buf_poke b i xs = Some b'"
proof -
  have "i + length xs \<le> length (buf_mem b)"
    using assms by (auto simp: buf_wf_def)
  from poke_bytes_exists [OF this] show ?thesis
    by (auto simp: buf_poke_def intro: that)
qed

lemma peek_bytes_same_length [simp]: "peek_bytes xs 0 (length xs) = Some xs"
  by (simp add: peek_bytes_def)

lemma sldns_buffer_write_ok:
  assumes "buf_wf b" "length xs \<le> buf_limit b - buf_position b"
  obtains b' where "sldns_buffer_write b xs (length xs) = Some (buf_advance b' (length xs))"
    and "buf_poke b (buf_position b) xs = Some b'"
proof -
  obtain b' where "buf_poke b (buf_position b) xs = Some b'"
    using buf_wf_poke_exists [OF assms(1) buf_wf_position_le [OF assms(1)] assms(2)] .
  with assms show ?thesis
    by (auto simp: sldns_buffer_write_def sldns_buffer_write_at_def intro: that)
qed

lemma poke_drop_take:
  "poke_bytes d i xs = Some d' \<Longrightarrow> take (length xs) (drop i d') = xs"
  by (auto simp: poke_bytes_def split: if_splits)

lemma sldns_read_write_uint16:
  "sldns_read_uint16 (sldns_write_uint16 v @ rest) = Some v"
  by (simp add: sldns_read_uint16_def sldns_write_uint16_def peek8_def u16_bytes)

lemma u32_bytes_mask:
  "(push_bit 24 (ucast (ucast (drop_bit 24 w AND mask 8) :: byte))
    OR push_bit 16 (ucast (ucast (drop_bit 16 w AND mask 8) :: byte))
    OR push_bit 8 (ucast (ucast (drop_bit 8 w AND mask 8) :: byte))
    OR ucast (ucast (w AND mask 8) :: byte)) = (w :: u32)" (is "?lhs = w")
proof (rule bit_word_eqI)
  fix n
  assume n: "n < LENGTH(32)"
  consider "n < 8" | "8 \<le> n" "n < 16" | "16 \<le> n" "n < 24" | "24 \<le> n"
    by linarith
  then show "bit ?lhs n \<longleftrightarrow> bit w n"
    using n by cases (auto simp: bit_simps)
qed

lemma u32_bytes:
  "(push_bit 24 (ucast (ucast (drop_bit 24 w AND 0xff) :: byte))
    OR push_bit 16 (ucast (ucast (drop_bit 16 w AND 0xff) :: byte))
    OR push_bit 8 (ucast (ucast (drop_bit 8 w AND 0xff) :: byte))
    OR ucast (ucast (w AND 0xff) :: byte)) = (w :: u32)"
  using u32_bytes_mask [of w] by (simp add: mask_eq_exp_minus_1)

lemma sldns_read_write_uint32:
  "sldns_read_uint32 (sldns_write_uint32 v @ rest) = Some v"
proof -
  have "(3::nat) = Suc (Suc (Suc 0))" "(2::nat) = Suc (Suc 0)" by simp_all
  then show ?thesis
    using u32_bytes [of v]
    by (simp add: sldns_read_uint32_def sldns_write_uint32_def peek8_def)
qed

lemma poke_drop_split:
  assumes "poke_bytes d i xs = Some d'"
  obtains rest where "drop i d' = xs @ rest"
  using assms by (auto simp: poke_bytes_def intro: that split: if_splits)

section \<open>Properties\<close>

text \<open>
  C39. Whatever sequence of calls is made on a well-formed buffer, if no assertion of the source
  fails then the buffer is well-formed afterwards (position \<open>\<le>\<close> limit \<open>\<le>\<close> capacity, and the data
  array has exactly \<open>capacity\<close> bytes), and its capacity is unchanged.
\<close>

theorem buffer_run_keeps_wf:
  assumes "buf_wf b" and "buffer_run b ops = Some b'"
  shows "buf_wf b' \<and> buf_capacity b' = buf_capacity b"
  using assms
proof (induction ops arbitrary: b)
  case (Cons x xs)
  from Cons.prems(2) obtain b1 where b1: "buffer_step b x = Some b1" "buffer_run b1 xs = Some b'"
    by (auto elim: bind_eq_SomeE)
  from buffer_step_wf [OF Cons.prems(1) b1(1)] Cons.IH [OF _ b1(2)] show ?case
    by simp
qed simp

definition example_buffer :: sldns_buffer where
  "example_buffer = sldns_buffer_init_frm_data [0, 0, 0, 0, 0, 0] 6"

lemma example_buffer_wf: "buf_wf example_buffer"
  by (simp add: example_buffer_def sldns_buffer_init_frm_data_def buf_wf_def buf_mem_def
      size_t_mod_def)

theorem buffer_run_keeps_wf_witness:
  "\<exists>b'. buffer_run example_buffer [OpWriteU16 0x1234, OpFlip, OpReadU8] = Some b' \<and> buf_wf b'
     \<and> buf_capacity b' = buf_capacity example_buffer"
proof -
  obtain b' where r: "buffer_run example_buffer [OpWriteU16 0x1234, OpFlip, OpReadU8] = Some b'"
    by (simp add: example_buffer_def sldns_buffer_init_frm_data_def buffer_write_defs
        buffer_read_defs buffer_index_defs buf_poke_def buf_mem_def poke_bytes_def
        sldns_write_uint16_def sldns_buffer_flip_def buf_advance_def peek8_def)
  from buffer_run_keeps_wf [OF example_buffer_wf r] r show ?thesis by blast
qed

text \<open>
  Writing bytes that fit into the remaining space never fails; it advances the position by
  their number, reading the same region gives them back, and everything before the old position
  is untouched.
\<close>

lemma sldns_buffer_write_read:
  assumes wf: "buf_wf b" and fits: "length xs \<le> buf_limit b - buf_position b"
  shows "\<exists>b'. sldns_buffer_write b xs (length xs) = Some b' \<and> buf_wf b'
    \<and> buf_position b' = buf_position b + length xs
    \<and> sldns_buffer_read_at b' (buf_position b) (length xs) = Some xs
    \<and> take (buf_position b) (buf_mem b') = take (buf_position b) (buf_mem b)"
proof -
  obtain b1 where w: "sldns_buffer_write b xs (length xs) = Some (buf_advance b1 (length xs))"
    and pk: "buf_poke b (buf_position b) xs = Some b1"
    using sldns_buffer_write_ok [OF wf fits] .
  note fr = buf_poke_frame [OF pk]
  have wf': "buf_wf (buf_advance b1 (length xs))"
    using wf pk fits by (rule buf_poke_advance_wf)
  have "sldns_buffer_read_at (buf_advance b1 (length xs)) (buf_position b) (length xs) = Some xs"
    using wf wf' fr fits poke_peek_same [OF fr(6)] by (simp add: sldns_buffer_read_at_def)
  then show ?thesis
    using w wf' fr poke_take_before [OF fr(6)] by auto
qed

text \<open>
  Integers survive the wire: a 16-bit or 32-bit value written big-endian at an offset with
  room for it is read back unchanged from that offset.
\<close>

lemma sldns_buffer_uint_roundtrip:
  assumes wf: "buf_wf b" and i: "i \<le> buf_limit b" and room: "4 \<le> buf_limit b - i"
  shows "(\<exists>b'. sldns_buffer_write_u16_at b i v = Some b' \<and> sldns_buffer_read_u16_at b' i = Some v)
    \<and> (\<exists>b'. sldns_buffer_write_u32_at b i w = Some b' \<and> sldns_buffer_read_u32_at b' i = Some w)"
proof
  obtain b' where pk: "buf_poke b i (sldns_write_uint16 v) = Some b'"
    using buf_wf_poke_exists [OF wf i, of "sldns_write_uint16 v"] room by auto
  obtain rest where "drop i (buf_mem b') = sldns_write_uint16 v @ rest"
    using poke_drop_split [OF buf_poke_frame(6) [OF pk]] .
  with wf i room pk buf_wf_poke [OF wf pk] buf_poke_frame [OF pk] show
    "\<exists>b'. sldns_buffer_write_u16_at b i v = Some b' \<and> sldns_buffer_read_u16_at b' i = Some v"
    by (auto simp: sldns_buffer_write_u16_at_def sldns_buffer_read_u16_at_def
        sldns_read_write_uint16)
next
  obtain b' where pk: "buf_poke b i (sldns_write_uint32 w) = Some b'"
    using buf_wf_poke_exists [OF wf i, of "sldns_write_uint32 w"] room by auto
  obtain rest where "drop i (buf_mem b') = sldns_write_uint32 w @ rest"
    using poke_drop_split [OF buf_poke_frame(6) [OF pk]] .
  with wf i room pk buf_wf_poke [OF wf pk] buf_poke_frame [OF pk] show
    "\<exists>b'. sldns_buffer_write_u32_at b i w = Some b' \<and> sldns_buffer_read_u32_at b' i = Some w"
    by (auto simp: sldns_buffer_write_u32_at_def sldns_buffer_read_u32_at_def
        sldns_read_write_uint32)
qed

text \<open>
  \<open>sldns_buffer_reserve\<close>: if \<open>realloc\<close> behaves as documented (the new object has the size
  asked for and starts with the old contents) and the requested end does not exceed \<open>size_t\<close>,
  a successful reservation leaves a well-formed buffer with at least \<open>amount\<close> bytes remaining
  and the bytes before the position unchanged; a failed one only sets the error flag.
\<close>

definition realloc_contract :: "sldns_buffer \<Rightarrow> (nat \<Rightarrow> byte list option) \<Rightarrow> bool" where
  "realloc_contract b f \<longleftrightarrow>
     (\<forall>n d. f n = Some d \<longrightarrow> length d = n \<and> take (min n (buf_capacity b)) d = take n (buf_mem b))"

lemma size_mult_less: "size_mult a b < size_t_mod"
  by (simp add: size_mult_def size_t_mod_def)

lemma size_mult_div_less: "size_mult a b div 2 < size_t_mod"
  using size_mult_less [of a b] by linarith

lemma sldns_buffer_reserve_room:
  assumes wf: "buf_wf b" and "\<not> buf_fixed b" and fits: "buf_position b + amount < size_t_mod"
    and re: "realloc_contract b f"
  shows "\<exists>ok b'. sldns_buffer_reserve b amount f = Some (ok, b')
    \<and> (ok \<longrightarrow> buf_wf b' \<and> buf_position b' = buf_position b
          \<and> amount \<le> buf_limit b' - buf_position b'
          \<and> take (buf_position b) (buf_mem b') = take (buf_position b) (buf_mem b))
    \<and> (\<not> ok \<longrightarrow> b' = b\<lparr>buf_status_err := True\<rparr>)"
proof (cases "buf_capacity b < buf_position b + amount")
  case False
  then have "sldns_buffer_reserve b amount f = Some (True, b\<lparr>buf_limit := buf_capacity b\<rparr>)"
    using wf fits assms(2) by (simp add: sldns_buffer_reserve_def)
  moreover have "buf_wf (b\<lparr>buf_limit := buf_capacity b\<rparr>)"
    using wf by (simp add: buf_wf_def buf_mem_def)
  moreover have "amount \<le> buf_capacity b - buf_position b"
    using False by linarith
  ultimately show ?thesis
    by (intro exI [of _ True] exI [of _ "b\<lparr>buf_limit := buf_capacity b\<rparr>"])
      (simp add: buf_mem_def)
next
  case True
  define n where "n = (if size_mult (buf_capacity b) 3 div 2 < buf_position b + amount
    then buf_position b + amount else size_mult (buf_capacity b) 3 div 2)"
  have n: "buf_position b + amount \<le> n" "n < size_t_mod"
    using fits size_mult_div_less by (simp_all add: n_def)
  have eq: "sldns_buffer_reserve b amount f = do {
      (ok, b) \<leftarrow> sldns_buffer_set_capacity b n (f n);
      if \<not> ok then Some (False, b\<lparr>buf_status_err := True\<rparr>)
      else Some (True, b\<lparr>buf_limit := buf_capacity b\<rparr>) }"
    using wf assms(2) True fits
    by (simp only: sldns_buffer_reserve_def n_def Let_def size_add_less buf_wf_invariant
        bind.bind_lunit bind_c_assert if_True not_False_eq_True simp_thms)
  show ?thesis
  proof (cases "f n")
    case None
    with eq wf assms(2) n(1) show ?thesis
      by (intro exI [of _ False] exI [of _ "b\<lparr>buf_status_err := True\<rparr>"])
        (simp add: sldns_buffer_set_capacity_def)
  next
    case (Some d)
    let ?b' = "b\<lparr>buf_data := Some d, buf_limit := n, buf_capacity := n\<rparr>"
    from Some eq wf assms(2) n(1) have res: "sldns_buffer_reserve b amount f = Some (True, ?b')"
      by (simp add: sldns_buffer_set_capacity_def)
    from Some re have d: "length d = n" "take (min n (buf_capacity b)) d = take n (buf_mem b)"
      by (auto simp: realloc_contract_def)
    have wf': "buf_wf ?b'"
      using d(1) n by (simp add: buf_wf_def buf_mem_def)
    have "buf_position b \<le> min n (buf_capacity b)"
      using n wf by (auto simp: buf_wf_def)
    then have "take (buf_position b) d = take (buf_position b) (take (min n (buf_capacity b)) d)"
      by (simp add: min_absorb1)
    also have "\<dots> = take (buf_position b) (buf_mem b)"
      unfolding d(2) using n(1) by (simp add: min_absorb1)
    finally have "take (buf_position b) (buf_mem ?b') = take (buf_position b) (buf_mem b)"
      by (simp add: buf_mem_def)
    with res wf' n(1) show ?thesis
      by (intro exI [of _ True] exI [of _ ?b']) simp
  qed
qed

text \<open>
  \<open>sldns_buffer_copy\<close> between well-formed buffers never fails: the result is positioned at 0,
  limited to the source's limit cut to the destination's capacity, and holds the source's bytes
  up to there.
\<close>

lemma sldns_buffer_copy_contents:
  assumes wr: "buf_wf r" and ws: "buf_wf s"
  shows "\<exists>r'. sldns_buffer_copy r s = Some r' \<and> buf_wf r' \<and> buf_position r' = 0
    \<and> buf_limit r' = min (buf_limit s) (buf_capacity r)
    \<and> take (buf_limit r') (buf_mem r') = take (buf_limit r') (buf_mem s)"
proof -
  define n where "n = min (buf_limit s) (buf_capacity r)"
  let ?r = "r\<lparr>buf_position := 0, buf_limit := buf_capacity r\<rparr>"
  have wf1: "buf_wf ?r" using wr by (rule buf_wf_reset)
  have len: "n \<le> length (buf_mem s)"
    using ws by (auto simp: buf_wf_def n_def)
  have "length (take n (buf_mem s)) \<le> buf_limit ?r - 0"
    using len by (simp add: n_def)
  then obtain r1 where pk: "buf_poke ?r 0 (take n (buf_mem s)) = Some r1"
    using buf_wf_poke_exists [OF wf1, of 0 "take n (buf_mem s)"] by auto
  note fr = buf_poke_frame [OF pk]
  have wf2: "buf_wf (buf_advance r1 n)"
    using fr wf1 pk by (intro buf_wf_advance buf_wf_poke [OF wf1 pk]) (auto simp: n_def)
  have eq: "(if buf_capacity r < buf_limit s then buf_capacity r else buf_limit s) = n"
    by (simp add: n_def min_def)
  have le: "n \<le> buf_capacity r"
    by (simp add: n_def)
  have "sldns_buffer_copy r s = Some ((buf_advance r1 n)\<lparr>buf_limit := n, buf_position := 0\<rparr>)"
    unfolding sldns_buffer_copy_def Let_def sldns_buffer_limit_def sldns_buffer_capacity_def eq
    using wr wf1 wf2 pk fr len le
    by (simp add: sldns_buffer_clear_def sldns_buffer_begin_def sldns_buffer_at_def sldns_buffer_write_def
        sldns_buffer_write_at_def peek_bytes_def sldns_buffer_flip_def)
  moreover have "buf_wf ((buf_advance r1 n)\<lparr>buf_limit := n, buf_position := 0\<rparr>)"
    using buf_wf_reset(2) [OF wf2] fr by simp
  moreover have "take n (buf_mem r1) = take n (buf_mem s)"
    using poke_take_upto [OF fr(6)] len by simp
  ultimately show ?thesis
    by (auto simp: n_def buf_mem_def buf_advance_def)
qed

end
