(* ===== verification/Lookup3.thy ===== *)
theory Lookup3
  imports Prelude
begin

text \<open>
  The hash functions of \<open>util/storage/lookup3.c\<close> over 32-bit words. \<open>hashlittle\<close> has three code
  paths, chosen by the endianness of the machine and the alignment of the key: 32-bit loads,
  16-bit loads, single bytes. The address of the key modulo 4 and the endianness are arguments of
  the model, as is the global \<open>raninit\<close>. Each path reads exactly the first \<open>length\<close> bytes of the
  key, so it fails exactly when the key object is shorter.
\<close>

section \<open>Mixing\<close>

type_synonym hstate = "u32 \<times> u32 \<times> u32"

definition rot :: "u32 \<Rightarrow> nat \<Rightarrow> u32" where
  "rot x k = push_bit k x OR drop_bit (32 - k) x"

definition mix :: "hstate \<Rightarrow> hstate" where
  "mix s = (case s of (a, b, c) \<Rightarrow>
     let a = a - c; a = a XOR rot c 4;  c = c + b;
         b = b - a; b = b XOR rot a 6;  a = a + c;
         c = c - b; c = c XOR rot b 8;  b = b + a;
         a = a - c; a = a XOR rot c 16; c = c + b;
         b = b - a; b = b XOR rot a 19; a = a + c;
         c = c - b; c = c XOR rot b 4;  b = b + a
     in (a, b, c))"

definition final_mix :: "hstate \<Rightarrow> hstate" where
  "final_mix s = (case s of (a, b, c) \<Rightarrow>
     let c = c XOR b; c = c - rot b 14;
         a = a XOR c; a = a - rot c 11;
         b = b XOR a; b = b - rot a 25;
         c = c XOR b; c = c - rot b 16;
         a = a XOR c; a = a - rot c 4;
         b = b XOR a; b = b - rot a 14;
         c = c XOR b; c = c - rot b 24
     in (a, b, c))"

definition hash_c :: "hstate \<Rightarrow> u32" where
  "hash_c s = snd (snd s)"

section \<open>Hashing arrays of 32-bit words\<close>

function hashword_loop :: "u32 list \<Rightarrow> nat \<Rightarrow> hstate \<Rightarrow> u32 option" where
  "hashword_loop k len (a, b, c) =
     (if len > 3 then
        do { k0 \<leftarrow> (if 0 < length k then Some (k ! 0) else None);
             k1 \<leftarrow> (if 1 < length k then Some (k ! 1) else None);
             k2 \<leftarrow> (if 2 < length k then Some (k ! 2) else None);
             hashword_loop (drop 3 k) (len - 3) (mix (a + k0, b + k1, c + k2)) }
      else if length k < len then None
      else let c = (if len \<ge> 3 then c + k ! 2 else c);
               b = (if len \<ge> 2 then b + k ! 1 else b)
           in if len \<ge> 1 then Some (hash_c (final_mix (a + k ! 0, b, c))) else Some c)"
  by pat_completeness auto
termination by (relation "measure (\<lambda>(k, len, s). len)") auto

definition hashword :: "u32 \<Rightarrow> u32 list \<Rightarrow> nat \<Rightarrow> u32 \<Rightarrow> u32 option" where
  "hashword raninit k len initval =
     (let s = raninit + push_bit 2 (of_nat len) + initval in hashword_loop k len (s, s, s))"

section \<open>Hashing bytes: three ways to read the key\<close>

definition sh :: "nat \<Rightarrow> byte \<Rightarrow> u32" where
  "sh n b = push_bit n (ucast b)"

text \<open>Native loads on a little-endian machine.\<close>

definition load32 :: "byte list \<Rightarrow> nat \<Rightarrow> u32" where
  "load32 k i = sh 24 (k ! (i + 3)) OR sh 16 (k ! (i + 2)) OR sh 8 (k ! (i + 1)) OR sh 0 (k ! i)"

definition load16 :: "byte list \<Rightarrow> nat \<Rightarrow> u32" where
  "load16 k i = sh 8 (k ! (i + 1)) OR sh 0 (k ! i)"

definition add32_block :: "byte list \<Rightarrow> hstate \<Rightarrow> hstate" where
  "add32_block k s = (case s of (a, b, c) \<Rightarrow> (a + load32 k 0, b + load32 k 4, c + load32 k 8))"

definition add32_last :: "byte list \<Rightarrow> nat \<Rightarrow> hstate \<Rightarrow> hstate" where
  "add32_last k len s = (case s of (a, b, c) \<Rightarrow>
     if len = 12 then (a + load32 k 0, b + load32 k 4, c + load32 k 8)
     else if len \<ge> 8 then
       (let c = (if len \<ge> 11 then c + sh 16 (k ! 10) else c);
            c = (if len \<ge> 10 then c + sh 8 (k ! 9) else c);
            c = (if len \<ge> 9 then c + sh 0 (k ! 8) else c)
        in (a + load32 k 0, b + load32 k 4, c))
     else if len \<ge> 4 then
       (let b = (if len \<ge> 7 then b + sh 16 (k ! 6) else b);
            b = (if len \<ge> 6 then b + sh 8 (k ! 5) else b);
            b = (if len \<ge> 5 then b + sh 0 (k ! 4) else b)
        in (a + load32 k 0, b, c))
     else
       (let a = (if len \<ge> 3 then a + sh 16 (k ! 2) else a);
            a = (if len \<ge> 2 then a + sh 8 (k ! 1) else a);
            a = (if len \<ge> 1 then a + sh 0 (k ! 0) else a)
        in (a, b, c)))"

definition pair16 :: "byte list \<Rightarrow> nat \<Rightarrow> u32" where
  "pair16 k i = load16 k (2 * i) + push_bit 16 (load16 k (2 * i + 2))"

definition add16_block :: "byte list \<Rightarrow> hstate \<Rightarrow> hstate" where
  "add16_block k s = (case s of (a, b, c) \<Rightarrow> (a + pair16 k 0, b + pair16 k 2, c + pair16 k 4))"

definition add16_last :: "byte list \<Rightarrow> nat \<Rightarrow> hstate \<Rightarrow> hstate" where
  "add16_last k len s = (case s of (a, b, c) \<Rightarrow>
     if len = 12 then (a + pair16 k 0, b + pair16 k 2, c + pair16 k 4)
     else if len \<ge> 10 then
       (let c = (if len = 11 then c + sh 16 (k ! 10) else c)
        in (a + pair16 k 0, b + pair16 k 2, c + load16 k 8))
     else if len \<ge> 8 then
       (let c = (if len = 9 then c + sh 0 (k ! 8) else c)
        in (a + pair16 k 0, b + pair16 k 2, c))
     else if len \<ge> 6 then
       (let b = (if len = 7 then b + sh 16 (k ! 6) else b)
        in (a + pair16 k 0, b + load16 k 4, c))
     else if len \<ge> 4 then
       (let b = (if len = 5 then b + sh 0 (k ! 4) else b)
        in (a + pair16 k 0, b, c))
     else if len \<ge> 2 then
       (let a = (if len = 3 then a + sh 16 (k ! 2) else a)
        in (a + load16 k 0, b, c))
     else if len = 1 then (a + sh 0 (k ! 0), b, c)
     else (a, b, c))"

definition add8_block :: "byte list \<Rightarrow> hstate \<Rightarrow> hstate" where
  "add8_block k s = (case s of (a, b, c) \<Rightarrow>
     let a = a + sh 0 (k ! 0); a = a + sh 8 (k ! 1); a = a + sh 16 (k ! 2); a = a + sh 24 (k ! 3);
         b = b + sh 0 (k ! 4); b = b + sh 8 (k ! 5); b = b + sh 16 (k ! 6); b = b + sh 24 (k ! 7);
         c = c + sh 0 (k ! 8); c = c + sh 8 (k ! 9); c = c + sh 16 (k ! 10); c = c + sh 24 (k ! 11)
     in (a, b, c))"

definition add8_last :: "byte list \<Rightarrow> nat \<Rightarrow> hstate \<Rightarrow> hstate" where
  "add8_last k len s = (case s of (a, b, c) \<Rightarrow>
     let c = (if len \<ge> 12 then c + sh 24 (k ! 11) else c);
         c = (if len \<ge> 11 then c + sh 16 (k ! 10) else c);
         c = (if len \<ge> 10 then c + sh 8 (k ! 9) else c);
         c = (if len \<ge> 9 then c + sh 0 (k ! 8) else c);
         b = (if len \<ge> 8 then b + sh 24 (k ! 7) else b);
         b = (if len \<ge> 7 then b + sh 16 (k ! 6) else b);
         b = (if len \<ge> 6 then b + sh 8 (k ! 5) else b);
         b = (if len \<ge> 5 then b + sh 0 (k ! 4) else b);
         a = (if len \<ge> 4 then a + sh 24 (k ! 3) else a);
         a = (if len \<ge> 3 then a + sh 16 (k ! 2) else a);
         a = (if len \<ge> 2 then a + sh 8 (k ! 1) else a);
         a = (if len \<ge> 1 then a + sh 0 (k ! 0) else a)
     in (a, b, c))"

text \<open>The loop over 12-byte blocks, shared in shape by the three paths.\<close>

function hash_blocks ::
    "(byte list \<Rightarrow> hstate \<Rightarrow> hstate) \<Rightarrow> (byte list \<Rightarrow> nat \<Rightarrow> hstate \<Rightarrow> hstate) \<Rightarrow>
     byte list \<Rightarrow> nat \<Rightarrow> hstate \<Rightarrow> u32" where
  "hash_blocks blk lst k len s =
     (if len > 12 then hash_blocks blk lst (drop 12 k) (len - 12) (mix (blk k s))
      else if len = 0 then hash_c s
      else hash_c (final_mix (lst k len s)))"
  by pat_completeness auto
termination by (relation "measure (\<lambda>(blk, lst, k, len, s). len)") auto

declare hash_blocks.simps [simp del]

definition hashlittle ::
    "bool \<Rightarrow> nat \<Rightarrow> u32 \<Rightarrow> byte list \<Rightarrow> nat \<Rightarrow> u32 \<Rightarrow> u32 option" where
  "hashlittle little_endian addr raninit key len initval =
     (let s = raninit + of_nat len + initval in
      if length key < len then None
      else if little_endian \<and> addr mod 4 = 0 then
        Some (hash_blocks add32_block add32_last key len (s, s, s))
      else if little_endian \<and> addr mod 2 = 0 then
        Some (hash_blocks add16_block add16_last key len (s, s, s))
      else Some (hash_blocks add8_block add8_last key len (s, s, s)))"

section \<open>The three paths agree\<close>

lemma sh_or_add8: "sh 8 b OR sh 0 a = sh 0 a + sh 8 b"
proof -
  have "sh 0 a + sh 8 b = sh 0 a OR sh 8 b"
    by (rule disjunctive_add_eq_or)
      (rule bit_word_eqI; auto simp: sh_def bit_simps dest: bit_imp_le_length)
  then show ?thesis by (simp add: or.commute)
qed

lemma sh_or_add:
  "sh 24 d OR sh 16 c OR sh 8 b OR sh 0 a = sh 0 a + sh 8 b + sh 16 c + sh 24 d"
proof -
  have 2: "(sh 8 b OR sh 0 a) + sh 16 c = (sh 8 b OR sh 0 a) OR sh 16 c"
    by (rule disjunctive_add_eq_or)
      (rule bit_word_eqI; auto simp: sh_def bit_simps dest: bit_imp_le_length)
  have 3: "((sh 8 b OR sh 0 a) OR sh 16 c) + sh 24 d = ((sh 8 b OR sh 0 a) OR sh 16 c) OR sh 24 d"
    by (rule disjunctive_add_eq_or)
      (rule bit_word_eqI; auto simp: sh_def bit_simps dest: bit_imp_le_length)
  show ?thesis
    unfolding sh_or_add8 [symmetric] 2 3 by (simp only: or.assoc or.commute or.left_commute)
qed

lemma load16_bytes: "load16 k i = sh 0 (k ! i) + sh 8 (k ! (i + 1))"
  by (simp only: load16_def sh_or_add8)

lemma load32_bytes:
  "load32 k i = sh 0 (k ! i) + sh 8 (k ! (i + 1)) + sh 16 (k ! (i + 2)) + sh 24 (k ! (i + 3))"
  by (simp only: load32_def sh_or_add)

lemma push16_sh: "push_bit 16 (sh 0 a + sh 8 b) = sh 16 a + sh 24 b"
  by (simp add: sh_def push_bit_add)

lemma pair16_bytes:
  "pair16 k i = sh 0 (k ! (2 * i)) + sh 8 (k ! (2 * i + 1))
     + (sh 16 (k ! (2 * i + 2)) + sh 24 (k ! (2 * i + 3)))"
  by (simp add: pair16_def load16_bytes push16_sh numeral_3_eq_3 del: push_bit_add)

lemmas load_bytes = load16_bytes load32_bytes pair16_bytes

lemma add_block_eq: "add32_block k s = add8_block k s" "add16_block k s = add8_block k s"
  by (auto simp: add32_block_def add16_block_def add8_block_def load_bytes Let_def ac_simps numeral_2_eq_2 [symmetric]
      split: prod.splits)

lemma last_block_lengths:
  assumes "(len :: nat) \<le> 12"
  obtains "len = 0" | "len = 1" | "len = 2" | "len = 3" | "len = 4" | "len = 5" | "len = 6"
    | "len = 7" | "len = 8" | "len = 9" | "len = 10" | "len = 11" | "len = 12"
proof -
  have "len = 0 \<or> len = 1 \<or> len = 2 \<or> len = 3 \<or> len = 4 \<or> len = 5 \<or> len = 6
    \<or> len = 7 \<or> len = 8 \<or> len = 9 \<or> len = 10 \<or> len = 11 \<or> len = 12"
    using assms by presburger
  with that show thesis by blast
qed

lemma add32_last_eq: "len \<le> 12 \<Longrightarrow> add32_last k len s = add8_last k len s"
  by (erule last_block_lengths; cases s)
    (simp_all add: add32_last_def add8_last_def load_bytes ac_simps numeral_2_eq_2 [symmetric])

lemma add16_last_eq: "len \<le> 12 \<Longrightarrow> add16_last k len s = add8_last k len s"
  by (erule last_block_lengths; cases s)
    (simp_all add: add16_last_def add8_last_def load_bytes ac_simps numeral_2_eq_2 [symmetric])

lemma hash_blocks_cong:
  assumes blk: "\<And>k s. blk k s = blk' k s"
    and lst: "\<And>k n s. n \<le> 12 \<Longrightarrow> lst k n s = lst' k n s"
  shows "hash_blocks blk lst k len s = hash_blocks blk' lst' k len s"
proof (induction len arbitrary: k s rule: less_induct)
  case (less len)
  show ?case
  proof (cases "len > 12")
    case True
    with less [of "len - 12"] blk show ?thesis
      by (simp add: hash_blocks.simps [of _ _ k len])
  next
    case False
    with lst show ?thesis
      by (simp add: hash_blocks.simps [of _ _ k len])
  qed
qed

section \<open>Mixing loses nothing\<close>

text \<open>One line of \<open>mix\<close>, with the three registers rotated so that every line has the same form.\<close>

definition mix_line :: "nat \<Rightarrow> hstate \<Rightarrow> hstate" where
  "mix_line k s = (case s of (x, y, z) \<Rightarrow> (y, z + y, (x - z) XOR rot z k))"

lemma mix_lines:
  "mix s = mix_line 4 (mix_line 19 (mix_line 16 (mix_line 8 (mix_line 6 (mix_line 4 s)))))"
  by (cases s) (simp only: mix_def mix_line_def Let_def prod.case)

lemma xor_cancel_right: "a XOR r = b XOR r \<Longrightarrow> a = (b :: u32)"
  by (metis xor.assoc xor_self_eq xor.right_neutral)

lemma inj_mix_line: "inj (mix_line k)"
  by (auto simp: inj_def mix_line_def dest: xor_cancel_right)

section \<open>Properties\<close>

text \<open>
  C40. \<open>hashlittle\<close> depends on the bytes of the key only: whatever the alignment of the key and the
  endianness of the machine, the three code paths return the value of the byte-at-a-time path.
\<close>

theorem hashlittle_alignment_independent:
  "hashlittle le addr r key len initval = hashlittle False 0 r key len initval"
proof -
  have 32: "hash_blocks add32_block add32_last key len s = hash_blocks add8_block add8_last key len s"
    for s by (rule hash_blocks_cong) (simp_all add: add_block_eq add32_last_eq)
  have 16: "hash_blocks add16_block add16_last key len s = hash_blocks add8_block add8_last key len s"
    for s by (rule hash_blocks_cong) (simp_all add: add_block_eq add16_last_eq)
  show ?thesis
    by (simp add: hashlittle_def Let_def 32 16)
qed

text \<open>
  \<open>mix\<close> is reversible, as its comment claims: it is a bijection on the three registers, so no
  information of a processed block is lost before \<open>final\<close>.
\<close>

lemma mix_reversible: "bij mix"
proof -
  have m: "mix = mix_line 4 \<circ> mix_line 19 \<circ> mix_line 16 \<circ> mix_line 8 \<circ> mix_line 6 \<circ> mix_line 4"
    by (simp add: fun_eq_iff mix_lines)
  have "inj mix"
    unfolding m by (intro inj_compose inj_mix_line)
  then show ?thesis
    by (simp add: bij_def finite_UNIV_inj_surj)
qed

end
