(* ===== verification/Dname.thy ===== *)
theory Dname
  imports Sbuffer Lookup3
begin

text \<open>
  Domain names in wire format: the functions of \<open>util/data/dname.c\<close>. A \<open>uint8_t*\<close> that is only
  read is the list of bytes from the pointer to the end of the object it points into; a read past
  the end fails. A pointer that the code compares with the end of the packet is an offset. Both
  \<open>assert\<close> and \<open>log_assert\<close> are failures when violated. Results of type \<open>int\<close> that are \<open>-1\<close>, \<open>0\<close>,
  \<open>1\<close> are integers; results used as truth values are booleans.
\<close>

section \<open>Constants and reading\<close>

abbreviation LDNS_MAX_DOMAINLEN :: nat where "LDNS_MAX_DOMAINLEN \<equiv> 255"
abbreviation LDNS_MAX_LABELLEN :: nat where "LDNS_MAX_LABELLEN \<equiv> 63"
abbreviation MAX_COMPRESS_PTRS :: nat where "MAX_COMPRESS_PTRS \<equiv> 256"

definition LABEL_IS_PTR :: "byte \<Rightarrow> bool" where
  "LABEL_IS_PTR x \<longleftrightarrow> x AND 0xc0 = 0xc0"

definition PTR_OFFSET :: "byte \<Rightarrow> byte \<Rightarrow> u16" where
  "PTR_OFFSET x y = push_bit 8 (ucast (x AND 0x3f)) OR ucast y"

text \<open>\<open>*p++\<close>: the byte and the advanced pointer.\<close>

fun rd1 :: "byte list \<Rightarrow> (byte \<times> byte list) option" where
  "rd1 [] = None"
| "rd1 (b # p) = Some (b, p)"

lemma rd1_Some [simp]: "rd1 d = Some (b, p) \<longleftrightarrow> d = b # p"
  by (cases d) auto

lemma rd1_drop_less [simp]: "rd1 (drop n d) = Some (b, p) \<Longrightarrow> length p < length d"
proof -
  assume "rd1 (drop n d) = Some (b, p)"
  then have "length (drop n d) = Suc (length p)" by simp
  then show "length p < length d" by simp
qed

section \<open>Uncompressed names in a query\<close>

function query_dname_len_loop :: "sldns_buffer \<Rightarrow> nat \<Rightarrow> (nat \<times> sldns_buffer) option" where
  "query_dname_len_loop query len = do {
     r \<leftarrow> sldns_buffer_remaining query;
     if r < 1 then Some (0, query) else do {
       (labellen, query) \<leftarrow> sldns_buffer_read_u8 query;
       if labellen AND 0xc0 \<noteq> 0 then Some (0, query)
       else let len = len + unat labellen + 1 in
       if len > LDNS_MAX_DOMAINLEN then Some (0, query)
       else if labellen = 0 then Some (len, query)
       else do {
         r \<leftarrow> sldns_buffer_remaining query;
         if r < unat labellen then Some (0, query) else do {
           query \<leftarrow> sldns_buffer_skip query (int (unat labellen));
           query_dname_len_loop query len } } } }"
  by pat_completeness auto
termination by (relation "measure (\<lambda>(query, len). 256 - len)") auto

definition query_dname_len :: "sldns_buffer \<Rightarrow> (nat \<times> sldns_buffer) option" where
  "query_dname_len query = query_dname_len_loop query 0"

function dname_valid_loop :: "byte \<Rightarrow> byte list \<Rightarrow> nat \<Rightarrow> nat \<Rightarrow> nat option" where
  "dname_valid_loop labellen dname len maxlen =
     (if labellen \<noteq> 0 then
        if labellen AND 0xc0 \<noteq> 0 then Some 0
        else let len = len + unat labellen + 1 in
        if len \<ge> LDNS_MAX_DOMAINLEN then Some 0
        else if len > maxlen then Some 0
        else do {
          (labellen', dname) \<leftarrow> rd1 (drop (unat labellen) dname);
          dname_valid_loop labellen' dname len maxlen }
      else let len = len + 1 in
        if len > maxlen then Some 0 else Some len)"
  by pat_completeness auto
termination by (relation "measure (\<lambda>(labellen, dname, len, maxlen). 256 - len)") auto

definition dname_valid :: "byte list \<Rightarrow> nat \<Rightarrow> nat option" where
  "dname_valid dname maxlen =
     (if maxlen = 0 then Some 0
      else do { (labellen, dname) \<leftarrow> rd1 dname; dname_valid_loop labellen dname 0 maxlen })"

section \<open>Comparing and lower-casing\<close>

fun memlowercmp :: "byte list \<Rightarrow> byte list \<Rightarrow> nat \<Rightarrow> int option" where
  "memlowercmp p1 p2 0 = Some 0"
| "memlowercmp p1 p2 (Suc len) = do {
     (b1, p1) \<leftarrow> rd1 p1; (b2, p2) \<leftarrow> rd1 p2;
     if b1 \<noteq> b2 \<and> c_tolower b1 \<noteq> c_tolower b2
     then Some (if c_tolower b1 < c_tolower b2 then -1 else 1)
     else memlowercmp p1 p2 len }"

function query_dname_compare_loop ::
    "byte \<Rightarrow> byte list \<Rightarrow> byte \<Rightarrow> byte list \<Rightarrow> int option" where
  "query_dname_compare_loop lab1 d1 lab2 d2 =
     (if lab1 \<noteq> 0 \<or> lab2 \<noteq> 0 then
        if lab1 \<noteq> lab2 then Some (if lab1 < lab2 then -1 else 1)
        else do {
          c \<leftarrow> memlowercmp d1 d2 (unat lab1);
          if c \<noteq> 0 then Some c
          else do {
            (lab1', d1') \<leftarrow> rd1 (drop (unat lab1) d1);
            (lab2', d2') \<leftarrow> rd1 (drop (unat lab1) d2);
            query_dname_compare_loop lab1' d1' lab2' d2' } }
      else Some 0)"
  by pat_completeness auto
termination
  by (relation "measure (\<lambda>(lab1, d1, lab2, d2). length d1)") (auto simp del: rd1_Some dest: rd1_drop_less)

definition query_dname_compare :: "byte list \<Rightarrow> byte list \<Rightarrow> int option" where
  "query_dname_compare d1 d2 = do {
     (lab1, d1) \<leftarrow> rd1 d1; (lab2, d2) \<leftarrow> rd1 d2;
     query_dname_compare_loop lab1 d1 lab2 d2 }"

text \<open>The memory from the pointer on, after lower-casing in place.\<close>

function query_dname_tolower :: "byte list \<Rightarrow> byte list option" where
  "query_dname_tolower dname = do {
     (labellen, p) \<leftarrow> rd1 dname;
     if labellen = 0 then Some dname
     else do {
       bs \<leftarrow> peek_bytes p 0 (unat labellen);
       r \<leftarrow> query_dname_tolower (drop (unat labellen) p);
       Some (labellen # map c_tolower bs @ r) } }"
  by pat_completeness auto
termination by (relation "measure length") auto

text \<open>
  The packet bytes after lower-casing the name at offset \<open>off\<close>; \<open>limit\<close> is the buffer's limit.
\<close>

function pkt_dname_tolower_loop ::
    "byte list \<Rightarrow> nat \<Rightarrow> byte \<Rightarrow> nat \<Rightarrow> nat \<Rightarrow> byte list option" where
  "pkt_dname_tolower_loop mem limit lablen off count =
     (if lablen = 0 then Some mem
      else if LABEL_IS_PTR lablen then do {
        b \<leftarrow> peek8 mem off;
        if unat (PTR_OFFSET lablen b) \<ge> limit then Some mem
        else do {
          lablen' \<leftarrow> peek8 mem (unat (PTR_OFFSET lablen b));
          if count > MAX_COMPRESS_PTRS then Some mem
          else pkt_dname_tolower_loop mem limit lablen' (unat (PTR_OFFSET lablen b) + 1)
                 (count + 1) } }
      else if off + unat lablen \<ge> limit then Some mem
      else do {
        bs \<leftarrow> peek_bytes mem off (unat lablen);
        mem' \<leftarrow> poke_bytes mem off (map c_tolower bs);
        lablen' \<leftarrow> peek8 mem' (off + unat lablen);
        pkt_dname_tolower_loop mem' limit lablen' (off + unat lablen + 1) count })"
  by pat_completeness auto
termination
  by (relation "measures [\<lambda>(mem, limit, lablen, off, count). 258 - count,
        \<lambda>(mem, limit, lablen, off, count). limit - off]") auto

definition pkt_dname_tolower :: "sldns_buffer \<Rightarrow> nat \<Rightarrow> sldns_buffer option" where
  "pkt_dname_tolower pkt off =
     (if off \<ge> sldns_buffer_limit pkt then Some pkt
      else do {
        lablen \<leftarrow> peek8 (buf_mem pkt) off;
        mem \<leftarrow> pkt_dname_tolower_loop (buf_mem pkt) (sldns_buffer_limit pkt) lablen (off + 1) 0;
        Some (pkt\<lparr>buf_data := Some mem\<rparr>) })"

section \<open>Compressed names in a packet\<close>

function pkt_dname_len_loop ::
    "sldns_buffer \<Rightarrow> nat \<Rightarrow> nat \<Rightarrow> nat \<Rightarrow> (nat \<times> sldns_buffer) option" where
  "pkt_dname_len_loop pkt len ptrcount endpos = do {
     r \<leftarrow> sldns_buffer_remaining pkt;
     if r < 1 then Some (0, pkt) else do {
       (labellen, pkt) \<leftarrow> sldns_buffer_read_u8 pkt;
       if LABEL_IS_PTR labellen then do {
         r \<leftarrow> sldns_buffer_remaining pkt;
         if r < 1 then Some (0, pkt) else do {
           (b, pkt) \<leftarrow> sldns_buffer_read_u8 pkt;
           if ptrcount > MAX_COMPRESS_PTRS then Some (0, pkt)
           else if sldns_buffer_limit pkt \<le> unat (PTR_OFFSET labellen b) then Some (0, pkt)
           else let endpos = (if endpos = 0 then sldns_buffer_position pkt else endpos) in do {
             pkt \<leftarrow> sldns_buffer_set_position pkt (unat (PTR_OFFSET labellen b));
             pkt_dname_len_loop pkt len (ptrcount + 1) endpos } } }
       else if unat labellen > 0x3f then Some (0, pkt)
       else let len = len + 1 + unat labellen in
       if len > LDNS_MAX_DOMAINLEN then Some (0, pkt)
       else if labellen = 0 then
         (if endpos \<noteq> 0 then do {
            pkt \<leftarrow> sldns_buffer_set_position pkt endpos; Some (len, pkt) }
          else Some (len, pkt))
       else do {
         r \<leftarrow> sldns_buffer_remaining pkt;
         if r < unat labellen then Some (0, pkt) else do {
           pkt \<leftarrow> sldns_buffer_skip pkt (int (unat labellen));
           pkt_dname_len_loop pkt len ptrcount endpos } } } }"
  by pat_completeness auto
termination
  by (relation "measure (\<lambda>(pkt, len, ptrcount, endpos). (258 - ptrcount) + (256 - len))") auto

definition pkt_dname_len :: "sldns_buffer \<Rightarrow> (nat \<times> sldns_buffer) option" where
  "pkt_dname_len pkt = pkt_dname_len_loop pkt 0 0 0"

text \<open>
  The names may be anywhere; only the targets of compression pointers are in the packet.
\<close>

function dname_pkt_compare_loop ::
    "sldns_buffer \<Rightarrow> byte \<Rightarrow> byte list \<Rightarrow> nat \<Rightarrow> byte \<Rightarrow> byte list \<Rightarrow> nat \<Rightarrow> int option" where
  "dname_pkt_compare_loop pkt len1 d1 count1 len2 d2 count2 =
     (if len1 \<noteq> 0 \<or> len2 \<noteq> 0 then
        if LABEL_IS_PTR len1 then do {
          (b, _) \<leftarrow> rd1 d1;
          if unat (PTR_OFFSET len1 b) \<ge> sldns_buffer_limit pkt then Some (-1)
          else if count1 > MAX_COMPRESS_PTRS then Some (-1)
          else do {
            p \<leftarrow> sldns_buffer_at pkt (unat (PTR_OFFSET len1 b));
            (len1', d1') \<leftarrow> rd1 p;
            dname_pkt_compare_loop pkt len1' d1' (count1 + 1) len2 d2 count2 } }
        else if LABEL_IS_PTR len2 then do {
          (b, _) \<leftarrow> rd1 d2;
          if unat (PTR_OFFSET len2 b) \<ge> sldns_buffer_limit pkt then Some 1
          else if count2 > MAX_COMPRESS_PTRS then Some 1
          else do {
            p \<leftarrow> sldns_buffer_at pkt (unat (PTR_OFFSET len2 b));
            (len2', d2') \<leftarrow> rd1 p;
            dname_pkt_compare_loop pkt len1 d1 count1 len2' d2' (count2 + 1) } }
        else do {
          c_assert (unat len1 \<le> LDNS_MAX_LABELLEN);
          c_assert (unat len2 \<le> LDNS_MAX_LABELLEN);
          if len1 \<noteq> len2 then Some (if len1 < len2 then -1 else 1)
          else do {
            c \<leftarrow> memlowercmp d1 d2 (unat len1);
            if c \<noteq> 0 then Some c
            else do {
              (len1', d1') \<leftarrow> rd1 (drop (unat len1) d1);
              (len2', d2') \<leftarrow> rd1 (drop (unat len1) d2);
              dname_pkt_compare_loop pkt len1' d1' count1 len2' d2' count2 } } }
      else Some 0)"
  by pat_completeness auto
termination
  by (relation "measures [\<lambda>(pkt, len1, d1, count1, len2, d2, count2). (258 - count1) + (258 - count2),
        \<lambda>(pkt, len1, d1, count1, len2, d2, count2). length d1]")
    (auto simp del: rd1_Some dest: rd1_drop_less)

definition dname_pkt_compare :: "sldns_buffer \<Rightarrow> byte list \<Rightarrow> byte list \<Rightarrow> int option" where
  "dname_pkt_compare pkt d1 d2 = do {
     (len1, d1) \<leftarrow> rd1 d1; (len2, d2) \<leftarrow> rd1 d2;
     dname_pkt_compare_loop pkt len1 d1 0 len2 d2 0 }"

text \<open>
  Hashing label by label. The first three arguments are those of \<open>hashlittle\<close>: endianness, the
  address of the label buffer, the random initial value.
\<close>

function dname_query_hash_loop ::
    "bool \<Rightarrow> nat \<Rightarrow> u32 \<Rightarrow> byte \<Rightarrow> byte list \<Rightarrow> u32 \<Rightarrow> u32 option" where
  "dname_query_hash_loop le labuf_addr raninit lablen dname h =
     (if lablen \<noteq> 0 then do {
        c_assert (unat lablen \<le> LDNS_MAX_LABELLEN);
        bs \<leftarrow> peek_bytes dname 0 (unat lablen);
        h \<leftarrow> hashlittle le labuf_addr raninit (lablen # map c_tolower bs) (unat lablen + 1) h;
        (lablen', dname') \<leftarrow> rd1 (drop (unat lablen) dname);
        dname_query_hash_loop le labuf_addr raninit lablen' dname' h }
      else Some h)"
  by pat_completeness auto
termination
  by (relation "measure (\<lambda>(le, labuf_addr, raninit, lablen, dname, h). length dname)")
    (auto simp del: rd1_Some dest: rd1_drop_less)

definition dname_query_hash ::
    "bool \<Rightarrow> nat \<Rightarrow> u32 \<Rightarrow> byte list \<Rightarrow> u32 \<Rightarrow> u32 option" where
  "dname_query_hash le labuf_addr raninit dname h = do {
     (lablen, dname) \<leftarrow> rd1 dname;
     dname_query_hash_loop le labuf_addr raninit lablen dname h }"

function dname_pkt_hash_loop ::
    "bool \<Rightarrow> nat \<Rightarrow> u32 \<Rightarrow> sldns_buffer \<Rightarrow> byte \<Rightarrow> byte list \<Rightarrow> nat \<Rightarrow> u32 \<Rightarrow> u32 option" where
  "dname_pkt_hash_loop le labuf_addr raninit pkt lablen dname count h =
     (if lablen \<noteq> 0 then
        if LABEL_IS_PTR lablen then do {
          (b, _) \<leftarrow> rd1 dname;
          if unat (PTR_OFFSET lablen b) \<ge> sldns_buffer_limit pkt then Some h
          else if count > MAX_COMPRESS_PTRS then Some h
          else do {
            p \<leftarrow> sldns_buffer_at pkt (unat (PTR_OFFSET lablen b));
            (lablen', dname') \<leftarrow> rd1 p;
            dname_pkt_hash_loop le labuf_addr raninit pkt lablen' dname' (count + 1) h } }
        else do {
          c_assert (unat lablen \<le> LDNS_MAX_LABELLEN);
          bs \<leftarrow> peek_bytes dname 0 (unat lablen);
          h \<leftarrow> hashlittle le labuf_addr raninit (lablen # map c_tolower bs) (unat lablen + 1) h;
          (lablen', dname') \<leftarrow> rd1 (drop (unat lablen) dname);
          dname_pkt_hash_loop le labuf_addr raninit pkt lablen' dname' count h }
      else Some h)"
  by pat_completeness auto
termination
  by (relation "measures [\<lambda>(le, labuf_addr, raninit, pkt, lablen, dname, count, h). 258 - count,
        \<lambda>(le, labuf_addr, raninit, pkt, lablen, dname, count, h). length dname]")
    (auto simp del: rd1_Some dest: rd1_drop_less)

definition dname_pkt_hash ::
    "bool \<Rightarrow> nat \<Rightarrow> u32 \<Rightarrow> sldns_buffer \<Rightarrow> byte list \<Rightarrow> u32 \<Rightarrow> u32 option" where
  "dname_pkt_hash le labuf_addr raninit pkt dname h = do {
     (lablen, dname) \<leftarrow> rd1 dname;
     dname_pkt_hash_loop le labuf_addr raninit pkt lablen dname 0 h }"

text \<open>The bytes that \<open>dname_pkt_copy\<close> stores at \<open>to\<close>, in order.\<close>

function dname_pkt_copy_loop ::
    "sldns_buffer \<Rightarrow> byte \<Rightarrow> byte list \<Rightarrow> nat \<Rightarrow> nat \<Rightarrow> byte list \<Rightarrow> byte list option" where
  "dname_pkt_copy_loop pkt lablen dname comprcount len out =
     (if lablen \<noteq> 0 then
        if LABEL_IS_PTR lablen then
          if comprcount > MAX_COMPRESS_PTRS then Some (out @ [0])
          else do {
            (b, _) \<leftarrow> rd1 dname;
            if unat (PTR_OFFSET lablen b) \<ge> sldns_buffer_limit pkt then Some out
            else do {
              p \<leftarrow> sldns_buffer_at pkt (unat (PTR_OFFSET lablen b));
              (lablen', dname') \<leftarrow> rd1 p;
              dname_pkt_copy_loop pkt lablen' dname' (comprcount + 1) len out } }
        else if unat lablen > LDNS_MAX_LABELLEN then Some (out @ [0])
        else let len = len + unat lablen + 1 in
        if len \<ge> LDNS_MAX_DOMAINLEN then Some (out @ [0])
        else do {
          bs \<leftarrow> peek_bytes dname 0 (unat lablen);
          (lablen', dname') \<leftarrow> rd1 (drop (unat lablen) dname);
          dname_pkt_copy_loop pkt lablen' dname' comprcount len (out @ lablen # bs) }
      else Some (out @ [0]))"
  by pat_completeness auto
termination
  by (relation "measure (\<lambda>(pkt, lablen, dname, comprcount, len, out). (258 - comprcount) + (256 - len))")
    auto

definition dname_pkt_copy :: "sldns_buffer \<Rightarrow> byte list \<Rightarrow> byte list option" where
  "dname_pkt_copy pkt dname = do {
     (lablen, dname) \<leftarrow> rd1 dname; dname_pkt_copy_loop pkt lablen dname 0 0 [] }"

text \<open>The characters that \<open>dname_print\<close> writes; the packet may be a null pointer.\<close>

definition ascii_bytes :: "string \<Rightarrow> byte list" where
  "ascii_bytes s = map (\<lambda>c. of_nat (of_char c)) s"

function dname_print_loop ::
    "sldns_buffer option \<Rightarrow> byte \<Rightarrow> byte list \<Rightarrow> nat \<Rightarrow> byte list \<Rightarrow> byte list option" where
  "dname_print_loop pktp lablen dname count out =
     (if lablen \<noteq> 0 then
        if LABEL_IS_PTR lablen then
          (case pktp of
             None \<Rightarrow> Some (out @ ascii_bytes ''??compressionptr??'')
           | Some pkt \<Rightarrow> do {
               (b, _) \<leftarrow> rd1 dname;
               if unat (PTR_OFFSET lablen b) \<ge> sldns_buffer_limit pkt
               then Some (out @ ascii_bytes ''??compressionptr??'')
               else if count > MAX_COMPRESS_PTRS
               then Some (out @ ascii_bytes ''??compressionptr??'')
               else do {
                 p \<leftarrow> sldns_buffer_at pkt (unat (PTR_OFFSET lablen b));
                 (lablen', dname') \<leftarrow> rd1 p;
                 dname_print_loop pktp lablen' dname' (count + 1) out } })
        else if unat lablen > LDNS_MAX_LABELLEN then Some (out @ ascii_bytes ''??extendedlabel??'')
        else do {
          bs \<leftarrow> peek_bytes dname 0 (unat lablen);
          (lablen', dname') \<leftarrow> rd1 (drop (unat lablen) dname);
          dname_print_loop pktp lablen' dname' count (out @ bs @ ascii_bytes ''.'') }
      else Some out)"
  by pat_completeness auto
termination
  by (relation "measures [\<lambda>(pktp, lablen, dname, count, out). 258 - count,
        \<lambda>(pktp, lablen, dname, count, out). length dname]")
    (auto simp del: rd1_Some dest: rd1_drop_less)

definition dname_print :: "sldns_buffer option \<Rightarrow> byte list option \<Rightarrow> byte list option" where
  "dname_print pktp dnamep =
     (case dnamep of None \<Rightarrow> Some []
      | Some dname \<Rightarrow> do {
          (lablen, dname) \<leftarrow> rd1 dname;
          dname_print_loop pktp lablen dname 0 (if lablen = 0 then ascii_bytes ''.'' else []) })"

section \<open>Labels\<close>

function dname_count_labels_loop :: "byte \<Rightarrow> byte list \<Rightarrow> nat \<Rightarrow> nat option" where
  "dname_count_labels_loop lablen dname labs =
     (if lablen \<noteq> 0 then do {
        (lablen', dname') \<leftarrow> rd1 (drop (unat lablen) dname);
        dname_count_labels_loop lablen' dname' (labs + 1) }
      else Some labs)"
  by pat_completeness auto
termination
  by (relation "measure (\<lambda>(lablen, dname, labs). length dname)")
    (auto simp del: rd1_Some dest: rd1_drop_less)

definition dname_count_labels :: "byte list \<Rightarrow> nat option" where
  "dname_count_labels dname = do {
     (lablen, dname) \<leftarrow> rd1 dname; dname_count_labels_loop lablen dname 1 }"

function dname_count_size_labels_loop ::
    "byte \<Rightarrow> byte list \<Rightarrow> nat \<Rightarrow> nat \<Rightarrow> (nat \<times> nat) option" where
  "dname_count_size_labels_loop lablen dname labs sz =
     (if lablen \<noteq> 0 then do {
        (lablen', dname') \<leftarrow> rd1 (drop (unat lablen) dname);
        dname_count_size_labels_loop lablen' dname' (labs + 1) (sz + unat lablen + 1) }
      else Some (labs, sz))"
  by pat_completeness auto
termination
  by (relation "measure (\<lambda>(lablen, dname, labs, sz). length dname)")
    (auto simp del: rd1_Some dest: rd1_drop_less)

text \<open>The label count and the size stored through the pointer argument.\<close>

definition dname_count_size_labels :: "byte list \<Rightarrow> (nat \<times> nat) option" where
  "dname_count_size_labels dname = do {
     (lablen, dname) \<leftarrow> rd1 dname; dname_count_size_labels_loop lablen dname 1 1 }"

text \<open>The loop that moves a pointer over \<open>n\<close> labels.\<close>

fun skip_labels :: "nat \<Rightarrow> byte list \<Rightarrow> byte list option" where
  "skip_labels 0 d = Some d"
| "skip_labels (Suc n) d = do { (len, d) \<leftarrow> rd1 d; skip_labels n (drop (unat len) d) }"

text \<open>
  The comparison loop, from label number \<open>atlabel\<close> down to the root label: the last difference
  and the label number it was found at.
\<close>

fun dname_lab_cmp_loop ::
    "nat \<Rightarrow> byte list \<Rightarrow> byte list \<Rightarrow> int \<Rightarrow> nat \<Rightarrow> (int \<times> nat) option" where
  "dname_lab_cmp_loop (Suc (Suc n)) d1 d2 lastdiff lastmlabs = do {
     (len1, d1) \<leftarrow> rd1 d1; (len2, d2) \<leftarrow> rd1 d2;
     if len1 \<noteq> len2 then do {
       c_assert (len1 \<noteq> 0 \<and> len2 \<noteq> 0);
       dname_lab_cmp_loop (Suc n) (drop (unat len1) d1) (drop (unat len2) d2)
         (if len1 < len2 then -1 else 1) (Suc (Suc n)) }
     else do {
       c \<leftarrow> memlowercmp d1 d2 (unat len1);
       if c \<noteq> 0 then
         dname_lab_cmp_loop (Suc n) (drop (unat len1) d1) (drop (unat len1) d2) c (Suc (Suc n))
       else
         dname_lab_cmp_loop (Suc n) (drop (unat len1) d1) (drop (unat len1) d2)
           lastdiff lastmlabs } }"
| "dname_lab_cmp_loop atlabel d1 d2 lastdiff lastmlabs = Some (lastdiff, lastmlabs)"

text \<open>
  The code around that loop, which \<open>dname_lab_cmp\<close> and \<open>dname_canon_lab_cmp\<close> have in common: skip
  the labels only one name has, run the loop from the root side's label number, then let the number
  of labels decide when no label differs.
\<close>

definition lab_cmp_frame ::
    "(nat \<Rightarrow> byte list \<Rightarrow> byte list \<Rightarrow> int \<Rightarrow> nat \<Rightarrow> (int \<times> nat) option) \<Rightarrow>
     byte list \<Rightarrow> nat \<Rightarrow> byte list \<Rightarrow> nat \<Rightarrow> (int \<times> nat) option" where
  "lab_cmp_frame cmp_loop d1 labs1 d2 labs2 = do {
     d1 \<leftarrow> (if labs1 > labs2 then skip_labels (labs1 - labs2) d1 else Some d1);
     d2 \<leftarrow> (if labs1 < labs2 then skip_labels (labs2 - labs1) d2 else Some d2);
     let atlabel = min labs1 labs2;
     (lastdiff, lastmlabs) \<leftarrow> cmp_loop atlabel d1 d2 0 (atlabel + 1);
     let mlabs = lastmlabs - 1;
     if lastdiff = 0 then
       if labs1 > labs2 then Some (1, mlabs)
       else if labs1 < labs2 then Some (-1, mlabs)
       else Some (lastdiff, mlabs)
     else Some (lastdiff, mlabs) }"

definition dname_lab_cmp ::
    "byte list \<Rightarrow> nat \<Rightarrow> byte list \<Rightarrow> nat \<Rightarrow> (int \<times> nat) option" where
  "dname_lab_cmp d1 labs1 d2 labs2 = lab_cmp_frame dname_lab_cmp_loop d1 labs1 d2 labs2"

text \<open>
  \<open>Some None\<close> is the result 0; \<open>Some (Some e)\<close> is the result 1 with the end pointer \<open>e\<close>. The
  prefix has type \<open>char*\<close>, which is signed, and is compared with the unsigned lower-cased byte.
\<close>

fun lab_startswith_loop :: "byte list \<Rightarrow> byte list \<Rightarrow> nat \<Rightarrow> byte list option option" where
  "lab_startswith_loop label prefix 0 = Some (Some label)"
| "lab_startswith_loop label prefix (Suc plen) = do {
     (p, prefix) \<leftarrow> rd1 prefix; (l, label) \<leftarrow> rd1 label;
     if sint p \<noteq> int (unat (c_tolower l)) then Some None
     else lab_startswith_loop label prefix plen }"

definition dname_lab_startswith ::
    "byte list \<Rightarrow> byte list \<Rightarrow> byte list option option option" where
  "dname_lab_startswith label prefix = do {
     plen \<leftarrow> c_strlen prefix;
     (lablen, label) \<leftarrow> rd1 label;
     if plen > unat lablen then Some None
     else do {
       r \<leftarrow> lab_startswith_loop label prefix plen;
       (case r of None \<Rightarrow> Some None
        | Some rest \<Rightarrow> Some (Some (if plen < unat lablen then Some rest else None))) } }"

function dname_has_label_loop :: "byte list \<Rightarrow> nat \<Rightarrow> byte list \<Rightarrow> nat \<Rightarrow> bool option" where
  "dname_has_label_loop dname dnamelen label len =
     (if len \<le> dnamelen then do {
        (l, p) \<leftarrow> rd1 dname;
        (m, q) \<leftarrow> rd1 label;
        if l = 0 then Some (l = m)
        else do {
          found \<leftarrow> (if l = m \<and> m \<noteq> 0
                     then map_option (\<lambda>c. c = 0) (memlowercmp p q (unat l)) else Some False);
          if found then Some True
          else dname_has_label_loop (drop (unat l) p) dnamelen label (len + unat l + 1) } }
      else Some False)"
  by pat_completeness auto
termination
  by (relation "measure (\<lambda>(dname, dnamelen, label, len). Suc dnamelen - len)") auto

definition dname_has_label :: "byte list \<Rightarrow> nat \<Rightarrow> byte list \<Rightarrow> bool option" where
  "dname_has_label dname dnamelen label =
     (if dnamelen < 1 then Some False
      else do { (l, _) \<leftarrow> rd1 dname; dname_has_label_loop dname dnamelen label (unat l) })"

function dname_buffer_write_loop ::
    "sldns_buffer \<Rightarrow> byte \<Rightarrow> byte list \<Rightarrow> (bool \<times> sldns_buffer) option" where
  "dname_buffer_write_loop pkt lablen dname =
     (if lablen \<noteq> 0 then do {
        r \<leftarrow> sldns_buffer_remaining pkt;
        if r < unat lablen + 1 then Some (False, pkt)
        else do {
          pkt \<leftarrow> sldns_buffer_write pkt dname (unat lablen);
          (lablen', dname') \<leftarrow> rd1 (drop (unat lablen) dname);
          pkt \<leftarrow> sldns_buffer_write_u8 pkt lablen';
          dname_buffer_write_loop pkt lablen' dname' } }
      else Some (True, pkt))"
  by pat_completeness auto
termination
  by (relation "measure (\<lambda>(pkt, lablen, dname). length dname)")
    (auto simp del: rd1_Some dest: rd1_drop_less)

definition dname_buffer_write ::
    "sldns_buffer \<Rightarrow> byte list \<Rightarrow> (bool \<times> sldns_buffer) option" where
  "dname_buffer_write pkt dname = do {
     r \<leftarrow> sldns_buffer_remaining pkt;
     if r < 1 then Some (False, pkt)
     else do {
       (lablen, dname) \<leftarrow> rd1 dname;
       pkt \<leftarrow> sldns_buffer_write_u8 pkt lablen;
       dname_buffer_write_loop pkt lablen dname } }"

text \<open>The characters stored by \<open>dname_str\<close>, the terminating NUL included.\<close>

definition str_char :: "byte \<Rightarrow> byte" where
  "str_char b = (if c_isalnum b \<or> b = 45 \<or> b = 95 \<or> b = 42 then b else 63)"

function dname_str_loop :: "byte \<Rightarrow> byte list \<Rightarrow> nat \<Rightarrow> byte list \<Rightarrow> byte list option" where
  "dname_str_loop lablen dname len out =
     (if lablen \<noteq> 0 then
        if unat lablen > LDNS_MAX_LABELLEN then Some (out @ ascii_bytes ''#'' @ [0])
        else let len = len + unat lablen + 1 in
        if len \<ge> LDNS_MAX_DOMAINLEN - 1 then Some (out @ ascii_bytes ''&'' @ [0])
        else do {
          bs \<leftarrow> peek_bytes dname 0 (unat lablen);
          (lablen', dname') \<leftarrow> rd1 (drop (unat lablen) dname);
          dname_str_loop lablen' dname' len (out @ map str_char bs @ ascii_bytes ''.'') }
      else Some (out @ [0]))"
  by pat_completeness auto
termination by (relation "measure (\<lambda>(lablen, dname, len, out). 256 - len)") auto

definition dname_str :: "byte list option \<Rightarrow> byte list option" where
  "dname_str dnamep =
     (case dnamep of None \<Rightarrow> Some (ascii_bytes ''.'' @ [0])
      | Some dname \<Rightarrow> do {
          (lablen, dname) \<leftarrow> rd1 dname;
          if lablen = 0 then Some (ascii_bytes ''.'' @ [0])
          else dname_str_loop lablen dname 0 [] })"

section \<open>Subdomains, wildcards, canonical order\<close>

definition dname_strict_subdomain ::
    "byte list \<Rightarrow> nat \<Rightarrow> byte list \<Rightarrow> nat \<Rightarrow> bool option" where
  "dname_strict_subdomain d1 labs1 d2 labs2 =
     (if labs2 \<ge> labs1 then Some False
      else do {
        (c, m) \<leftarrow> dname_lab_cmp d1 labs1 d2 labs2;
        if c > 0 then Some (m = labs2) else Some False })"

definition dname_strict_subdomain_c :: "byte list \<Rightarrow> byte list \<Rightarrow> bool option" where
  "dname_strict_subdomain_c d1 d2 = do {
     labs1 \<leftarrow> dname_count_labels d1; labs2 \<leftarrow> dname_count_labels d2;
     dname_strict_subdomain d1 labs1 d2 labs2 }"

definition dname_subdomain_c :: "byte list \<Rightarrow> byte list \<Rightarrow> bool option" where
  "dname_subdomain_c d1 d2 = do {
     labs1 \<leftarrow> dname_count_labels d1;
     labs2 \<leftarrow> dname_count_labels d2;
     if labs2 > labs1 then Some False
     else do {
       (c, m) \<leftarrow> dname_lab_cmp d1 labs1 d2 labs2;
       if c < 0 then Some False else Some (m = labs2) } }"

definition dname_is_root :: "byte list \<Rightarrow> bool option" where
  "dname_is_root dname = do {
     (len, _) \<leftarrow> rd1 dname; c_assert (\<not> LABEL_IS_PTR len); Some (len = 0) }"

definition dname_remove_label :: "byte list \<Rightarrow> nat \<Rightarrow> (byte list \<times> nat) option" where
  "dname_remove_label dname len = do {
     (lablen, p) \<leftarrow> rd1 dname;
     c_assert (\<not> LABEL_IS_PTR lablen);
     c_assert (len > unat lablen);
     if lablen = 0 then Some (dname, len)
     else Some (drop (unat lablen) p, len - (unat lablen + 1)) }"

fun dname_remove_labels :: "byte list \<Rightarrow> nat \<Rightarrow> nat \<Rightarrow> (byte list \<times> nat) option" where
  "dname_remove_labels dname len 0 = Some (dname, len)"
| "dname_remove_labels dname len (Suc n) = do {
     (dname, len) \<leftarrow> dname_remove_label dname len; dname_remove_labels dname len n }"

function signame_label_count_loop :: "byte list \<Rightarrow> nat \<Rightarrow> nat option" where
  "signame_label_count_loop dname count = do {
     (lablen, p) \<leftarrow> rd1 dname;
     if lablen \<noteq> 0 then signame_label_count_loop (drop (unat lablen) p) (count + 1)
     else Some count }"
  by pat_completeness auto
termination by (relation "measure (\<lambda>(dname, count). length dname)") auto

definition dname_is_wild :: "byte list \<Rightarrow> bool option" where
  "dname_is_wild dname = do {
     (b0, p) \<leftarrow> rd1 dname;
     if b0 = 1 then do { (b1, _) \<leftarrow> rd1 p; Some (b1 = 42) } else Some False }"

definition dname_signame_label_count :: "byte list \<Rightarrow> nat option" where
  "dname_signame_label_count dname = do {
     (b0, _) \<leftarrow> rd1 dname;
     if b0 = 0 then Some 0
     else do {
       wild \<leftarrow> dname_is_wild dname;
       signame_label_count_loop (if wild then drop 2 dname else dname) 0 } }"

definition memcanoncmp :: "byte list \<Rightarrow> byte \<Rightarrow> byte list \<Rightarrow> byte \<Rightarrow> int option" where
  "memcanoncmp p1 len1 p2 len2 = do {
     c \<leftarrow> memlowercmp p1 p2 (unat (if len1 < len2 then len1 else len2));
     if c \<noteq> 0 then Some c
     else if len1 < len2 then Some (-1)
     else if len1 > len2 then Some 1
     else Some 0 }"

fun dname_canon_lab_cmp_loop ::
    "nat \<Rightarrow> byte list \<Rightarrow> byte list \<Rightarrow> int \<Rightarrow> nat \<Rightarrow> (int \<times> nat) option" where
  "dname_canon_lab_cmp_loop (Suc (Suc n)) d1 d2 lastdiff lastmlabs = do {
     (len1, d1) \<leftarrow> rd1 d1; (len2, d2) \<leftarrow> rd1 d2;
     c \<leftarrow> memcanoncmp d1 len1 d2 len2;
     if c \<noteq> 0 then
       dname_canon_lab_cmp_loop (Suc n) (drop (unat len1) d1) (drop (unat len2) d2)
         (if c < 0 then -1 else 1) (Suc (Suc n))
     else
       dname_canon_lab_cmp_loop (Suc n) (drop (unat len1) d1) (drop (unat len2) d2)
         lastdiff lastmlabs }"
| "dname_canon_lab_cmp_loop atlabel d1 d2 lastdiff lastmlabs = Some (lastdiff, lastmlabs)"

definition dname_canon_lab_cmp ::
    "byte list \<Rightarrow> nat \<Rightarrow> byte list \<Rightarrow> nat \<Rightarrow> (int \<times> nat) option" where
  "dname_canon_lab_cmp d1 labs1 d2 labs2 = lab_cmp_frame dname_canon_lab_cmp_loop d1 labs1 d2 labs2"

definition dname_canonical_compare :: "byte list \<Rightarrow> byte list \<Rightarrow> int option" where
  "dname_canonical_compare d1 d2 = do {
     labs1 \<leftarrow> dname_count_labels d1; labs2 \<leftarrow> dname_count_labels d2;
     (c, m) \<leftarrow> dname_canon_lab_cmp d1 labs1 d2 labs2; Some c }"

definition dname_get_shared_topdomain :: "byte list \<Rightarrow> byte list \<Rightarrow> byte list option" where
  "dname_get_shared_topdomain d1 d2 = do {
     labs1 \<leftarrow> dname_count_labels d1; labs2 \<leftarrow> dname_count_labels d2;
     (c, m) \<leftarrow> dname_lab_cmp d1 labs1 d2 labs2;
     (d1, len) \<leftarrow> dname_remove_labels d1 LDNS_MAX_DOMAINLEN (labs1 - m);
     Some d1 }"

text \<open>The loop equations are applied one step at a time.\<close>

declare query_dname_compare_loop.simps [simp del] dname_pkt_compare_loop.simps [simp del]
  dname_query_hash_loop.simps [simp del] dname_pkt_hash_loop.simps [simp del]
  dname_pkt_copy_loop.simps [simp del] dname_print_loop.simps [simp del]
  dname_count_labels_loop.simps [simp del] dname_count_size_labels_loop.simps [simp del]
  dname_valid_loop.simps [simp del] query_dname_len_loop.simps [simp del]
  query_dname_tolower.simps [simp del] pkt_dname_tolower_loop.simps [simp del]
  pkt_dname_len_loop.simps [simp del] dname_has_label_loop.simps [simp del]
  dname_buffer_write_loop.simps [simp del] dname_str_loop.simps [simp del]
  signame_label_count_loop.simps [simp del]

end
