(* ===== verification/Comparators.thy ===== *)
theory Comparators
  imports Prelude "HOL-Library.Sublist"
begin

text \<open>
  Three-way comparison functions in the style of the C sources (negative, zero, positive) and the
  contract that the search trees expect of them, as a locale over a carrier of valid keys. The
  lemmas build comparators from simpler ones: from a linear order, through a key function, one
  after the other, and lexicographically on lists.
\<close>

section \<open>The contract\<close>

locale comparator =
  fixes K :: "'k set" and cmp :: "'k \<Rightarrow> 'k \<Rightarrow> int"
  assumes cmp_refl: "x \<in> K \<Longrightarrow> cmp x x = 0"
    and cmp_antisym: "x \<in> K \<Longrightarrow> y \<in> K \<Longrightarrow> cmp x y < 0 \<longleftrightarrow> 0 < cmp y x"
    and cmp_trans: "x \<in> K \<Longrightarrow> y \<in> K \<Longrightarrow> z \<in> K \<Longrightarrow> cmp x y \<le> 0 \<Longrightarrow> cmp y z \<le> 0 \<Longrightarrow> cmp x z \<le> 0"
begin

lemma cmp_eq_sym: "x \<in> K \<Longrightarrow> y \<in> K \<Longrightarrow> cmp x y = 0 \<longleftrightarrow> cmp y x = 0"
  using cmp_antisym [of x y] cmp_antisym [of y x] by linarith

lemma cmp_pos_neg: "x \<in> K \<Longrightarrow> y \<in> K \<Longrightarrow> 0 < cmp x y \<longleftrightarrow> cmp y x < 0"
  using cmp_antisym by blast

lemma cmp_le_ge: "x \<in> K \<Longrightarrow> y \<in> K \<Longrightarrow> cmp x y \<le> 0 \<longleftrightarrow> 0 \<le> cmp y x"
  using cmp_antisym [of y x] by linarith

lemma cmp_less_le_trans:
  "x \<in> K \<Longrightarrow> y \<in> K \<Longrightarrow> z \<in> K \<Longrightarrow> cmp x y < 0 \<Longrightarrow> cmp y z \<le> 0 \<Longrightarrow> cmp x z < 0"
  using cmp_trans [of y z x] cmp_antisym [of x y] cmp_antisym [of x z] cmp_antisym [of z x]
  by linarith

lemma cmp_le_less_trans:
  "x \<in> K \<Longrightarrow> y \<in> K \<Longrightarrow> z \<in> K \<Longrightarrow> cmp x y \<le> 0 \<Longrightarrow> cmp y z < 0 \<Longrightarrow> cmp x z < 0"
  using cmp_trans [of z x y] cmp_antisym [of y z] cmp_antisym [of x z] cmp_antisym [of z x]
  by linarith

lemma cmp_less_trans:
  "x \<in> K \<Longrightarrow> y \<in> K \<Longrightarrow> z \<in> K \<Longrightarrow> cmp x y < 0 \<Longrightarrow> cmp y z < 0 \<Longrightarrow> cmp x z < 0"
  using cmp_less_le_trans [of x y z] by simp

lemma cmp_eq_trans:
  assumes "x \<in> K" "y \<in> K" "z \<in> K" "cmp x y = 0" "cmp y z = 0"
  shows "cmp x z = 0"
proof -
  have "cmp x z \<le> 0" using assms cmp_trans [of x y z] by simp
  moreover have "cmp z x \<le> 0"
    using assms cmp_trans [of z y x] cmp_eq_sym [of x y] cmp_eq_sym [of y z] by simp
  ultimately show ?thesis using assms cmp_le_ge [of z x] by linarith
qed

text \<open>Equal keys compare alike with every other key.\<close>

lemma cmp_eq_less:
  assumes "x \<in> K" "y \<in> K" "z \<in> K" "cmp x y = 0"
  shows "cmp x z < 0 \<longleftrightarrow> cmp y z < 0"
  using assms cmp_le_less_trans [of x y z] cmp_le_less_trans [of y x z] cmp_eq_sym [of x y]
  by auto

lemma cmp_less_eq:
  assumes "x \<in> K" "y \<in> K" "z \<in> K" "cmp x y = 0"
  shows "cmp z x < 0 \<longleftrightarrow> cmp z y < 0"
  using assms cmp_less_le_trans [of z x y] cmp_less_le_trans [of z y x] cmp_eq_sym [of x y]
  by auto

end

section \<open>Building comparators\<close>

definition lin_cmp :: "'a :: linorder \<Rightarrow> 'a \<Rightarrow> int" where
  "lin_cmp x y = (if x < y then -1 else if y < x then 1 else 0)"

lemma lin_cmp_simps [simp]:
  "lin_cmp x y = 0 \<longleftrightarrow> x = y" "lin_cmp x y < 0 \<longleftrightarrow> x < y" "0 < lin_cmp x y \<longleftrightarrow> y < x"
  "lin_cmp x y \<le> 0 \<longleftrightarrow> x \<le> y"
  by (auto simp: lin_cmp_def)

interpretation lin: comparator UNIV "lin_cmp :: 'a :: linorder \<Rightarrow> 'a \<Rightarrow> int"
  by unfold_locales auto

lemma comparator_key:
  assumes "comparator K cmp"
  shows "comparator {x. f x \<in> K} (\<lambda>x y. cmp (f x) (f y))"
proof
  fix x y z
  assume "x \<in> {x. f x \<in> K}" "y \<in> {x. f x \<in> K}" "z \<in> {x. f x \<in> K}"
    and "cmp (f x) (f y) \<le> 0" "cmp (f y) (f z) \<le> 0"
  then show "cmp (f x) (f z) \<le> 0"
    using comparator.cmp_trans [OF assms] by (metis mem_Collect_eq)
next
  fix x y
  assume "x \<in> {x. f x \<in> K}" "y \<in> {x. f x \<in> K}"
  then show "cmp (f x) (f y) < 0 \<longleftrightarrow> 0 < cmp (f y) (f x)"
    using comparator.cmp_antisym [OF assms] by (metis mem_Collect_eq)
qed (simp add: comparator.cmp_refl [OF assms])

lemma comparator_cong:
  assumes c: "comparator K cmp" and eq: "\<And>x y. x \<in> K' \<Longrightarrow> y \<in> K' \<Longrightarrow> cmp' x y = cmp x y"
    and sub: "K' \<subseteq> K"
  shows "comparator K' cmp'"
proof
  fix x y z
  assume K: "x \<in> K'" "y \<in> K'" "z \<in> K'" and le: "cmp' x y \<le> 0" "cmp' y z \<le> 0"
  have "cmp x z \<le> 0"
    using K le sub by (intro comparator.cmp_trans [OF c, of x y z]) (auto simp: eq)
  with K show "cmp' x z \<le> 0" by (simp add: eq)
next
  fix x y
  assume K: "x \<in> K'" "y \<in> K'"
  then have "cmp x y < 0 \<longleftrightarrow> 0 < cmp y x"
    using sub by (intro comparator.cmp_antisym [OF c]) auto
  with K show "cmp' x y < 0 \<longleftrightarrow> 0 < cmp' y x" by (simp add: eq)
next
  fix x
  assume "x \<in> K'"
  moreover from this sub have "cmp x x = 0" by (intro comparator.cmp_refl [OF c]) auto
  ultimately show "cmp' x x = 0" by (simp add: eq)
qed

definition then_cmp :: "('k \<Rightarrow> 'k \<Rightarrow> int) \<Rightarrow> ('k \<Rightarrow> 'k \<Rightarrow> int) \<Rightarrow> 'k \<Rightarrow> 'k \<Rightarrow> int" where
  "then_cmp c1 c2 x y = (if c1 x y \<noteq> 0 then c1 x y else c2 x y)"

lemma comparator_then:
  assumes "comparator K c1" "comparator K c2"
  shows "comparator K (then_cmp c1 c2)"
proof
  fix x assume "x \<in> K"
  then show "then_cmp c1 c2 x x = 0"
    by (simp add: then_cmp_def comparator.cmp_refl [OF assms(1)] comparator.cmp_refl [OF assms(2)])
next
  fix x y assume xy: "x \<in> K" "y \<in> K"
  show "then_cmp c1 c2 x y < 0 \<longleftrightarrow> 0 < then_cmp c1 c2 y x"
    using comparator.cmp_antisym [OF assms(1) xy] comparator.cmp_antisym [OF assms(2) xy]
      comparator.cmp_eq_sym [OF assms(1) xy]
    by (simp add: then_cmp_def)
next
  fix x y z
  assume xyz: "x \<in> K" "y \<in> K" "z \<in> K"
    and le: "then_cmp c1 c2 x y \<le> 0" "then_cmp c1 c2 y z \<le> 0"
  note t1 = comparator.cmp_trans [OF assms(1) xyz]
    comparator.cmp_less_le_trans [OF assms(1) xyz] comparator.cmp_le_less_trans [OF assms(1) xyz]
  note t2 = comparator.cmp_trans [OF assms(2) xyz]
  show "then_cmp c1 c2 x z \<le> 0"
  proof (cases "c1 x y = 0 \<and> c1 y z = 0")
    case True
    then have "c1 x z = 0" using comparator.cmp_eq_trans [OF assms(1) xyz] by blast
    with True le t2 show ?thesis by (simp add: then_cmp_def)
  next
    case False
    with le t1 have "c1 x z < 0" by (auto simp: then_cmp_def split: if_splits)
    then show ?thesis by (simp add: then_cmp_def)
  qed
qed

fun lexcmp :: "('a \<Rightarrow> 'a \<Rightarrow> int) \<Rightarrow> 'a list \<Rightarrow> 'a list \<Rightarrow> int" where
  "lexcmp cmp [] [] = 0"
| "lexcmp cmp [] (y # ys) = -1"
| "lexcmp cmp (x # xs) [] = 1"
| "lexcmp cmp (x # xs) (y # ys) = (if cmp x y \<noteq> 0 then cmp x y else lexcmp cmp xs ys)"

lemma comparator_lexcmp:
  assumes "comparator K cmp"
  shows "comparator (lists K) (lexcmp cmp)"
proof
  fix xs assume "xs \<in> lists K"
  then show "lexcmp cmp xs xs = 0"
    by (induction xs) (auto simp: comparator.cmp_refl [OF assms])
next
  fix xs ys assume "xs \<in> lists K" "ys \<in> lists K"
  then show "lexcmp cmp xs ys < 0 \<longleftrightarrow> 0 < lexcmp cmp ys xs"
  proof (induction xs arbitrary: ys rule: list.induct)
    case Nil
    then show ?case by (cases ys) auto
  next
    case (Cons x xs)
    note IH = Cons.IH and prems = Cons.prems
    show ?case
    proof (cases ys)
      case (Cons y ys')
      with prems have xy: "x \<in> K" "y \<in> K" by auto
      show ?thesis
        using IH [of ys'] prems Cons comparator.cmp_antisym [OF assms xy]
          comparator.cmp_eq_sym [OF assms xy]
        by simp
    qed simp
  qed
next
  fix xs ys zs
  assume "xs \<in> lists K" "ys \<in> lists K" "zs \<in> lists K"
    and "lexcmp cmp xs ys \<le> 0" "lexcmp cmp ys zs \<le> 0"
  then show "lexcmp cmp xs zs \<le> 0"
  proof (induction xs arbitrary: ys zs rule: list.induct)
    case Nil
    then show ?case by (cases zs) auto
  next
    case (Cons x xs)
    then obtain y ys' where ys: "ys = y # ys'" by (cases ys) auto
    with Cons.prems obtain z zs' where zs: "zs = z # zs'" by (cases zs) auto
    have K: "x \<in> K" "y \<in> K" "z \<in> K" using Cons.prems ys zs by auto
    note t = comparator.cmp_less_le_trans [OF assms K] comparator.cmp_le_less_trans [OF assms K]
    show ?case
    proof (cases "cmp x y = 0 \<and> cmp y z = 0")
      case True
      then have "cmp x z = 0" using comparator.cmp_eq_trans [OF assms K] by blast
      with True Cons ys zs show ?thesis by auto
    next
      case False
      with Cons.prems ys zs t have "cmp x z < 0" by (auto split: if_splits)
      with zs show ?thesis by simp
    qed
  qed
qed

lemma lexcmp_eq_0_iff:
  "lexcmp cmp xs ys = 0 \<longleftrightarrow> list_all2 (\<lambda>x y. cmp x y = 0) xs ys"
  by (induction cmp xs ys rule: lexcmp.induct) auto

lemma lexcmp_lin_eq_0 [simp]: "lexcmp lin_cmp xs ys = 0 \<longleftrightarrow> xs = (ys :: 'a :: linorder list)"
  by (simp add: lexcmp_eq_0_iff list.rel_eq)

lemma lexcmp_range:
  assumes "\<And>x y. cmp x y \<in> {-1, 0, 1}"
  shows "lexcmp cmp xs ys \<in> {-1, 0, 1}"
  using assms by (induction cmp xs ys rule: lexcmp.induct) auto

text \<open>The last element decides only if everything before it is equal.\<close>

lemma lexcmp_snoc:
  "length xs = length ys \<Longrightarrow>
   lexcmp cmp (xs @ [x]) (ys @ [y]) =
     (if lexcmp cmp xs ys \<noteq> 0 then lexcmp cmp xs ys else cmp x y)"
  by (induction xs ys rule: list_induct2) auto

text \<open>Comparing lists of different lengths: first the common number of elements.\<close>

lemma lexcmp_take:
  "lexcmp cmp xs ys =
     (let n = min (length xs) (length ys); c = lexcmp cmp (take n xs) (take n ys)
      in if c \<noteq> 0 then c
         else if length xs > length ys then 1 else if length xs < length ys then -1 else 0)"
  by (induction cmp xs ys rule: lexcmp.induct) (auto simp: Let_def)

section \<open>Length of the common prefix\<close>

fun common_prefix :: "('a \<Rightarrow> 'a \<Rightarrow> int) \<Rightarrow> 'a list \<Rightarrow> 'a list \<Rightarrow> nat" where
  "common_prefix cmp (x # xs) (y # ys) = (if cmp x y = 0 then Suc (common_prefix cmp xs ys) else 0)"
| "common_prefix cmp _ _ = 0"

lemma common_prefix_le:
  "common_prefix cmp xs ys \<le> length xs" "common_prefix cmp xs ys \<le> length ys"
  by (induction cmp xs ys rule: common_prefix.induct) auto

lemma common_prefix_snoc:
  "length xs = length ys \<Longrightarrow>
   common_prefix cmp (xs @ [x]) (ys @ [y]) =
     (if lexcmp cmp xs ys \<noteq> 0 then common_prefix cmp xs ys
      else if cmp x y = 0 then Suc (length xs) else length xs)"
  by (induction xs ys rule: list_induct2) auto

lemma common_prefix_eq:
  "length xs = length ys \<Longrightarrow> lexcmp cmp xs ys = 0 \<Longrightarrow> common_prefix cmp xs ys = length xs"
  by (induction xs ys rule: list_induct2) (auto split: if_splits)

lemma common_prefix_take:
  "n = min (length xs) (length ys) \<Longrightarrow>
   common_prefix cmp (take n xs) (take n ys) = common_prefix cmp xs ys"
  by (induction cmp xs ys arbitrary: n rule: common_prefix.induct) auto

lemma common_prefix_all2:
  "k \<le> common_prefix cmp xs ys \<longleftrightarrow>
   k \<le> length xs \<and> k \<le> length ys \<and> list_all2 (\<lambda>x y. cmp x y = 0) (take k xs) (take k ys)"
  by (induction cmp xs ys arbitrary: k rule: common_prefix.induct)
    (auto simp: take_Cons split: nat.splits)

end
