(* ===== verification/Dname_Labels.thy ===== *)
theory Dname_Labels
  imports Dname Comparators
begin

text \<open>
  The meaning of wire-format names: a name is a list of labels, \<open>wire\<close> is its encoding and
  \<open>labels_of\<close> reads it back. The lemmas give every operation of \<open>Dname\<close> on uncompressed names as a
  function of the labels: comparison orders, label counts, matching from the root, subdomains.
\<close>

section \<open>Label bytes\<close>

lemma take6_small: "take_bit 6 b = b \<longleftrightarrow> unat (b :: byte) < 64"
proof -
  have "take_bit 6 b = b \<longleftrightarrow> unat (take_bit 6 b) = unat b"
    by (simp add: word_unat_eq_iff)
  also have "\<dots> \<longleftrightarrow> take_bit 6 (unat b) = unat b"
    by (simp add: unsigned_take_bit_eq)
  also have "\<dots> \<longleftrightarrow> unat b < 64"
    by (simp add: take_bit_nat_eq_self_iff)
  finally show ?thesis .
qed

lemma and_c0_eq_0: "b AND 0xc0 = 0 \<longleftrightarrow> unat (b :: byte) < 64"
proof -
  have c0: "(0xc0 :: byte) = NOT (mask 6)"
    by (simp add: mask_eq_exp_minus_1)
  have "b AND NOT (mask 6) = 0 \<longleftrightarrow> take_bit 6 b = b"
    by (auto simp: bit_eq_iff bit_simps)
  then show ?thesis by (simp add: c0 take6_small)
qed

lemma small_not_ptr [simp]: "unat b < 64 \<Longrightarrow> \<not> LABEL_IS_PTR b"
  using and_c0_eq_0 [of b] by (simp add: LABEL_IS_PTR_def)

lemma PTR_OFFSET_less: "unat (PTR_OFFSET x y) < 16384"
proof -
  have "PTR_OFFSET x y = take_bit 14 (PTR_OFFSET x y)"
  proof (rule bit_word_eqI)
    fix n assume "n < LENGTH(16)"
    have m: "(0x3f :: byte) = mask 6" by (simp add: mask_eq_exp_minus_1)
    show "bit (PTR_OFFSET x y) n \<longleftrightarrow> bit (take_bit 14 (PTR_OFFSET x y)) n"
      by (auto simp: PTR_OFFSET_def m bit_simps dest: bit_imp_le_length)
  qed
  then have "unat (PTR_OFFSET x y) = take_bit 14 (unat (PTR_OFFSET x y))"
    by (metis unsigned_take_bit_eq)
  also have "\<dots> < 2 ^ 14" by (rule take_bit_nat_less_exp)
  finally show ?thesis by simp
qed

section \<open>Names as lists of labels\<close>

type_synonym label = "byte list"

fun wire :: "label list \<Rightarrow> byte list" where
  "wire [] = [0]"
| "wire (l # ls) = of_nat (length l) # l @ wire ls"

definition label_ok :: "label \<Rightarrow> bool" where
  "label_ok l \<longleftrightarrow> 0 < length l \<and> length l \<le> 63"

definition labels_ok :: "label list \<Rightarrow> bool" where
  "labels_ok ls \<longleftrightarrow> list_all label_ok ls"

definition dname_ok :: "label list \<Rightarrow> bool" where
  "dname_ok ls \<longleftrightarrow> labels_ok ls \<and> length (wire ls) \<le> 255"

lemma labels_ok_simps [simp]:
  "labels_ok []" "labels_ok (l # ls) \<longleftrightarrow> label_ok l \<and> labels_ok ls"
  "labels_ok (xs @ ys) \<longleftrightarrow> labels_ok xs \<and> labels_ok ys"
  by (auto simp: labels_ok_def)

lemma label_ok_byte [simp]:
  assumes "label_ok l"
  shows "unat (of_nat (length l) :: byte) = length l" "(of_nat (length l) :: byte) \<noteq> 0"
    "(of_nat (length l) :: byte) AND 0xc0 = 0" "\<not> LABEL_IS_PTR (of_nat (length l))"
proof -
  show u: "unat (of_nat (length l) :: byte) = length l"
    using assms by (intro of_nat_length_byte) (simp add: label_ok_def)
  with assms show "(of_nat (length l) :: byte) \<noteq> 0"
    by (auto simp: label_ok_def simp del: of_nat_0_eq_iff of_nat_eq_0_iff)
  from u assms show "(of_nat (length l) :: byte) AND 0xc0 = 0" "\<not> LABEL_IS_PTR (of_nat (length l))"
    by (simp_all add: and_c0_eq_0 label_ok_def)
qed

lemma length_wire: "length (wire ls) = 1 + (\<Sum>l\<leftarrow>ls. length l + 1)"
  by (induction ls) auto

lemma wire_neq_Nil [simp]: "wire ls \<noteq> []"
  by (cases ls) auto


abbreviation lower :: "byte list \<Rightarrow> byte list" where
  "lower \<equiv> map c_tolower"

section \<open>Comparing labels\<close>

definition canon_label_cmp :: "label \<Rightarrow> label \<Rightarrow> int" where
  "canon_label_cmp x y = lexcmp lin_cmp (lower x) (lower y)"

definition len_label_cmp :: "label \<Rightarrow> label \<Rightarrow> int" where
  "len_label_cmp = then_cmp (\<lambda>x y. lin_cmp (length x) (length y)) canon_label_cmp"

lemma memlowercmp_take:
  "n \<le> length p1 \<Longrightarrow> n \<le> length p2 \<Longrightarrow>
   memlowercmp p1 p2 n = Some (canon_label_cmp (take n p1) (take n p2))"
proof (induction p1 p2 n rule: memlowercmp.induct)
  case (1 p1 p2)
  then show ?case by (simp add: canon_label_cmp_def)
next
  case (2 p1 p2 len)
  then obtain b1 q1 b2 q2 where "p1 = b1 # q1" "p2 = b2 # q2"
    by (cases p1; cases p2) auto
  with 2 show ?case
    by (auto simp: canon_label_cmp_def lin_cmp_def)
qed

lemma memlowercmp_labels:
  "n = length x \<Longrightarrow> n = length y \<Longrightarrow> memlowercmp (x @ r) (y @ r') n = Some (canon_label_cmp x y)"
  by (simp add: memlowercmp_take)

lemma canon_label_cmp_eq_0 [simp]: "canon_label_cmp x y = 0 \<longleftrightarrow> lower x = lower y"
  by (simp add: canon_label_cmp_def)

lemma len_label_cmp_eq_0 [simp]: "len_label_cmp x y = 0 \<longleftrightarrow> lower x = lower y"
  by (auto simp: len_label_cmp_def then_cmp_def dest: map_eq_imp_length_eq)

lemma len_label_cmp_cases:
  "len_label_cmp x y = (if length x \<noteq> length y then if length x < length y then -1 else 1
     else canon_label_cmp x y)"
  by (auto simp: len_label_cmp_def then_cmp_def lin_cmp_def)

lemma memcanoncmp_labels:
  assumes "label_ok x" "label_ok y"
  shows "memcanoncmp (x @ r) (of_nat (length x)) (y @ r') (of_nat (length y))
    = Some (canon_label_cmp x y)"
proof -
  have lt: "(of_nat (length x) :: byte) < of_nat (length y) \<longleftrightarrow> length x < length y"
    "(of_nat (length y) :: byte) < of_nat (length x) \<longleftrightarrow> length y < length x"
    using assms by (simp_all add: word_less_nat_alt)
  have c: "canon_label_cmp x y =
      (let n = min (length x) (length y); c = canon_label_cmp (take n x) (take n y)
       in if c \<noteq> 0 then c else if length x > length y then 1 else if length x < length y then -1 else 0)"
    unfolding canon_label_cmp_def by (subst lexcmp_take) (simp add: take_map Let_def)
  show ?thesis
    using assms unfolding memcanoncmp_def lt c
    by (simp add: memlowercmp_take Let_def min_def)
qed

lemma len_byte_less:
  assumes "label_ok x" "label_ok y"
  shows "(of_nat (length x) :: byte) < of_nat (length y) \<longleftrightarrow> length x < length y"
    "(of_nat (length x) :: byte) = of_nat (length y) \<longleftrightarrow> length x = length y"
  using assms by (simp_all add: word_less_nat_alt word_unat_eq_iff)

section \<open>query_dname_compare\<close>

lemma query_dname_compare_Cons:
  assumes "label_ok x" "label_ok y"
  shows "query_dname_compare (wire (x # a) @ r) (wire (y # b) @ r') =
    (if len_label_cmp x y \<noteq> 0 then Some (len_label_cmp x y)
     else query_dname_compare (wire a @ r) (wire b @ r'))"
  using assms
  by (simp add: query_dname_compare_def len_byte_less len_label_cmp_cases memlowercmp_labels
      query_dname_compare_loop.simps [of "of_nat (length x)"])

lemma query_dname_compare_wire:
  "labels_ok a \<Longrightarrow> labels_ok b \<Longrightarrow>
   query_dname_compare (wire a @ r) (wire b @ r') = Some (lexcmp len_label_cmp a b)"
proof (induction len_label_cmp a b rule: lexcmp.induct)
  case 1
  show ?case by (simp add: query_dname_compare_def query_dname_compare_loop.simps)
next
  case (2 y ys)
  then show ?case
    by (simp add: query_dname_compare_def query_dname_compare_loop.simps [of 0] word_neq_0_conv
        flip: word_neq_0_conv)
next
  case (3 x xs)
  then show ?case
    by (simp add: query_dname_compare_def
        query_dname_compare_loop.simps [of "of_nat (length x)"])
next
  case (4 x xs y ys)
  then show ?case
    using query_dname_compare_Cons [of x y xs r ys r'] by simp
qed

section \<open>Counting and skipping labels\<close>

lemma dname_count_labels_wire:
  assumes "labels_ok ls"
  shows "dname_count_labels (wire ls @ r) = Some (length ls + 1)"
proof -
  have "do { (lablen, dname) \<leftarrow> rd1 (wire ls @ r); dname_count_labels_loop lablen dname n }
      = Some (length ls + n)" for n
    using assms
    by (induction ls arbitrary: n) (simp_all add: dname_count_labels_loop.simps)
  then show ?thesis by (simp add: dname_count_labels_def)
qed

lemma dname_count_size_labels_wire:
  assumes "labels_ok ls"
  shows "dname_count_size_labels (wire ls @ r) = Some (length ls + 1, length (wire ls))"
proof -
  have "do { (lablen, dname) \<leftarrow> rd1 (wire ls @ r); dname_count_size_labels_loop lablen dname n m }
      = Some (length ls + n, length (wire ls) - 1 + m)" for n m
    using assms
    by (induction ls arbitrary: n m) (simp_all add: dname_count_size_labels_loop.simps length_wire)
  then show ?thesis by (simp add: dname_count_size_labels_def length_wire)
qed

lemma skip_labels_wire:
  "labels_ok ls \<Longrightarrow> n \<le> length ls \<Longrightarrow> skip_labels n (wire ls @ r) = Some (wire (drop n ls) @ r)"
proof (induction n arbitrary: ls)
  case (Suc n)
  then obtain l ls' where "ls = l # ls'" by (cases ls) auto
  with Suc show ?case by simp
qed simp

section \<open>dname_lab_cmp and dname_canon_lab_cmp\<close>

text \<open>Both compare the labels from the root down; \<open>top_cmp\<close> is the order, \<open>top_match\<close> the number of
  matching labels, the root label included.\<close>

definition top_cmp :: "(label \<Rightarrow> label \<Rightarrow> int) \<Rightarrow> label list \<Rightarrow> label list \<Rightarrow> int" where
  "top_cmp cmp a b = lexcmp cmp (rev a) (rev b)"

definition top_match :: "(label \<Rightarrow> label \<Rightarrow> int) \<Rightarrow> label list \<Rightarrow> label list \<Rightarrow> nat" where
  "top_match cmp a b = Suc (common_prefix cmp (rev a) (rev b))"

lemma top_cmp_Cons:
  "length a = length b \<Longrightarrow>
   top_cmp cmp (x # a) (y # b) = (if top_cmp cmp a b \<noteq> 0 then top_cmp cmp a b else cmp x y)"
  by (simp add: top_cmp_def lexcmp_snoc)

lemma top_match_Cons:
  "length a = length b \<Longrightarrow>
   top_match cmp (x # a) (y # b) =
     (if top_cmp cmp a b \<noteq> 0 then top_match cmp a b
      else if cmp x y = 0 then Suc (Suc (length a)) else Suc (length a))"
  by (simp add: top_match_def top_cmp_def common_prefix_snoc)

lemma dname_lab_cmp_loop_step:
  assumes "label_ok x" "label_ok y"
  shows "dname_lab_cmp_loop (Suc (Suc n)) (wire (x # a) @ r) (wire (y # b) @ r') ld lm =
    dname_lab_cmp_loop (Suc n) (wire a @ r) (wire b @ r')
      (if len_label_cmp x y \<noteq> 0 then len_label_cmp x y else ld)
      (if len_label_cmp x y \<noteq> 0 then Suc (Suc n) else lm)"
proof (cases "length x = length y")
  case True
  with assms show ?thesis
    by (simp add: len_byte_less len_label_cmp_cases memlowercmp_labels)
next
  case False
  with assms show ?thesis
    by (auto simp: len_byte_less len_label_cmp_cases dest: map_eq_imp_length_eq)
qed

lemma dname_lab_cmp_loop_wire:
  assumes "length a = length b" "labels_ok a" "labels_ok b"
  shows "dname_lab_cmp_loop (Suc (length a)) (wire a @ r) (wire b @ r') ld lm =
    Some (if top_cmp len_label_cmp a b \<noteq> 0 then top_cmp len_label_cmp a b else ld,
          if top_cmp len_label_cmp a b \<noteq> 0 then Suc (top_match len_label_cmp a b) else lm)"
  using assms
proof (induction a b arbitrary: ld lm rule: list_induct2)
  case (Cons x a y b)
  then show ?case
    by (simp del: wire.simps dname_lab_cmp_loop.simps
        add: dname_lab_cmp_loop_step top_cmp_Cons top_match_Cons)
qed (simp add: top_cmp_def)

lemma dname_canon_lab_cmp_loop_step:
  assumes "label_ok x" "label_ok y"
  shows "dname_canon_lab_cmp_loop (Suc (Suc n)) (wire (x # a) @ r) (wire (y # b) @ r') ld lm =
    dname_canon_lab_cmp_loop (Suc n) (wire a @ r) (wire b @ r')
      (if canon_label_cmp x y \<noteq> 0 then canon_label_cmp x y else ld)
      (if canon_label_cmp x y \<noteq> 0 then Suc (Suc n) else lm)"
proof -
  have "canon_label_cmp x y \<in> {-1, 0, 1}"
    unfolding canon_label_cmp_def by (rule lexcmp_range) (simp add: lin_cmp_def)
  with assms show ?thesis
    by (auto simp: memcanoncmp_labels simp flip: canon_label_cmp_eq_0)
qed

lemma dname_canon_lab_cmp_loop_wire:
  assumes "length a = length b" "labels_ok a" "labels_ok b"
  shows "dname_canon_lab_cmp_loop (Suc (length a)) (wire a @ r) (wire b @ r') ld lm =
    Some (if top_cmp canon_label_cmp a b \<noteq> 0 then top_cmp canon_label_cmp a b else ld,
          if top_cmp canon_label_cmp a b \<noteq> 0 then Suc (top_match canon_label_cmp a b) else lm)"
  using assms
proof (induction a b arbitrary: ld lm rule: list_induct2)
  case (Cons x a y b)
  then show ?case
    by (simp del: wire.simps dname_canon_lab_cmp_loop.simps
        add: dname_canon_lab_cmp_loop_step top_cmp_Cons top_match_Cons)
qed (simp add: top_cmp_def)

text \<open>Dropping the labels that only one name has.\<close>

lemma top_cmp_drop:
  defines "n a b \<equiv> length a - length (b :: label list)"
  shows "top_cmp cmp a b =
    (let c = top_cmp cmp (drop (n a b) a) (drop (n b a) b)
     in if c \<noteq> 0 then c
        else if length a > length b then 1 else if length a < length b then -1 else 0)"
proof -
  have "rev (drop (n a b) a) = take (min (length a) (length b)) (rev a)"
    "rev (drop (n b a) b) = take (min (length a) (length b)) (rev b)"
    by (auto simp: n_def rev_drop min_def)
  then show ?thesis
    unfolding top_cmp_def Let_def by (subst lexcmp_take) (simp add: Let_def)
qed

lemma top_match_drop:
  "top_match cmp (drop (length a - length b) a) (drop (length b - length a) b) = top_match cmp a b"
proof -
  have "rev (drop (length a - length b) a) = take (min (length a) (length b)) (rev a)"
    "rev (drop (length b - length a) b) = take (min (length a) (length b)) (rev b)"
    by (auto simp: rev_drop min_def)
  then show ?thesis
    unfolding top_match_def by (simp add: common_prefix_take)
qed

lemma top_match_full:
  assumes "top_cmp cmp (drop (length a - length b) a) (drop (length b - length a) b) = 0"
  shows "top_match cmp a b = Suc (min (length a) (length b))"
proof -
  let ?a = "drop (length a - length b) a" and ?b = "drop (length b - length a) b"
  have "common_prefix cmp (rev ?a) (rev ?b) = length (rev ?a)"
    using assms by (intro common_prefix_eq) (auto simp: top_cmp_def)
  then show ?thesis
    unfolding top_match_drop [of cmp a b, symmetric] by (auto simp: top_match_def)
qed

lemma labels_ok_drop: "labels_ok ls \<Longrightarrow> labels_ok (drop n ls)"
  unfolding labels_ok_def list_all_iff by (meson in_set_dropD)

lemma lab_cmp_frame_wire:
  assumes loop: "\<And>a b ld lm. length a = length b \<Longrightarrow> labels_ok a \<Longrightarrow> labels_ok b \<Longrightarrow>
      cmp_loop (Suc (length a)) (wire a @ r) (wire b @ r') ld lm =
      Some (if top_cmp cmp a b \<noteq> 0 then top_cmp cmp a b else ld,
            if top_cmp cmp a b \<noteq> 0 then Suc (top_match cmp a b) else lm)"
    and ok: "labels_ok a" "labels_ok b"
  shows "lab_cmp_frame cmp_loop (wire a @ r) (length a + 1) (wire b @ r') (length b + 1) =
    Some (top_cmp cmp a b, top_match cmp a b)"
proof -
  let ?a = "drop (length a - length b) a" and ?b = "drop (length b - length a) b"
  have len: "length ?a = length ?b" by auto
  have at: "min (length a + 1) (length b + 1) = Suc (length ?a)" by auto
  have skip: "(if length a + 1 > length b + 1 then skip_labels (length a + 1 - (length b + 1)) (wire a @ r)
       else Some (wire a @ r)) = Some (wire ?a @ r)"
    "(if length a + 1 < length b + 1 then skip_labels (length b + 1 - (length a + 1)) (wire b @ r')
       else Some (wire b @ r')) = Some (wire ?b @ r')"
    using ok by (simp_all add: skip_labels_wire)
  have lp: "cmp_loop (Suc (length ?a)) (wire ?a @ r) (wire ?b @ r') 0 (Suc (length ?a) + 1) =
      Some (top_cmp cmp ?a ?b,
        if top_cmp cmp ?a ?b \<noteq> 0 then Suc (top_match cmp ?a ?b) else Suc (length ?a) + 1)"
    using loop [OF len] ok by (simp add: labels_ok_drop)
  show ?thesis
  proof (cases "top_cmp cmp ?a ?b = 0")
    case True
    then have "top_match cmp a b = Suc (length ?a)"
      using top_match_full [of cmp a b] by auto
    with True lp show ?thesis
      unfolding lab_cmp_frame_def skip at top_cmp_drop [of cmp a b] by (simp add: Let_def)
  next
    case False
    with lp show ?thesis
      unfolding lab_cmp_frame_def skip at top_cmp_drop [of cmp a b]
      by (simp add: Let_def top_match_drop)
  qed
qed

lemma dname_lab_cmp_wire:
  "labels_ok a \<Longrightarrow> labels_ok b \<Longrightarrow>
   dname_lab_cmp (wire a @ r) (length a + 1) (wire b @ r') (length b + 1) =
     Some (top_cmp len_label_cmp a b, top_match len_label_cmp a b)"
  unfolding dname_lab_cmp_def by (rule lab_cmp_frame_wire [OF dname_lab_cmp_loop_wire])

lemma dname_canon_lab_cmp_wire:
  "labels_ok a \<Longrightarrow> labels_ok b \<Longrightarrow>
   dname_canon_lab_cmp (wire a @ r) (length a + 1) (wire b @ r') (length b + 1) =
     Some (top_cmp canon_label_cmp a b, top_match canon_label_cmp a b)"
  unfolding dname_canon_lab_cmp_def by (rule lab_cmp_frame_wire [OF dname_canon_lab_cmp_loop_wire])

section \<open>Reading the labels back\<close>

text \<open>The labels of the name at a pointer, if it is a well-formed uncompressed name.\<close>

function labels_of :: "byte list \<Rightarrow> label list option" where
  "labels_of d = (case d of [] \<Rightarrow> None
     | b # p \<Rightarrow> if b = 0 then Some []
         else if unat b > 63 \<or> length p < unat b then None
         else map_option (Cons (take (unat b) p)) (labels_of (drop (unat b) p)))"
  by pat_completeness auto
termination by (relation "measure length") auto

declare labels_of.simps [simp del]

lemma labels_of_simps [simp]:
  "labels_of [] = None"
  "labels_of (b # p) = (if b = 0 then Some []
     else if unat b > 63 \<or> length p < unat b then None
     else map_option (Cons (take (unat b) p)) (labels_of (drop (unat b) p)))"
  by (subst labels_of.simps, simp)+

lemma labels_of_wire: "labels_ok ls \<Longrightarrow> labels_of (wire ls @ r) = Some ls"
  by (induction ls) (simp_all add: label_ok_def)

lemma labels_of_Some:
  "labels_of d = Some ls \<Longrightarrow> labels_ok ls \<and> (\<exists>r. d = wire ls @ r)"
proof (induction ls arbitrary: d)
  case Nil
  then show ?case by (cases d) (auto split: if_splits)
next
  case (Cons l ls)
  from Cons.prems obtain b p where d: "d = b # p" "b \<noteq> 0" "unat b \<le> 63" "unat b \<le> length p"
    "labels_of (drop (unat b) p) = Some ls" "l = take (unat b) p"
    by (cases d) (auto split: if_splits)
  from Cons.IH [OF d(5)] obtain r where r: "labels_ok ls" "drop (unat b) p = wire ls @ r" by auto
  have "0 < unat b" using d(2) by (simp add: unat_gt_0)
  with d have "label_ok l" by (simp add: label_ok_def)
  moreover have "d = wire (l # ls) @ r"
    using d r(2) append_take_drop_id [of "unat b" p] by simp
  ultimately show ?case using r(1) by auto
qed

lemma labels_ofE:
  assumes "labels_of d = Some ls"
  obtains r where "d = wire ls @ r" "labels_ok ls"
  using labels_of_Some [OF assms] by blast

lemma labels_of_count: "labels_of d = Some ls \<Longrightarrow> dname_count_labels d = Some (length ls + 1)"
  by (auto elim!: labels_ofE simp: dname_count_labels_wire)

lemma labels_of_lab_cmp:
  "labels_of d1 = Some a \<Longrightarrow> labels_of d2 = Some b \<Longrightarrow>
   dname_lab_cmp d1 (length a + 1) d2 (length b + 1) =
     Some (top_cmp len_label_cmp a b, top_match len_label_cmp a b)"
  using dname_lab_cmp_wire by (auto elim!: labels_ofE)

lemma labels_of_canonical:
  "labels_of d1 = Some a \<Longrightarrow> labels_of d2 = Some b \<Longrightarrow>
   dname_canonical_compare d1 d2 = Some (top_cmp canon_label_cmp a b)"
  using dname_canon_lab_cmp_wire [of a b]
  by (auto elim!: labels_ofE simp: dname_canonical_compare_def dname_count_labels_wire)

lemma labels_of_query_compare:
  "labels_of d1 = Some a \<Longrightarrow> labels_of d2 = Some b \<Longrightarrow>
   query_dname_compare d1 d2 = Some (lexcmp len_label_cmp a b)"
  by (auto elim!: labels_ofE simp: query_dname_compare_wire)

section \<open>The orders on names\<close>

lemma comparator_canon_label: "comparator UNIV canon_label_cmp"
  unfolding canon_label_cmp_def
  using comparator_key [OF comparator_lexcmp [OF lin.comparator_axioms], of lower] by simp

lemma comparator_len_label: "comparator UNIV len_label_cmp"
  unfolding len_label_cmp_def
  using comparator_key [OF lin.comparator_axioms, of length] comparator_canon_label
  by (intro comparator_then) auto

lemma comparator_top:
  assumes "comparator UNIV cmp"
  shows "comparator UNIV (top_cmp cmp)"
  unfolding top_cmp_def
  using comparator_key [OF comparator_lexcmp [OF assms], of rev] by simp

interpretation canon_order: comparator UNIV "top_cmp canon_label_cmp"
  by (rule comparator_top [OF comparator_canon_label])

interpretation label_order: comparator UNIV "top_cmp len_label_cmp"
  by (rule comparator_top [OF comparator_len_label])

interpretation query_order: comparator UNIV "lexcmp len_label_cmp"
  using comparator_lexcmp [OF comparator_len_label] by simp

abbreviation lowers :: "label list \<Rightarrow> label list" where
  "lowers \<equiv> map lower"

lemma list_all2_lower: "list_all2 (\<lambda>x y. lower x = lower y) a b \<longleftrightarrow> lowers a = lowers b"
  by (auto simp: list_all2_conv_all_nth list_eq_iff_nth_eq [of "lowers a"])

lemma query_cmp_eq_0 [simp]: "lexcmp len_label_cmp a b = 0 \<longleftrightarrow> lowers a = lowers b"
  by (simp add: lexcmp_eq_0_iff list_all2_lower)

lemma top_cmp_eq_0 [simp]:
  "top_cmp len_label_cmp a b = 0 \<longleftrightarrow> lowers a = lowers b"
  "top_cmp canon_label_cmp a b = 0 \<longleftrightarrow> lowers a = lowers b"
  by (simp_all add: top_cmp_def lexcmp_eq_0_iff list_all2_lower flip: rev_map)

section \<open>Subdomains\<close>

lemma top_match_ge:
  "Suc k \<le> top_match len_label_cmp a b \<longleftrightarrow>
   k \<le> length a \<and> k \<le> length b \<and> lowers (drop (length a - k) a) = lowers (drop (length b - k) b)"
proof -
  have r: "rev (take k (rev a)) = drop (length a - k) a" "rev (take k (rev b)) = drop (length b - k) b"
    by (simp_all add: rev_take)
  have "lowers (take k (rev a)) = lowers (take k (rev b)) \<longleftrightarrow>
      lowers (drop (length a - k) a) = lowers (drop (length b - k) b)"
    unfolding r [symmetric] by (simp flip: rev_map)
  then show ?thesis
    by (simp add: top_match_def common_prefix_all2 list_all2_lower)
qed

lemma suffix_iff_drop:
  "suffix xs ys \<longleftrightarrow> length xs \<le> length ys \<and> drop (length ys - length xs) ys = xs"
proof
  assume "length xs \<le> length ys \<and> drop (length ys - length xs) ys = xs"
  then show "suffix xs ys" by (metis suffix_drop)
qed (auto simp: suffix_def)

lemma top_match_suffix:
  "top_match len_label_cmp a b = Suc (length b) \<longleftrightarrow> suffix (lowers b) (lowers a)"
proof -
  have le: "top_match len_label_cmp a b \<le> Suc (length b)"
    using common_prefix_le(2) [of len_label_cmp "rev a" "rev b"] by (simp add: top_match_def)
  then have "top_match len_label_cmp a b = Suc (length b) \<longleftrightarrow>
      Suc (length b) \<le> top_match len_label_cmp a b" by linarith
  also have "\<dots> \<longleftrightarrow> length b \<le> length a \<and> lowers (drop (length a - length b) a) = lowers b"
    by (simp add: top_match_ge)
  also have "\<dots> \<longleftrightarrow> suffix (lowers b) (lowers a)"
    by (simp add: suffix_iff_drop drop_map)
  finally show ?thesis .
qed

lemma suffix_not_less:
  "suffix (lowers b) (lowers a) \<Longrightarrow> 0 \<le> top_cmp len_label_cmp a b"
proof -
  assume s: "suffix (lowers b) (lowers a)"
  then have le: "length b \<le> length a" by (metis length_map suffix_length_le)
  have "lowers (drop (length a - length b) a) = lowers b"
    using s le top_match_suffix [of a b] top_match_ge [of "length b" a b] by simp
  then have "top_cmp len_label_cmp (drop (length a - length b) a) b = 0" by simp
  with le show ?thesis
    by (subst top_cmp_drop) (simp add: Let_def)
qed

lemma dname_subdomain_c_labels:
  "labels_of d1 = Some a \<Longrightarrow> labels_of d2 = Some b \<Longrightarrow>
   dname_subdomain_c d1 d2 = Some (suffix (lowers b) (lowers a))"
proof -
  assume l: "labels_of d1 = Some a" "labels_of d2 = Some b"
  note c = labels_of_count [OF l(1)] labels_of_count [OF l(2)] labels_of_lab_cmp [OF l]
  show ?thesis
  proof (cases "length b > length a")
    case True
    then have "\<not> suffix (lowers b) (lowers a)"
      by (metis length_map not_le suffix_length_le)
    with True c show ?thesis by (simp add: dname_subdomain_c_def)
  next
    case False
    with c suffix_not_less [of b a] top_match_suffix [of a b] show ?thesis
      by (auto simp: dname_subdomain_c_def)
  qed
qed
end
