(* ===== verification/Dname_Packet.thy ===== *)
theory Dname_Packet
  imports Dname_Labels
begin

text \<open>
  Names in packets. \<open>pkt_name\<close> is the specification of a name with compression pointers: the labels
  it stands for and the number of pointers followed. The lemmas show that \<open>pkt_dname_len\<close> accepts
  exactly these names, and that copying, hashing and comparing in the packet act on those labels;
  \<open>dname_valid\<close> and \<open>query_dname_len\<close> are treated the same way with \<open>labels_of\<close>.
\<close>

section \<open>dname_valid\<close>

lemma dname_valid_loop_wire:
  assumes "labels_ok ls" "len < 255"
  shows "do { (l, d) \<leftarrow> rd1 (wire ls @ r); dname_valid_loop l d len maxlen } =
    Some (if len + length (wire ls) \<le> maxlen \<and> len + length (wire ls) \<le> 255
          then len + length (wire ls) else 0)"
  using assms
proof (induction ls arbitrary: len)
  case Nil
  then show ?case by (simp add: dname_valid_loop.simps)
next
  case (Cons l ls)
  show ?case
  proof (cases "len + length l + 1 \<ge> 255 \<or> len + length l + 1 > maxlen")
    case True
    with Cons.prems show ?thesis
      by (auto simp: dname_valid_loop.simps [of "of_nat (length l)"] length_wire)
  next
    case False
    with Cons show ?thesis
      by (simp add: dname_valid_loop.simps [of "of_nat (length l)"])
  qed
qed

lemma dname_valid_loop_Some:
  assumes "dname_valid_loop l d len maxlen = Some n" "n \<noteq> 0" "len < 255"
  shows "\<exists>ls. labels_of (l # d) = Some ls"
  using assms
proof (induction l d len maxlen rule: dname_valid_loop.induct)
  case (1 l d len maxlen)
  show ?case
  proof (cases "l = 0")
    case False
    from "1.prems" False have small: "l AND 0xc0 = 0"
      by (auto simp: dname_valid_loop.simps [of l] split: if_splits)
    from "1.prems" False small have lim: "\<not> len + unat l + 1 \<ge> 255" "\<not> len + unat l + 1 > maxlen"
      by (auto simp: dname_valid_loop.simps [of l] Let_def split: if_splits)
    from "1.prems" False small lim obtain l' d' where d': "drop (unat l) d = l' # d'"
      "dname_valid_loop l' d' (len + unat l + 1) maxlen = Some n"
      by (auto simp: dname_valid_loop.simps [of l] Let_def elim!: bind_eq_SomeE)
    have "\<exists>ls. labels_of (l' # d') = Some ls"
      using "1.IH" [OF False _ refl lim, of "(l', d')" l' d'] small d' "1.prems" lim by simp
    moreover have "length (drop (unat l) d) > 0" using d' by simp
    ultimately show ?thesis
      using False small by (auto simp: and_c0_eq_0 simp flip: d'(1))
  qed simp
qed

lemma dname_valid_iff:
  assumes "n \<noteq> 0"
  shows "dname_valid d maxlen = Some n \<longleftrightarrow>
    (\<exists>ls. labels_of d = Some ls \<and> n = length (wire ls) \<and> n \<le> maxlen \<and> n \<le> 255)"
proof
  assume v: "dname_valid d maxlen = Some n"
  with assms have "maxlen \<noteq> 0" by (auto simp: dname_valid_def split: if_splits)
  with v assms obtain ls where ls: "labels_of d = Some ls"
    by (auto simp: dname_valid_def simp del: labels_of_simps elim!: bind_eq_SomeE
        dest!: dname_valid_loop_Some)
  from labels_ofE [OF this] obtain r where r: "d = wire ls @ r" "labels_ok ls" .
  from v \<open>maxlen \<noteq> 0\<close> assms dname_valid_loop_wire [OF r(2), of 0 r maxlen] ls show
    "\<exists>ls. labels_of d = Some ls \<and> n = length (wire ls) \<and> n \<le> maxlen \<and> n \<le> 255"
    by (auto simp: dname_valid_def r(1) split: if_splits)
next
  assume "\<exists>ls. labels_of d = Some ls \<and> n = length (wire ls) \<and> n \<le> maxlen \<and> n \<le> 255"
  then obtain ls where ls: "labels_of d = Some ls" "n = length (wire ls)" "n \<le> maxlen" "n \<le> 255"
    by blast
  from labels_ofE [OF ls(1)] obtain r where "d = wire ls @ r" "labels_ok ls" .
  with ls have "do { (l, d) \<leftarrow> rd1 d; dname_valid_loop l d 0 maxlen } = Some n"
    using dname_valid_loop_wire [of ls 0 r maxlen] by simp
  moreover from ls assms have "maxlen \<noteq> 0" by linarith
  ultimately show "dname_valid d maxlen = Some n" by (simp add: dname_valid_def)
qed

lemma dname_valid_loop_reads:
  assumes "len < 255" "maxlen - len < length d + 1" "len \<le> maxlen"
  shows "dname_valid_loop l d len maxlen \<noteq> None"
  using assms
proof (induction l d len maxlen rule: dname_valid_loop.induct)
  case (1 l d len maxlen)
  show ?case
  proof (cases "l = 0 \<or> l AND 0xc0 \<noteq> 0 \<or> len + unat l + 1 \<ge> 255 \<or> len + unat l + 1 > maxlen")
    case True
    then show ?thesis by (auto simp: dname_valid_loop.simps [of l] Let_def)
  next
    case False
    with "1.prems" obtain l' d' where d': "drop (unat l) d = l' # d'"
      by (cases "drop (unat l) d") auto
    then have "length d = unat l + 1 + length d'"
      using "1.prems" False by (metis (no_types) Suc_eq_plus1 add.assoc add.commute length_Cons
          length_drop le_add_diff_inverse2 length_greater_0_conv less_imp_le_nat list.distinct(1)
          zero_less_diff)
    with False "1.prems" d' "1.IH" [of "len + unat l + 1" "(l', d')" l' d'] show ?thesis
      by (auto simp: dname_valid_loop.simps [of l] Let_def)
  qed
qed


section \<open>Reading from the buffer\<close>

text \<open>The bytes between the position and the limit.\<close>

definition buf_rem :: "sldns_buffer \<Rightarrow> byte list" where
  "buf_rem b = drop (buf_position b) (take (buf_limit b) (buf_mem b))"

lemma buf_rem_length [simp]:
  "buf_wf b \<Longrightarrow> length (buf_rem b) = buf_limit b - buf_position b"
  by (auto simp: buf_rem_def buf_wf_def buf_mem_def split: option.splits)

lemma buf_rem_advance: "buf_rem (buf_advance b n) = drop n (buf_rem b)"
  by (simp add: buf_rem_def add.commute buf_mem_def buf_advance_def)

lemma remaining_rem: "buf_wf b \<Longrightarrow> sldns_buffer_remaining b = Some (length (buf_rem b))"
  by simp

lemma read_u8_rem:
  assumes "buf_wf b" "buf_rem b = x # xs"
  shows "sldns_buffer_read_u8 b = Some (x, buf_advance b 1) \<and> buf_wf (buf_advance b 1) \<and>
    buf_rem (buf_advance b 1) = xs"
proof -
  have l: "length (buf_rem b) = Suc (length xs)" using assms by simp
  with assms(1) have "buf_position b < buf_limit b" by simp
  moreover have "buf_limit b \<le> length (buf_mem b)" using assms(1) by (simp add: buf_wf_def)
  ultimately have p: "buf_position b < buf_limit b" "buf_limit b \<le> length (buf_mem b)" .
  have "buf_rem b ! 0 = buf_mem b ! buf_position b" using p by (simp add: buf_rem_def)
  with assms p show ?thesis
    by (simp add: sldns_buffer_read_u8_def sldns_buffer_read_u8_at_def peek8_def buf_rem_advance
        buf_wf_advance)
qed

lemma skip_rem:
  assumes "buf_wf b" "n \<le> length (buf_rem b)"
  shows "sldns_buffer_skip b (int n) = Some (buf_advance b n) \<and> buf_wf (buf_advance b n)"
proof -
  have "(int (buf_position b) + int n) mod int size_t_mod = int (buf_position b + n)"
    using assms by (auto simp: buf_wf_def)
  moreover have "buf_position b + n \<le> buf_limit b" using assms by (auto simp: buf_wf_def)
  ultimately show ?thesis
    using assms by (simp add: sldns_buffer_skip_def buf_advance_def buf_wf_def buf_mem_def Let_def)
qed

section \<open>Compressed names\<close>

inductive pkt_name :: "byte list \<Rightarrow> byte list \<Rightarrow> label list \<Rightarrow> nat \<Rightarrow> bool" for m where
  root: "pkt_name m (0 # d) [] 0"
| lab: "label_ok l \<Longrightarrow> pkt_name m d ls k \<Longrightarrow>
    pkt_name m (of_nat (length l) # l @ d) (l # ls) k"
| ptr: "LABEL_IS_PTR b \<Longrightarrow> unat (PTR_OFFSET b c) < length m \<Longrightarrow>
    pkt_name m (drop (unat (PTR_OFFSET b c)) m) ls k \<Longrightarrow> pkt_name m (b # c # d) ls (Suc k)"

inductive_cases pkt_name_ConsE: "pkt_name m (b # d) ls k"

lemma zero_not_ptr [simp]: "\<not> LABEL_IS_PTR 0" by simp

lemma pkt_name_Cons:
  "pkt_name m (b # d) ls k \<longleftrightarrow>
    (if b = 0 then ls = [] \<and> k = 0
     else if LABEL_IS_PTR b then
       \<exists>c r k'. d = c # r \<and> unat (PTR_OFFSET b c) < length m \<and> k = Suc k' \<and>
         pkt_name m (drop (unat (PTR_OFFSET b c)) m) ls k'
     else unat b < 64 \<and> unat b \<le> length d \<and>
       (\<exists>ls'. ls = take (unat b) d # ls' \<and> pkt_name m (drop (unat b) d) ls' k))"
proof (cases "b = 0")
  case True
  then show ?thesis by (auto elim: pkt_name_ConsE intro: pkt_name.intros)
next
  case b: False
  show ?thesis
  proof (cases "LABEL_IS_PTR b")
    case True
    with b show ?thesis by (auto elim!: pkt_name_ConsE intro: pkt_name.ptr)
  next
    case False
    have ub: "0 < unat b" using b by (simp add: unat_gt_0)
    have "d \<noteq> []" "label_ok (take (unat b) d)" "of_nat (length (take (unat b) d)) = b"
      if "unat b < 64" "unat b \<le> length d"
      using ub that by (auto simp: label_ok_def)
    with b False show ?thesis
      using pkt_name.lab [of "take (unat b) d" m "drop (unat b) d"]
      by (auto elim!: pkt_name_ConsE simp: label_ok_def)
  qed
qed

lemma pkt_name_lab_iff [simp]:
  "label_ok l \<Longrightarrow> pkt_name m (of_nat (length l) # l @ d) ls k \<longleftrightarrow> (\<exists>ls'. ls = l # ls' \<and> pkt_name m d ls' k)"
  by (subst pkt_name_Cons) (simp add: label_ok_def)

lemma pkt_name_root_iff [simp]: "pkt_name m (0 # d) ls k \<longleftrightarrow> ls = [] \<and> k = 0"
  by (subst pkt_name_Cons) simp

lemma pkt_name_ptr_iff:
  "LABEL_IS_PTR b \<Longrightarrow> unat (PTR_OFFSET b c) < length m \<Longrightarrow> pkt_name m (b # c # d) ls k \<longleftrightarrow>
     (\<exists>k'. k = Suc k' \<and> pkt_name m (drop (unat (PTR_OFFSET b c)) m) ls k')"
  by (cases "b = 0") (simp_all add: pkt_name_Cons [of m b])

lemma pkt_name_det:
  "pkt_name m d ls k \<Longrightarrow> pkt_name m d ls' k' \<Longrightarrow> ls' = ls \<and> k' = k"
proof (induction arbitrary: ls' k' rule: pkt_name.induct)
  case (lab l d ls k)
  from lab.prems lab.hyps(1) obtain ls0 where "ls' = l # ls0" "pkt_name m d ls0 k'" by auto
  with lab.IH show ?case by blast
next
  case (ptr b c ls k d)
  from ptr.prems ptr.hyps(1,2) obtain k0 where "k' = Suc k0"
    "pkt_name m (drop (unat (PTR_OFFSET b c)) m) ls' k0" by (auto simp: pkt_name_ptr_iff)
  with ptr.IH show ?case by blast
qed simp

lemma pkt_name_labels_ok: "pkt_name m d ls k \<Longrightarrow> labels_ok ls"
  by (induction rule: pkt_name.induct) auto

text \<open>The packet bytes of a buffer.\<close>

definition buf_pkt :: "sldns_buffer \<Rightarrow> byte list" where
  "buf_pkt b = take (buf_limit b) (buf_mem b)"

lemma buf_pkt_length [simp]: "buf_wf b \<Longrightarrow> length (buf_pkt b) = buf_limit b"
  by (simp add: buf_wf_def buf_pkt_def)

lemma buf_rem_pkt: "buf_rem b = drop (buf_position b) (buf_pkt b)"
  by (simp add: buf_rem_def buf_pkt_def)

lemma at_pkt:
  assumes "buf_wf b" "i \<le> buf_limit b"
  shows "sldns_buffer_at b i = Some (drop i (buf_pkt b) @ drop (buf_limit b) (buf_mem b))"
proof -
  have "buf_mem b = buf_pkt b @ drop (buf_limit b) (buf_mem b)" by (simp add: buf_pkt_def)
  then have "drop i (buf_mem b) = drop i (buf_pkt b @ drop (buf_limit b) (buf_mem b))" by simp
  also have "\<dots> = drop i (buf_pkt b) @ drop (buf_limit b) (buf_mem b)"
    using assms by (simp only: drop_append buf_pkt_length) simp
  finally show ?thesis using assms by (simp add: sldns_buffer_at_def)
qed

lemma dname_pkt_copy_loop_name:
  assumes "pkt_name (buf_pkt pkt) d ls k" "buf_wf pkt"
  shows "c + k \<le> 257 \<Longrightarrow> len + length (wire ls) \<le> 255 \<Longrightarrow>
    do { (l, d) \<leftarrow> rd1 (d @ r); dname_pkt_copy_loop pkt l d c len out } = Some (out @ wire ls)"
  using assms
proof (induction arbitrary: c len out r rule: pkt_name.induct)
  case (root d)
  then show ?case by (simp add: dname_pkt_copy_loop.simps)
next
  case (lab l d ls k)
  moreover have "peek_bytes (l @ d @ r) 0 (length l) = Some l" by (simp add: peek_bytes_def)
  moreover have "len + length l < 254"
    using lab.prems(2) length_wire [of ls] by simp
  ultimately show ?case
    by (simp add: dname_pkt_copy_loop.simps [of pkt "of_nat (length l)"] label_ok_def)
next
  case (ptr b c' ls k d)
  then have "b \<noteq> 0" by auto
  with ptr show ?case
    by (simp add: dname_pkt_copy_loop.simps [of pkt b] sldns_buffer_limit_def at_pkt)
qed


lemma hashlittle_total: "length key = n \<Longrightarrow> \<exists>h. hashlittle le addr ini key n i = Some h"
  by (simp add: hashlittle_def Let_def)

definition label_hash :: "bool \<Rightarrow> nat \<Rightarrow> u32 \<Rightarrow> label \<Rightarrow> u32 \<Rightarrow> u32" where
  "label_hash le addr raninit l h =
     the (hashlittle le addr raninit (of_nat (length l) # lower l) (length l + 1) h)"

lemma hashlittle_label:
  "hashlittle le addr raninit (of_nat (length l) # lower l) (length l + 1) h =
     Some (label_hash le addr raninit l h)"
  using hashlittle_total [of "of_nat (length l) # lower l" "length l + 1" le addr raninit h]
  by (auto simp: label_hash_def)

lemma dname_query_hash_wire:
  "labels_ok ls \<Longrightarrow> dname_query_hash le addr ini (wire ls @ r) h = Some (fold (label_hash le addr ini) ls h)"
proof (induction ls arbitrary: h)
  case Nil
  then show ?case by (simp add: dname_query_hash_def dname_query_hash_loop.simps)
next
  case (Cons l ls)
  have "peek_bytes (l @ wire ls @ r) 0 (length l) = Some l" by (simp add: peek_bytes_def)
  with Cons hashlittle_label [of le addr ini l h] show ?case
    by (simp add: dname_query_hash_def dname_query_hash_loop.simps [of _ _ _ "of_nat (length l)"]
        label_ok_def)
qed

lemma dname_pkt_hash_loop_name:
  assumes "pkt_name (buf_pkt pkt) d ls k" "buf_wf pkt"
  shows "c + k \<le> 257 \<Longrightarrow>
    do { (l, d) \<leftarrow> rd1 (d @ r); dname_pkt_hash_loop le addr ini pkt l d c h } =
      Some (fold (label_hash le addr ini) ls h)"
  using assms
proof (induction arbitrary: c h r rule: pkt_name.induct)
  case (root d)
  then show ?case by (simp add: dname_pkt_hash_loop.simps)
next
  case (lab l d ls k)
  have "peek_bytes (l @ d @ r) 0 (length l) = Some l" by (simp add: peek_bytes_def)
  with lab hashlittle_label [of le addr ini l h] show ?case
    by (simp add: dname_pkt_hash_loop.simps [of _ _ _ pkt "of_nat (length l)"] label_ok_def)
next
  case (ptr b c' ls k d)
  then have "b \<noteq> 0" by auto
  with ptr show ?case
    by (simp add: dname_pkt_hash_loop.simps [of _ _ _ pkt b] sldns_buffer_limit_def at_pkt)
qed

lemma label_hash_lower: "lower a = lower b \<Longrightarrow> label_hash le addr ini a = label_hash le addr ini b"
proof
  fix h assume "lower a = lower b"
  moreover from this have "length a = length b" by (metis length_map)
  ultimately show "label_hash le addr ini a h = label_hash le addr ini b h"
    by (simp add: label_hash_def)
qed

lemma fold_label_hash_lowers:
  "lowers a = lowers b \<Longrightarrow> fold (label_hash le addr ini) a h = fold (label_hash le addr ini) b h"
proof (induction a arbitrary: b h)
  case (Cons x a)
  from Cons.prems obtain y b' where b: "b = y # b'" "lower x = lower y" "lowers a = lowers b'"
    by (cases b) simp_all
  then show ?case using Cons.IH [OF b(3)] label_hash_lower [OF b(2), of le addr ini] by simp
qed simp


lemma pkt_name_nonempty: "pkt_name m d ls k \<Longrightarrow> \<exists>b d'. d = b # d'"
  by (induction rule: pkt_name.induct) auto

text \<open>A name at a pointer whose first byte has been read and that has followed \<open>c\<close> pointers.\<close>

definition name_at :: "sldns_buffer \<Rightarrow> nat \<Rightarrow> byte \<Rightarrow> byte list \<Rightarrow> label list \<Rightarrow> bool" where
  "name_at pkt c l d ls \<longleftrightarrow>
     (\<exists>e r k. pkt_name (buf_pkt pkt) e ls k \<and> l # d = e @ r \<and> c + k \<le> 257)"

lemma name_at_root: "name_at pkt c 0 d ls \<Longrightarrow> ls = []"
  by (auto simp: name_at_def Cons_eq_append_conv dest: pkt_name_nonempty)

lemma name_at_lab:
  assumes "name_at pkt c l d ls" "l \<noteq> 0" "\<not> LABEL_IS_PTR l"
  obtains x l' d' ls' where "ls = x # ls'" "label_ok x" "l = of_nat (length x)" "d = x @ l' # d'"
    "name_at pkt c l' d' ls'"
proof -
  from assms(1) obtain e r k where n: "pkt_name (buf_pkt pkt) e ls k" "l # d = e @ r" "c + k \<le> 257"
    by (auto simp: name_at_def)
  from n(1) show ?thesis
  proof (cases rule: pkt_name.cases)
    case (lab x e' ls')
    from pkt_name_nonempty [OF lab(4)] obtain l' e'' where e': "e' = l' # e''" by blast
    with lab n(3) have "name_at pkt c l' (e'' @ r) ls'"
      unfolding name_at_def by (intro exI [of _ "l' # e''"] exI [of _ r] exI [of _ k]) simp
    with that lab n(2) e' show ?thesis by simp
  qed (use assms n(2) in auto)
qed

lemma name_at_ptr:
  assumes "name_at pkt c l d ls" "LABEL_IS_PTR l" "buf_wf pkt"
  obtains o1 r l' d' where "d = o1 # r" "unat (PTR_OFFSET l o1) < buf_limit pkt" "c \<le> 256"
    "sldns_buffer_at pkt (unat (PTR_OFFSET l o1)) = Some (l' # d')" "name_at pkt (c + 1) l' d' ls"
proof -
  from assms(1) obtain e r k where n: "pkt_name (buf_pkt pkt) e ls k" "l # d = e @ r" "c + k \<le> 257"
    by (auto simp: name_at_def)
  from n(1) show ?thesis
  proof (cases rule: pkt_name.cases)
    case (ptr b o1 k' e')
    let ?o = "unat (PTR_OFFSET b o1)"
    from ptr n(2) have b: "b = l" by simp
    from pkt_name_nonempty [OF ptr(5)] obtain l' e'' where e'': "drop ?o (buf_pkt pkt) = l' # e''"
      by blast
    let ?d = "e'' @ drop (buf_limit pkt) (buf_mem pkt)"
    have "sldns_buffer_at pkt ?o = Some (l' # ?d)"
      using at_pkt [OF assms(3), of ?o] ptr(4) e'' assms(3) by simp
    moreover have "name_at pkt (c + 1) l' ?d ls"
      unfolding name_at_def using ptr(5) n(3) ptr(2) e''
      by (intro exI [of _ "l' # e''"] exI [of _ "drop (buf_limit pkt) (buf_mem pkt)"] exI [of _ k']) simp
    ultimately show ?thesis using that ptr n(2,3) b assms(3) by simp
  qed (use assms n(2) in auto)
qed

lemma dname_pkt_compare_loop_name:
  assumes "buf_wf pkt" "name_at pkt c1 l1 d1 a" "name_at pkt c2 l2 d2 b"
  shows "dname_pkt_compare_loop pkt l1 d1 c1 l2 d2 c2 = Some (lexcmp len_label_cmp a b)"
  using assms
proof (induction pkt l1 d1 c1 l2 d2 c2 arbitrary: a b rule: dname_pkt_compare_loop.induct)
  case (1 pkt l1 d1 c1 l2 d2 c2)
  consider (root) "l1 = 0" "l2 = 0" | (p1) "LABEL_IS_PTR l1" | (p2) "\<not> LABEL_IS_PTR l1" "LABEL_IS_PTR l2"
    | (lab) "\<not> LABEL_IS_PTR l1" "\<not> LABEL_IS_PTR l2" "l1 \<noteq> 0 \<or> l2 \<noteq> 0" by blast
  then show ?case
  proof cases
    case root
    with "1.prems" show ?thesis
      by (auto simp: dname_pkt_compare_loop.simps [of _ 0] dest: name_at_root)
  next
    case p1
    from name_at_ptr [OF "1.prems"(2) p1 "1.prems"(1)] obtain o1 r l' d' where
      n: "d1 = o1 # r" "unat (PTR_OFFSET l1 o1) < buf_limit pkt" "c1 \<le> 256"
      "sldns_buffer_at pkt (unat (PTR_OFFSET l1 o1)) = Some (l' # d')" "name_at pkt (c1 + 1) l' d' a" .
    from p1 have "l1 \<noteq> 0" by auto
    with p1 n "1.IH"(1) [of "(o1, r)" o1 r "l' # d'" "(l', d')" l' d'] "1.prems" show ?thesis
      by (simp add: dname_pkt_compare_loop.simps [of pkt l1] sldns_buffer_limit_def)
  next
    case p2
    from name_at_ptr [OF "1.prems"(3) p2(2) "1.prems"(1)] obtain o2 r l' d' where
      n: "d2 = o2 # r" "unat (PTR_OFFSET l2 o2) < buf_limit pkt" "c2 \<le> 256"
      "sldns_buffer_at pkt (unat (PTR_OFFSET l2 o2)) = Some (l' # d')" "name_at pkt (c2 + 1) l' d' b" .
    from p2 have "l2 \<noteq> 0" by auto
    with p2 n "1.IH"(2) [of "(o2, r)" o2 r "l' # d'" "(l', d')" l' d'] "1.prems" show ?thesis
      by (simp add: dname_pkt_compare_loop.simps [of pkt l1] sldns_buffer_limit_def)
  next
    case lab
    show ?thesis
    proof (cases "l1 = 0 \<or> l2 = 0")
      case True
      with lab(3) consider "l1 = 0" "l2 \<noteq> 0" | "l1 \<noteq> 0" "l2 = 0" by blast
      then show ?thesis
      proof cases
        case 1
        from name_at_lab [OF "1.prems"(3) 1(2) lab(2)] obtain y l2' d2' b' where
          y: "b = y # b'" "label_ok y" "l2 = of_nat (length y)" "d2 = y @ l2' # d2'" .
        moreover from y(2) have "length y \<le> 63" by (simp add: label_ok_def)
        moreover from 1(1) "1.prems"(2) have "a = []" by (auto dest: name_at_root)
        ultimately show ?thesis using 1
          by (simp add: dname_pkt_compare_loop.simps [of pkt 0] flip: word_neq_0_conv)
      next
        case 2
        from name_at_lab [OF "1.prems"(2) 2(1) lab(1)] obtain x l1' d1' a' where
          x: "a = x # a'" "label_ok x" "l1 = of_nat (length x)" "d1 = x @ l1' # d1'" .
        from 2(2) "1.prems"(3) have "b = []" by (auto dest: name_at_root)
        with 2 x show ?thesis
          by (simp add: dname_pkt_compare_loop.simps [of pkt "of_nat (length x)"] label_ok_def)
      qed
    next
      case False
      from name_at_lab [OF "1.prems"(2) _ lab(1)] False obtain x l1' d1' a' where
        x: "a = x # a'" "label_ok x" "l1 = of_nat (length x)" "d1 = x @ l1' # d1'"
        "name_at pkt c1 l1' d1' a'" by metis
      from name_at_lab [OF "1.prems"(3) _ lab(2)] False obtain y l2' d2' b' where
        y: "b = y # b'" "label_ok y" "l2 = of_nat (length y)" "d2 = y @ l2' # d2'"
        "name_at pkt c2 l2' d2' b'" by metis
      have eq: "l1 = l2 \<longleftrightarrow> length x = length y"
        using x y label_ok_byte(1) by metis
      show ?thesis
      proof (cases "length x = length y")
        case True
        then have m: "memlowercmp d1 d2 (length x) = Some (canon_label_cmp x y)"
          by (simp add: x y memlowercmp_labels)
        show ?thesis
          using "1.IH"(3) [of "()" "()" 0 "(l1', d1')" l1' d1' "(l2', d2')" l2' d2' a' b']
            True eq x y lab m "1.prems"(1)
          by (simp add: dname_pkt_compare_loop.simps [of pkt "of_nat (length y)"]
              len_label_cmp_cases [of x y] label_ok_def)
      next
        case False
        with eq x y lab show ?thesis
          by (simp add: dname_pkt_compare_loop.simps [of pkt "of_nat (length x)"] len_byte_less
              len_label_cmp_cases label_ok_def)
      qed
    qed
  qed
qed


section \<open>pkt_dname_len\<close>

lemma set_position_pkt:
  "buf_wf b \<Longrightarrow> p \<le> buf_limit b \<Longrightarrow> sldns_buffer_set_position b p = Some (b\<lparr>buf_position := p\<rparr>) \<and>
    buf_wf (b\<lparr>buf_position := p\<rparr>) \<and> buf_pkt (b\<lparr>buf_position := p\<rparr>) = buf_pkt b \<and>
    buf_rem (b\<lparr>buf_position := p\<rparr>) = drop p (buf_pkt b)"
  by (simp add: sldns_buffer_set_position_def buf_wf_def buf_pkt_def buf_mem_def buf_rem_def)

lemma buf_pkt_advance [simp]: "buf_pkt (buf_advance b n) = buf_pkt b"
  by (simp add: buf_pkt_def)

lemma pkt_dname_len_loop_empty:
  "buf_wf pkt \<Longrightarrow> buf_rem pkt = [] \<Longrightarrow> pkt_dname_len_loop pkt len c e = Some (0, pkt)"
  by (subst pkt_dname_len_loop.simps) (simp add: remaining_rem del: buf_rem_length buf_wf_remaining)

lemma pkt_dname_len_loop_ptr:
  assumes "buf_wf pkt" "buf_rem pkt = l # o1 # r" "LABEL_IS_PTR l"
  shows "pkt_dname_len_loop pkt len c e =
    (if c > 256 \<or> buf_limit pkt \<le> unat (PTR_OFFSET l o1) then Some (0, buf_advance pkt 2)
     else pkt_dname_len_loop (pkt\<lparr>buf_position := unat (PTR_OFFSET l o1)\<rparr>) len (c + 1)
       (if e = 0 then buf_position pkt + 2 else e))"
proof -
  note r1 = read_u8_rem [OF assms(1,2)]
  then have w1: "buf_wf (buf_advance pkt 1)" "buf_rem (buf_advance pkt 1) = o1 # r" by auto
  note r2 = read_u8_rem [OF w1]
  have a2: "buf_advance (buf_advance pkt 1) 1 = buf_advance pkt 2"
    by (simp add: buf_advance_def)
  show ?thesis
    using assms r1 r2 w1 a2
    by (subst pkt_dname_len_loop.simps)
      (simp add: remaining_rem sldns_buffer_limit_def sldns_buffer_position_def
        sldns_buffer_set_position_def Let_def buf_advance_def del: buf_rem_length buf_wf_remaining)
qed


lemma pkt_dname_len_loop_ptr1:
  assumes "buf_wf pkt" "buf_rem pkt = [l]" "LABEL_IS_PTR l"
  shows "pkt_dname_len_loop pkt len c e = Some (0, buf_advance pkt 1)"
  using assms read_u8_rem [OF assms(1,2)]
  by (subst pkt_dname_len_loop.simps) (simp add: remaining_rem del: buf_rem_length buf_wf_remaining)

lemma pkt_dname_len_loop_lab:
  assumes "buf_wf pkt" "buf_rem pkt = l # r" "\<not> LABEL_IS_PTR l"
  shows "pkt_dname_len_loop pkt len c e =
    (if unat l > 63 \<or> len + 1 + unat l > 255 then Some (0, buf_advance pkt 1)
     else if l = 0 then
       if e \<noteq> 0 then map_option (Pair (len + 1)) (sldns_buffer_set_position (buf_advance pkt 1) e)
       else Some (len + 1, buf_advance pkt 1)
     else if length r < unat l then Some (0, buf_advance pkt 1)
     else pkt_dname_len_loop (buf_advance pkt (1 + unat l)) (len + 1 + unat l) c e)"
proof -
  note r1 = read_u8_rem [OF assms(1,2)]
  then have w1: "buf_wf (buf_advance pkt 1)" "buf_rem (buf_advance pkt 1) = r" by auto
  have a2: "buf_advance (buf_advance pkt 1) n = buf_advance pkt (1 + n)" for n
    by (simp add: buf_advance_def)
  have s: "unat l \<le> length r \<Longrightarrow>
      sldns_buffer_skip (buf_advance pkt 1) (int (unat l)) = Some (buf_advance pkt (1 + unat l))"
    using skip_rem [OF w1(1), of "unat l"] w1(2) a2 by simp
  show ?thesis
    using assms r1 w1 s
    by (subst pkt_dname_len_loop.simps)
      (auto simp: remaining_rem Let_def map_option_case split: option.split
        simp del: buf_rem_length buf_wf_remaining)
qed


text \<open>
  What a run of the loop promises: it returns, it keeps the buffer well formed, and a nonzero length
  is the length of the name that starts at the position.
\<close>

definition len_post ::
    "sldns_buffer \<Rightarrow> nat \<Rightarrow> nat \<Rightarrow> nat \<Rightarrow> (nat \<times> sldns_buffer) option \<Rightarrow> bool" where
  "len_post pkt len c e r \<longleftrightarrow> (\<exists>n pkt'. r = Some (n, pkt') \<and> buf_wf pkt' \<and> n \<le> 255 \<and>
    (n \<noteq> 0 \<longrightarrow> buf_position pkt' \<ge> (if e = 0 then buf_position pkt + 1 else e) \<and>
      (\<exists>ls k. pkt_name (buf_pkt pkt) (buf_rem pkt) ls k \<and> c + k \<le> 257 \<and>
        n = len + length (wire ls))))"

lemma len_post_fail: "buf_wf pkt' \<Longrightarrow> len_post pkt len c e (Some (0, pkt'))"
  by (simp add: len_post_def)

lemma len_post_ptr:
  assumes "buf_wf pkt" "buf_rem pkt = l # o1 # r" "LABEL_IS_PTR l"
    "unat (PTR_OFFSET l o1) < buf_limit pkt"
    "len_post (pkt\<lparr>buf_position := unat (PTR_OFFSET l o1)\<rparr>) len (c + 1) e' res"
    "e' = (if e = 0 then buf_position pkt + 2 else e)"
  shows "len_post pkt len c e res"
proof -
  let ?o = "unat (PTR_OFFSET l o1)"
  have e': "e' \<noteq> 0" "e' \<ge> (if e = 0 then buf_position pkt + 1 else e)" using assms(6) by auto
  from assms(5) obtain n pkt' where n: "res = Some (n, pkt')" "buf_wf pkt'" "n \<le> 255"
    by (auto simp: len_post_def)
  show ?thesis
  proof (cases "n = 0")
    case False
    with assms(5) n(1) e'(1) obtain ls k where
      k: "buf_position pkt' \<ge> e'" "c + 1 + k \<le> 257" "n = len + length (wire ls)"
      "pkt_name (buf_pkt (pkt\<lparr>buf_position := ?o\<rparr>)) (buf_rem (pkt\<lparr>buf_position := ?o\<rparr>)) ls k"
      unfolding len_post_def by auto
    then have "pkt_name (buf_pkt pkt) (buf_rem pkt) ls (Suc k)"
      unfolding assms(2) using assms(1,3,4) set_position_pkt [OF assms(1), of ?o]
      by (intro pkt_name.ptr) simp_all
    moreover have "c + Suc k \<le> 257" using k(2) by simp
    ultimately show ?thesis
      unfolding len_post_def using n k(1,3) e'(2) order_trans [OF e'(2) k(1)] by blast
  qed (simp add: n len_post_fail)
qed

lemma len_post_lab:
  assumes "buf_wf pkt" "buf_rem pkt = l # r" "unat l \<le> 63" "l \<noteq> 0" "unat l \<le> length r"
    "len_post (buf_advance pkt (1 + unat l)) (len + 1 + unat l) c e res"
  shows "len_post pkt len c e res"
proof -
  from assms(6) obtain n pkt' where n: "res = Some (n, pkt')" "buf_wf pkt'" "n \<le> 255"
    by (auto simp: len_post_def)
  show ?thesis
  proof (cases "n = 0")
    case False
    with assms(6) n(1) obtain ls k where
      k: "buf_position pkt' \<ge> (if e = 0 then buf_position (buf_advance pkt (1 + unat l)) + 1 else e)"
      "c + k \<le> 257" "n = len + 1 + unat l + length (wire ls)"
      "pkt_name (buf_pkt pkt) (buf_rem (buf_advance pkt (1 + unat l))) ls k"
      unfolding len_post_def by auto
    have "pkt_name (buf_pkt pkt) (buf_rem pkt) (take (unat l) r # ls) k"
      using assms(2-5) k(4) by (simp add: pkt_name_Cons buf_rem_advance)
    moreover have "n = len + length (wire (take (unat l) r # ls))" using assms(5) k(3) by simp
    moreover have "buf_position pkt' \<ge> (if e = 0 then buf_position pkt + 1 else e)"
      using k(1) by (simp split: if_splits)
    ultimately show ?thesis
      unfolding len_post_def using n k(2) by blast
  qed (simp add: n len_post_fail)
qed

lemma len_post_root:
  assumes "buf_wf pkt" "buf_rem pkt = 0 # r" "e \<le> buf_limit pkt" "len + 1 \<le> 255" "c \<le> 257"
  shows "len_post pkt len c e (if e \<noteq> 0
     then map_option (Pair (len + 1)) (sldns_buffer_set_position (buf_advance pkt 1) e)
     else Some (len + 1, buf_advance pkt 1))"
proof -
  have wf: "buf_wf (buf_advance pkt 1)" using read_u8_rem [OF assms(1,2)] by simp
  have "\<exists>ls k. pkt_name (buf_pkt pkt) (buf_rem pkt) ls k \<and> c + k \<le> 257 \<and>
      len + 1 = len + length (wire ls)"
    using assms(2,5) by (intro exI [of _ "[]"] exI [of _ 0]) simp
  with wf assms(3,4) set_position_pkt [OF wf, of e] show ?thesis
    by (cases "e = 0") (simp_all add: len_post_def)
qed

lemma pkt_dname_len_loop_post:
  assumes "buf_wf pkt" "e \<le> buf_limit pkt" "c \<le> 257"
  shows "len_post pkt len c e (pkt_dname_len_loop pkt len c e)"
  using assms
proof (induction "(258 - c) + (256 - len)" arbitrary: pkt c len e rule: less_induct)
  case less
  note wf = less.prems(1)
  show ?case
  proof (cases "buf_rem pkt")
    case Nil
    with wf show ?thesis by (simp add: pkt_dname_len_loop_empty len_post_fail)
  next
    case (Cons l r)
    note rem = this
    note w1 = read_u8_rem [OF wf rem]
    consider (ptr1) "LABEL_IS_PTR l" "r = []" | (ptr) o1 r' where "LABEL_IS_PTR l" "r = o1 # r'"
      | (lab) "\<not> LABEL_IS_PTR l" by (cases r) auto
    then show ?thesis
    proof cases
      case ptr1
      with wf rem w1 show ?thesis by (simp add: pkt_dname_len_loop_ptr1 len_post_fail)
    next
      case (ptr o1 r')
      let ?o = "unat (PTR_OFFSET l o1)"
      have rem': "buf_rem pkt = l # o1 # r'" using rem ptr by simp
      have len2: "buf_position pkt + 2 \<le> buf_limit pkt"
        using arg_cong [OF rem', of length] wf by simp
      define e' where "e' = (if e = 0 then buf_position pkt + 2 else e)"
      have "e' \<le> buf_limit pkt" using len2 less.prems(2) by (simp add: e'_def)
      moreover note set_position_pkt [OF wf, of ?o]
      ultimately have "len_post (pkt\<lparr>buf_position := ?o\<rparr>) len (c + 1) e'
          (pkt_dname_len_loop (pkt\<lparr>buf_position := ?o\<rparr>) len (c + 1) e')"
        if "c \<le> 256" "?o < buf_limit pkt"
        using less.hyps [of "c + 1" len "pkt\<lparr>buf_position := ?o\<rparr>" e'] that by simp
      with wf len2 show ?thesis
        unfolding pkt_dname_len_loop_ptr [OF wf rem' ptr(1)] e'_def [symmetric]
        using len_post_ptr [OF wf rem' ptr(1) _ _ e'_def, of len c]
        by (simp add: len_post_fail buf_wf_advance not_less)
    next
      case lab
      have root: "len_post pkt len c e (pkt_dname_len_loop pkt len c e)" if "l = 0" "len + 1 \<le> 255"
        using that pkt_dname_len_loop_lab [OF wf rem lab, of len c e]
          len_post_root [OF wf _ less.prems(2), of r len c] rem less.prems(3) by simp
      have "len_post (buf_advance pkt (1 + unat l)) (len + 1 + unat l) c e
          (pkt_dname_len_loop (buf_advance pkt (1 + unat l)) (len + 1 + unat l) c e)"
        if "l \<noteq> 0" "unat l \<le> length r" "len + 1 + unat l \<le> 255"
      proof (rule less.hyps)
        show "buf_wf (buf_advance pkt (1 + unat l))"
          using that skip_rem [OF wf, of "1 + unat l"] rem by simp
      qed (use that less.prems(2,3) in \<open>auto simp: unat_gt_0\<close>)
      with wf w1 root show ?thesis
        using pkt_dname_len_loop_lab [OF wf rem lab, of len c e] len_post_lab [OF wf rem, of len c e]
        by (cases "l = 0") (simp_all add: len_post_fail not_less)
    qed
  qed
qed


lemma pkt_dname_len_loop_complete:
  assumes "pkt_name m d ls k" "buf_wf pkt" "buf_pkt pkt = m" "buf_rem pkt = d" "c + k \<le> 257"
    "len + length (wire ls) \<le> 255" "e \<le> buf_limit pkt"
  shows "\<exists>pkt'. pkt_dname_len_loop pkt len c e = Some (len + length (wire ls), pkt')"
  using assms
proof (induction arbitrary: pkt c len e rule: pkt_name.induct)
  case (root d)
  have "buf_wf (buf_advance pkt 1)" using read_u8_rem [OF root(1,3)] by simp
  with root show ?case
    by (cases "e = 0") (simp_all add: pkt_dname_len_loop_lab set_position_pkt)
next
  case (lab l d ls k)
  let ?p = "buf_advance pkt (1 + length l)"
  have "buf_wf ?p" using skip_rem [OF lab.prems(1), of "1 + length l"] lab.prems(3) by simp
  moreover have "buf_rem ?p = d" using lab.prems(3) by (simp add: buf_rem_advance)
  ultimately have "\<exists>pkt'. pkt_dname_len_loop ?p (len + 1 + length l) c e =
      Some (len + 1 + length l + length (wire ls), pkt')"
    using lab.IH [of ?p c "len + 1 + length l" e] lab.prems by simp
  moreover have "len + length l < 254" "length l \<le> 63"
    using lab.prems(5) length_wire [of ls] lab.hyps(1) by (simp_all add: label_ok_def)
  ultimately show ?case
    using lab.hyps(1) pkt_dname_len_loop_lab [OF lab.prems(1,3), of len c e]
    by (simp add: add.assoc)
next
  case (ptr b o1 ls k d)
  let ?p = "pkt\<lparr>buf_position := unat (PTR_OFFSET b o1)\<rparr>"
  have lim: "unat (PTR_OFFSET b o1) < buf_limit pkt" using ptr.hyps(2) ptr.prems(1,2) by auto
  have "buf_position pkt + 2 \<le> buf_limit pkt"
    using arg_cong [OF ptr.prems(3), of length] ptr.prems(1) by simp
  then have "(if e = 0 then buf_position pkt + 2 else e) \<le> buf_limit pkt"
    using ptr.prems(6) by simp
  with ptr.IH [of ?p "c + 1" len "if e = 0 then buf_position pkt + 2 else e"] ptr.prems lim
    set_position_pkt [OF ptr.prems(1), of "unat (PTR_OFFSET b o1)"]
  have "\<exists>pkt'. pkt_dname_len_loop ?p len (c + 1) (if e = 0 then buf_position pkt + 2 else e) =
      Some (len + length (wire ls), pkt')" by simp
  with ptr.prems(4) lim show ?case
    by (simp add: pkt_dname_len_loop_ptr [OF ptr.prems(1,3) ptr.hyps(1)])
qed

lemma pkt_dname_len_iff:
  assumes "buf_wf pkt" "n \<noteq> 0"
  shows "(\<exists>pkt'. pkt_dname_len pkt = Some (n, pkt')) \<longleftrightarrow>
    (\<exists>ls k. pkt_name (buf_pkt pkt) (buf_rem pkt) ls k \<and> k \<le> 257 \<and> n = length (wire ls) \<and> n \<le> 255)"
proof
  assume "\<exists>pkt'. pkt_dname_len pkt = Some (n, pkt')"
  then obtain pkt' where "pkt_dname_len_loop pkt 0 0 0 = Some (n, pkt')"
    by (auto simp: pkt_dname_len_def)
  with pkt_dname_len_loop_post [OF assms(1), of 0 0 0] assms(2) show
    "\<exists>ls k. pkt_name (buf_pkt pkt) (buf_rem pkt) ls k \<and> k \<le> 257 \<and> n = length (wire ls) \<and> n \<le> 255"
    by (auto simp: len_post_def)
next
  assume "\<exists>ls k. pkt_name (buf_pkt pkt) (buf_rem pkt) ls k \<and> k \<le> 257 \<and> n = length (wire ls) \<and> n \<le> 255"
  with pkt_dname_len_loop_complete [OF _ assms(1) refl refl, of _ _ 0 0 0] show
    "\<exists>pkt'. pkt_dname_len pkt = Some (n, pkt')"
    by (auto simp: pkt_dname_len_def)
qed

section \<open>query_dname_len\<close>

lemma query_dname_len_loop_step:
  assumes "buf_wf q" "buf_rem q = l # r"
  shows "query_dname_len_loop q len =
    (if unat l > 63 \<or> len + unat l + 1 > 255 then Some (0, buf_advance q 1)
     else if l = 0 then Some (len + 1, buf_advance q 1)
     else if length r < unat l then Some (0, buf_advance q 1)
     else query_dname_len_loop (buf_advance q (1 + unat l)) (len + unat l + 1))"
proof -
  note r1 = read_u8_rem [OF assms]
  then have w1: "buf_wf (buf_advance q 1)" "buf_rem (buf_advance q 1) = r" by auto
  have s: "unat l \<le> length r \<Longrightarrow>
      sldns_buffer_skip (buf_advance q 1) (int (unat l)) = Some (buf_advance q (1 + unat l))"
    using skip_rem [OF w1(1), of "unat l"] w1(2) by (simp add: buf_advance_def)
  have c0: "l AND 0xc0 = 0 \<longleftrightarrow> \<not> unat l > 63" by (auto simp: and_c0_eq_0)
  show ?thesis
    using assms r1 w1 s c0
    by (subst query_dname_len_loop.simps)
      (simp add: remaining_rem Let_def del: buf_rem_length buf_wf_remaining)
qed

lemma query_dname_len_loop_total:
  assumes "buf_wf q"
  shows "\<exists>n q'. query_dname_len_loop q len = Some (n, q') \<and> buf_wf q' \<and>
    (n \<noteq> 0 \<longrightarrow> n \<le> 255 \<and> (\<exists>ls. labels_of (buf_rem q) = Some ls \<and> n = len + length (wire ls) \<and>
      q' = buf_advance q (length (wire ls))))"
  using assms
proof (induction "256 - len" arbitrary: q len rule: less_induct)
  case less
  show ?case
  proof (cases "buf_rem q")
    case Nil
    with less.prems show ?thesis
      by (subst query_dname_len_loop.simps)
        (simp add: remaining_rem del: buf_rem_length buf_wf_remaining)
  next
    case (Cons l r)
    note step = query_dname_len_loop_step [OF less.prems Cons]
    note w1 = read_u8_rem [OF less.prems Cons]
    show ?thesis
    proof (cases "unat l > 63 \<or> len + unat l + 1 > 255 \<or> l = 0 \<or> length r < unat l")
      case True
      with w1 Cons show ?thesis by (auto simp: step)
    next
      case False
      let ?q = "buf_advance q (1 + unat l)"
      have "buf_wf ?q" using skip_rem [OF less.prems, of "1 + unat l"] False Cons by simp
      moreover have "256 - (len + unat l + 1) < 256 - len" using False by auto
      ultimately obtain n q' where
        n: "query_dname_len_loop ?q (len + unat l + 1) = Some (n, q')" "buf_wf q'"
        "n \<noteq> 0 \<Longrightarrow> n \<le> 255" "n \<noteq> 0 \<Longrightarrow> \<exists>ls. labels_of (buf_rem ?q) = Some ls \<and>
           n = len + unat l + 1 + length (wire ls) \<and> q' = buf_advance ?q (length (wire ls))"
        using less.hyps [of "len + unat l + 1" ?q] by blast
      moreover have "\<exists>ls. labels_of (buf_rem q) = Some ls \<and>
           n = len + length (wire ls) \<and> q' = buf_advance q (length (wire ls))" if nz: "n \<noteq> 0"
      proof -
        from n(4) [OF nz] obtain ls where "labels_of (drop (unat l) r) = Some ls"
          "n = len + unat l + 1 + length (wire ls)" "q' = buf_advance ?q (length (wire ls))"
          by (auto simp: buf_rem_advance Cons)
        with False Cons show ?thesis
          by (intro exI [of _ "take (unat l) r # ls"]) (auto simp: buf_advance_def)
      qed
      ultimately show ?thesis using False by (auto simp: step)
    qed
  qed
qed

end
