(* ===== verification/Dname_Props.thy ===== *)
theory Dname_Props
  imports Dname_Packet
begin

text \<open>
  Writing, lower-casing and cutting names, and the properties of the functions of
  \<open>util/data/dname.c\<close>, stated over the list of labels a name in memory stands for.
\<close>

section \<open>dname_buffer_write\<close>

definition buf_put :: "sldns_buffer \<Rightarrow> byte list \<Rightarrow> sldns_buffer" where
  "buf_put b xs = b\<lparr>
     buf_data := Some (take (buf_position b) (buf_mem b) @ xs @
       drop (buf_position b + length xs) (buf_mem b)),
     buf_position := buf_position b + length xs\<rparr>"

lemma buf_put_simps [simp]:
  "buf_position (buf_put b xs) = buf_position b + length xs"
  "buf_limit (buf_put b xs) = buf_limit b"
  by (simp_all add: buf_put_def)

lemma buf_put_wf:
  "buf_wf b \<Longrightarrow> length xs \<le> buf_limit b - buf_position b \<Longrightarrow> buf_wf (buf_put b xs)"
  by (auto simp: buf_wf_def buf_put_def buf_mem_def)

lemma buf_put_put:
  assumes "buf_wf b" "length xs \<le> buf_limit b - buf_position b"
  shows "buf_put (buf_put b xs) ys = buf_put b (xs @ ys)"
proof -
  have "buf_position b \<le> length (buf_mem b)" using assms by (simp add: buf_wf_def)
  then show ?thesis
    by (simp add: buf_put_def buf_mem_def ac_simps)
qed

lemma write_put:
  assumes "buf_wf b" "n = length xs" "n \<le> buf_limit b - buf_position b"
  shows "sldns_buffer_write b (xs @ r) n = Some (buf_put b xs)"
  using assms
  by (auto simp: sldns_buffer_write_def sldns_buffer_write_at_def buf_poke_def poke_bytes_def
      buf_put_def buf_advance_def buf_wf_def peek_bytes_def)

lemma write_u8_put:
  assumes "buf_wf b" "1 \<le> buf_limit b - buf_position b"
  shows "sldns_buffer_write_u8 b v = Some (buf_put b [v])"
  using assms
  by (auto simp: sldns_buffer_write_u8_def sldns_buffer_write_u8_at_def buf_poke_def poke_bytes_def
      buf_put_def buf_advance_def buf_wf_def)


lemma dname_buffer_write_loop_wire:
  assumes "labels_ok ls" "buf_wf pkt"
  shows "\<exists>ok pkt'. do { (l, d) \<leftarrow> rd1 (wire ls @ r); dname_buffer_write_loop pkt l d } = Some (ok, pkt') \<and>
    buf_wf pkt' \<and> (ok \<longleftrightarrow> length (wire ls) \<le> 1 + (buf_limit pkt - buf_position pkt)) \<and>
    (ok \<longrightarrow> pkt' = buf_put pkt (tl (wire ls)))"
  using assms
proof (induction ls arbitrary: pkt)
  case Nil
  have "buf_put pkt [] = pkt" if "buf_wf pkt"
    using that by (cases pkt) (auto simp: buf_put_def buf_mem_def buf_wf_def)
  with Nil show ?case by (auto simp: dname_buffer_write_loop.simps)
next
  case (Cons x ls)
  obtain l' d' where t: "wire ls @ r = l' # d'" by (cases "wire ls") auto
  then have t': "wire ls = l' # tl (wire ls)" by (cases "wire ls") auto
  show ?case
  proof (cases "length x + 1 \<le> buf_limit pkt - buf_position pkt")
    case False
    then have "\<not> length (wire (x # ls)) \<le> 1 + (buf_limit pkt - buf_position pkt)"
      using length_wire [of ls] by simp
    with False Cons.prems show ?thesis
      by (intro exI [of _ False] exI [of _ pkt]) (simp add: dname_buffer_write_loop.simps [of pkt "of_nat (length x)"])
  next
    case True
    let ?p = "buf_put (buf_put pkt x) [l']"
    have p1: "buf_wf (buf_put pkt x)" using Cons.prems True by (intro buf_put_wf) simp_all
    have p2: "buf_wf ?p" using True by (intro buf_put_wf [OF p1]) simp
    from Cons.IH [OF _ p2] Cons.prems t obtain ok pkt' where
      IH: "dname_buffer_write_loop ?p l' d' = Some (ok, pkt')" "buf_wf pkt'"
      "ok \<longleftrightarrow> length (wire ls) \<le> 1 + (buf_limit ?p - buf_position ?p)"
      "ok \<longrightarrow> pkt' = buf_put ?p (tl (wire ls))" by auto
    have "sldns_buffer_write pkt (x @ wire ls @ r) (length x) = Some (buf_put pkt x)"
      using Cons.prems True by (intro write_put) simp_all
    moreover have "sldns_buffer_write_u8 (buf_put pkt x) l' = Some ?p"
      using p1 True by (intro write_u8_put) simp_all
    ultimately have "do { (l, d) \<leftarrow> rd1 (wire (x # ls) @ r); dname_buffer_write_loop pkt l d } = Some (ok, pkt')"
      using Cons.prems True t IH(1)
      by (simp add: dname_buffer_write_loop.simps [of pkt "of_nat (length x)"])
    moreover have "ok \<longleftrightarrow> length (wire (x # ls)) \<le> 1 + (buf_limit pkt - buf_position pkt)"
      using IH(3) True by auto
    moreover have "pkt' = buf_put pkt (tl (wire (x # ls)))" if ok
    proof -
      have "buf_put ?p (tl (wire ls)) = buf_put pkt (x @ [l'] @ tl (wire ls))"
        using Cons.prems p1 True by (simp add: buf_put_put)
      with IH(4) that t' show ?thesis by (simp flip: t')
    qed
    ultimately show ?thesis using IH(2) by blast
  qed
qed

lemma dname_buffer_write_wire:
  assumes "labels_ok ls" "buf_wf pkt"
  shows "\<exists>ok pkt'. dname_buffer_write pkt (wire ls @ r) = Some (ok, pkt') \<and> buf_wf pkt' \<and>
    (ok \<longleftrightarrow> length (wire ls) \<le> buf_limit pkt - buf_position pkt) \<and>
    (ok \<longrightarrow> pkt' = buf_put pkt (wire ls))"
proof (cases "1 \<le> buf_limit pkt - buf_position pkt")
  case True
  obtain l' d' where t: "wire ls @ r = l' # d'" by (cases "wire ls") auto
  then have t': "wire ls = l' # tl (wire ls)" by (cases "wire ls") auto
  let ?p = "buf_put pkt [l']"
  have p: "buf_wf ?p" using assms(2) True by (intro buf_put_wf) simp_all
  have "buf_put ?p (tl (wire ls)) = buf_put pkt (wire ls)"
    using assms True by (subst (2) t') (simp add: buf_put_put)
  moreover have "length (wire ls) \<le> 1 + (buf_limit ?p - buf_position ?p) \<longleftrightarrow>
      length (wire ls) \<le> buf_limit pkt - buf_position pkt" using True by auto
  moreover have "dname_buffer_write pkt (wire ls @ r) = dname_buffer_write_loop ?p l' d'"
    using True assms(2) t write_u8_put [of pkt l']
    by (cases "buf_limit pkt \<le> buf_position pkt") (simp_all add: dname_buffer_write_def)
  ultimately show ?thesis
    using dname_buffer_write_loop_wire [OF assms(1) p, of r] t by simp
next
  case False
  then have "\<not> length (wire ls) \<le> buf_limit pkt - buf_position pkt" by (cases "wire ls") auto
  with False assms(2) show ?thesis
    by (intro exI [of _ False] exI [of _ pkt]) (simp add: dname_buffer_write_def)
qed

lemma put_rem: 
  assumes "buf_wf pkt" "length xs \<le> buf_limit pkt - buf_position pkt"
  shows "\<exists>r. buf_rem ((buf_put pkt xs)\<lparr>buf_position := buf_position pkt\<rparr>) = xs @ r"
  using assms by (auto simp: buf_rem_def buf_put_def buf_mem_def buf_wf_def)


lemma query_dname_len_loop_wire:
  assumes "labels_ok ls" "buf_wf q" "buf_rem q = wire ls @ r" "len + length (wire ls) \<le> 255"
  shows "query_dname_len_loop q len = Some (len + length (wire ls), buf_advance q (length (wire ls)))"
  using assms
proof (induction ls arbitrary: q len)
  case Nil
  then show ?case by (simp add: query_dname_len_loop_step)
next
  case (Cons l ls)
  let ?q = "buf_advance q (1 + length l)"
  have rem: "buf_rem q = of_nat (length l) # (l @ wire ls @ r)" using Cons.prems by simp
  have "buf_wf ?q" using skip_rem [OF Cons.prems(2), of "1 + length l"] rem by simp
  moreover have "buf_rem ?q = wire ls @ r" using rem by (simp add: buf_rem_advance)
  ultimately have "query_dname_len_loop ?q (len + length l + 1) =
      Some (len + length l + 1 + length (wire ls), buf_advance ?q (length (wire ls)))"
    using Cons.IH [of ?q "len + length l + 1"] Cons.prems by simp
  moreover have "length l \<le> 63" "len + length l + 1 \<le> 255"
    using Cons.prems by (simp_all add: label_ok_def)
  ultimately show ?case
    using query_dname_len_loop_step [OF Cons.prems(2) rem, of len] Cons.prems(1)
    by (simp add: buf_advance_def ac_simps)
qed

section \<open>Lower-casing\<close>

lemma query_dname_tolower_wire:
  "labels_ok ls \<Longrightarrow> query_dname_tolower (wire ls @ r) = Some (wire (lowers ls) @ r)"
proof (induction ls)
  case (Cons l ls)
  have "peek_bytes (l @ wire ls @ r) 0 (length l) = Some l" by (simp add: peek_bytes_def)
  with Cons show ?case
    by (simp add: query_dname_tolower.simps [of "of_nat (length l) # l @ wire ls @ r"])
qed (simp add: query_dname_tolower.simps)

section \<open>Removing labels\<close>

lemma dname_remove_labels_wire:
  assumes "labels_ok ls" "n \<le> length ls" "length (wire ls) \<le> len"
  shows "\<exists>len'. dname_remove_labels (wire ls @ r) len n = Some (wire (drop n ls) @ r, len')"
  using assms
proof (induction n arbitrary: ls len)
  case (Suc n)
  then obtain l ls' where ls: "ls = l # ls'" by (cases ls) auto
  with Suc.prems have "dname_remove_label (wire ls @ r) len = Some (wire ls' @ r, len - (length l + 1))"
    by (simp add: dname_remove_label_def)
  moreover have "length (wire ls') \<le> len - (length l + 1)" using Suc.prems ls by auto
  then obtain len' where
    "dname_remove_labels (wire ls' @ r) (len - (length l + 1)) n = Some (wire (drop n ls') @ r, len')"
    using Suc.IH [of ls' "len - (length l + 1)"] Suc.prems ls by auto
  ultimately show ?case using ls by auto
qed simp

lemma top_match_le:
  "top_match cmp a b \<le> length a + 1" "top_match cmp a b \<le> length b + 1" "1 \<le> top_match cmp a b"
  using common_prefix_le [of cmp "rev a" "rev b"] by (simp_all add: top_match_def)

definition shared_top :: "label list \<Rightarrow> label list \<Rightarrow> label list" where
  "shared_top a b = drop (length a + 1 - top_match len_label_cmp a b) a"

lemma dname_get_shared_topdomain_labels:
  assumes "labels_of d1 = Some a" "labels_of d2 = Some b" "length (wire a) \<le> 255"
  shows "\<exists>d. dname_get_shared_topdomain d1 d2 = Some d \<and> labels_of d = Some (shared_top a b)"
proof -
  let ?n = "length a + 1 - top_match len_label_cmp a b"
  from labels_ofE [OF assms(1)] obtain r where r: "d1 = wire a @ r" "labels_ok a" .
  have "?n \<le> length a" using top_match_le(3) [of len_label_cmp a b] by simp
  with dname_remove_labels_wire [OF r(2) this assms(3)] obtain len' where
    "dname_remove_labels d1 255 ?n = Some (wire (shared_top a b) @ r, len')"
    by (auto simp: r shared_top_def)
  with assms(1,2) r(2) show ?thesis
    by (auto simp: dname_get_shared_topdomain_def labels_of_count shared_top_def
        labels_of_lab_cmp [OF assms(1,2), simplified] labels_of_wire labels_ok_drop)
qed

lemma shared_top_longest:
  "suffix (shared_top a b) a" "suffix (lowers (shared_top a b)) (lowers b)"
  "suffix u (lowers a) \<Longrightarrow> suffix u (lowers b) \<Longrightarrow> length u \<le> length (shared_top a b)"
proof -
  let ?t = "top_match len_label_cmp a b"
  note le = top_match_le [of len_label_cmp a b]
  show "suffix (shared_top a b) a" by (simp add: shared_top_def suffix_drop)
  from le top_match_ge [of "?t - 1" a b] have
    "lowers (drop (length a - (?t - 1)) a) = lowers (drop (length b - (?t - 1)) b)" by simp
  moreover have "length a - (?t - 1) = length a + 1 - ?t" using le by simp
  ultimately have "lowers (shared_top a b) = lowers (drop (length b - (?t - 1)) b)"
    by (simp only: shared_top_def)
  then show "suffix (lowers (shared_top a b)) (lowers b)" by (metis drop_map suffix_drop)
  assume "suffix u (lowers a)" "suffix u (lowers b)"
  then have "length u \<le> length a" "length u \<le> length b"
    "lowers (drop (length a - length u) a) = u" "lowers (drop (length b - length u) b) = u"
    by (simp_all add: suffix_iff_drop drop_map)
  then have "Suc (length u) \<le> ?t" by (simp add: top_match_ge)
  with le show "length u \<le> length (shared_top a b)" by (simp add: shared_top_def)
qed


section \<open>The canonical order is the lexicographic order\<close>

lemma lexcmp_less_lexord:
  assumes "\<And>x y. cmp x y < 0 \<longleftrightarrow> (f x, f y) \<in> r" "\<And>x y. cmp x y = 0 \<longleftrightarrow> f x = f y"
    "irrefl r"
  shows "lexcmp cmp xs ys < 0 \<longleftrightarrow> (map f xs, map f ys) \<in> lexord r"
  using assms(3) by (induction xs ys rule: list_induct2')
    (auto simp: assms(1,2) irrefl_def)

abbreviation byte_less :: "(byte \<times> byte) set" where
  "byte_less \<equiv> {(x, y). x < y}"

lemma canon_label_cmp_lexord: "canon_label_cmp x y < 0 \<longleftrightarrow> (lower x, lower y) \<in> lexord byte_less"
  unfolding canon_label_cmp_def
  using lexcmp_less_lexord [of lin_cmp "\<lambda>x. x" byte_less "lower x" "lower y"]
  by (simp add: irrefl_def)

lemma canonical_lexord:
  "top_cmp canon_label_cmp a b < 0 \<longleftrightarrow>
    (rev (lowers a), rev (lowers b)) \<in> lexord (lexord byte_less)"
  unfolding top_cmp_def rev_map
  by (rule lexcmp_less_lexord)
    (auto simp: canon_label_cmp_lexord irrefl_def lexord_irreflexive)

lemma dname_query_hash_labels:
  "labels_of d = Some ls \<Longrightarrow>
    dname_query_hash le addr ini d h = Some (fold (label_hash le addr ini) ls h)"
  by (auto elim!: labels_ofE simp: dname_query_hash_wire)

section \<open>A name that was measured\<close>

text \<open>What \<open>pkt_dname_len\<close> returned a nonzero length for, in the terms of \<open>name_at\<close>.\<close>

lemma pkt_dname_len_name:
  assumes "buf_wf pkt" "p \<le> buf_limit pkt" "pkt_dname_len (pkt\<lparr>buf_position := p\<rparr>) = Some (n, q)" "n \<noteq> 0"
  obtains d r ls k where "drop p (buf_mem pkt) = d @ r" "pkt_name (buf_pkt pkt) d ls k" "k \<le> 257"
    "n = length (wire ls)" "n \<le> 255"
proof -
  note sp = set_position_pkt [OF assms(1,2)]
  from assms(3,4) sp pkt_dname_len_iff [of "pkt\<lparr>buf_position := p\<rparr>" n] obtain ls k where
    k: "pkt_name (buf_pkt pkt) (drop p (buf_pkt pkt)) ls k" "k \<le> 257" "n = length (wire ls)" "n \<le> 255"
    by auto
  moreover have "drop p (buf_mem pkt) = drop p (buf_pkt pkt) @ drop (buf_limit pkt) (buf_mem pkt)"
    using at_pkt [OF assms(1,2)] assms(2) by (simp add: sldns_buffer_at_def)
  ultimately show ?thesis using that by blast
qed

lemma name_at_first:
  assumes "pkt_name (buf_pkt pkt) d ls k" "k \<le> 257"
  obtains l d' where "d @ r = l # d'" "name_at pkt 0 l d' ls"
  using assms pkt_name_nonempty [OF assms(1)] unfolding name_at_def
  by (metis add_0 append_Cons)

text \<open>The name \<open>a.\<close> and, from offset 3, \<open>b.a.\<close> with a compression pointer.\<close>

definition example_packet :: sldns_buffer where
  "example_packet = \<lparr>buf_position = 0, buf_limit = 7, buf_capacity = 8,
     buf_data = Some [1, 97, 0, 1, 98, 0xc0, 0, 0], buf_fixed = False, buf_status_err = False\<rparr>"

lemma example_packet_wf: "buf_wf example_packet"
  by (simp add: example_packet_def buf_wf_def buf_mem_def size_t_mod_def)

lemma example_packet_rem:
  "buf_pkt (example_packet\<lparr>buf_position := p\<rparr>) = [1, 97, 0, 1, 98, 0xc0, 0]"
  "buf_rem (example_packet\<lparr>buf_position := p\<rparr>) = drop p [1, 97, 0, 1, 98, 0xc0, 0]"
  by (simp_all add: example_packet_def buf_pkt_def buf_rem_def buf_mem_def)

lemma example_packet_at: "p \<le> 7 \<Longrightarrow> buf_wf (example_packet\<lparr>buf_position := p\<rparr>)"
  using set_position_pkt [OF example_packet_wf, of p] by (simp add: example_packet_def)

lemma example_packet_len:
  "\<exists>q. pkt_dname_len (example_packet\<lparr>buf_position := 0\<rparr>) = Some (3, q)"
  "\<exists>q. pkt_dname_len (example_packet\<lparr>buf_position := 3\<rparr>) = Some (5, q)"
proof -
  have a: "pkt_name [1, 97, 0, 1, 98, 0xc0, 0] [1, 97, 0, 1, 98, 0xc0, 0] [[97]] 0"
    using pkt_name.lab [OF _ pkt_name.root, of "[97]"] by (simp add: label_ok_def)
  have p: "LABEL_IS_PTR 0xc0" "unat (PTR_OFFSET 0xc0 0) = 0" by code_simp+
  have "pkt_name [1, 97, 0, 1, 98, 0xc0, 0] [1, 98, 0xc0, 0] [[98], [97]] 1"
    using pkt_name.lab [OF _ pkt_name.ptr [OF p(1)], of "[98]" 0 _ "[[97]]" 0 "[]"] a p(2)
    by (simp add: label_ok_def)
  with a show "\<exists>q. pkt_dname_len (example_packet\<lparr>buf_position := 0\<rparr>) = Some (3, q)"
    "\<exists>q. pkt_dname_len (example_packet\<lparr>buf_position := 3\<rparr>) = Some (5, q)"
    by (subst pkt_dname_len_iff; force simp: example_packet_rem example_packet_at)+
qed

text \<open>
  When the name ends with the memory, \<open>dname_valid\<close> reads the byte behind it before it notices that
  the name is too long for \<open>maxlen\<close>: the read is outside the \<open>maxlen\<close> bytes the caller vouches for.
\<close>

lemma dname_valid_overread: "dname_valid [1, 97] 2 = None"
  by code_simp

text \<open>
  \<open>dname_has_label\<close> misses a label of the name: its count starts at the length of the first label
  instead of zero, so the scan ends before the last labels when the first label is long.
\<close>

lemma dname_has_label_misses:
  "dname_has_label [5, 97, 98, 99, 100, 101, 1, 120, 0] 9 [1, 120] = Some False"
  "labels_of [5, 97, 98, 99, 100, 101, 1, 120, 0] = Some [[97, 98, 99, 100, 101], [120]]"
  by code_simp+

section \<open>Properties\<close>

text \<open>
  C36. \<open>dname_valid\<close> accepts exactly the well-formed names: a nonzero result is the length of the
  name in wire format, which fits in \<open>maxlen\<close> and in 255 bytes, and such a name is accepted.
\<close>

theorem dname_valid_correct:
  assumes "n \<noteq> 0"
  shows "dname_valid d maxlen = Some n \<longleftrightarrow>
    (\<exists>ls. labels_of d = Some ls \<and> n = length (wire ls) \<and> n \<le> maxlen \<and> n \<le> 255)"
  using assms by (rule dname_valid_iff)

theorem dname_valid_correct_witness:
  "dname_valid [3, 119, 119, 119, 2, 97, 98, 0, 7] 20 = Some 8"
  using dname_valid_correct [of 8 "[3, 119, 119, 119, 2, 97, 98, 0, 7]" 20] by simp

text \<open>
  C35. \<open>dname_canonical_compare\<close> is the canonical order of names: negative (positive) exactly when the
  lower-cased labels, read from the root down, come first (last) in the lexicographic order of the
  labels' bytes, and zero exactly for names that are equal up to case.
\<close>

theorem dname_canonical_compare_order:
  assumes "labels_of d1 = Some a" "labels_of d2 = Some b"
  shows "\<exists>c. dname_canonical_compare d1 d2 = Some c \<and>
    (c < 0 \<longleftrightarrow> (rev (lowers a), rev (lowers b)) \<in> lexord (lexord byte_less)) \<and>
    (c > 0 \<longleftrightarrow> (rev (lowers b), rev (lowers a)) \<in> lexord (lexord byte_less)) \<and>
    (c = 0 \<longleftrightarrow> lowers a = lowers b)"
  using canonical_lexord [of a b] canonical_lexord [of b a] canon_order.cmp_antisym [of b a]
  by (simp add: labels_of_canonical [OF assms])

theorem dname_canonical_compare_order_witness:
  "\<exists>c. dname_canonical_compare [1, 122, 1, 97, 0] [1, 97, 1, 98, 0] = Some c \<and> c < 0"
  using dname_canonical_compare_order [of "[1, 122, 1, 97, 0]" "[[122], [97]]"
      "[1, 97, 1, 98, 0]" "[[97], [98]]"]
  by (auto simp: c_tolower_def)

text \<open>
  \<open>dname_subdomain_c\<close> decides whether the first name is at or below the second one: the labels
  of the second are a suffix of those of the first, up to case.
\<close>

lemma dname_subdomain_c_suffix:
  assumes "labels_of d1 = Some a" "labels_of d2 = Some b"
  shows "dname_subdomain_c d1 d2 = Some (suffix (lowers b) (lowers a))"
  using assms by (rule dname_subdomain_c_labels)

text \<open>
  C37. \<open>dname_get_shared_topdomain\<close> returns the longest domain that contains both names: a suffix of
  the first, up to case a suffix of the second, and no common suffix is longer.
\<close>

theorem dname_get_shared_topdomain_longest:
  assumes "labels_of d1 = Some a" "labels_of d2 = Some b" "length (wire a) \<le> 255"
  shows "\<exists>d t. dname_get_shared_topdomain d1 d2 = Some d \<and> labels_of d = Some t \<and>
    suffix t a \<and> suffix (lowers t) (lowers b) \<and>
    (\<forall>u. suffix u (lowers a) \<and> suffix u (lowers b) \<longrightarrow> length u \<le> length t)"
  using dname_get_shared_topdomain_labels [OF assms] shared_top_longest [where a = a and b = b]
  by metis

theorem dname_get_shared_topdomain_longest_witness:
  "\<exists>d t. dname_get_shared_topdomain [1, 120, 1, 97, 0] [1, 121, 1, 65, 0] = Some d \<and>
    labels_of d = Some t \<and> length [[97 :: byte]] \<le> length t"
proof -
  have "suffix [[97 :: byte]] (lowers [[120], [97]])" "suffix [[97 :: byte]] (lowers [[121], [65]])"
    by (simp_all add: c_tolower_def suffix_def)
  with dname_get_shared_topdomain_longest [of "[1, 120, 1, 97, 0]" "[[120], [97]]"
      "[1, 121, 1, 65, 0]" "[[121], [65]]"] show ?thesis by fastforce
qed

text \<open>
  C38. The hash agrees with the comparison: names that \<open>query_dname_compare\<close> finds equal have the same
  \<open>dname_query_hash\<close>, whatever the letter case, so a hash table keyed on names finds them.
\<close>

theorem dname_query_hash_respects_compare:
  assumes "labels_of d1 = Some a" "labels_of d2 = Some b" "query_dname_compare d1 d2 = Some 0"
  shows "\<exists>v. dname_query_hash le addr raninit d1 h = Some v \<and>
    dname_query_hash le addr raninit d2 h = Some v"
proof -
  from assms have "lowers a = lowers b" by (simp add: labels_of_query_compare)
  from fold_label_hash_lowers [OF this] show ?thesis
    using assms(1,2) by (simp add: dname_query_hash_labels)
qed

theorem dname_query_hash_respects_compare_witness:
  "\<exists>v. dname_query_hash True 0 7 [2, 65, 98, 0] 0 = Some v \<and>
    dname_query_hash True 0 7 [2, 97, 66, 0] 0 = Some v"
proof (rule dname_query_hash_respects_compare)
  show "labels_of [2, 65, 98, 0] = Some [[65, 98]]" "labels_of [2, 97, 66, 0] = Some [[97, 66]]"
    by simp_all
  then show "query_dname_compare [2, 65, 98, 0] [2, 97, 66, 0] = Some 0"
    by (simp add: labels_of_query_compare c_tolower_def)
qed

text \<open>
  C1. \<open>pkt_dname_len\<close> is safe on every packet, hostile ones included: it terminates without a fault,
  keeps the buffer well formed and never returns more than 255; when it accepts a name the position
  has moved forward, so a parser that calls it in a loop makes progress.
\<close>

theorem pkt_dname_len_safe:
  assumes "buf_wf pkt"
  shows "\<exists>n pkt'. pkt_dname_len pkt = Some (n, pkt') \<and> buf_wf pkt' \<and> n \<le> 255 \<and>
    (n \<noteq> 0 \<longrightarrow> buf_position pkt < buf_position pkt')"
  using pkt_dname_len_loop_post [OF assms, of 0 0 0]
  by (auto simp: pkt_dname_len_def len_post_def)

theorem pkt_dname_len_safe_witness:
  "\<exists>n pkt'. pkt_dname_len example_packet = Some (n, pkt') \<and> buf_wf pkt' \<and> n \<le> 255 \<and>
    (n \<noteq> 0 \<longrightarrow> buf_position example_packet < buf_position pkt')"
  by (rule pkt_dname_len_safe) (rule example_packet_wf)

text \<open>
  C2. A compressed name that \<open>pkt_dname_len\<close> measured is copied whole by \<open>dname_pkt_copy\<close>: it writes
  exactly the measured number of bytes, at most 255, and they are a well-formed uncompressed name.
\<close>

theorem dname_pkt_copy_measured:
  assumes "buf_wf pkt" "p \<le> buf_limit pkt" "pkt_dname_len (pkt\<lparr>buf_position := p\<rparr>) = Some (n, q)" "n \<noteq> 0"
  shows "\<exists>out ls. dname_pkt_copy pkt (drop p (buf_mem pkt)) = Some out \<and> length out = n \<and> n \<le> 255 \<and>
    labels_of out = Some ls \<and> out = wire ls"
proof -
  from pkt_dname_len_name [OF assms] obtain d r ls k where
    k: "drop p (buf_mem pkt) = d @ r" "pkt_name (buf_pkt pkt) d ls k" "k \<le> 257"
    "n = length (wire ls)" "n \<le> 255" .
  with dname_pkt_copy_loop_name [OF k(2) assms(1), of 0 0 r "[]"] labels_of_wire [of ls "[]"]
  show ?thesis by (simp add: dname_pkt_copy_def pkt_name_labels_ok)
qed

theorem dname_pkt_copy_measured_witness:
  "\<exists>out ls. dname_pkt_copy example_packet (drop 3 (buf_mem example_packet)) = Some out \<and>
    length out = 5 \<and> (5 :: nat) \<le> 255 \<and> labels_of out = Some ls \<and> out = wire ls"
proof -
  obtain q where "pkt_dname_len (example_packet\<lparr>buf_position := 3\<rparr>) = Some (5, q)"
    using example_packet_len(2) by blast
  then show ?thesis
    by (rule dname_pkt_copy_measured [OF example_packet_wf, rotated]) (simp_all add: example_packet_def)
qed

text \<open>
  C3. Working on compressed names in place is the same as working on their uncompressed copies:
  \<open>dname_pkt_hash\<close> and \<open>dname_pkt_compare\<close> on two measured names return what \<open>dname_query_hash\<close> and
  \<open>query_dname_compare\<close> return on the copies.
\<close>

theorem dname_pkt_ops_copies:
  assumes "buf_wf pkt"
    "p1 \<le> buf_limit pkt" "pkt_dname_len (pkt\<lparr>buf_position := p1\<rparr>) = Some (n1, q1)" "n1 \<noteq> 0"
    "p2 \<le> buf_limit pkt" "pkt_dname_len (pkt\<lparr>buf_position := p2\<rparr>) = Some (n2, q2)" "n2 \<noteq> 0"
  shows "\<exists>o1 o2 v c. dname_pkt_copy pkt (drop p1 (buf_mem pkt)) = Some o1 \<and>
    dname_pkt_copy pkt (drop p2 (buf_mem pkt)) = Some o2 \<and>
    dname_pkt_hash le addr raninit pkt (drop p1 (buf_mem pkt)) h = Some v \<and>
    dname_query_hash le addr raninit o1 h = Some v \<and>
    dname_pkt_compare pkt (drop p1 (buf_mem pkt)) (drop p2 (buf_mem pkt)) = Some c \<and>
    query_dname_compare o1 o2 = Some c"
proof -
  from pkt_dname_len_name [OF assms(1-4)] obtain d1 r1 a k1 where
    1: "drop p1 (buf_mem pkt) = d1 @ r1" "pkt_name (buf_pkt pkt) d1 a k1" "k1 \<le> 257"
    "n1 = length (wire a)" "n1 \<le> 255" .
  from pkt_dname_len_name [OF assms(1,5-7)] obtain d2 r2 b k2 where
    2: "drop p2 (buf_mem pkt) = d2 @ r2" "pkt_name (buf_pkt pkt) d2 b k2" "k2 \<le> 257"
    "n2 = length (wire b)" "n2 \<le> 255" .
  have copy: "dname_pkt_copy pkt (d1 @ r1) = Some (wire a)" "dname_pkt_copy pkt (d2 @ r2) = Some (wire b)"
    using dname_pkt_copy_loop_name [OF 1(2) assms(1), of 0 0 r1 "[]"] 1(3-5)
      dname_pkt_copy_loop_name [OF 2(2) assms(1), of 0 0 r2 "[]"] 2(3-5)
    by (simp_all add: dname_pkt_copy_def)
  have ok: "labels_of (wire a) = Some a" "labels_of (wire b) = Some b"
    using labels_of_wire [of a "[]"] labels_of_wire [of b "[]"] 1(2) 2(2)
    by (simp_all add: pkt_name_labels_ok)
  from name_at_first [OF 1(2,3)] obtain l1 d1' where
    n1: "d1 @ r1 = l1 # d1'" "name_at pkt 0 l1 d1' a" .
  from name_at_first [OF 2(2,3)] obtain l2 d2' where
    n2: "d2 @ r2 = l2 # d2'" "name_at pkt 0 l2 d2' b" .
  have "dname_pkt_compare pkt (d1 @ r1) (d2 @ r2) = Some (lexcmp len_label_cmp a b)"
    using dname_pkt_compare_loop_name [OF assms(1) n1(2) n2(2)] n1(1) n2(1)
    by (simp add: dname_pkt_compare_def)
  moreover have "dname_pkt_hash le addr raninit pkt (d1 @ r1) h =
      Some (fold (label_hash le addr raninit) a h)"
    using dname_pkt_hash_loop_name [OF 1(2) assms(1), of 0 r1 le addr raninit h] 1(3)
    by (simp add: dname_pkt_hash_def)
  ultimately show ?thesis
    using copy ok by (simp add: 1(1) 2(1) dname_query_hash_labels labels_of_query_compare)
qed

theorem dname_pkt_ops_copies_witness:
  "\<exists>o1 o2 v c. dname_pkt_copy example_packet (drop 0 (buf_mem example_packet)) = Some o1 \<and>
    dname_pkt_copy example_packet (drop 3 (buf_mem example_packet)) = Some o2 \<and>
    dname_pkt_hash True 0 7 example_packet (drop 0 (buf_mem example_packet)) 0 = Some v \<and>
    dname_query_hash True 0 7 o1 0 = Some v \<and>
    dname_pkt_compare example_packet (drop 0 (buf_mem example_packet))
      (drop 3 (buf_mem example_packet)) = Some c \<and>
    query_dname_compare o1 o2 = Some c"
proof -
  obtain q1 q2 where "pkt_dname_len (example_packet\<lparr>buf_position := 0\<rparr>) = Some (3, q1)"
    "pkt_dname_len (example_packet\<lparr>buf_position := 3\<rparr>) = Some (5, q2)"
    using example_packet_len by blast
  then show ?thesis
    using dname_pkt_ops_copies [OF example_packet_wf, of 0 3 q1 3 5 q2 True 0 7 0]
    by (simp add: example_packet_def)
qed

text \<open>
  Writing a name into a buffer and measuring it there is a round trip: \<open>dname_buffer_write\<close>
  succeeds exactly when the name fits, and \<open>query_dname_len\<close> from the old position then returns its
  length and leaves the buffer as the write did.
\<close>

lemma dname_buffer_write_query_len:
  assumes "buf_wf pkt" "labels_of d = Some ls" "length (wire ls) \<le> 255"
  shows "\<exists>ok pkt'. dname_buffer_write pkt d = Some (ok, pkt') \<and> buf_wf pkt' \<and>
    (ok \<longleftrightarrow> length (wire ls) \<le> buf_limit pkt - buf_position pkt) \<and>
    (ok \<longrightarrow> query_dname_len (pkt'\<lparr>buf_position := buf_position pkt\<rparr>) = Some (length (wire ls), pkt'))"
proof -
  from labels_ofE [OF assms(2)] obtain r where r: "d = wire ls @ r" "labels_ok ls" .
  from dname_buffer_write_wire [OF r(2) assms(1), of r] obtain ok pkt' where
    w: "dname_buffer_write pkt d = Some (ok, pkt')" "buf_wf pkt'"
    "ok \<longleftrightarrow> length (wire ls) \<le> buf_limit pkt - buf_position pkt"
    "ok \<longrightarrow> pkt' = buf_put pkt (wire ls)" by (auto simp: r(1))
  have "query_dname_len (pkt'\<lparr>buf_position := buf_position pkt\<rparr>) = Some (length (wire ls), pkt')" if ok
  proof -
    let ?q = "pkt'\<lparr>buf_position := buf_position pkt\<rparr>"
    have p: "pkt' = buf_put pkt (wire ls)" "buf_position pkt \<le> buf_limit pkt'"
      using w(4) that assms(1) by simp_all
    have "length (wire ls) \<le> buf_limit pkt - buf_position pkt" using w(3) that by simp
    from put_rem [OF assms(1) this] p(1) obtain r' where "buf_rem ?q = wire ls @ r'" by auto
    moreover have "buf_wf ?q" using set_position_pkt [OF w(2) p(2)] by simp
    ultimately have "query_dname_len ?q = Some (length (wire ls), buf_advance ?q (length (wire ls)))"
      using query_dname_len_loop_wire [OF r(2), of ?q r' 0] assms(3) by (simp add: query_dname_len_def)
    moreover have "buf_advance ?q (length (wire ls)) = pkt'"
      by (simp add: p(1) buf_advance_def buf_put_def)
    ultimately show ?thesis by simp
  qed
  with w show ?thesis by blast
qed

text \<open>
  \<open>query_dname_tolower\<close> keeps the name: the result is a name of the same length that
  \<open>query_dname_compare\<close> finds equal to the old one, it leaves the memory behind the name alone, and
  lower-casing again changes nothing.
\<close>

lemma query_dname_tolower_same_name:
  assumes "labels_of d = Some ls"
  shows "\<exists>d'. query_dname_tolower d = Some d' \<and> length d' = length d \<and>
    labels_of d' = Some (lowers ls) \<and> query_dname_compare d d' = Some 0 \<and>
    drop (length (wire ls)) d' = drop (length (wire ls)) d \<and> query_dname_tolower d' = Some d'"
proof -
  from labels_ofE [OF assms] obtain r where r: "d = wire ls @ r" "labels_ok ls" .
  then have l: "labels_ok (lowers ls)" by (simp add: labels_ok_def label_ok_def list.pred_map comp_def cong: list.pred_cong)
  have len: "length (wire (lowers ls)) = length (wire ls)"
    by (simp add: length_wire comp_def)
  have id: "lowers (lowers ls) = lowers ls" by (simp add: comp_def)
  from labels_of_wire [OF l, of r] have d': "labels_of (wire (lowers ls) @ r) = Some (lowers ls)" .
  show ?thesis
    using query_dname_tolower_wire [OF r(2), of r] query_dname_tolower_wire [OF l, of r, unfolded id] len d'
      labels_of_query_compare [OF assms d'] query_cmp_eq_0 [of ls "lowers ls", unfolded id]
    by (simp add: r(1))
qed


end
