(* ===== verification/Dname_Text.thy ===== *)
theory Dname_Text
  imports Dname_Labels
begin

text \<open>
  Domain names as text: reading, from \<open>sldns/str2wire.c\<close> with the escapes of \<open>sldns/parseutil.c\<close>, and
  printing, from \<open>sldns/wire2str.c\<close>. A C string that is read is its bytes without the final zero. A
  buffer that is written is a list of bytes of fixed length; a write outside is the fault \<open>None\<close>. The
  status of a parse is the \<open>int\<close> of the code as its 32 bits.
\<close>

section \<open>Status codes\<close>

definition RET_ERR :: "u32 \<Rightarrow> nat \<Rightarrow> u32" where
  "RET_ERR e off = (e AND 0xfff) OR push_bit 12 (of_nat off AND 0xfffff)"

abbreviation LDNS_WIREPARSE_ERR_OK :: u32 where "LDNS_WIREPARSE_ERR_OK \<equiv> 0"
abbreviation LDNS_WIREPARSE_ERR_GENERAL :: u32 where "LDNS_WIREPARSE_ERR_GENERAL \<equiv> 342"
abbreviation LDNS_WIREPARSE_ERR_DOMAINNAME_OVERFLOW :: u32 where "LDNS_WIREPARSE_ERR_DOMAINNAME_OVERFLOW \<equiv> 343"
abbreviation LDNS_WIREPARSE_ERR_DOMAINNAME_UNDERFLOW :: u32 where "LDNS_WIREPARSE_ERR_DOMAINNAME_UNDERFLOW \<equiv> 344"
abbreviation LDNS_WIREPARSE_ERR_BUFFER_TOO_SMALL :: u32 where "LDNS_WIREPARSE_ERR_BUFFER_TOO_SMALL \<equiv> 345"
abbreviation LDNS_WIREPARSE_ERR_LABEL_OVERFLOW :: u32 where "LDNS_WIREPARSE_ERR_LABEL_OVERFLOW \<equiv> 346"
abbreviation LDNS_WIREPARSE_ERR_EMPTY_LABEL :: u32 where "LDNS_WIREPARSE_ERR_EMPTY_LABEL \<equiv> 347"
abbreviation LDNS_WIREPARSE_ERR_SYNTAX_BAD_ESCAPE :: u32 where "LDNS_WIREPARSE_ERR_SYNTAX_BAD_ESCAPE \<equiv> 348"

abbreviation DOT :: byte where "DOT \<equiv> 46"
abbreviation BACKSLASH :: byte where "BACKSLASH \<equiv> 92"

section \<open>Reading\<close>

text \<open>The byte and the text after the escape; \<open>None\<close> for a bad escape. The text starts behind the backslash.\<close>

definition sldns_parse_escape :: "byte list \<Rightarrow> (byte \<times> byte list) option" where
  "sldns_parse_escape s = (case s of
     a # b # c # r \<Rightarrow>
       if c_isdigit a \<and> c_isdigit b \<and> c_isdigit c then
         (let val = (unat a - 48) * 100 + (unat b - 48) * 10 + (unat c - 48)
          in if val > 255 then None else Some (of_nat val, r))
       else if \<not> c_isdigit a then Some (a, b # c # r)
       else None
   | a # r \<Rightarrow> if \<not> c_isdigit a then Some (a, r) else None
   | [] \<Rightarrow> None)"

definition sldns_parse_char :: "byte list \<Rightarrow> (byte \<times> byte list) option" where
  "sldns_parse_char s = (case s of
     [] \<Rightarrow> None
   | c # r \<Rightarrow> if c = BACKSLASH then sldns_parse_escape r else Some (c, r))"

lemma sldns_parse_escape_shorter: "sldns_parse_escape s = Some (b, r) \<Longrightarrow> length r < length s"
  by (auto simp: sldns_parse_escape_def Let_def split: list.splits if_splits)

text \<open>The loop over the text. The variables are the buffer, the indices \<open>q\<close> and \<open>pq\<close>, the length of the
  current label, and the length of the labels before it. \<open>Inl\<close> is the early return.\<close>

type_synonym dname_vars = "byte list \<times> nat \<times> nat \<times> byte \<times> nat"

function str2wire_dname_loop :: "nat \<Rightarrow> byte list \<Rightarrow> dname_vars \<Rightarrow> (u32 \<times> byte list + dname_vars) option" where
  "str2wire_dname_loop olen [] v = Some (Inr v)"
| "str2wire_dname_loop olen (c # s) (buf, q, pq, label_len, len) =
     (if q \<ge> olen then Some (Inl (RET_ERR LDNS_WIREPARSE_ERR_BUFFER_TOO_SMALL q, buf))
      else if q \<ge> LDNS_MAX_DOMAINLEN then Some (Inl (RET_ERR LDNS_WIREPARSE_ERR_DOMAINNAME_OVERFLOW q, buf))
      else if c = DOT then
        (if unat label_len > LDNS_MAX_LABELLEN then Some (Inl (RET_ERR LDNS_WIREPARSE_ERR_LABEL_OVERFLOW q, buf))
         else if label_len = 0 then Some (Inl (RET_ERR LDNS_WIREPARSE_ERR_EMPTY_LABEL q, buf))
         else do {
           buf \<leftarrow> poke_bytes buf q [0];
           buf \<leftarrow> poke_bytes buf pq [label_len];
           str2wire_dname_loop olen s (buf, q + 1, q, 0, len + unat label_len + 1) })
      else if c = BACKSLASH then
        (case sldns_parse_escape s of
           None \<Rightarrow> do {
             buf \<leftarrow> poke_bytes buf q [0];
             Some (Inl (RET_ERR LDNS_WIREPARSE_ERR_SYNTAX_BAD_ESCAPE q, buf)) }
         | Some (b, s') \<Rightarrow> do {
             buf \<leftarrow> poke_bytes buf q [b];
             str2wire_dname_loop olen s' (buf, q + 1, pq, label_len + 1, len) })
      else do {
        buf \<leftarrow> poke_bytes buf q [c];
        str2wire_dname_loop olen s (buf, q + 1, pq, label_len + 1, len) })"
  by pat_completeness auto
termination
  by (relation "measure (\<lambda>(olen, s, v). length s)") (auto dest: sldns_parse_escape_shorter)

text \<open>The results are the status, the buffer, the new value of \<open>olen\<close> and that of \<open>rel\<close>.\<close>

definition sldns_str2wire_dname_buf_rel ::
    "byte list \<Rightarrow> byte list \<Rightarrow> nat \<Rightarrow> (u32 \<times> byte list \<times> nat \<times> bool) option" where
  "sldns_str2wire_dname_buf_rel str buf olen =
     (if length str > LDNS_MAX_DOMAINLEN * 4 then Some (RET_ERR LDNS_WIREPARSE_ERR_DOMAINNAME_OVERFLOW 0, buf, olen, False)
      else if length str = 0 then Some (RET_ERR LDNS_WIREPARSE_ERR_DOMAINNAME_UNDERFLOW 0, buf, olen, False)
      else if str = [DOT] then
        (if olen < 1 then Some (RET_ERR LDNS_WIREPARSE_ERR_BUFFER_TOO_SMALL 0, buf, olen, False)
         else do { buf \<leftarrow> poke_bytes buf 0 [0]; Some (LDNS_WIREPARSE_ERR_OK, buf, 1, False) })
      else if olen < 1 then Some (RET_ERR LDNS_WIREPARSE_ERR_BUFFER_TOO_SMALL 0, buf, olen, False)
      else do {
        r \<leftarrow> str2wire_dname_loop olen str (buf, 1, 0, 0, 0);
        (case r of
           Inl (e, buf) \<Rightarrow> Some (e, buf, olen, False)
         | Inr (buf, q, pq, label_len, len) \<Rightarrow>
             if label_len \<noteq> 0 then
               (if q \<ge> olen then Some (RET_ERR LDNS_WIREPARSE_ERR_BUFFER_TOO_SMALL q, buf, olen, True)
                else if q \<ge> LDNS_MAX_DOMAINLEN then Some (RET_ERR LDNS_WIREPARSE_ERR_DOMAINNAME_OVERFLOW q, buf, olen, True)
                else if unat label_len > LDNS_MAX_LABELLEN then Some (RET_ERR LDNS_WIREPARSE_ERR_LABEL_OVERFLOW q, buf, olen, True)
                else do {
                  buf \<leftarrow> poke_bytes buf pq [label_len];
                  buf \<leftarrow> poke_bytes buf q [0];
                  Some (LDNS_WIREPARSE_ERR_OK, buf, len + unat label_len + 1 + 1, True) })
             else Some (LDNS_WIREPARSE_ERR_OK, buf, len + 1, False)) })"

definition sldns_str2wire_dname_buf :: "byte list \<Rightarrow> byte list \<Rightarrow> nat \<Rightarrow> (u32 \<times> byte list \<times> nat) option" where
  "sldns_str2wire_dname_buf str buf len = do {
     (s, buf, len, _) \<leftarrow> sldns_str2wire_dname_buf_rel str buf len;
     Some (s, buf, len) }"

text \<open>The origin is a name and its length. The guard against overflow cuts the lengths to 32 bits.\<close>

definition sldns_str2wire_dname_buf_origin ::
    "byte list \<Rightarrow> byte list \<Rightarrow> nat \<Rightarrow> (byte list \<times> nat) option \<Rightarrow> (u32 \<times> byte list \<times> nat) option" where
  "sldns_str2wire_dname_buf_origin str buf len origin = do {
     (s, buf, dlen, rel) \<leftarrow> sldns_str2wire_dname_buf_rel str buf len;
     if s \<noteq> 0 then Some (s, buf, len)
     else (case origin of
         Some (org, origin_len) \<Rightarrow>
           if rel \<and> dlen > 0 then
             (if dlen mod 2 ^ 32 \<ge> 0x00ffffff \<or> origin_len mod 2 ^ 32 \<ge> 0x00ffffff
              then Some (RET_ERR LDNS_WIREPARSE_ERR_GENERAL len, buf, len)
              else if size_add dlen origin_len - 1 > LDNS_MAX_DOMAINLEN
              then Some (RET_ERR LDNS_WIREPARSE_ERR_DOMAINNAME_OVERFLOW LDNS_MAX_DOMAINLEN, buf, len)
              else if size_add dlen origin_len - 1 > len
              then Some (RET_ERR LDNS_WIREPARSE_ERR_BUFFER_TOO_SMALL len, buf, len)
              else do {
                bytes \<leftarrow> peek_bytes org 0 origin_len;
                buf \<leftarrow> poke_bytes buf (dlen - 1) bytes;
                Some (LDNS_WIREPARSE_ERR_OK, buf, size_add dlen origin_len - 1) })
           else Some (LDNS_WIREPARSE_ERR_OK, buf, dlen)
       | None \<Rightarrow> Some (LDNS_WIREPARSE_ERR_OK, buf, dlen)) }"

text \<open>The bytes that the array \<open>dname\<close> holds before are \<open>raw\<close>; then the result of \<open>malloc\<close>. The result is
  the name, \<open>None\<close> for \<open>NULL\<close>, and its length.\<close>

definition sldns_str2wire_dname :: "byte list \<Rightarrow> bool \<Rightarrow> byte list \<Rightarrow> (byte list option \<times> nat) option" where
  "sldns_str2wire_dname raw malloc_ok str = do {
     let sizeof_dname = LDNS_MAX_DOMAINLEN + 1;
     (s, dname, len) \<leftarrow> sldns_str2wire_dname_buf str raw sizeof_dname;
     if s = 0 then
       (if len > sizeof_dname then Some (None, len)
        else if malloc_ok then do { r \<leftarrow> peek_bytes dname 0 len; Some (Some r, len) }
        else Some (None, 0))
     else Some (None, 0) }"

section \<open>Printing\<close>

text \<open>The output: the buffer, the index that \<open>str\<close> points to (\<open>None\<close> for \<open>NULL\<close>), and \<open>slen\<close>.\<close>

record text_out =
  t_buf :: "byte list"
  t_str :: "nat option"
  t_slen :: nat

text \<open>The arguments of \<open>sldns_str_print\<close> are the text after formatting. \<open>vsnprintf\<close> writes as much as fits,
  with a final zero. It does not fail for the formats used.\<close>

definition sldns_str_print :: "byte list \<Rightarrow> text_out \<Rightarrow> (nat \<times> text_out) option" where
  "sldns_str_print txt st =
     (let w = length txt
      in if w \<ge> t_slen st then
           (if t_slen st = 0 then Some (w, st\<lparr>t_str := None, t_slen := 0\<rparr>)
            else do {
              p \<leftarrow> t_str st;
              b \<leftarrow> poke_bytes (t_buf st) p (take (t_slen st - 1) txt @ [0]);
              Some (w, \<lparr>t_buf = b, t_str = None, t_slen = 0\<rparr>) })
         else do {
           p \<leftarrow> t_str st;
           b \<leftarrow> poke_bytes (t_buf st) p (txt @ [0]);
           Some (w, \<lparr>t_buf = b, t_str = Some (p + w), t_slen = t_slen st - w\<rparr>) })"

definition c_isgraph :: "byte \<Rightarrow> bool" where
  "c_isgraph b \<longleftrightarrow> 33 \<le> b \<and> b \<le> 126"

text \<open>The format \<open>%03u\<close> for a byte.\<close>

definition dec3 :: "byte \<Rightarrow> byte list" where
  "dec3 c = map (\<lambda>n. of_nat (48 + n)) [unat c div 100, unat c div 10 mod 10, unat c mod 10]"

definition dname_char_print :: "byte \<Rightarrow> text_out \<Rightarrow> (nat \<times> text_out) option" where
  "dname_char_print c st =
     (if c = DOT \<or> c = 59 \<or> c = 40 \<or> c = 41 \<or> c = BACKSLASH then sldns_str_print [BACKSLASH, c] st
      else if \<not> c_isgraph c then sldns_str_print (BACKSLASH # dec3 c) st
      else if t_slen st \<noteq> 0 then do {
        p \<leftarrow> t_str st;
        b \<leftarrow> poke_bytes (t_buf st) p [c];
        Some (1, \<lparr>t_buf = b, t_str = Some (p + 1), t_slen = t_slen st - 1\<rparr>) }
      else Some (1, st))"

fun dname_chars_print :: "byte list \<Rightarrow> text_out \<Rightarrow> (nat \<times> text_out) option" where
  "dname_chars_print [] st = Some (0, st)"
| "dname_chars_print (c # cs) st = do {
     (w, st) \<leftarrow> dname_char_print c st;
     (w', st) \<leftarrow> dname_chars_print cs st;
     Some (w + w', st) }"

text \<open>The variables of the scan. The data and the packet are one object \<open>m\<close>: without a packet \<open>d\<close> points
  into \<open>m\<close>, and with a packet it points into the packet, which starts at the start of \<open>m\<close>.\<close>

record dname_scan =
  sc_pos :: nat
  sc_d :: nat
  sc_dlen :: nat
  sc_in_buf :: bool
  sc_counter :: nat
  sc_dname_len :: nat
  sc_w :: nat
  sc_out :: text_out

abbreviation ErrorMissingDname :: "byte list" where
  "ErrorMissingDname \<equiv> [69, 114, 114, 111, 114, 77, 105, 115, 115, 105, 110, 103, 68, 110, 97, 109, 101]"
abbreviation ErrorPartialDname :: "byte list" where
  "ErrorPartialDname \<equiv> [69, 114, 114, 111, 114, 80, 97, 114, 116, 105, 97, 108, 68, 110, 97, 109, 101]"
abbreviation ErrorComprPtrOutOfBounds :: "byte list" where
  "ErrorComprPtrOutOfBounds \<equiv> [69, 114, 114, 111, 114, 67, 111, 109, 112, 114, 80, 116, 114, 79, 117, 116, 79, 102,
     66, 111, 117, 110, 100, 115]"
abbreviation ErrorComprPtrLooped :: "byte list" where
  "ErrorComprPtrLooped \<equiv> [69, 114, 114, 111, 114, 67, 111, 109, 112, 114, 80, 116, 114, 76, 111, 111, 112, 101, 100]"
abbreviation ErrorDomainNameTooLong :: "byte list" where
  "ErrorDomainNameTooLong \<equiv> [69, 114, 114, 111, 114, 68, 111, 109, 97, 105, 110, 78, 97, 109, 101, 84, 111, 111,
     76, 111, 110, 103]"
abbreviation ErrorLABELTYPE :: "byte list" where
  "ErrorLABELTYPE \<equiv> [69, 114, 114, 111, 114, 76, 65, 66, 69, 76, 84, 89, 80, 69]"
abbreviation IsUnknown :: "byte list" where
  "IsUnknown \<equiv> [73, 115, 85, 110, 107, 110, 111, 119, 110]"

definition scan_print :: "byte list \<Rightarrow> dname_scan \<Rightarrow> dname_scan option" where
  "scan_print txt sc = do {
     (w, out) \<leftarrow> sldns_str_print txt (sc_out sc);
     Some (sc\<lparr>sc_w := sc_w sc + w, sc_out := out\<rparr>) }"

text \<open>Reading a byte of a label moves \<open>pos\<close>, and \<open>d\<close> with it as long as the name is in the data.\<close>

definition scan_advance :: "nat \<Rightarrow> dname_scan \<Rightarrow> dname_scan" where
  "scan_advance n sc =
     (if sc_in_buf sc then sc\<lparr>sc_pos := sc_pos sc + n, sc_d := sc_d sc + n, sc_dlen := sc_dlen sc - n\<rparr>
      else sc\<lparr>sc_pos := sc_pos sc + n\<rparr>)"

text \<open>The offset where the packet ends; the length passed without a packet is 0.\<close>

definition pkt_end :: "nat option \<Rightarrow> nat" where
  "pkt_end pktlen = (case pktlen of None \<Rightarrow> 0 | Some n \<Rightarrow> n)"

text \<open>What one round of the loop decides: to return from the function with the values reached and the new
  value of \<open>*comprloop\<close>, to leave the loop, or to go on.\<close>

datatype scan_step = Return dname_scan "nat option" | Break dname_scan | Continue dname_scan

text \<open>Following a compression pointer, after its first byte.\<close>

definition scan_pointer ::
    "byte list \<Rightarrow> nat option \<Rightarrow> nat \<Rightarrow> nat option \<Rightarrow> byte \<Rightarrow> dname_scan \<Rightarrow> scan_step option" where
  "scan_pointer m pktlen maxcompr comprloop labellen sc =
     (if (if sc_in_buf sc then sc_dlen sc = 0 else sc_pos sc + 1 > pkt_end pktlen)
      then map_option (\<lambda>sc. Return sc comprloop) (scan_print ErrorPartialDname sc)
      else do {
        b \<leftarrow> peek8 m (sc_pos sc);
        let target = unat (labellen AND 0x3f) * 256 + unat b;
        let sc = (if sc_in_buf sc then sc\<lparr>sc_d := sc_d sc + 1, sc_dlen := sc_dlen sc - 1\<rparr> else sc);
        if (case pktlen of None \<Rightarrow> True | Some n \<Rightarrow> target \<ge> n)
        then map_option (\<lambda>sc. Return sc comprloop) (scan_print ErrorComprPtrOutOfBounds sc)
        else if sc_counter sc > maxcompr
        then map_option (\<lambda>sc. Return (sc\<lparr>sc_counter := sc_counter sc + 1\<rparr>)
            (map_option (\<lambda>c. if c < 10 then c + 1 else c) comprloop)) (scan_print ErrorComprPtrLooped sc)
        else Some (Continue (sc\<lparr>sc_counter := sc_counter sc + 1, sc_in_buf := False, sc_pos := target\<rparr>)) })"

text \<open>Printing the characters of a label, after its length byte.\<close>

definition scan_label :: "byte list \<Rightarrow> nat option \<Rightarrow> nat option \<Rightarrow> byte \<Rightarrow> dname_scan \<Rightarrow> scan_step option" where
  "scan_label m pktlen comprloop labellen sc = do {
     let n = (if sc_in_buf sc then min (unat labellen) (sc_dlen sc)
              else min (unat labellen) (pkt_end pktlen - sc_pos sc));
     let sc = sc\<lparr>sc_dname_len := sc_dname_len sc + n + 1\<rparr>;
     if sc_dname_len sc > LDNS_MAX_DOMAINLEN
     then map_option (\<lambda>sc. Return sc comprloop) (scan_print ErrorDomainNameTooLong sc)
     else do {
       cs \<leftarrow> peek_bytes m (sc_pos sc) n;
       (w, out) \<leftarrow> dname_chars_print cs (sc_out sc);
       let sc = scan_advance n (sc\<lparr>sc_w := sc_w sc + w, sc_out := out\<rparr>);
       if sc_in_buf sc \<and> sc_dlen sc = 0 then Some (Break sc)
       else map_option Continue (scan_print [DOT] sc) } }"

definition scan_round :: "byte list \<Rightarrow> nat option \<Rightarrow> nat \<Rightarrow> nat option \<Rightarrow> dname_scan \<Rightarrow> scan_step option" where
  "scan_round m pktlen maxcompr comprloop sc =
     (if (case pktlen of None \<Rightarrow> False | Some n \<Rightarrow> sc_pos sc \<ge> n) then Some (Break sc)
      else do {
        labellen \<leftarrow> peek8 m (sc_pos sc);
        if labellen = 0 then Some (Break sc)
        else do {
          let sc = scan_advance 1 sc;
          if labellen AND 0xc0 = 0xc0 then scan_pointer m pktlen maxcompr comprloop labellen sc
          else if labellen AND 0xc0 \<noteq> 0 then
            map_option (\<lambda>sc. Return sc comprloop)
              (scan_print (ErrorLABELTYPE @ (if labellen AND 0xc0 = 0x40 then [52, 48] else [56, 48]) @ IsUnknown) sc)
          else scan_label m pktlen comprloop labellen sc } })"

text \<open>Every round that goes on follows one more pointer or makes the name longer.\<close>

definition scan_budget :: "nat \<Rightarrow> dname_scan \<Rightarrow> nat" where
  "scan_budget maxcompr sc = (maxcompr + 1 - sc_counter sc) + (LDNS_MAX_DOMAINLEN - sc_dname_len sc)"

lemma scan_advance_same [simp]:
  "sc_counter (scan_advance n sc) = sc_counter sc" "sc_dname_len (scan_advance n sc) = sc_dname_len sc"
  "sc_in_buf (scan_advance n sc) = sc_in_buf sc" "sc_w (scan_advance n sc) = sc_w sc"
  "sc_out (scan_advance n sc) = sc_out sc" "sc_pos (scan_advance n sc) = sc_pos sc + n"
  by (simp_all add: scan_advance_def)

lemma scan_print_same:
  assumes "scan_print txt sc = Some sc'"
  shows "sc_counter sc' = sc_counter sc" "sc_dname_len sc' = sc_dname_len sc" "sc_in_buf sc' = sc_in_buf sc"
    "sc_pos sc' = sc_pos sc" "sc_d sc' = sc_d sc" "sc_dlen sc' = sc_dlen sc"
  using assms by (auto simp: scan_print_def split: bind_splits)

lemma scan_pointer_next:
  assumes "scan_pointer m pktlen maxcompr comprloop labellen sc = Some (Continue sc')"
  shows "sc_counter sc \<le> maxcompr" "sc_counter sc' = sc_counter sc + 1" "sc_dname_len sc' = sc_dname_len sc"
  using assms by (auto simp: scan_pointer_def Let_def split: if_splits bind_splits option.splits)

lemma scan_label_next:
  assumes "scan_label m pktlen comprloop labellen sc = Some (Continue sc')"
  shows "sc_counter sc' = sc_counter sc" "sc_dname_len sc < sc_dname_len sc'" "sc_dname_len sc' \<le> LDNS_MAX_DOMAINLEN"
proof -
  let ?n = "if sc_in_buf sc then min (unat labellen) (sc_dlen sc) else min (unat labellen) (pkt_end pktlen - sc_pos sc)"
  obtain w out where "\<not> sc_dname_len sc + ?n + 1 > LDNS_MAX_DOMAINLEN"
    "scan_print [DOT] (scan_advance ?n (sc\<lparr>sc_dname_len := sc_dname_len sc + ?n + 1, sc_w := sc_w sc + w, sc_out := out\<rparr>)) = Some sc'"
    using assms unfolding scan_label_def Let_def
    by (simp split: if_split_asm bind_split_asm prod.split_asm add: split_beta del: min.bounded_iff)
  with scan_print_same(1,2) [OF this(2)]
  show "sc_counter sc' = sc_counter sc" "sc_dname_len sc < sc_dname_len sc'" "sc_dname_len sc' \<le> LDNS_MAX_DOMAINLEN"
    by simp_all
qed

lemma scan_round_budget:
  assumes "scan_round m pktlen maxcompr comprloop sc = Some (Continue sc')"
  shows "scan_budget maxcompr sc' < scan_budget maxcompr sc"
proof -
  obtain l where "scan_pointer m pktlen maxcompr comprloop l (scan_advance 1 sc) = Some (Continue sc') \<or>
      scan_label m pktlen comprloop l (scan_advance 1 sc) = Some (Continue sc')"
    using assms by (auto simp: scan_round_def Let_def split: if_splits bind_splits)
  then show ?thesis
    using scan_pointer_next [of m pktlen maxcompr comprloop l "scan_advance 1 sc" sc']
      scan_label_next [of m pktlen comprloop l "scan_advance 1 sc" sc'] by (auto simp: scan_budget_def)
qed

function dname_scan_loop ::
    "byte list \<Rightarrow> nat option \<Rightarrow> nat \<Rightarrow> nat option \<Rightarrow> dname_scan \<Rightarrow> scan_step option" where
  "dname_scan_loop m pktlen maxcompr comprloop sc =
     (case scan_round m pktlen maxcompr comprloop sc of
        Some (Continue sc') \<Rightarrow> dname_scan_loop m pktlen maxcompr comprloop sc'
      | r \<Rightarrow> r)"
  by pat_completeness auto
termination
  by (relation "measure (\<lambda>(m, pktlen, maxcompr, comprloop, sc). scan_budget maxcompr sc)")
    (auto dest: scan_round_budget)

declare dname_scan_loop.simps [simp del]

text \<open>The results are the number of characters, the new values of \<open>*d\<close> and \<open>*dlen\<close>, the output and the new
  value of \<open>*comprloop\<close>.\<close>

definition scan_result :: "dname_scan \<Rightarrow> nat option \<Rightarrow> nat \<times> nat \<times> nat \<times> text_out \<times> nat option" where
  "scan_result sc comprloop = (sc_w sc, sc_d sc, sc_dlen sc, sc_out sc, comprloop)"

definition sldns_wire2str_dname_scan ::
    "byte list \<Rightarrow> nat \<Rightarrow> nat \<Rightarrow> text_out \<Rightarrow> nat option \<Rightarrow> nat option \<Rightarrow>
     (nat \<times> nat \<times> nat \<times> text_out \<times> nat option) option" where
  "sldns_wire2str_dname_scan m d dlen out pktlen comprloop = do {
     let maxcompr = (case comprloop of None \<Rightarrow> MAX_COMPRESS_PTRS
       | Some c \<Rightarrow> if c > 4 then 4 else if c \<noteq> 0 then 30 else MAX_COMPRESS_PTRS);
     let sc = \<lparr>sc_pos = d, sc_d = d, sc_dlen = dlen, sc_in_buf = True, sc_counter = 0, sc_dname_len = 0,
               sc_w = 0, sc_out = out\<rparr>;
     if dlen = 0 then map_option (\<lambda>sc. scan_result sc comprloop) (scan_print ErrorMissingDname sc)
     else do {
       b \<leftarrow> peek8 m d;
       if b = 0 then map_option (\<lambda>sc. scan_result sc comprloop) (scan_print [DOT] (scan_advance 1 sc))
       else do {
         r \<leftarrow> dname_scan_loop m pktlen maxcompr comprloop sc;
         (case r of
            Return sc comprloop \<Rightarrow> Some (scan_result sc comprloop)
          | Break sc \<Rightarrow> do {
              let sc = (if sc_in_buf sc \<and> sc_dlen sc > 0 then scan_advance 1 sc else sc);
              sc \<leftarrow> (if sc_w sc = 0 then scan_print [DOT] sc else Some sc);
              Some (scan_result sc comprloop) }
          | Continue _ \<Rightarrow> None) } } }"

definition sldns_wire2str_dname_buf :: "byte list \<Rightarrow> nat \<Rightarrow> text_out \<Rightarrow> (nat \<times> text_out) option" where
  "sldns_wire2str_dname_buf d dlen out = do {
     (w, _, _, out, _) \<leftarrow> sldns_wire2str_dname_scan d 0 dlen out None None;
     Some (w, out) }"

text \<open>The result is the new buffer, whose bytes were \<open>raw\<close> before; \<open>None\<close> for \<open>NULL\<close>.\<close>

definition sldns_wire2str_dname :: "(nat \<Rightarrow> byte list option) \<Rightarrow> byte list \<Rightarrow> nat \<Rightarrow> byte list option option" where
  "sldns_wire2str_dname malloc dname dname_len = do {
     (slen, _) \<leftarrow> sldns_wire2str_dname_buf dname dname_len \<lparr>t_buf = [], t_str = None, t_slen = 0\<rparr>;
     (case malloc (slen + 1) of
        None \<Rightarrow> Some None
      | Some raw \<Rightarrow> do {
          (_, out) \<leftarrow> sldns_wire2str_dname_buf dname dname_len \<lparr>t_buf = raw, t_str = Some 0, t_slen = slen + 1\<rparr>;
          Some (Some (t_buf out)) }) }"

end
