(* ===== verification/Dname_Read.thy ===== *)
theory Dname_Read
  imports Dname_Text
begin

text \<open>
  Reading a name from text refines a reading of the text as a list of labels, without a buffer: the
  code returns the name in wire format if the labels fit, and an error otherwise.
\<close>

section \<open>The text as labels\<close>

text \<open>The labels that end in a dot, and the label after the last dot.\<close>

function read_text :: "byte list \<Rightarrow> label list \<Rightarrow> label \<Rightarrow> (label list \<times> label) option" where
  "read_text [] ls cur = Some (ls, cur)"
| "read_text (c # s) ls cur =
     (if c = DOT then (if label_ok cur then read_text s (ls @ [cur]) [] else None)
      else if c = BACKSLASH then (case sldns_parse_escape s of
          None \<Rightarrow> None | Some (b, s') \<Rightarrow> read_text s' ls (cur @ [b]))
      else read_text s ls (cur @ [c]))"
  by pat_completeness auto
termination
  by (relation "measure (\<lambda>(s, ls, cur). length s)") (auto dest: sldns_parse_escape_shorter)

definition text_name :: "byte list \<Rightarrow> label list option" where
  "text_name s =
     (if s = [] then None
      else if s = [DOT] then Some []
      else do {
        (ls, cur) \<leftarrow> read_text s [] [];
        if cur = [] then Some ls else if label_ok cur then Some (ls @ [cur]) else None })"

section \<open>The loop\<close>

definition enc :: "label list \<Rightarrow> byte list" where
  "enc ls = concat (map (\<lambda>l. of_nat (length l) # l) ls)"

lemma enc_simps [simp]: "enc [] = []" "enc (l # ls) = of_nat (length l) # l @ enc ls" "enc (xs @ ys) = enc xs @ enc ys"
  by (simp_all add: enc_def)

lemma wire_enc: "wire ls = enc ls @ [0]"
  by (induction ls) simp_all

fun reading :: "nat \<Rightarrow> nat \<Rightarrow> dname_vars \<Rightarrow> label list \<Rightarrow> label \<Rightarrow> bool" where
  "reading n olen (buf, q, pq, label_len, len) ls cur \<longleftrightarrow>
     length buf = n \<and> labels_ok ls \<and> pq = length (enc ls) \<and> len = pq \<and> q = pq + 1 + length cur \<and>
     label_len = of_nat (length cur) \<and> q \<le> 255 \<and> q \<le> olen \<and>
     (\<exists>x. take q buf = enc ls @ x # cur \<and> (cur = [] \<and> ls \<noteq> [] \<longrightarrow> x = 0))"

lemma reading_char:
  assumes "reading n olen (buf, q, pq, ll, len) ls cur" "q < olen" "q < 255" "olen \<le> n"
  shows "\<exists>buf'. poke_bytes buf q [b] = Some buf' \<and> reading n olen (buf', q + 1, pq, ll + 1, len) ls (cur @ [b])"
proof -
  obtain x where x: "take q buf = enc ls @ x # cur" using assms(1) by auto
  have l: "length buf = n" using assms(1) by simp
  obtain buf' where b: "poke_bytes buf q [b] = Some buf'"
    using poke_bytes_exists [of q "[b]" buf] assms(2,4) l by auto
  have "take (q + 1) buf' = enc ls @ x # cur @ [b]" using poke_take_upto [OF b] x by simp
  moreover have "length buf' = n" using poke_bytes_length [OF b] l by simp
  ultimately have "reading n olen (buf', q + 1, pq, ll + 1, len) ls (cur @ [b])"
    using assms(1,2,3) by (auto simp: add.commute)
  with b show ?thesis by blast
qed

lemma reading_dot:
  assumes "reading n olen (buf, q, pq, ll, len) ls cur" "q < olen" "q < 255" "olen \<le> n" "label_ok cur"
  shows "\<exists>buf1 buf2. poke_bytes buf q [0] = Some buf1 \<and> poke_bytes buf1 pq [ll] = Some buf2 \<and>
    take (q + 1) buf2 = wire (ls @ [cur]) \<and>
    reading n olen (buf2, q + 1, q, 0, len + unat ll + 1) (ls @ [cur]) []"
proof -
  obtain x where x: "take q buf = enc ls @ x # cur" using assms(1) by auto
  have l: "length buf = n" "q = length (enc ls) + 1 + length cur" "pq = length (enc ls)" using assms(1) by auto
  obtain buf1 where b1: "poke_bytes buf q [0] = Some buf1"
    using poke_bytes_exists [of q "[0]" buf] assms(2,4) l by auto
  have t1: "take (q + 1) buf1 = enc ls @ x # cur @ [0]" using poke_take_upto [OF b1] x by simp
  have l1: "length buf1 = n" using poke_bytes_length [OF b1] l by simp
  obtain buf2 where b2: "poke_bytes buf1 pq [ll] = Some buf2"
    using poke_bytes_exists [of pq "[ll]" buf1] assms(2,4) l l1 by auto
  have l2: "length buf2 = n" using poke_bytes_length [OF b2] l1 by simp
  have "take (q + 1) buf2 = take pq (take (q + 1) buf1) @ [ll] @ drop (Suc pq) (take (q + 1) buf1)"
    using b2 l(2,3) l1 assms(2,4) by (auto simp: poke_bytes_def min_def drop_take split: if_splits)
  also have "\<dots> = enc (ls @ [cur]) @ [0]" unfolding t1 using assms(1) by (auto simp: l(3))
  finally have t2: "take (q + 1) buf2 = enc (ls @ [cur]) @ [0]" .
  have "unat ll = length cur"
    using assms(1,5) by (simp add: label_ok_def unat_of_nat)
  then have "reading n olen (buf2, q + 1, q, 0, len + unat ll + 1) (ls @ [cur]) []"
    using t2 assms l2 by auto
  with b1 b2 t2 show ?thesis by (simp add: wire_enc)
qed

lemma read_text_longer:
  assumes "read_text s ls cur = Some (ls', cur')"
  shows "length (enc ls) + length cur + (if s = [] then 0 else 1) \<le> length (enc ls') + length cur'"
  using assms
proof (induction s ls cur rule: read_text.induct)
  case (2 c s ls cur)
  then show ?case by (fastforce split: if_splits option.splits)
qed simp

lemma RET_ERR_nonzero: "e AND 0xfff \<noteq> 0 \<Longrightarrow> RET_ERR e off \<noteq> 0"
  by (simp add: RET_ERR_def or_eq_0_iff)

lemma RET_ERR_codes [simp]:
  "RET_ERR 342 off \<noteq> 0" "RET_ERR 343 off \<noteq> 0" "RET_ERR 344 off \<noteq> 0" "RET_ERR 345 off \<noteq> 0"
  "RET_ERR 346 off \<noteq> 0" "RET_ERR 347 off \<noteq> 0" "RET_ERR 348 off \<noteq> 0"
  by (rule RET_ERR_nonzero, simp)+

lemma label_len_checks:
  assumes "reading n olen (buf, q, pq, ll, len) ls cur"
  shows "unat ll = length cur" "label_ok cur \<longleftrightarrow> \<not> unat ll > LDNS_MAX_LABELLEN \<and> ll \<noteq> 0" "ll = 0 \<longleftrightarrow> cur = []"
proof -
  have "length cur < 256" "ll = of_nat (length cur)" using assms by auto
  then show u: "unat ll = length cur" by (simp add: unat_of_nat)
  have "ll = 0 \<longleftrightarrow> unat ll = 0" by (simp add: unat_eq_zero)
  then show "label_ok cur \<longleftrightarrow> \<not> unat ll > LDNS_MAX_LABELLEN \<and> ll \<noteq> 0" "ll = 0 \<longleftrightarrow> cur = []"
    by (auto simp: u label_ok_def)
qed

text \<open>What the loop returns: the variables for the labels read if they fit, an error otherwise.\<close>

definition loop_gives :: "nat \<Rightarrow> nat \<Rightarrow> (label list \<times> label) option \<Rightarrow> (u32 \<times> byte list + dname_vars) option \<Rightarrow> bool" where
  "loop_gives n olen t r \<longleftrightarrow>
     (case t of
        Some (ls, cur) \<Rightarrow>
          if length (enc ls) + 1 + length cur \<le> min olen 255 then \<exists>v. r = Some (Inr v) \<and> reading n olen v ls cur
          else \<exists>e buf. r = Some (Inl (e, buf)) \<and> e \<noteq> 0 \<and> length buf = n
      | None \<Rightarrow> \<exists>e buf. r = Some (Inl (e, buf)) \<and> e \<noteq> 0 \<and> length buf = n)"

lemma loop_error:
  assumes "r = Some (Inl (e, buf))" "e \<noteq> 0" "length buf = n" "\<And>ls cur. t = Some (ls, cur) \<Longrightarrow> length (enc ls) + 1 + length cur > min olen 255"
  shows "loop_gives n olen t r"
  using assms by (fastforce simp: loop_gives_def not_le split: option.splits)

lemma str2wire_dname_loop_ok:
  assumes "reading n olen v ls cur" "olen \<le> n"
  shows "loop_gives n olen (read_text s ls cur) (str2wire_dname_loop olen s v)"
  using assms
proof (induction olen s v arbitrary: ls cur rule: str2wire_dname_loop.induct)
  case (1 olen v)
  then show ?case by (cases v) (simp add: loop_gives_def)
next
  case (2 olen c s buf q pq ll len)
  note rd = 2(4) and room = 2(5)
  have q: "q = length (enc ls) + 1 + length cur" "length buf = n" using rd by auto
  note ll = label_len_checks [OF rd]
  show ?case
  proof (cases "q < olen \<and> q < 255")
    case False
    then have "length (enc ls') + 1 + length cur' > min olen 255" if "read_text (c # s) ls cur = Some (ls', cur')" for ls' cur'
      using read_text_longer [OF that] q(1) by auto
    moreover obtain e where "str2wire_dname_loop olen (c # s) (buf, q, pq, ll, len) = Some (Inl (e, buf))" "e \<noteq> 0"
      using False by (cases "q < olen") auto
    ultimately show ?thesis using q(2) by (intro loop_error) auto
  next
    case True
    then have q3: "\<not> olen \<le> q" "\<not> LDNS_MAX_DOMAINLEN \<le> q" "q < olen" "q < 255" by auto
    consider "c = DOT" | "c = BACKSLASH" | "c \<noteq> DOT" "c \<noteq> BACKSLASH" by blast
    then show ?thesis
    proof cases
      case c: 1
      show ?thesis
      proof (cases "label_ok cur")
        case lok: True
        with ll(2) have l3: "\<not> LDNS_MAX_LABELLEN < unat ll" "ll \<noteq> 0" by auto
        obtain buf1 buf2 where b: "poke_bytes buf q [0] = Some buf1" "poke_bytes buf1 pq [ll] = Some buf2"
          "reading n olen (buf2, q + 1, q, 0, len + unat ll + 1) (ls @ [cur]) []"
          using reading_dot [OF rd q3(3,4) room lok] by blast
        from 2(1) [OF q3(1,2) c l3 b(1,2,3) room] lok show ?thesis by (simp add: q3 c l3 b(1,2))
      next
        case False
        with ll(2) q(2) q3 show ?thesis by (intro loop_error [where buf = buf and e = "if unat ll > LDNS_MAX_LABELLEN then _ else _"]) (auto simp: c)
      qed
    next
      case c: 2
      show ?thesis
      proof (cases "sldns_parse_escape s")
        case None
        obtain buf1 where b: "poke_bytes buf q [0] = Some buf1"
          using reading_char [OF rd q3(3,4) room] by blast
        with poke_bytes_length [OF b] q q3 None show ?thesis by (intro loop_error) (auto simp: c)
      next
        case (Some r)
        obtain b s' where r: "r = (b, s')" by (cases r)
        obtain buf' where b: "poke_bytes buf q [b] = Some buf'" "reading n olen (buf', q + 1, pq, ll + 1, len) ls (cur @ [b])"
          using reading_char [OF rd q3(3,4) room] by blast
        from 2(2) [OF q3(1,2) _ c Some r [symmetric] b(1,2) room] Some show ?thesis by (simp add: q3 c r b(1))
      qed
    next
      case c: 3
      obtain buf' where b: "poke_bytes buf q [c] = Some buf'" "reading n olen (buf', q + 1, pq, ll + 1, len) ls (cur @ [c])"
        using reading_char [OF rd q3(3,4) room] by blast
      from 2(3) [OF q3(1,2) c b(1,2) room] show ?thesis by (simp add: q3 c b(1))
    qed
  qed
qed

lemma poke_byte_update: "poke_bytes d i [x] = (if i < length d then Some (d[i := x]) else None)"
  by (simp add: poke_bytes_def upd_conv_take_nth_drop)

lemma poke_bytes_swap:
  assumes "i \<noteq> j" "poke_bytes d j [y] = Some d1" "poke_bytes d1 i [x] = Some d2"
  shows "\<exists>d1'. poke_bytes d i [x] = Some d1' \<and> poke_bytes d1' j [y] = Some d2"
  using assms by (auto simp: poke_byte_update list_update_swap split: if_splits)

section \<open>The functions\<close>

lemma ex_bool [simp]: "Ex Not" "\<exists>b. b"
  by (rule exI [of _ False], simp) (rule exI [of _ True], simp)

text \<open>The name that the text stands for, if it fits.\<close>

definition read_name :: "nat \<Rightarrow> byte list \<Rightarrow> label list option" where
  "read_name olen s =
     (if length s > LDNS_MAX_DOMAINLEN * 4 then None
      else case text_name s of None \<Rightarrow> None
        | Some ls \<Rightarrow> if length (wire ls) \<le> min olen LDNS_MAX_DOMAINLEN then Some ls else None)"

text \<open>Whether the text ends in a label without a dot.\<close>

definition text_relative :: "byte list \<Rightarrow> bool" where
  "text_relative s \<longleftrightarrow> s \<noteq> [DOT] \<and> (\<exists>ls cur. read_text s [] [] = Some (ls, cur) \<and> cur \<noteq> [])"

lemma read_text_labels_ok:
  "read_text s ls cur = Some (ls', cur') \<Longrightarrow> labels_ok ls \<Longrightarrow> labels_ok ls'"
  by (induction s ls cur rule: read_text.induct) (auto split: if_splits option.splits)

lemma read_text_not_empty:
  "read_text s ls cur = Some (ls', cur') \<Longrightarrow> s \<noteq> [] \<or> ls \<noteq> [] \<or> cur \<noteq> [] \<Longrightarrow> ls' \<noteq> [] \<or> cur' \<noteq> []"
  using read_text_longer [of s ls cur ls' cur'] by (cases ls; cases cur; fastforce split: if_splits)

lemma read_name_ok: "read_name olen s = Some ls \<Longrightarrow> dname_ok ls \<and> length (wire ls) \<le> olen"
  by (auto simp: read_name_def text_name_def dname_ok_def split: if_splits option.splits bind_splits
      dest!: read_text_labels_ok)

lemma sldns_str2wire_dname_buf_rel_ok:
  assumes "length buf = n" "olen \<le> n"
  shows "\<exists>st buf' olen' rel. sldns_str2wire_dname_buf_rel str buf olen = Some (st, buf', olen', rel) \<and> length buf' = n \<and>
    (case read_name olen str of
       Some ls \<Rightarrow> st = 0 \<and> olen' = length (wire ls) \<and> take olen' buf' = wire ls \<and> rel = text_relative str
     | None \<Rightarrow> st \<noteq> 0 \<and> olen' = olen)"
proof -
  consider "length str > LDNS_MAX_DOMAINLEN * 4" | "str = []" | "str = [DOT]" | "str \<noteq> []" "str \<noteq> [DOT]" "olen = 0" "length str \<le> LDNS_MAX_DOMAINLEN * 4"
    | "str \<noteq> []" "str \<noteq> [DOT]" "1 \<le> olen" "length str \<le> LDNS_MAX_DOMAINLEN * 4" by fastforce
  then show ?thesis
  proof cases
    case 1
    with assms show ?thesis by (simp add: sldns_str2wire_dname_buf_rel_def read_name_def)
  next
    case 2
    with assms show ?thesis by (simp add: sldns_str2wire_dname_buf_rel_def read_name_def text_name_def)
  next
    case 3
    show ?thesis
    proof (cases "olen < 1")
      case True
      with 3 assms show ?thesis by (simp add: sldns_str2wire_dname_buf_rel_def read_name_def text_name_def)
    next
      case False
      then obtain buf' where b: "poke_bytes buf 0 [0] = Some buf'"
        using poke_bytes_exists [of 0 "[0]" buf] assms by auto
      with 3 False assms poke_bytes_length [OF b] poke_take_upto [OF b] show ?thesis
        by (auto simp: sldns_str2wire_dname_buf_rel_def read_name_def text_name_def text_relative_def)
    qed
  next
    case 4
    then have "read_name olen str = None" by (auto simp: read_name_def wire_enc split: option.splits)
    with 4 assms show ?thesis by (simp add: sldns_str2wire_dname_buf_rel_def)
  next
    case 5
    have "length buf \<ge> 1" using 5(3) assms by simp
    then have "reading n olen (buf, 1, 0, 0, 0) [] []" using assms 5(3) by (cases buf) auto
    define loop where "loop = str2wire_dname_loop olen str (buf, 1, 0, 0, 0)"
    from str2wire_dname_loop_ok [OF \<open>reading n olen (buf, 1, 0, 0, 0) [] []\<close> assms(2), of str]
    have lp: "loop_gives n olen (read_text str [] []) loop" unfolding loop_def .
    have unf: "sldns_str2wire_dname_buf_rel str buf olen = do {
        r \<leftarrow> loop;
        (case r of
           Inl (e, buf) \<Rightarrow> Some (e, buf, olen, False)
         | Inr (buf, q, pq, label_len, len) \<Rightarrow>
             if label_len \<noteq> 0 then
               (if q \<ge> olen then Some (RET_ERR LDNS_WIREPARSE_ERR_BUFFER_TOO_SMALL q, buf, olen, True)
                else if q \<ge> LDNS_MAX_DOMAINLEN then Some (RET_ERR LDNS_WIREPARSE_ERR_DOMAINNAME_OVERFLOW q, buf, olen, True)
                else if unat label_len > LDNS_MAX_LABELLEN then Some (RET_ERR LDNS_WIREPARSE_ERR_LABEL_OVERFLOW q, buf, olen, True)
                else do {
                  buf \<leftarrow> poke_bytes buf pq [label_len];
                  buf \<leftarrow> poke_bytes buf q [0];
                  Some (LDNS_WIREPARSE_ERR_OK, buf, len + unat label_len + 1 + 1, True) })
             else Some (LDNS_WIREPARSE_ERR_OK, buf, len + 1, False)) }"
      using 5 by (simp add: sldns_str2wire_dname_buf_rel_def not_less loop_def)
    show ?thesis
    proof (cases "\<exists>e buf'. loop = Some (Inl (e, buf')) \<and> e \<noteq> 0 \<and> length buf' = n")
      case True
      moreover from True lp have "read_name olen str = None"
        using 5 by (auto simp: loop_gives_def read_name_def text_name_def wire_enc split: option.splits if_splits prod.splits)
      ultimately show ?thesis by (auto simp: unf)
    next
      case False
      then obtain ls cur v where r: "read_text str [] [] = Some (ls, cur)" "length (enc ls) + 1 + length cur \<le> min olen 255"
        "loop = Some (Inr v)" "reading n olen v ls cur"
        using lp by (auto simp: loop_gives_def split: option.splits if_splits)
      obtain buf1 q pq ll len where v: "v = (buf1, q, pq, ll, len)" by (rule prod_cases5)
      note rd = r(4) [unfolded v]
      note ll = label_len_checks [OF rd]
      have q: "q = length (enc ls) + 1 + length cur" "pq = length (enc ls)" "len = pq" "length buf1 = n" using rd by auto
      show ?thesis
      proof (cases "cur = []")
        case True
        then have ne: "ls \<noteq> []" using read_text_not_empty [OF r(1)] 5(1) by simp
        with rd True have t: "take (len + 1) buf1 = wire ls" by (auto simp: wire_enc)
        have "read_name olen str = Some ls" "text_relative str = False"
          using 5 r True by (auto simp: read_name_def text_name_def text_relative_def wire_enc)
        with True ll t q show ?thesis by (simp add: unf r(3) v wire_enc)
      next
        case nonempty: False
        then have rel: "text_relative str" using 5 r by (auto simp: text_relative_def)
        show ?thesis
        proof (cases "q < olen \<and> q < 255 \<and> label_ok cur")
          case True
          from reading_dot [OF rd _ _ assms(2)] True obtain b1 b2 where
            b: "poke_bytes buf1 q [0] = Some b1" "poke_bytes b1 pq [ll] = Some b2" "take (q + 1) b2 = wire (ls @ [cur])" by blast
          have "pq \<noteq> q" using q by simp
          from poke_bytes_swap [OF this b(1,2)] obtain b1' where
            "poke_bytes buf1 pq [ll] = Some b1'" "poke_bytes b1' q [0] = Some b2" by blast
          then have "sldns_str2wire_dname_buf_rel str buf olen = Some (0, b2, q + 1, True)"
            using True ll q nonempty by (simp add: unf r(3) v not_le)
          moreover have "read_name olen str = Some (ls @ [cur])"
            using 5 r True nonempty q by (auto simp: read_name_def text_name_def wire_enc)
          moreover have "q + 1 = length (wire (ls @ [cur]))" using q by (simp add: wire_enc)
          moreover have "length b2 = n" using b(1,2) poke_bytes_length q by metis
          ultimately show ?thesis using b(3) rel by simp
        next
          case False
          have "read_name olen str = None"
            using 5 r False nonempty q by (auto simp: read_name_def text_name_def wire_enc)
          moreover have "\<exists>e. e \<noteq> 0 \<and> sldns_str2wire_dname_buf_rel str buf olen = Some (e, buf1, olen, True)"
            using False ll nonempty by (auto simp: unf r(3) v)
          ultimately show ?thesis using q by auto
        qed
      qed
    qed
  qed
qed

lemma sldns_str2wire_dname_ok:
  assumes "length raw = 256"
  shows "sldns_str2wire_dname raw malloc_ok str =
    Some (case read_name 256 str of Some ls \<Rightarrow> if malloc_ok then (Some (wire ls), length (wire ls)) else (None, 0) | None \<Rightarrow> (None, 0))"
proof -
  from sldns_str2wire_dname_buf_rel_ok [OF assms, of 256 str] obtain st buf' olen' rel where
    1: "sldns_str2wire_dname_buf_rel str raw 256 = Some (st, buf', olen', rel)" "length buf' = 256"
    "case read_name 256 str of
       Some ls \<Rightarrow> st = 0 \<and> olen' = length (wire ls) \<and> take olen' buf' = wire ls \<and> rel = text_relative str
     | None \<Rightarrow> st \<noteq> 0 \<and> olen' = 256" by auto
  have e: "LDNS_MAX_DOMAINLEN + 1 = (256 :: nat)" by simp
  show ?thesis
  proof (cases "read_name 256 str")
    case None
    with 1 show ?thesis unfolding sldns_str2wire_dname_def sldns_str2wire_dname_buf_def Let_def e by simp
  next
    case (Some ls)
    with read_name_ok [OF Some] 1 show ?thesis
      unfolding sldns_str2wire_dname_def sldns_str2wire_dname_buf_def Let_def e by (auto simp: peek_bytes_def)
  qed
qed

end
