(* ===== verification/Dname_Print.thy ===== *)
theory Dname_Print
  imports Dname_Read
begin

text \<open>
  Printing a name: what the output buffer holds, that the scan of any bytes stays inside of the packet
  and of the buffer, and that the text of a name is read back as the name.
\<close>

section \<open>The output buffer\<close>

text \<open>The text \<open>T\<close> has been printed to a buffer of \<open>N\<close> bytes, as far as there was room.\<close>

definition printed :: "nat \<Rightarrow> byte list \<Rightarrow> text_out \<Rightarrow> bool" where
  "printed N T st \<longleftrightarrow> N \<le> length (t_buf st) \<and> t_slen st = N - length T \<and>
     (length T < N \<longrightarrow> t_str st = Some (length T) \<and> take (length T) (t_buf st) = T)"

definition terminated :: "nat \<Rightarrow> byte list \<Rightarrow> text_out \<Rightarrow> bool" where
  "terminated N T st \<longleftrightarrow> (length T < N \<longrightarrow> take (length T + 1) (t_buf st) = T @ [0])"

lemma sldns_str_print_ok:
  assumes "printed N T st"
  shows "\<exists>st'. sldns_str_print x st = Some (length x, st') \<and> length (t_buf st') = length (t_buf st) \<and>
    printed N (T @ x) st' \<and> terminated N (T @ x) st'"
proof (cases "length T < N")
  case False
  with assms show ?thesis by (auto simp: printed_def terminated_def sldns_str_print_def Let_def)
next
  case room: True
  with assms have st: "t_str st = Some (length T)" "take (length T) (t_buf st) = T" "t_slen st = N - length T" "N \<le> length (t_buf st)"
    by (auto simp: printed_def)
  show ?thesis
  proof (cases "length x \<ge> t_slen st")
    case True
    obtain b where b: "poke_bytes (t_buf st) (length T) (take (t_slen st - 1) x @ [0]) = Some b"
      using poke_bytes_exists [of "length T" "take (t_slen st - 1) x @ [0]" "t_buf st"] True st room by auto
    with True st room poke_bytes_length [OF b] show ?thesis
      by (auto simp: printed_def terminated_def sldns_str_print_def Let_def)
  next
    case False
    have "length T + length (x @ [0]) \<le> length (t_buf st)" using False st(3,4) room by simp
    then obtain b where b: "poke_bytes (t_buf st) (length T) (x @ [0]) = Some b"
      using poke_bytes_exists by blast
    have t: "take (length T + length x + 1) b = T @ x @ [0]" using poke_take_upto [OF b] st(2) by simp
    have "take (length T + length x) b = take (length T + length x) (take (length T + length x + 1) b)" by simp
    then have "take (length T + length x) b = T @ x" unfolding t by simp
    with False st room poke_bytes_length [OF b] t b show ?thesis
      by (auto simp: printed_def terminated_def sldns_str_print_def Let_def)
  qed
qed

text \<open>The text of a character.\<close>

definition esc :: "byte \<Rightarrow> byte list" where
  "esc c = (if c = DOT \<or> c = 59 \<or> c = 40 \<or> c = 41 \<or> c = BACKSLASH then [BACKSLASH, c]
     else if \<not> c_isgraph c then BACKSLASH # dec3 c else [c])"

lemma dname_char_print_ok:
  assumes "printed N T st"
  shows "\<exists>st'. dname_char_print c st = Some (length (esc c), st') \<and> length (t_buf st') = length (t_buf st) \<and>
    printed N (T @ esc c) st'"
proof (cases "(c = DOT \<or> c = 59 \<or> c = 40 \<or> c = 41 \<or> c = BACKSLASH) \<or> \<not> c_isgraph c")
  case True
  with sldns_str_print_ok [OF assms, of "esc c"] show ?thesis by (auto simp: dname_char_print_def esc_def)
next
  case plain: False
  show ?thesis
  proof (cases "length T < N")
    case False
    with plain assms show ?thesis by (auto simp: dname_char_print_def esc_def printed_def)
  next
    case True
    with assms have st: "t_str st = Some (length T)" "take (length T) (t_buf st) = T" "t_slen st = N - length T" "N \<le> length (t_buf st)"
      by (auto simp: printed_def)
    obtain b where b: "poke_bytes (t_buf st) (length T) [c] = Some b"
      using poke_bytes_exists [of "length T" "[c]" "t_buf st"] True st by auto
    from plain st True poke_bytes_length [OF b] poke_take_upto [OF b] b show ?thesis
      by (auto simp: dname_char_print_def esc_def printed_def)
  qed
qed

lemma dname_chars_print_ok:
  assumes "printed N T st"
  shows "\<exists>st'. dname_chars_print cs st = Some (length (concat (map esc cs)), st') \<and> length (t_buf st') = length (t_buf st) \<and>
    printed N (T @ concat (map esc cs)) st'"
  using assms
proof (induction cs arbitrary: T st)
  case (Cons c cs)
  from dname_char_print_ok [OF Cons.prems, of c] obtain st1 where
    1: "dname_char_print c st = Some (length (esc c), st1)" "length (t_buf st1) = length (t_buf st)" "printed N (T @ esc c) st1" by blast
  from Cons.IH [OF 1(3)] 1 show ?case by auto
qed simp

lemma scan_print_ok:
  assumes "printed N T (sc_out sc)"
  shows "\<exists>out. scan_print x sc = Some (sc\<lparr>sc_w := sc_w sc + length x, sc_out := out\<rparr>) \<and>
    length (t_buf out) = length (t_buf (sc_out sc)) \<and> printed N (T @ x) out \<and> terminated N (T @ x) out"
  using sldns_str_print_ok [OF assms, of x] by (auto simp: scan_print_def)

section \<open>Any bytes\<close>

text \<open>The data is inside of the memory object, and the output, in a buffer of \<open>B\<close> bytes, is in order.\<close>

definition scan_safe :: "byte list \<Rightarrow> nat \<Rightarrow> nat \<Rightarrow> dname_scan \<Rightarrow> bool" where
  "scan_safe m N B sc \<longleftrightarrow> sc_d sc + sc_dlen sc \<le> length m \<and>
     (\<exists>T. printed N T (sc_out sc)) \<and> length (t_buf (sc_out sc)) = B"

text \<open>The position is in the data or in the packet.\<close>

definition pos_ok :: "byte list \<Rightarrow> nat option \<Rightarrow> dname_scan \<Rightarrow> bool" where
  "pos_ok m pktlen sc \<longleftrightarrow> pkt_end pktlen \<le> length m \<and> (if sc_in_buf sc then sc_pos sc = sc_d sc else pktlen \<noteq> None)"

definition step_safe :: "byte list \<Rightarrow> nat option \<Rightarrow> nat \<Rightarrow> nat \<Rightarrow> scan_step \<Rightarrow> bool" where
  "step_safe m pktlen N B r = (case r of Return sc _ \<Rightarrow> scan_safe m N B sc | Break sc \<Rightarrow> scan_safe m N B sc
     | Continue sc \<Rightarrow> scan_safe m N B sc \<and> pos_ok m pktlen sc \<and> (sc_in_buf sc \<longrightarrow> 0 < sc_dlen sc))"

lemma step_safe_simps [simp]:
  "step_safe m pktlen N B (Return sc c) \<longleftrightarrow> scan_safe m N B sc" "step_safe m pktlen N B (Break sc) \<longleftrightarrow> scan_safe m N B sc"
  "step_safe m pktlen N B (Continue sc) \<longleftrightarrow> scan_safe m N B sc \<and> pos_ok m pktlen sc \<and> (sc_in_buf sc \<longrightarrow> 0 < sc_dlen sc)"
  by (simp_all add: step_safe_def)

lemma scan_safe_simps [simp]:
  "scan_safe m N B (sc\<lparr>sc_counter := n\<rparr>) = scan_safe m N B sc" "scan_safe m N B (sc\<lparr>sc_in_buf := b\<rparr>) = scan_safe m N B sc"
  "scan_safe m N B (sc\<lparr>sc_pos := n\<rparr>) = scan_safe m N B sc" "scan_safe m N B (sc\<lparr>sc_dname_len := n\<rparr>) = scan_safe m N B sc"
  "scan_safe m N B (sc\<lparr>sc_w := n\<rparr>) = scan_safe m N B sc"
  by (simp_all add: scan_safe_def)

lemma pos_ok_simps [simp]:
  "pos_ok m pktlen (sc\<lparr>sc_dname_len := n\<rparr>) = pos_ok m pktlen sc" "pos_ok m pktlen (sc\<lparr>sc_w := n\<rparr>) = pos_ok m pktlen sc"
  "pos_ok m pktlen (sc\<lparr>sc_out := out\<rparr>) = pos_ok m pktlen sc"
  by (simp_all add: pos_ok_def)

lemma scan_safe_advance:
  assumes "scan_safe m N B sc" "sc_in_buf sc \<Longrightarrow> n \<le> sc_dlen sc" "pos_ok m pktlen sc"
  shows "scan_safe m N B (scan_advance n sc)" "pos_ok m pktlen (scan_advance n sc)"
  using assms by (auto simp: scan_safe_def scan_advance_def pos_ok_def)

lemma scan_safe_print:
  assumes "scan_safe m N B sc"
  shows "\<exists>sc'. scan_print x sc = Some sc' \<and> scan_safe m N B sc' \<and> sc_in_buf sc' = sc_in_buf sc \<and> sc_dlen sc' = sc_dlen sc \<and>
    pos_ok m pktlen sc' = pos_ok m pktlen sc"
proof -
  from assms obtain T where "printed N T (sc_out sc)" by (auto simp: scan_safe_def)
  from scan_print_ok [OF this, of x] obtain out where
    out: "scan_print x sc = Some (sc\<lparr>sc_w := sc_w sc + length x, sc_out := out\<rparr>)"
    "length (t_buf out) = length (t_buf (sc_out sc))" "printed N (T @ x) out" by blast
  then have "scan_safe m N B (sc\<lparr>sc_w := sc_w sc + length x, sc_out := out\<rparr>)" using assms by (auto simp: scan_safe_def)
  with out(1) show ?thesis by simp
qed

lemma scan_pointer_safe:
  assumes safe: "scan_safe m N B sc" and pos: "pos_ok m pktlen sc"
  shows "\<exists>r. scan_pointer m pktlen maxcompr comprloop labellen sc = Some r \<and> step_safe m pktlen N B r"
proof (cases "if sc_in_buf sc then sc_dlen sc = 0 else sc_pos sc + 1 > pkt_end pktlen")
  case True
  obtain out where "scan_print ErrorPartialDname sc = Some out" "scan_safe m N B out" "sc_in_buf out = sc_in_buf sc"
      "sc_dlen out = sc_dlen sc" "pos_ok m pktlen out = pos_ok m pktlen sc" using scan_safe_print [OF safe] by blast
  then show ?thesis unfolding scan_pointer_def if_P [OF True] by simp
next
  case False
  then have "sc_pos sc < length m" using safe pos by (auto simp: scan_safe_def pos_ok_def split: if_splits)
  then obtain b where b: "peek8 m (sc_pos sc) = Some b" by (simp add: peek8_def)
  define sc1 where "sc1 = (if sc_in_buf sc then sc\<lparr>sc_d := sc_d sc + 1, sc_dlen := sc_dlen sc - 1\<rparr> else sc)"
  have safe1: "scan_safe m N B sc1" using safe False by (auto simp: sc1_def scan_safe_def)
  define target where "target = unat (labellen AND 0x3f) * 256 + unat b"
  have pointer: "scan_pointer m pktlen maxcompr comprloop labellen sc =
      (if (case pktlen of None \<Rightarrow> True | Some n \<Rightarrow> target \<ge> n)
       then map_option (\<lambda>sc. Return sc comprloop) (scan_print ErrorComprPtrOutOfBounds sc1)
       else if sc_counter sc1 > maxcompr
       then map_option (\<lambda>sc. Return (sc\<lparr>sc_counter := sc_counter sc + 1\<rparr>)
           (map_option (\<lambda>c. if c < 10 then c + 1 else c) comprloop)) (scan_print ErrorComprPtrLooped sc1)
       else Some (Continue (sc1\<lparr>sc_counter := sc_counter sc1 + 1, sc_in_buf := False, sc_pos := target\<rparr>)))"
    unfolding scan_pointer_def Let_def sc1_def target_def using False b by simp
  obtain o1 where o1: "scan_print ErrorComprPtrOutOfBounds sc1 = Some o1" "scan_safe m N B o1" "sc_in_buf o1 = sc_in_buf sc1"
      "sc_dlen o1 = sc_dlen sc1" "pos_ok m pktlen o1 = pos_ok m pktlen sc1" using scan_safe_print [OF safe1] by blast
  obtain o2 where o2: "scan_print ErrorComprPtrLooped sc1 = Some o2" "scan_safe m N B o2" "sc_in_buf o2 = sc_in_buf sc1"
      "sc_dlen o2 = sc_dlen sc1" "pos_ok m pktlen o2 = pos_ok m pktlen sc1" using scan_safe_print [OF safe1] by blast
  have "pos_ok m pktlen (sc1\<lparr>sc_counter := k, sc_in_buf := False, sc_pos := target\<rparr>)" if "pktlen \<noteq> None" for k
    using pos that by (simp add: pos_ok_def)
  with o1 o2 safe1 show ?thesis unfolding pointer by (cases pktlen) simp_all
qed

lemma scan_label_safe:
  assumes safe: "scan_safe m N B sc" and pos: "pos_ok m pktlen sc" and inside: "\<not> sc_in_buf sc \<Longrightarrow> sc_pos sc \<le> pkt_end pktlen"
  shows "\<exists>r. scan_label m pktlen comprloop labellen sc = Some r \<and> step_safe m pktlen N B r"
proof -
  define n where "n = (if sc_in_buf sc then min (unat labellen) (sc_dlen sc) else min (unat labellen) (pkt_end pktlen - sc_pos sc))"
  define sc1 where "sc1 = sc\<lparr>sc_dname_len := sc_dname_len sc + n + 1\<rparr>"
  have safe1: "scan_safe m N B sc1" and pos1: "pos_ok m pktlen sc1" using safe pos by (simp_all add: sc1_def)
  show ?thesis
  proof (cases "sc_dname_len sc1 > LDNS_MAX_DOMAINLEN")
    case True
    obtain out where "scan_print ErrorDomainNameTooLong sc1 = Some out" "scan_safe m N B out" "sc_in_buf out = sc_in_buf sc1"
      "sc_dlen out = sc_dlen sc1" "pos_ok m pktlen out = pos_ok m pktlen sc1" using scan_safe_print [OF safe1] by blast
    with True show ?thesis unfolding scan_label_def Let_def n_def [symmetric] sc1_def [symmetric] by simp
  next
    case False
    have "sc_pos sc + n \<le> length m"
      using safe pos inside by (auto simp: n_def scan_safe_def pos_ok_def split: if_splits)
    then obtain cs where cs: "peek_bytes m (sc_pos sc1) n = Some cs" by (simp add: peek_bytes_def sc1_def)
    from safe1 obtain T where "printed N T (sc_out sc1)" by (auto simp: scan_safe_def)
    from dname_chars_print_ok [OF this, of cs] obtain w out where
      out: "dname_chars_print cs (sc_out sc1) = Some (w, out)" "length (t_buf out) = length (t_buf (sc_out sc1))"
      "\<exists>T. printed N T out" by blast
    define sc2 where "sc2 = scan_advance n (sc1\<lparr>sc_w := sc_w sc1 + w, sc_out := out\<rparr>)"
    have "scan_safe m N B (sc1\<lparr>sc_w := sc_w sc1 + w, sc_out := out\<rparr>)" using safe1 out(2,3) by (simp add: scan_safe_def)
    then have safe2: "scan_safe m N B sc2" and pos2: "pos_ok m pktlen sc2"
      unfolding sc2_def using pos1 by (intro scan_safe_advance; simp add: n_def sc1_def)+
    obtain o2 where o2: "scan_print [DOT] sc2 = Some o2" "scan_safe m N B o2" "sc_in_buf o2 = sc_in_buf sc2"
      "sc_dlen o2 = sc_dlen sc2" "pos_ok m pktlen o2 = pos_ok m pktlen sc2" using scan_safe_print [OF safe2] by blast
    have "scan_label m pktlen comprloop labellen sc =
        (if sc_in_buf sc2 \<and> sc_dlen sc2 = 0 then Some (Break sc2) else map_option Continue (scan_print [DOT] sc2))"
      unfolding scan_label_def Let_def n_def [symmetric] sc1_def [symmetric] using False cs out(1) by (simp add: sc2_def)
    with safe2 pos2 o2 show ?thesis by auto
  qed
qed

lemma scan_round_safe:
  assumes safe: "scan_safe m N B sc" and pos: "pos_ok m pktlen sc" and more: "sc_in_buf sc \<Longrightarrow> 0 < sc_dlen sc"
  shows "\<exists>r. scan_round m pktlen maxcompr comprloop sc = Some r \<and> step_safe m pktlen N B r"
proof (cases "case pktlen of None \<Rightarrow> False | Some n \<Rightarrow> sc_pos sc \<ge> n")
  case True
  with safe show ?thesis by (simp add: scan_round_def)
next
  case False
  have in_m: "sc_pos sc < length m" and inside: "\<not> sc_in_buf sc \<Longrightarrow> sc_pos sc < pkt_end pktlen"
    using safe pos more False by (auto simp: scan_safe_def pos_ok_def pkt_end_def split: if_splits option.splits)
  obtain b where b: "peek8 m (sc_pos sc) = Some b" using in_m by (simp add: peek8_def)
  define sc1 where "sc1 = scan_advance 1 sc"
  have safe1: "scan_safe m N B sc1" and pos1: "pos_ok m pktlen sc1"
    unfolding sc1_def using safe pos more by (intro scan_safe_advance; simp add: Suc_leI)+
  have inside1: "\<not> sc_in_buf sc1 \<Longrightarrow> sc_pos sc1 \<le> pkt_end pktlen" using inside by (simp add: sc1_def Suc_leI)
  define unknown where "unknown = ErrorLABELTYPE @ (if b AND 0xc0 = 0x40 then [52, 48] else [56, 48]) @ IsUnknown"
  obtain out where out: "scan_print unknown sc1 = Some out" "scan_safe m N B out" "sc_in_buf out = sc_in_buf sc1"
      "sc_dlen out = sc_dlen sc1" "pos_ok m pktlen out = pos_ok m pktlen sc1" using scan_safe_print [OF safe1] by blast
  have "scan_round m pktlen maxcompr comprloop sc =
      (if b = 0 then Some (Break sc)
       else if b AND 0xc0 = 0xc0 then scan_pointer m pktlen maxcompr comprloop b sc1
       else if b AND 0xc0 \<noteq> 0 then map_option (\<lambda>sc. Return sc comprloop) (scan_print unknown sc1)
       else scan_label m pktlen comprloop b sc1)"
    unfolding scan_round_def Let_def sc1_def [symmetric] unknown_def using False b by simp
  with safe out scan_pointer_safe [OF safe1 pos1] scan_label_safe [OF safe1 pos1 inside1] show ?thesis by simp
qed

lemma dname_scan_loop_safe:
  assumes "scan_safe m N B sc" "pos_ok m pktlen sc" "sc_in_buf sc \<Longrightarrow> 0 < sc_dlen sc"
  shows "\<exists>r. dname_scan_loop m pktlen maxcompr comprloop sc = Some r \<and>
    (\<exists>sc'. (r = Break sc' \<or> (\<exists>c. r = Return sc' c)) \<and> scan_safe m N B sc')"
  using assms
proof (induction m pktlen maxcompr comprloop sc rule: dname_scan_loop.induct)
  case (1 m pktlen maxcompr comprloop sc)
  from scan_round_safe [OF 1(2-4)] obtain r where
    r: "scan_round m pktlen maxcompr comprloop sc = Some r" "step_safe m pktlen N B r" by blast
  show ?case
  proof (cases r)
    case (Continue sc')
    with 1(1) [OF r(1) Continue] r show ?thesis by (subst dname_scan_loop.simps) simp
  qed (use r in \<open>subst dname_scan_loop.simps, simp\<close>)+
qed

lemma sldns_wire2str_dname_scan_safe:
  assumes "d + dlen \<le> length m" "pkt_end pktlen \<le> length m" "printed N T out"
  shows "\<exists>w d' dlen' out' c. sldns_wire2str_dname_scan m d dlen out pktlen comprloop = Some (w, d', dlen', out', c) \<and>
    d' + dlen' \<le> length m \<and> length (t_buf out') = length (t_buf out)"
proof -
  define sc where "sc = \<lparr>sc_pos = d, sc_d = d, sc_dlen = dlen, sc_in_buf = True, sc_counter = 0, sc_dname_len = 0, sc_w = 0, sc_out = out\<rparr>"
  have safe: "scan_safe m N (length (t_buf out)) sc" and pos: "pos_ok m pktlen sc"
    using assms by (auto simp: sc_def scan_safe_def pos_ok_def)
  define maxcompr :: nat where "maxcompr = (case comprloop of None \<Rightarrow> MAX_COMPRESS_PTRS
       | Some c \<Rightarrow> if c > 4 then 4 else if c \<noteq> 0 then 30 else MAX_COMPRESS_PTRS)"
  have fin: "d' + dlen' \<le> length m \<and> length (t_buf out') = length (t_buf out)"
    if "scan_safe m N (length (t_buf out)) sc'" "scan_result sc' c = (w, d', dlen', out', c')" for sc' c w d' dlen' out' c'
    using that by (auto simp: scan_result_def scan_safe_def)
  have finish: ?thesis if "sldns_wire2str_dname_scan m d dlen out pktlen comprloop = Some (scan_result sc' c)"
    "scan_safe m N (length (t_buf out)) sc'" for sc' c
    using that fin [OF that(2)] by (cases "scan_result sc' c") auto
  show ?thesis
  proof (cases "dlen = 0")
    case True
    obtain o1 where "scan_print ErrorMissingDname sc = Some o1" "scan_safe m N (length (t_buf out)) o1" "sc_in_buf o1 = sc_in_buf sc"
      "sc_dlen o1 = sc_dlen sc" "pos_ok m pktlen o1 = pos_ok m pktlen sc" using scan_safe_print [OF safe] by blast
    then have "sldns_wire2str_dname_scan m d dlen out pktlen comprloop = Some (scan_result o1 comprloop)"
      unfolding sldns_wire2str_dname_scan_def Let_def sc_def [symmetric] if_P [OF True] by simp
    then show ?thesis by (rule finish) fact
  next
    case False
    then obtain b where b: "peek8 m d = Some b" using assms(1) by (simp add: peek8_def)
    have adv: "scan_safe m N (length (t_buf out)) (scan_advance 1 sc)" using safe pos False
      by (intro scan_safe_advance) (auto simp: sc_def)
    obtain o1 where o1: "scan_print [DOT] (scan_advance 1 sc) = Some o1" "scan_safe m N (length (t_buf out)) o1" "sc_in_buf o1 = sc_in_buf (scan_advance 1 sc)"
      "sc_dlen o1 = sc_dlen (scan_advance 1 sc)" "pos_ok m pktlen o1 = pos_ok m pktlen (scan_advance 1 sc)" using scan_safe_print [OF adv] by blast
    obtain r sc' where r: "dname_scan_loop m pktlen maxcompr comprloop sc = Some r" "scan_safe m N (length (t_buf out)) sc'"
      "r = Break sc' \<or> (\<exists>c. r = Return sc' c)"
      using dname_scan_loop_safe [OF safe pos, of maxcompr comprloop] False unfolding sc_def [symmetric] by (fastforce simp: sc_def)
    have scan: "sldns_wire2str_dname_scan m d dlen out pktlen comprloop =
      (if b = 0 then map_option (\<lambda>sc. scan_result sc comprloop) (scan_print [DOT] (scan_advance 1 sc))
       else (case r of
            Return sc comprloop \<Rightarrow> Some (scan_result sc comprloop)
          | Break sc \<Rightarrow> do {
              let sc = (if sc_in_buf sc \<and> sc_dlen sc > 0 then scan_advance 1 sc else sc);
              sc \<leftarrow> (if sc_w sc = 0 then scan_print [DOT] sc else Some sc);
              Some (scan_result sc comprloop) }
          | Continue _ \<Rightarrow> None))"
      unfolding sldns_wire2str_dname_scan_def maxcompr_def [symmetric] Let_def sc_def [symmetric] using False b r(1) by simp
    show ?thesis
    proof (cases "b = 0 \<or> (\<exists>c. r = Return sc' c)")
      case True
      with scan o1(1,2) r(2) have "\<exists>s c. sldns_wire2str_dname_scan m d dlen out pktlen comprloop = Some (scan_result s c) \<and>
          scan_safe m N (length (t_buf out)) s" by (cases "b = 0") (simp, blast, clarsimp, blast)
      then show ?thesis using finish by blast
    next
      case brk: False
      define sc2 where "sc2 = (if sc_in_buf sc' \<and> sc_dlen sc' > 0 then scan_advance 1 sc' else sc')"
      have safe2: "scan_safe m N (length (t_buf out)) sc2"
        using r(2) by (auto simp: sc2_def scan_advance_def scan_safe_def)
      obtain o2 where o2: "scan_print [DOT] sc2 = Some o2" "scan_safe m N (length (t_buf out)) o2" "sc_in_buf o2 = sc_in_buf sc2"
      "sc_dlen o2 = sc_dlen sc2" "pos_ok m pktlen o2 = pos_ok m pktlen sc2" using scan_safe_print [OF safe2] by blast
      have "sldns_wire2str_dname_scan m d dlen out pktlen comprloop =
          do { sc \<leftarrow> (if sc_w sc2 = 0 then scan_print [DOT] sc2 else Some sc2); Some (scan_result sc comprloop) }"
        using scan brk r(3) by (auto simp: sc2_def Let_def)
      with safe2 o2(1,2) have "\<exists>s. sldns_wire2str_dname_scan m d dlen out pktlen comprloop = Some (scan_result s comprloop) \<and>
          scan_safe m N (length (t_buf out)) s" by (cases "sc_w sc2 = 0") auto
      then show ?thesis using finish by blast
    qed
  qed
qed

section \<open>Names\<close>

definition label_text :: "label \<Rightarrow> byte list" where
  "label_text l = concat (map esc l) @ [DOT]"

definition name_text :: "label list \<Rightarrow> byte list" where
  "name_text ls = (if ls = [] then [DOT] else concat (map label_text ls))"

lemma esc_length: "0 < length (esc c)" "length (esc c) \<le> 4"
  by (simp_all add: esc_def dec3_def)

lemma chars_text_length: "length cs \<le> length (concat (map esc cs))" "length (concat (map esc cs)) \<le> 4 * length cs"
proof (induction cs)
  case (Cons c cs)
  {
    case 1
    with Cons(1) esc_length(1) [of c] show ?case by (simp del: length_greater_0_conv)
  next
    case 2
    with Cons(2) esc_length(2) [of c] show ?case by simp
  }
qed simp_all

lemma label_text_length: "length (label_text l) \<le> 4 * (length l + 1)" "length (label_text l) \<ge> 1"
  using chars_text_length(2) [of l] by (simp_all add: label_text_def)

lemma name_text_length: "length (name_text ls) \<le> 4 * length (wire ls)"
proof -
  have "length (concat (map label_text ls)) \<le> 4 * length (enc ls)"
  proof (induction ls)
    case (Cons l ls)
    with label_text_length(1) [of l] show ?case by simp
  qed simp
  then show ?thesis by (simp add: name_text_def wire_enc)
qed

lemma small_label_byte:
  assumes "label_ok l"
  shows "unat (of_nat (length l) :: byte) = length l" "(of_nat (length l) :: byte) \<noteq> 0" "(of_nat (length l) :: byte) AND 0xc0 = 0"
proof -
  show u: "unat (of_nat (length l) :: byte) = length l" using assms by (simp add: label_ok_def unat_of_nat)
  then show "(of_nat (length l) :: byte) \<noteq> 0" using assms by (auto simp: label_ok_def)
  have "(of_nat (length l) :: byte) = take_bit 6 (of_nat (length l))"
    using assms u by (simp add: label_ok_def word_unat_eq_iff unsigned_take_bit_eq take_bit_nat_eq_self)
  then have "(of_nat (length l) :: byte) AND 0xc0 = of_nat (length l) AND (mask 6 AND 0xc0)"
    by (metis take_bit_eq_mask and.assoc)
  also have "(mask 6 AND 0xc0 :: byte) = 0" by (simp add: mask_eq_exp_minus_1)
  finally show "(of_nat (length l) :: byte) AND 0xc0 = 0" by simp
qed

lemma scan_label_name:
  assumes m: "drop (sc_pos sc) m = l @ r" "r \<noteq> []" and sc: "sc_in_buf sc" "sc_pos sc = sc_d sc" "length l < sc_dlen sc"
    and len: "sc_dname_len sc + length l + 1 \<le> 255" and l: "label_ok l" and out: "printed N T (sc_out sc)"
  shows "\<exists>o1. scan_label m pktlen comprloop (of_nat (length l)) sc = Some (Continue (sc\<lparr>sc_pos := sc_pos sc + length l, sc_d := sc_d sc + length l,
      sc_dlen := sc_dlen sc - length l, sc_dname_len := sc_dname_len sc + length l + 1, sc_w := sc_w sc + length (label_text l), sc_out := o1\<rparr>)) \<and>
    printed N (T @ label_text l) o1 \<and> terminated N (T @ label_text l) o1 \<and> length (t_buf o1) = length (t_buf (sc_out sc))"
proof -
  note small = small_label_byte [OF l]
  have "length l + length r = length m - sc_pos sc" using m(1) by (metis length_append length_drop)
  with m(2) have "sc_pos sc + length l \<le> length m" by (cases "sc_pos sc \<le> length m") auto
  then have cs: "peek_bytes m (sc_pos sc) (length l) = Some l" using m(1) by (simp add: peek_bytes_def)
  from dname_chars_print_ok [OF out, of l] obtain st1 where
    1: "dname_chars_print l (sc_out sc) = Some (length (concat (map esc l)), st1)" "length (t_buf st1) = length (t_buf (sc_out sc))"
    "printed N (T @ concat (map esc l)) st1" by blast
  from sldns_str_print_ok [OF 1(3), of "[DOT]"] obtain o1 where
    2: "sldns_str_print [DOT] st1 = Some (1, o1)" "length (t_buf o1) = length (t_buf st1)"
    "printed N (T @ label_text l) o1" "terminated N (T @ label_text l) o1" by (auto simp: label_text_def)
  have "scan_label m pktlen comprloop (of_nat (length l)) sc = Some (Continue (sc\<lparr>sc_pos := sc_pos sc + length l, sc_d := sc_d sc + length l,
      sc_dlen := sc_dlen sc - length l, sc_dname_len := sc_dname_len sc + length l + 1, sc_w := sc_w sc + length (label_text l), sc_out := o1\<rparr>))"
    using sc len cs small 1(1) 2(1) by (simp add: scan_label_def scan_advance_def scan_print_def label_text_def Let_def)
  with 1(2) 2 show ?thesis by auto
qed

lemma dname_scan_loop_name:
  assumes "drop (sc_pos sc) m = wire ls @ r" "labels_ok ls" "sc_in_buf sc" "sc_pos sc = sc_d sc" "length (wire ls) \<le> sc_dlen sc"
    "sc_dname_len sc + length (wire ls) \<le> 256" "printed N T (sc_out sc)" "sc_d sc + length (wire ls) \<le> pkt_end pktlen \<or> pktlen = None"
  shows "\<exists>sc'. dname_scan_loop m pktlen maxcompr comprloop sc = Some (Break sc') \<and> sc_in_buf sc' \<and> sc_pos sc' = sc_d sc' \<and>
    sc_d sc' + 1 = sc_d sc + length (wire ls) \<and> sc_dlen sc' + length (wire ls) = sc_dlen sc + 1 \<and>
    sc_w sc' = sc_w sc + length (concat (map label_text ls)) \<and> length (t_buf (sc_out sc')) = length (t_buf (sc_out sc)) \<and>
    printed N (T @ concat (map label_text ls)) (sc_out sc') \<and> (ls \<noteq> [] \<or> terminated N T (sc_out sc) \<longrightarrow> terminated N (T @ concat (map label_text ls)) (sc_out sc'))"
  using assms
proof (induction ls arbitrary: sc T)
  case Nil
  have "sc_pos sc < length m" using Nil(1) by (metis drop_all leI append_Cons list.distinct(1) wire.simps(1))
  moreover have "m ! sc_pos sc = 0" using Nil(1) calculation by (metis append_Cons nth_via_drop wire.simps(1))
  ultimately have "peek8 m (sc_pos sc) = Some 0" by (simp add: peek8_def)
  then have "scan_round m pktlen maxcompr comprloop sc = Some (Break sc)"
    using Nil(4,8) by (auto simp: scan_round_def pkt_end_def split: option.splits)
  with Nil show ?case by (subst dname_scan_loop.simps) auto
next
  case (Cons l ls)
  have l: "label_ok l" "labels_ok ls" using Cons.prems(2) by simp_all
  note small = small_label_byte [OF l(1)]
  have "sc_pos sc < length m" using Cons.prems(1) by (metis drop_all leI append_Cons list.distinct(1) wire.simps(2))
  moreover have "m ! sc_pos sc = of_nat (length l)" using Cons.prems(1) calculation by (metis append_Cons nth_via_drop wire.simps(2))
  ultimately have b: "peek8 m (sc_pos sc) = Some (of_nat (length l))" by (simp add: peek8_def)
  define sc1 where "sc1 = scan_advance 1 sc"
  have d1: "drop (sc_pos sc1) m = l @ wire ls @ r"
    using Cons.prems(1) by (simp add: sc1_def) (metis drop_Suc_Cons drop_0 drop_drop plus_1_eq_Suc)
  have f1: "sc_in_buf sc1" "sc_pos sc1 = sc_d sc1" "length l < sc_dlen sc1" "sc_dname_len sc1 + length l + 1 \<le> 255" "printed N T (sc_out sc1)"
    "sc_dlen sc1 = sc_dlen sc - 1" "sc_d sc1 = sc_d sc + 1" "sc_w sc1 = sc_w sc"
    using Cons.prems(3-7) by (auto simp: sc1_def scan_advance_def wire_enc)
  from scan_label_name [OF d1 _ f1(1-4) l(1) f1(5)] obtain o1 where
    o1: "scan_label m pktlen comprloop (of_nat (length l)) sc1 = Some (Continue (sc1\<lparr>sc_pos := sc_pos sc1 + length l, sc_d := sc_d sc1 + length l,
      sc_dlen := sc_dlen sc1 - length l, sc_dname_len := sc_dname_len sc1 + length l + 1, sc_w := sc_w sc1 + length (label_text l), sc_out := o1\<rparr>))"
    "printed N (T @ label_text l) o1" "terminated N (T @ label_text l) o1" "length (t_buf o1) = length (t_buf (sc_out sc1))"
    by (auto simp: wire_enc)
  define sc2 where "sc2 = sc1\<lparr>sc_pos := sc_pos sc1 + length l, sc_d := sc_d sc1 + length l,
      sc_dlen := sc_dlen sc1 - length l, sc_dname_len := sc_dname_len sc1 + length l + 1, sc_w := sc_w sc1 + length (label_text l), sc_out := o1\<rparr>"
  have "scan_round m pktlen maxcompr comprloop sc = Some (Continue sc2)"
    using b small o1(1) Cons.prems(4,8) unfolding scan_round_def Let_def sc1_def [symmetric] sc2_def [symmetric]
    by (auto simp: pkt_end_def split: option.splits)
  then have step: "dname_scan_loop m pktlen maxcompr comprloop sc = dname_scan_loop m pktlen maxcompr comprloop sc2"
    by (subst dname_scan_loop.simps) simp
  have "drop (sc_pos sc2) m = wire ls @ r" using d1 by (simp add: sc2_def) (metis append_eq_conv_conj drop_drop add.commute)
  moreover have "sc_in_buf sc2" "sc_pos sc2 = sc_d sc2" "length (wire ls) \<le> sc_dlen sc2" "sc_dname_len sc2 + length (wire ls) \<le> 256"
    "printed N (T @ label_text l) (sc_out sc2)" "sc_d sc2 + length (wire ls) \<le> pkt_end pktlen \<or> pktlen = None"
    using Cons.prems(5,6,8) f1 o1(2) by (auto simp: sc2_def sc1_def)
  ultimately obtain sc' where
    "dname_scan_loop m pktlen maxcompr comprloop sc2 = Some (Break sc')" "sc_in_buf sc'" "sc_pos sc' = sc_d sc'"
    "sc_d sc' + 1 = sc_d sc2 + length (wire ls)" "sc_dlen sc' + length (wire ls) = sc_dlen sc2 + 1"
    "sc_w sc' = sc_w sc2 + length (concat (map label_text ls))" "length (t_buf (sc_out sc')) = length (t_buf (sc_out sc2))"
    "printed N ((T @ label_text l) @ concat (map label_text ls)) (sc_out sc')"
    "ls \<noteq> [] \<or> terminated N (T @ label_text l) (sc_out sc2) \<longrightarrow> terminated N ((T @ label_text l) @ concat (map label_text ls)) (sc_out sc')"
    using Cons.IH [of sc2 "T @ label_text l"] l(2) by blast
  with f1 o1(3,4) Cons.prems(5) show ?case
    by (intro exI [of _ sc']) (auto simp: step sc2_def sc1_def)
qed

lemma sldns_wire2str_dname_scan_name:
  assumes m: "drop d m = wire ls @ r" and ls: "dname_ok ls" and dlen: "length (wire ls) \<le> dlen" and out: "printed N [] out"
    and pkt: "d + length (wire ls) \<le> pkt_end pktlen \<or> pktlen = None"
  shows "\<exists>out'. sldns_wire2str_dname_scan m d dlen out pktlen comprloop =
      Some (length (name_text ls), d + length (wire ls), dlen - length (wire ls), out', comprloop) \<and>
    length (t_buf out') = length (t_buf out) \<and> printed N (name_text ls) out' \<and> terminated N (name_text ls) out'"
proof -
  define sc where "sc = \<lparr>sc_pos = d, sc_d = d, sc_dlen = dlen, sc_in_buf = True, sc_counter = 0, sc_dname_len = 0, sc_w = 0, sc_out = out\<rparr>"
  have in_m: "d < length m" using m by (cases ls) (auto dest!: arg_cong [of _ _ length])
  have dn: "dlen \<noteq> 0" using dlen by (simp add: wire_enc)
  show ?thesis
  proof (cases "ls = []")
    case True
    then have "m ! d = 0" using m in_m by (metis append_Cons nth_via_drop wire.simps(1))
    with in_m have b: "peek8 m d = Some 0" by (simp add: peek8_def)
    have "printed N [] (sc_out (scan_advance 1 sc))" using out by (simp add: sc_def)
    from scan_print_ok [OF this, of "[DOT]"] obtain o1 where
      o1: "scan_print [DOT] (scan_advance 1 sc) = Some ((scan_advance 1 sc)\<lparr>sc_w := 1, sc_out := o1\<rparr>)"
      "length (t_buf o1) = length (t_buf out)" "printed N [DOT] o1" "terminated N [DOT] o1" by (auto simp: sc_def scan_advance_def)
    have "sldns_wire2str_dname_scan m d dlen out pktlen comprloop = Some (scan_result ((scan_advance 1 sc)\<lparr>sc_w := 1, sc_out := o1\<rparr>) comprloop)"
      unfolding sldns_wire2str_dname_scan_def Let_def sc_def [symmetric] if_not_P [OF dn] using b o1(1) by simp
    with o1 True show ?thesis by (simp add: scan_result_def scan_advance_def sc_def name_text_def)
  next
    case False
    then obtain l ls' where l: "ls = l # ls'" by (cases ls) simp
    have small: "(of_nat (length l) :: byte) \<noteq> 0" using ls by (intro small_label_byte) (simp add: l dname_ok_def)
    have "m ! d = of_nat (length l)" using m in_m by (metis append_Cons nth_via_drop wire.simps(2) l)
    with in_m have b: "peek8 m d = Some (of_nat (length l))" by (simp add: peek8_def)
    define maxcompr :: nat where "maxcompr = (case comprloop of None \<Rightarrow> MAX_COMPRESS_PTRS
       | Some c \<Rightarrow> if c > 4 then 4 else if c \<noteq> 0 then 30 else MAX_COMPRESS_PTRS)"
    obtain sc' where sc': "dname_scan_loop m pktlen maxcompr comprloop sc = Some (Break sc')" "sc_in_buf sc'"
      "sc_d sc' + 1 = sc_d sc + length (wire ls)" "sc_dlen sc' + length (wire ls) = sc_dlen sc + 1"
      "sc_w sc' = sc_w sc + length (concat (map label_text ls))" "length (t_buf (sc_out sc')) = length (t_buf (sc_out sc))"
      "printed N (concat (map label_text ls)) (sc_out sc')" "terminated N (concat (map label_text ls)) (sc_out sc')"
      using dname_scan_loop_name [of sc m ls r N "[]" pktlen maxcompr comprloop] m ls dlen out pkt False
      by (auto simp: sc_def dname_ok_def)
    have w: "sc_w sc' \<noteq> 0" using sc'(5) label_text_length(2) [of l] by (auto simp: l)
    have more: "0 < sc_dlen sc'" using sc'(4) dlen by (simp add: sc_def)
    have "sldns_wire2str_dname_scan m d dlen out pktlen comprloop = Some (scan_result (scan_advance 1 sc') comprloop)"
      unfolding sldns_wire2str_dname_scan_def maxcompr_def [symmetric] Let_def sc_def [symmetric] if_not_P [OF dn]
      using b small sc'(1,2) w more by simp
    with sc' False show ?thesis by (auto simp: scan_result_def scan_advance_def sc_def name_text_def)
  qed
qed

end
