(* ===== verification/Dname_Text_Props.thy ===== *)
theory Dname_Text_Props
  imports Dname_Print
begin

text \<open>
  What users of the text functions rely on: a text that is accepted gives a valid name, a name that is
  printed is read back, and neither function touches memory outside of its arguments.
\<close>

section \<open>Reading back\<close>

lemma parse_escape_plain: "\<not> c_isdigit c \<Longrightarrow> sldns_parse_escape (c # s) = Some (c, s)"
  by (auto simp: sldns_parse_escape_def split: list.splits)

lemma digit_byte:
  assumes "n < 10"
  shows "unat (of_nat (48 + n) :: byte) = 48 + n" "c_isdigit (of_nat (48 + n))"
proof -
  show "unat (of_nat (48 + n) :: byte) = 48 + n" using assms by (simp add: unat_of_nat del: of_nat_add)
  then show "c_isdigit (of_nat (48 + n))" using assms by (simp add: c_isdigit_def word_le_nat_alt del: of_nat_add)
qed

lemma hundreds_digit: "unat (c :: byte) div 100 < 10"
  by (rule less_mult_imp_div_less) (rule order.strict_trans2 [OF unat_byte_less], simp)

lemma parse_escape_dec3: "sldns_parse_escape (dec3 c @ s) = Some (c, s)"
proof -
  have c: "\<not> 255 < unat c" using unat_byte_less [of c] by linarith
  have d: "unat c div 100 < 10" "unat c div 10 mod 10 < 10" "unat c mod 10 < 10" by (simp_all add: hundreds_digit)
  have "unat c div 100 = unat c div 10 div 10" by (simp add: div_mult2_eq [symmetric])
  then have "unat c div 100 * 100 + unat c div 10 mod 10 * 10 + unat c mod 10 = unat c"
    using div_mult_mod_eq [of "unat c" 10] div_mult_mod_eq [of "unat c div 10" 10] by linarith
  with digit_byte [OF d(1)] digit_byte [OF d(2)] digit_byte [OF d(3)] c show ?thesis
    by (simp add: dec3_def sldns_parse_escape_def Let_def del: of_nat_add)
qed

lemma read_text_esc: "read_text (esc c @ s) ls cur = read_text s ls (cur @ [c])"
proof -
  consider "c = DOT \<or> c = 59 \<or> c = 40 \<or> c = 41 \<or> c = BACKSLASH" | "\<not> (c = DOT \<or> c = 59 \<or> c = 40 \<or> c = 41 \<or> c = BACKSLASH)" "\<not> c_isgraph c"
    | "\<not> (c = DOT \<or> c = 59 \<or> c = 40 \<or> c = 41 \<or> c = BACKSLASH)" "c_isgraph c" by blast
  then show ?thesis
  proof cases
    case 1
    then have "\<not> c_isdigit c" by (auto simp: c_isdigit_def)
    with 1 show ?thesis by (simp add: esc_def parse_escape_plain)
  next
    case 2
    then show ?thesis by (simp add: esc_def parse_escape_dec3)
  next
    case 3
    then show ?thesis by (simp add: esc_def)
  qed
qed

lemma read_text_chars: "read_text (concat (map esc l) @ s) ls cur = read_text s ls (cur @ l)"
  by (induction l arbitrary: cur) (simp_all add: read_text_esc)

lemma read_text_labels: "labels_ok ls \<Longrightarrow> read_text (concat (map label_text ls)) pre [] = Some (pre @ ls, [])"
proof (induction ls arbitrary: pre)
  case (Cons l ls)
  then show ?case by (simp add: label_text_def read_text_chars)
qed simp

lemma text_name_text: "labels_ok ls \<Longrightarrow> text_name (name_text ls) = Some ls"
proof (cases ls)
  case (Cons l ls')
  assume ok: "labels_ok ls"
  have "2 \<le> length (label_text l)"
    using ok Cons chars_text_length(1) [of l] by (cases l) (simp_all add: label_text_def label_ok_def)
  then have "2 \<le> length (name_text ls)" by (simp add: name_text_def Cons)
  then have "name_text ls \<noteq> []" "name_text ls \<noteq> [DOT]" by auto
  moreover have "name_text ls = concat (map label_text ls)" by (simp add: name_text_def Cons)
  ultimately show ?thesis using read_text_labels [OF ok, of "[]"] by (simp add: text_name_def)
qed (simp add: name_text_def text_name_def)

lemma esc_no_nul: "0 \<notin> set (esc c)"
proof -
  have d: "unat c div 100 < 10" "unat c div 10 mod 10 < 10" "unat c mod 10 < 10" by (simp_all add: hundreds_digit)
  have "of_nat (48 + n) \<noteq> (0 :: byte)" if "n < 10" for n
    using digit_byte(1) [OF that] by (metis add_is_0 unat_0 zero_neq_numeral)
  from this [OF d(1)] this [OF d(2)] this [OF d(3)] have "0 \<notin> set (dec3 c)" by (auto simp: dec3_def simp del: of_nat_add)
  then show ?thesis by (auto simp: esc_def c_isgraph_def)
qed

lemma name_text_no_nul: "0 \<notin> set (name_text ls)"
  using esc_no_nul by (auto simp: name_text_def label_text_def)

lemma read_name_text: "dname_ok ls \<Longrightarrow> 255 \<le> olen \<Longrightarrow> read_name olen (name_text ls) = Some ls"
  using text_name_text [of ls] name_text_length [of ls] by (auto simp: read_name_def dname_ok_def)

lemma sldns_wire2str_dname_buf_ok:
  assumes "dname_ok ls" "printed N [] out"
  shows "\<exists>out'. sldns_wire2str_dname_buf (wire ls) (length (wire ls)) out = Some (length (name_text ls), out') \<and>
    length (t_buf out') = length (t_buf out) \<and> printed N (name_text ls) out' \<and> terminated N (name_text ls) out'"
  using sldns_wire2str_dname_scan_name [of 0 "wire ls" ls "[]" "length (wire ls)" N out None None] assms
  by (auto simp: sldns_wire2str_dname_buf_def)

text \<open>The origin is put behind a relative name if both fit.\<close>

lemma str2wire_origin_relative:
  assumes run: "sldns_str2wire_dname_buf_rel str buf len = Some (0, buf', dlen, True)" and len: "length buf' = n" "len \<le> n"
    and w: "dlen = length (wire ls)" "take dlen buf' = wire ls" and ok: "dname_ok ls" "dname_ok os"
  shows "\<exists>st b len'. sldns_str2wire_dname_buf_origin str buf len (Some (wire os, length (wire os))) = Some (st, b, len') \<and> length b = n \<and>
    (if dname_ok (ls @ os) \<and> length (wire (ls @ os)) \<le> len
     then st = 0 \<and> len' = length (wire (ls @ os)) \<and> take len' b = wire (ls @ os) else st \<noteq> 0 \<and> len' = len)"
proof -
  define m where "m = dlen + length (wire os) - 1"
  have d: "0 < dlen" "dlen \<le> 255" "length (wire os) \<le> 255" "0 < length (wire os)"
    using ok w(1) by (auto simp: dname_ok_def wire_enc)
  have sa: "size_add dlen (length (wire os)) = dlen + length (wire os)" using d by (simp add: size_t_mod_def)
  have len_name: "length (wire (ls @ os)) = m" using w(1) by (simp add: m_def wire_enc)
  have ok_name: "dname_ok (ls @ os) \<longleftrightarrow> m \<le> 255" using ok by (auto simp: dname_ok_def len_name)
  consider "m > 255" | "m \<le> 255" "m > len" | "m \<le> 255" "m \<le> len" by linarith
  then show ?thesis
  proof cases
    case 3
    then have "dlen - 1 + length (wire os) \<le> length buf'" using d len by (simp add: m_def)
    then obtain b where b: "poke_bytes buf' (dlen - 1) (wire os) = Some b" using poke_bytes_exists by blast
    have "take (dlen - 1) buf' = enc ls"
      using w by (metis append_eq_conv_conj diff_Suc_1 length_append_singleton take_take wire_enc min.absorb1 diff_le_self)
    then have "take m b = wire (ls @ os)" using poke_take_upto [OF b] d by (simp add: m_def wire_enc)
    moreover have "sldns_str2wire_dname_buf_origin str buf len (Some (wire os, length (wire os))) = Some (0, b, m)"
      using run 3 d sa b by (simp add: sldns_str2wire_dname_buf_origin_def peek_bytes_def m_def)
    ultimately show ?thesis using 3 ok_name len_name poke_bytes_length [OF b] len by simp
  qed (use run d sa ok_name len_name len in \<open>simp_all add: sldns_str2wire_dname_buf_origin_def m_def\<close>)
qed

section \<open>Properties\<close>

text \<open>
  C4. Names survive printing and parsing. For every valid name \<open>sldns_wire2str_dname\<close> returns a text with a
  final zero and no other zero, in a buffer of exactly the allocated size, and \<open>sldns_str2wire_dname\<close>
  reads that text back as the same name, whatever bytes the name has.
\<close>

theorem dname_text_roundtrip:
  assumes "dname_ok ls" "\<And>n. \<exists>raw. malloc n = Some raw \<and> length raw = n" "length raw = 256"
  shows "\<exists>s. sldns_wire2str_dname malloc (wire ls) (length (wire ls)) = Some (Some (s @ [0])) \<and> 0 \<notin> set s \<and>
    sldns_str2wire_dname raw True s = Some (Some (wire ls), length (wire ls))"
proof -
  define w where "w = length (name_text ls)"
  have "printed 0 [] \<lparr>t_buf = [], t_str = None, t_slen = 0\<rparr>" by (simp add: printed_def)
  from sldns_wire2str_dname_buf_ok [OF assms(1) this] obtain o1 where
    1: "sldns_wire2str_dname_buf (wire ls) (length (wire ls)) \<lparr>t_buf = [], t_str = None, t_slen = 0\<rparr> = Some (w, o1)"
    by (auto simp: w_def)
  obtain mem where mem: "malloc (w + 1) = Some mem" "length mem = w + 1" using assms(2) by blast
  have "printed (w + 1) [] \<lparr>t_buf = mem, t_str = Some 0, t_slen = w + 1\<rparr>" using mem(2) by (simp add: printed_def)
  from sldns_wire2str_dname_buf_ok [OF assms(1) this] obtain o2 where
    2: "sldns_wire2str_dname_buf (wire ls) (length (wire ls)) \<lparr>t_buf = mem, t_str = Some 0, t_slen = w + 1\<rparr> = Some (w, o2)"
    "length (t_buf o2) = w + 1" "terminated (w + 1) (name_text ls) o2" using mem(2) by (auto simp: w_def)
  have "t_buf o2 = name_text ls @ [0]" using 2(2,3) by (auto simp: terminated_def w_def)
  with 1 2(1) mem(1) have "sldns_wire2str_dname malloc (wire ls) (length (wire ls)) = Some (Some (name_text ls @ [0]))"
    by (simp add: sldns_wire2str_dname_def)
  moreover have "sldns_str2wire_dname raw True (name_text ls) = Some (Some (wire ls), length (wire ls))"
    using sldns_str2wire_dname_ok [OF assms(3), of True "name_text ls"] read_name_text [OF assms(1), of 256] by simp
  ultimately show ?thesis using name_text_no_nul by blast
qed

theorem dname_text_roundtrip_witness:
  "\<exists>s. sldns_wire2str_dname (\<lambda>n. Some (replicate n 7)) (wire [[97, 46, 0], [200]]) (length (wire [[97, 46, 0], [200]])) = Some (Some (s @ [0])) \<and> 0 \<notin> set s \<and>
    sldns_str2wire_dname (replicate 256 9) True s = Some (Some (wire [[97, 46, 0], [200]]), length (wire [[97, 46, 0], [200]]))"
  using dname_text_roundtrip [of "[[97, 46, 0], [200]]" "\<lambda>n. Some (replicate n 7)" "replicate 256 9"]
  by (simp add: dname_ok_def label_ok_def)

text \<open>
  C6. Reading a name with an origin does what the text says. The call never writes outside of the buffer. It
  succeeds exactly if the text reads as labels of 1 to 63 bytes and the name fits the buffer and
  255 bytes, and then the buffer holds the name in wire format: the labels of the text, followed by those of the
  origin if the text does not end in a dot. Otherwise the status is an error and the length is not changed.
\<close>

theorem sldns_str2wire_dname_buf_origin_refines:
  assumes "length buf = n" "len \<le> n" "dname_ok os"
  shows "\<exists>st buf' len'. sldns_str2wire_dname_buf_origin str buf len (Some (wire os, length (wire os))) = Some (st, buf', len') \<and>
    length buf' = n \<and>
    (case read_name len str of
       Some ls \<Rightarrow>
         (let name = (if text_relative str then ls @ os else ls)
          in if dname_ok name \<and> length (wire name) \<le> len
             then st = 0 \<and> len' = length (wire name) \<and> take len' buf' = wire name
             else st \<noteq> 0 \<and> len' = len)
     | None \<Rightarrow> st \<noteq> 0 \<and> len' = len)"
proof -
  from sldns_str2wire_dname_buf_rel_ok [OF assms(1,2), of str] obtain st buf' dlen rel where
    1: "sldns_str2wire_dname_buf_rel str buf len = Some (st, buf', dlen, rel)" "length buf' = n"
    "case read_name len str of
       Some ls \<Rightarrow> st = 0 \<and> dlen = length (wire ls) \<and> take dlen buf' = wire ls \<and> rel = text_relative str
     | None \<Rightarrow> st \<noteq> 0 \<and> dlen = len" by auto
  show ?thesis
  proof (cases "read_name len str")
    case None
    with 1 show ?thesis by (simp add: sldns_str2wire_dname_buf_origin_def)
  next
    case (Some ls)
    with 1(3) have 2: "st = 0" "dlen = length (wire ls)" "take dlen buf' = wire ls" "rel = text_relative str" by auto
    note ls = read_name_ok [OF Some]
    show ?thesis
    proof (cases "text_relative str")
      case True
      then have "sldns_str2wire_dname_buf_rel str buf len = Some (0, buf', dlen, True)" using 1(1) 2(1,4) by simp
      from str2wire_origin_relative [OF this 1(2) assms(2) 2(2,3) conjunct1 [OF ls] assms(3)] True Some show ?thesis by (simp add: Let_def)
    next
      case False
      then have "sldns_str2wire_dname_buf_origin str buf len (Some (wire os, length (wire os))) = Some (0, buf', dlen)"
        using 1(1) 2(1,4) by (simp add: sldns_str2wire_dname_buf_origin_def)
      with False Some ls 1(2) 2(2,3) show ?thesis by simp
    qed
  qed
qed

theorem sldns_str2wire_dname_buf_origin_refines_witness:
  "\<exists>st buf' len'. sldns_str2wire_dname_buf_origin [97, 92, 46] (replicate 9 0) 9 (Some (wire [[98]], length (wire [[98]]))) = Some (st, buf', len') \<and>
    st = 0 \<and> take len' buf' = [2, 97, 46, 1, 98, 0]"
proof -
  have "read_name 9 [97, 92, 46] = Some [[97, 46]]" "text_relative [97, 92, 46]"
    by (simp_all add: read_name_def text_name_def text_relative_def sldns_parse_escape_def c_isdigit_def label_ok_def)
  with sldns_str2wire_dname_buf_origin_refines [of "replicate 9 0" 9 9 "[[98]]" "[97, 92, 46]"] show ?thesis
    by (auto simp: dname_ok_def label_ok_def)
qed

text \<open>
  C5. Printing a name never leaves its memory. For a packet with any bytes, also with compression pointers that form a loop
  or point outside, \<open>sldns_wire2str_dname_scan\<close> ends, reads only inside of the data and of the packet, writes only
  inside of the output buffer, and leaves the data pointer and length inside of the data.
\<close>

theorem sldns_wire2str_dname_scan_in_bounds:
  assumes "d + dlen \<le> length m" "pktlen = None \<or> pktlen = Some (length m)" "slen \<le> length buf"
  shows "\<exists>w d' dlen' out' c. sldns_wire2str_dname_scan m d dlen \<lparr>t_buf = buf, t_str = Some 0, t_slen = slen\<rparr> pktlen comprloop = Some (w, d', dlen', out', c) \<and>
    d' + dlen' \<le> length m \<and> length (t_buf out') = length buf"
proof -
  have "printed slen [] \<lparr>t_buf = buf, t_str = Some 0, t_slen = slen\<rparr>" using assms(3) by (simp add: printed_def)
  from sldns_wire2str_dname_scan_safe [OF assms(1) _ this, of pktlen comprloop] assms(2) show ?thesis
    by (auto simp: pkt_end_def)
qed

theorem sldns_wire2str_dname_scan_in_bounds_witness:
  "\<exists>w d' dlen' out' c. sldns_wire2str_dname_scan [0xc0, 2, 0xc0, 0] 0 2 \<lparr>t_buf = [0], t_str = Some 0, t_slen = 1\<rparr> (Some 4) (Some 0) = Some (w, d', dlen', out', c) \<and>
    d' + dlen' \<le> length [0xc0, 2, 0xc0, 0 :: byte] \<and> length (t_buf out') = 1"
  using sldns_wire2str_dname_scan_in_bounds [of 0 2 "[0xc0, 2, 0xc0, 0]" "Some 4" 1 "[0]" "Some 0"] by simp

text \<open>A truncated text can lack the final zero: the characters that are printed plainly do not leave room for it.\<close>

lemma sldns_wire2str_dname_buf_unterminated:
  "sldns_wire2str_dname_buf [2, 97, 98, 0] 4 \<lparr>t_buf = [1, 1], t_str = Some 0, t_slen = 2\<rparr> =
    Some (3, \<lparr>t_buf = [97, 98], t_str = None, t_slen = 0\<rparr>)"
  by code_simp

end
