(* ===== verification/Lruhash.thy ===== *)
theory Lruhash
  imports Prelude
begin

text \<open>
  The hash table with a least-recently-used list of \<open>util/storage/lruhash.c\<close>. Entries live in a
  memory from addresses to entries; a pointer is an address or null, and an access to an address
  without an entry fails, so a null dereference and a use after free are failures of the model. The
  bins are the heads of overflow lists. The table's callbacks are functions (\<open>sizefunc\<close>,
  \<open>compfunc\<close>) or leave a trace (\<open>delkeyfunc\<close>, \<open>deldatafunc\<close>, \<open>markdelfunc\<close>); their user argument is
  an address or null. The results of the allocations are arguments. All operations run under the
  table's lock, so the model is sequential. Loops along pointers are partial functions: a loop that
  does not end is a failure as well.
\<close>

section \<open>Entries, the table and its memory\<close>

record ('k, 'd) lruhash_entry =
  overflow_next :: "addr option"
  lru_next :: "addr option"
  lru_prev :: "addr option"
  e_hash :: u32
  e_key :: 'k
  e_data :: 'd

datatype ('k, 'd) del_event = DelKey 'k "addr option" | DelData 'd "addr option" | MarkDel 'k

record ('k, 'd) lruhash =
  sizefunc :: "'k \<Rightarrow> 'd \<Rightarrow> u64"
  compfunc :: "'k \<Rightarrow> 'k \<Rightarrow> int"
  markdelfunc :: bool
  cb_arg :: "addr option"
  tab_size :: nat
  size_mask :: u32
  tab_array :: "addr option list"
  lru_start :: "addr option"
  lru_end :: "addr option"
  tab_num :: nat
  space_used :: u64
  space_max :: u64
  max_collisions :: nat
  mem :: "addr \<Rightarrow> ('k, 'd) lruhash_entry option"
  del_log :: "('k, 'd) del_event list"

text \<open>Assignment to fields of an entry, and to the list head of a bin.\<close>

definition upd_entry ::
    "addr \<Rightarrow> (('k, 'd) lruhash_entry \<Rightarrow> ('k, 'd) lruhash_entry) \<Rightarrow>
     ('k, 'd) lruhash \<Rightarrow> ('k, 'd) lruhash option" where
  "upd_entry a f t = do { e \<leftarrow> mem t a; Some (t\<lparr>mem := (mem t)(a \<mapsto> f e)\<rparr>) }"

definition bin_head :: "('k, 'd) lruhash \<Rightarrow> nat \<Rightarrow> addr option option" where
  "bin_head t i = (if i < length (tab_array t) then Some (tab_array t ! i) else None)"

definition set_bin_head :: "nat \<Rightarrow> addr option \<Rightarrow> ('k, 'd) lruhash \<Rightarrow> ('k, 'd) lruhash option" where
  "set_bin_head i p t = do {
     _ \<leftarrow> bin_head t i; Some (t\<lparr>tab_array := (tab_array t)[i := p]\<rparr>) }"

definition bin_index :: "('k, 'd) lruhash \<Rightarrow> u32 \<Rightarrow> nat" where
  "bin_index t hash = unat (hash AND size_mask t)"

text \<open>The callbacks: \<open>delkeyfunc\<close> also releases the entry, which is part of the key's structure.\<close>

definition delkeyfunc :: "addr \<Rightarrow> addr option \<Rightarrow> ('k, 'd) lruhash \<Rightarrow> ('k, 'd) lruhash option" where
  "delkeyfunc a arg t = do {
     e \<leftarrow> mem t a;
     Some (t\<lparr>mem := (mem t)(a := None), del_log := del_log t @ [DelKey (e_key e) arg]\<rparr>) }"

definition deldatafunc :: "'d \<Rightarrow> addr option \<Rightarrow> ('k, 'd) lruhash \<Rightarrow> ('k, 'd) lruhash" where
  "deldatafunc d arg t = t\<lparr>del_log := del_log t @ [DelData d arg]\<rparr>"

definition call_markdelfunc :: "'k \<Rightarrow> ('k, 'd) lruhash \<Rightarrow> ('k, 'd) lruhash" where
  "call_markdelfunc k t =
     (if markdelfunc t then t\<lparr>del_log := del_log t @ [MarkDel k]\<rparr> else t)"

section \<open>Creation and deletion\<close>

definition lruhash_create ::
    "nat \<Rightarrow> u64 \<Rightarrow> ('k \<Rightarrow> 'd \<Rightarrow> u64) \<Rightarrow> ('k \<Rightarrow> 'k \<Rightarrow> int) \<Rightarrow> addr option \<Rightarrow> bool \<Rightarrow> bool \<Rightarrow>
     ('k, 'd) lruhash option" where
  "lruhash_create start_size maxmem szf cmpf arg table_ok array_ok =
     (if \<not> table_ok then None
      else if \<not> array_ok then None
      else Some \<lparr>sizefunc = szf, compfunc = cmpf, markdelfunc = False, cb_arg = arg,
        tab_size = start_size, size_mask = of_nat start_size - 1,
        tab_array = replicate start_size None, lru_start = None, lru_end = None,
        tab_num = 0, space_used = 0, space_max = maxmem, max_collisions = 0,
        mem = Map.empty, del_log = []\<rparr>)"

partial_function (option) del_chain ::
    "addr option \<Rightarrow> addr option \<Rightarrow> ('k, 'd) lruhash \<Rightarrow> ('k, 'd) lruhash option" where
  "del_chain p arg t = (case p of None \<Rightarrow> Some t | Some a \<Rightarrow> do {
     e \<leftarrow> mem t a;
     t \<leftarrow> delkeyfunc a arg t;
     del_chain (overflow_next e) arg (deldatafunc (e_data e) arg t) })"

definition bin_delete :: "nat \<Rightarrow> ('k, 'd) lruhash \<Rightarrow> ('k, 'd) lruhash option" where
  "bin_delete i t = do {
     p \<leftarrow> bin_head t i;
     t \<leftarrow> set_bin_head i None t;
     del_chain p (cb_arg t) t }"

fun for_bins ::
    "(nat \<Rightarrow> ('k, 'd) lruhash \<Rightarrow> ('k, 'd) lruhash option) \<Rightarrow> nat list \<Rightarrow>
     ('k, 'd) lruhash \<Rightarrow> ('k, 'd) lruhash option" where
  "for_bins f [] t = Some t"
| "for_bins f (i # is) t = do { t \<leftarrow> f i t; for_bins f is t }"

text \<open>The callbacks made and the memory left; the table itself is released.\<close>

definition lruhash_delete ::
    "('k, 'd) lruhash option \<Rightarrow>
     ((addr \<Rightarrow> ('k, 'd) lruhash_entry option) \<times> ('k, 'd) del_event list) option option" where
  "lruhash_delete table = (case table of None \<Rightarrow> Some None | Some t \<Rightarrow> do {
     t \<leftarrow> for_bins bin_delete [0..<tab_size t] t;
     Some (Some (mem t, del_log t)) })"

section \<open>Bins\<close>

partial_function (option) bin_overflow_remove_loop ::
    "nat \<Rightarrow> addr \<Rightarrow> addr option \<Rightarrow> addr option \<Rightarrow> ('k, 'd) lruhash \<Rightarrow> ('k, 'd) lruhash option" where
  "bin_overflow_remove_loop i entry prevp p t = (case p of None \<Rightarrow> Some t | Some a \<Rightarrow> do {
     e \<leftarrow> mem t a;
     if a = entry then
       (case prevp of None \<Rightarrow> set_bin_head i (overflow_next e) t
        | Some b \<Rightarrow> upd_entry b (\<lambda>eb. eb\<lparr>overflow_next := overflow_next e\<rparr>) t)
     else bin_overflow_remove_loop i entry (Some a) (overflow_next e) t })"

definition bin_overflow_remove :: "nat \<Rightarrow> addr \<Rightarrow> ('k, 'd) lruhash \<Rightarrow> ('k, 'd) lruhash option" where
  "bin_overflow_remove i entry t = do {
     p \<leftarrow> bin_head t i; bin_overflow_remove_loop i entry None p t }"

text \<open>The entry found, if any, and the number of entries passed over.\<close>

partial_function (option) bin_find_entry_loop ::
    "('k, 'd) lruhash \<Rightarrow> u32 \<Rightarrow> 'k \<Rightarrow> addr option \<Rightarrow> nat \<Rightarrow> (addr option \<times> nat) option" where
  "bin_find_entry_loop t hash key p c = (case p of None \<Rightarrow> Some (None, c) | Some a \<Rightarrow> do {
     e \<leftarrow> mem t a;
     if e_hash e = hash \<and> compfunc t (e_key e) key = 0 then Some (Some a, c)
     else bin_find_entry_loop t hash key (overflow_next e) (c + 1) })"

definition bin_find_entry ::
    "('k, 'd) lruhash \<Rightarrow> nat \<Rightarrow> u32 \<Rightarrow> 'k \<Rightarrow> (addr option \<times> nat) option" where
  "bin_find_entry t i hash key = do {
     p \<leftarrow> bin_head t i; bin_find_entry_loop t hash key p 0 }"

text \<open>Moving the entries of one bin, then of all bins, to the bins of a new array.\<close>

partial_function (option) bin_split_loop ::
    "u32 \<Rightarrow> addr option \<Rightarrow> addr option list \<Rightarrow> ('k, 'd) lruhash \<Rightarrow>
     (addr option list \<times> ('k, 'd) lruhash) option" where
  "bin_split_loop newmask p newa t = (case p of None \<Rightarrow> Some (newa, t) | Some a \<Rightarrow> do {
     e \<leftarrow> mem t a;
     let i = unat (e_hash e AND newmask);
     if i < length newa then do {
       t \<leftarrow> upd_entry a (\<lambda>e. e\<lparr>overflow_next := newa ! i\<rparr>) t;
       bin_split_loop newmask (overflow_next e) (newa[i := Some a]) t }
     else None })"

fun bin_split ::
    "u32 \<Rightarrow> nat list \<Rightarrow> addr option list \<Rightarrow> ('k, 'd) lruhash \<Rightarrow>
     (addr option list \<times> ('k, 'd) lruhash) option" where
  "bin_split newmask [] newa t = Some (newa, t)"
| "bin_split newmask (i # is) newa t = do {
     p \<leftarrow> bin_head t i;
     (newa, t) \<leftarrow> bin_split_loop newmask p newa t;
     bin_split newmask is newa t }"

definition table_grow :: "bool \<Rightarrow> ('k, 'd) lruhash \<Rightarrow> ('k, 'd) lruhash option" where
  "table_grow calloc_ok t =
     (if size_mask t = - 1 then Some t
      else if \<not> calloc_ok then Some t
      else let newmask = push_bit 1 (size_mask t) OR 1 in do {
        (newa, t) \<leftarrow> bin_split newmask [0..<tab_size t] (replicate (tab_size t * 2) None) t;
        Some (t\<lparr>tab_size := tab_size t * 2, size_mask := newmask, tab_array := newa\<rparr>) })"

section \<open>The LRU list\<close>

definition lru_front :: "addr \<Rightarrow> ('k, 'd) lruhash \<Rightarrow> ('k, 'd) lruhash option" where
  "lru_front entry t = do {
     t \<leftarrow> upd_entry entry (\<lambda>e. e\<lparr>lru_prev := None\<rparr>) t;
     t \<leftarrow> upd_entry entry (\<lambda>e. e\<lparr>lru_next := lru_start t\<rparr>) t;
     t \<leftarrow> (case lru_start t of
            None \<Rightarrow> Some (t\<lparr>lru_end := Some entry\<rparr>)
          | Some s \<Rightarrow> upd_entry s (\<lambda>e. e\<lparr>lru_prev := Some entry\<rparr>) t);
     Some (t\<lparr>lru_start := Some entry\<rparr>) }"

definition lru_remove :: "addr \<Rightarrow> ('k, 'd) lruhash \<Rightarrow> ('k, 'd) lruhash option" where
  "lru_remove entry t = do {
     e \<leftarrow> mem t entry;
     t \<leftarrow> (case lru_prev e of
            Some b \<Rightarrow> upd_entry b (\<lambda>eb. eb\<lparr>lru_next := lru_next e\<rparr>) t
          | None \<Rightarrow> Some (t\<lparr>lru_start := lru_next e\<rparr>));
     e \<leftarrow> mem t entry;
     (case lru_next e of
        Some n \<Rightarrow> upd_entry n (\<lambda>en. en\<lparr>lru_prev := lru_prev e\<rparr>) t
      | None \<Rightarrow> Some (t\<lparr>lru_end := lru_prev e\<rparr>)) }"

definition lru_touch :: "addr \<Rightarrow> ('k, 'd) lruhash \<Rightarrow> ('k, 'd) lruhash option" where
  "lru_touch entry t =
     (if Some entry = lru_start t then Some t
      else do { t \<leftarrow> lru_remove entry t; lru_front entry t })"

definition lru_demote :: "addr \<Rightarrow> ('k, 'd) lruhash \<Rightarrow> ('k, 'd) lruhash option" where
  "lru_demote entry t =
     (if Some entry = lru_end t then Some t
      else do {
        t \<leftarrow> lru_remove entry t;
        t \<leftarrow> upd_entry entry (\<lambda>e. e\<lparr>lru_next := None\<rparr>) t;
        t \<leftarrow> upd_entry entry (\<lambda>e. e\<lparr>lru_prev := lru_end t\<rparr>) t;
        t \<leftarrow> (case lru_end t of
               None \<Rightarrow> Some (t\<lparr>lru_start := Some entry\<rparr>)
             | Some l \<Rightarrow> upd_entry l (\<lambda>e. e\<lparr>lru_next := Some entry\<rparr>) t);
        Some (t\<lparr>lru_end := Some entry\<rparr>) })"

section \<open>Making room\<close>

partial_function (option) reclaim_space ::
    "('k, 'd) lruhash \<Rightarrow> addr option \<Rightarrow> (('k, 'd) lruhash \<times> addr option) option" where
  "reclaim_space t lst =
     (if tab_num t > 1 \<and> space_used t > space_max t then do {
        d \<leftarrow> lru_end t;
        e \<leftarrow> mem t d;
        b \<leftarrow> lru_prev e;
        t \<leftarrow> upd_entry b (\<lambda>eb. eb\<lparr>lru_next := None\<rparr>) (t\<lparr>lru_end := Some b\<rparr>);
        t \<leftarrow> bin_overflow_remove (bin_index t (e_hash e)) d (t\<lparr>tab_num := tab_num t - 1\<rparr>);
        t \<leftarrow> upd_entry d (\<lambda>ed. ed\<lparr>overflow_next := lst\<rparr>) t;
        let t = t\<lparr>space_used := space_used t - sizefunc t (e_key e) (e_data e)\<rparr>;
        reclaim_space (call_markdelfunc (e_key e) t) (Some d) }
      else Some (t, lst))"

section \<open>The operations\<close>

text \<open>The common end of the insertions: evict, grow, delete the evicted entries.\<close>

definition make_room ::
    "bool \<Rightarrow> addr option \<Rightarrow> ('k, 'd) lruhash \<Rightarrow> ('k, 'd) lruhash option" where
  "make_room calloc_ok arg t = do {
     (t, reclaimlist) \<leftarrow> (if space_used t > space_max t then reclaim_space t None else Some (t, None));
     t \<leftarrow> (if tab_num t \<ge> tab_size t then table_grow calloc_ok t else Some t);
     del_chain reclaimlist arg t }"

text \<open>The two branches of an insertion: a new entry, or new data for an entry with the key.\<close>

definition add_entry ::
    "nat \<Rightarrow> addr \<Rightarrow> u64 \<Rightarrow> nat \<Rightarrow> ('k, 'd) lruhash \<Rightarrow> ('k, 'd) lruhash option" where
  "add_entry i entry need_size collisions t = do {
     p \<leftarrow> bin_head t i;
     t \<leftarrow> upd_entry entry (\<lambda>e. e\<lparr>overflow_next := p\<rparr>) t;
     t \<leftarrow> set_bin_head i (Some entry) t;
     t \<leftarrow> lru_front entry t;
     Some (t\<lparr>tab_num := tab_num t + 1,
        max_collisions := (if max_collisions t < collisions then collisions else max_collisions t),
        space_used := space_used t + need_size\<rparr>) }"

definition replace_data ::
    "addr \<Rightarrow> addr \<Rightarrow> 'd \<Rightarrow> u64 \<Rightarrow> addr option \<Rightarrow> ('k, 'd) lruhash \<Rightarrow> ('k, 'd) lruhash option" where
  "replace_data a entry dat need_size arg t = do {
     f \<leftarrow> mem t a;
     let t = t\<lparr>space_used := space_used t + (need_size - sizefunc t (e_key f) (e_data f))\<rparr>;
     t \<leftarrow> delkeyfunc entry arg t;
     t \<leftarrow> lru_touch a t;
     f \<leftarrow> mem t a;
     upd_entry a (\<lambda>e. e\<lparr>e_data := dat\<rparr>) (deldatafunc (e_data f) arg t) }"

definition lruhash_insert ::
    "bool \<Rightarrow> u32 \<Rightarrow> addr \<Rightarrow> 'd \<Rightarrow> addr option \<Rightarrow> ('k, 'd) lruhash \<Rightarrow> ('k, 'd) lruhash option" where
  "lruhash_insert calloc_ok hash entry dat arg t = do {
     en \<leftarrow> mem t entry;
     let need_size = sizefunc t (e_key en) dat;
     let arg = (if arg = None then cb_arg t else arg);
     let i = bin_index t hash;
     (found, collisions) \<leftarrow> bin_find_entry t i hash (e_key en);
     t \<leftarrow> (case found of
            None \<Rightarrow> add_entry i entry need_size collisions t
          | Some a \<Rightarrow> replace_data a entry dat need_size arg t);
     make_room calloc_ok arg t }"

definition lruhash_lookup ::
    "u32 \<Rightarrow> 'k \<Rightarrow> ('k, 'd) lruhash \<Rightarrow> (addr option \<times> ('k, 'd) lruhash) option" where
  "lruhash_lookup hash key t = do {
     (found, _) \<leftarrow> bin_find_entry t (bin_index t hash) hash key;
     (case found of None \<Rightarrow> Some (None, t)
      | Some a \<Rightarrow> do { t \<leftarrow> lru_touch a t; Some (Some a, t) }) }"

definition lruhash_remove :: "u32 \<Rightarrow> 'k \<Rightarrow> ('k, 'd) lruhash \<Rightarrow> ('k, 'd) lruhash option" where
  "lruhash_remove hash key t = do {
     let i = bin_index t hash;
     (found, _) \<leftarrow> bin_find_entry t i hash key;
     (case found of None \<Rightarrow> Some t
      | Some a \<Rightarrow> do {
          t \<leftarrow> bin_overflow_remove i a t;
          t \<leftarrow> lru_remove a t;
          e \<leftarrow> mem t a;
          let t = t\<lparr>tab_num := tab_num t - 1,
                    space_used := space_used t - sizefunc t (e_key e) (e_data e)\<rparr>;
          let t = call_markdelfunc (e_key e) t;
          t \<leftarrow> delkeyfunc a (cb_arg t) t;
          Some (deldatafunc (e_data e) (cb_arg t) t) }) }"

partial_function (option) bin_clear_loop ::
    "addr option \<Rightarrow> ('k, 'd) lruhash \<Rightarrow> ('k, 'd) lruhash option" where
  "bin_clear_loop p t = (case p of None \<Rightarrow> Some t | Some a \<Rightarrow> do {
     e \<leftarrow> mem t a;
     let t = call_markdelfunc (e_key e) t;
     t \<leftarrow> delkeyfunc a (cb_arg t) t;
     bin_clear_loop (overflow_next e) (deldatafunc (e_data e) (cb_arg t) t) })"

definition bin_clear :: "nat \<Rightarrow> ('k, 'd) lruhash \<Rightarrow> ('k, 'd) lruhash option" where
  "bin_clear i t = do {
     p \<leftarrow> bin_head t i; t \<leftarrow> bin_clear_loop p t; set_bin_head i None t }"

definition lruhash_clear :: "('k, 'd) lruhash \<Rightarrow> ('k, 'd) lruhash option" where
  "lruhash_clear t = do {
     t \<leftarrow> for_bins bin_clear [0..<tab_size t] t;
     Some (t\<lparr>lru_start := None, lru_end := None, tab_num := 0, space_used := 0\<rparr>) }"

text \<open>The arguments are the sizes of the structures and of the memory held by a lock.\<close>

definition lruhash_get_mem :: "u64 \<Rightarrow> u64 \<Rightarrow> u64 \<Rightarrow> ('k, 'd) lruhash \<Rightarrow> u64" where
  "lruhash_get_mem sizeof_lruhash sizeof_bin lock_mem t =
     (let s = sizeof_lruhash + space_used t;
          s = (if tab_size t \<noteq> 0 then s + of_nat (tab_size t) * (sizeof_bin + lock_mem) else s)
      in s + lock_mem)"

definition lruhash_setmarkdel :: "bool \<Rightarrow> ('k, 'd) lruhash \<Rightarrow> ('k, 'd) lruhash" where
  "lruhash_setmarkdel md t = t\<lparr>markdelfunc := md\<rparr>"

text \<open>The conversions to \<open>int\<close> keep the low 32 bits; the addition is of \<open>int\<close>s.\<close>

definition lruhash_update_space_used ::
    "addr option \<Rightarrow> 32 word \<Rightarrow> ('k, 'd) lruhash \<Rightarrow> ('k, 'd) lruhash option" where
  "lruhash_update_space_used arg diff_size t = do {
     let arg = (if arg = None then cb_arg t else arg);
     let v = (ucast (space_used t) :: 32 word) + diff_size;
     let t = t\<lparr>space_used := (if sint v < 0 then 0 else ucast v)\<rparr>;
     (t, reclaimlist) \<leftarrow> (if space_used t > space_max t then reclaim_space t None else Some (t, None));
     del_chain reclaimlist arg t }"

text \<open>The entries that \<open>func\<close> is applied to, in order; \<open>func\<close> may change the data.\<close>

partial_function (option) traverse_chain ::
    "(('k, 'd) lruhash_entry \<Rightarrow> 'd) \<Rightarrow> addr option \<Rightarrow> ('k, 'd) lruhash \<Rightarrow> ('k, 'd) lruhash option" where
  "traverse_chain func p t = (case p of None \<Rightarrow> Some t | Some a \<Rightarrow> do {
     t \<leftarrow> upd_entry a (\<lambda>e. e\<lparr>e_data := func e\<rparr>) t;
     e \<leftarrow> mem t a;
     traverse_chain func (overflow_next e) t })"

definition lruhash_traverse ::
    "(('k, 'd) lruhash_entry \<Rightarrow> 'd) \<Rightarrow> ('k, 'd) lruhash \<Rightarrow> ('k, 'd) lruhash option" where
  "lruhash_traverse func t =
     for_bins (\<lambda>i t. do { p \<leftarrow> bin_head t i; traverse_chain func p t }) [0..<tab_size t] t"

definition lruhash_insert_or_retrieve ::
    "bool \<Rightarrow> u32 \<Rightarrow> addr \<Rightarrow> 'd \<Rightarrow> addr option \<Rightarrow> ('k, 'd) lruhash \<Rightarrow>
     (addr \<times> ('k, 'd) lruhash) option" where
  "lruhash_insert_or_retrieve calloc_ok hash entry dat arg t = do {
     en \<leftarrow> mem t entry;
     let need_size = sizefunc t (e_key en) dat;
     let arg = (if arg = None then cb_arg t else arg);
     let i = bin_index t hash;
     (found, collisions) \<leftarrow> bin_find_entry t i hash (e_key en);
     (a, t) \<leftarrow> (case found of
            Some a \<Rightarrow> Some (a, t)
          | None \<Rightarrow> do { t \<leftarrow> add_entry i entry need_size collisions t; Some (entry, t) });
     t \<leftarrow> make_room calloc_ok arg t;
     Some (a, t) }"

end
