(* ===== verification/Lruhash_Lists.thy ===== *)
theory Lruhash_Lists
  imports Lruhash
begin

text \<open>
  The linked structures of the hash table, as lists of addresses: the overflow chain of a bin and
  the doubly linked LRU list. Each pointer operation of \<open>lruhash.c\<close> gets one lemma that says what it
  does to these lists and what it leaves alone.
\<close>

section \<open>Linked lists in memory\<close>

text \<open>
  The three views of the memory: the overflow links, the LRU links, and the hash, key and data.
\<close>

type_synonym ('k, 'd) heap = "addr \<Rightarrow> ('k, 'd) lruhash_entry option"

definition ovl :: "('k, 'd) heap \<Rightarrow> addr \<Rightarrow> addr option option" where
  "ovl m a = map_option overflow_next (m a)"

definition lrl :: "('k, 'd) heap \<Rightarrow> addr \<Rightarrow> (addr option \<times> addr option) option" where
  "lrl m a = map_option (\<lambda>e. (lru_prev e, lru_next e)) (m a)"

definition row :: "('k, 'd) heap \<Rightarrow> addr \<Rightarrow> (u32 \<times> 'k \<times> 'd) option" where
  "row m a = map_option (\<lambda>e. (e_hash e, e_key e, e_data e)) (m a)"

fun chain :: "(addr \<Rightarrow> addr option option) \<Rightarrow> addr option \<Rightarrow> addr list \<Rightarrow> bool" where
  "chain f p [] \<longleftrightarrow> p = None"
| "chain f p (a # as) \<longleftrightarrow> p = Some a \<and> (\<exists>q. f a = Some q \<and> chain f q as)"

fun dls :: "(addr \<Rightarrow> (addr option \<times> addr option) option) \<Rightarrow> addr option \<Rightarrow> addr option \<Rightarrow>
    addr list \<Rightarrow> addr option \<Rightarrow> addr option \<Rightarrow> bool" where
  "dls g pr p [] en nx \<longleftrightarrow> p = nx \<and> en = pr"
| "dls g pr p (a # xs) en nx \<longleftrightarrow> p = Some a \<and> (\<exists>q. g a = Some (pr, q) \<and> dls g (Some a) q xs en nx)"

lemma chain_cong: "(\<And>a. a \<in> set as \<Longrightarrow> f a = f' a) \<Longrightarrow> chain f p as = chain f' p as"
  by (induction as arbitrary: p) auto

lemma chain_upd [simp]: "a \<notin> set as \<Longrightarrow> chain (f(a := v)) p as = chain f p as"
  by (rule chain_cong) auto

lemma dls_cong: "(\<And>a. a \<in> set xs \<Longrightarrow> g a = g' a) \<Longrightarrow> dls g pr p xs en nx = dls g' pr p xs en nx"
  by (induction xs arbitrary: pr p) auto

lemma dls_upd [simp]: "a \<notin> set xs \<Longrightarrow> dls (g(a := v)) pr p xs en nx = dls g pr p xs en nx"
  by (rule dls_cong) auto

lemma dls_append:
  "dls g pr p (xs @ ys) en nx \<longleftrightarrow> (\<exists>mid q. dls g pr p xs mid q \<and> dls g mid q ys en nx)"
  by (induction xs arbitrary: pr p) auto

lemma dls_snoc_next:
  "dls g pr p (xs @ [b]) en nx \<Longrightarrow> b \<notin> set xs \<Longrightarrow> \<exists>pb. g b = Some (pb, nx) \<and> en = Some b \<and>
    dls (g(b := Some (pb, nx'))) pr p (xs @ [b]) en nx'"
  by (auto simp: dls_append)

text \<open>The views after an assignment.\<close>

lemma views_upd [simp]:
  "ovl (m(a \<mapsto> e)) = (ovl m)(a := Some (overflow_next e))"
  "lrl (m(a \<mapsto> e)) = (lrl m)(a := Some (lru_prev e, lru_next e))"
  "row (m(a \<mapsto> e)) = (row m)(a := Some (e_hash e, e_key e, e_data e))"
  by (auto simp: ovl_def lrl_def row_def)

lemma views_Some:
  "m a = Some e \<Longrightarrow> ovl m a = Some (overflow_next e)"
  "m a = Some e \<Longrightarrow> lrl m a = Some (lru_prev e, lru_next e)"
  "m a = Some e \<Longrightarrow> row m a = Some (e_hash e, e_key e, e_data e)"
  by (simp_all add: ovl_def lrl_def row_def)

lemma views_same [simp]:
  "m a = Some e \<Longrightarrow> (ovl m)(a := Some (overflow_next e)) = ovl m"
  "m a = Some e \<Longrightarrow> (lrl m)(a := Some (lru_prev e, lru_next e)) = lrl m"
  "m a = Some e \<Longrightarrow> (row m)(a := Some (e_hash e, e_key e, e_data e)) = row m"
  by (auto simp: ovl_def lrl_def row_def)

lemma lrl_SomeE:
  assumes "lrl m a = Some (pr, nx)"
  obtains e where "m a = Some e" "lru_prev e = pr" "lru_next e = nx"
  using assms by (auto simp: lrl_def)

lemma ovl_SomeE:
  assumes "ovl m a = Some q"
  obtains e where "m a = Some e" "overflow_next e = q"
  using assms by (auto simp: ovl_def)

section \<open>The LRU list\<close>

lemma upd_entry_Some:
  "mem t a = Some e \<Longrightarrow> upd_entry a f t = Some (t\<lparr>mem := (mem t)(a \<mapsto> f e)\<rparr>)"
  by (simp add: upd_entry_def)

lemma lru_front_ok:
  assumes "mem t a = Some e" "dls (lrl (mem t)) None (lru_start t) xs (lru_end t) None" "a \<notin> set xs"
    "distinct xs"
  shows "\<exists>m' en. lru_front a t = Some (t\<lparr>mem := m', lru_start := Some a, lru_end := en\<rparr>) \<and>
    ovl m' = ovl (mem t) \<and> row m' = row (mem t) \<and> dls (lrl m') None (Some a) (a # xs) en None"
proof (cases xs)
  case Nil
  let ?m = "(mem t)(a \<mapsto> e\<lparr>lru_prev := None, lru_next := lru_start t\<rparr>)"
  have "lru_front a t = Some (t\<lparr>mem := ?m, lru_start := Some a, lru_end := Some a\<rparr>)"
    using assms(1,2) Nil by (simp add: lru_front_def upd_entry_def)
  moreover have "dls (lrl ?m) None (Some a) (a # xs) (Some a) None"
    using assms(2) Nil by simp
  moreover have "ovl ?m = ovl (mem t)" "row ?m = row (mem t)" using assms(1) by simp_all
  ultimately show ?thesis by blast
next
  case (Cons s ys)
  with assms(2) obtain q where s: "lru_start t = Some s" "lrl (mem t) s = Some (None, q)"
    "dls (lrl (mem t)) (Some s) q ys (lru_end t) None" by auto
  from s(2) obtain es where es: "mem t s = Some es" "lru_prev es = None" "lru_next es = q"
    by (rule lrl_SomeE)
  have "a \<noteq> s" using assms(3) Cons by auto
  let ?m = "(mem t)(a \<mapsto> e\<lparr>lru_prev := None, lru_next := lru_start t\<rparr>, s \<mapsto> es\<lparr>lru_prev := Some a\<rparr>)"
  have "lru_front a t = Some (t\<lparr>mem := ?m, lru_start := Some a, lru_end := lru_end t\<rparr>)"
    using assms(1) s(1) es(1) \<open>a \<noteq> s\<close> by (simp add: lru_front_def upd_entry_def)
  moreover have "dls (lrl ?m) None (Some a) (a # xs) (lru_end t) None"
    using assms(3,4) Cons s es \<open>a \<noteq> s\<close> by simp
  moreover have "ovl ?m = ovl (mem t)" "row ?m = row (mem t)"
    using assms(1) es(1) \<open>a \<noteq> s\<close> by simp_all
  ultimately show ?thesis by blast
qed


text \<open>Unlinking: first the pointer from the left neighbour, then the one from the right neighbour.\<close>

lemma unlink_prev:
  assumes "dls (lrl (mem t)) None (lru_start t) xs mid (Some a)" "distinct xs"
  shows "\<exists>m' st. (case mid of Some b \<Rightarrow> upd_entry b (\<lambda>eb. eb\<lparr>lru_next := q\<rparr>) t
       | None \<Rightarrow> Some (t\<lparr>lru_start := q\<rparr>)) = Some (t\<lparr>mem := m', lru_start := st\<rparr>) \<and>
    ovl m' = ovl (mem t) \<and> row m' = row (mem t) \<and> dls (lrl m') None st xs mid q \<and>
    (\<forall>b. b \<notin> set xs \<longrightarrow> m' b = mem t b)"
proof (cases xs rule: rev_cases)
  case Nil
  have "t\<lparr>lru_start := q\<rparr> = t\<lparr>mem := mem t, lru_start := q\<rparr>" by simp
  with assms(1) Nil show ?thesis
    by (intro exI [of _ "mem t"] exI [of _ q]) simp
next
  case (snoc ys b)
  from dls_snoc_next [of "lrl (mem t)" None "lru_start t" ys b mid "Some a" q] assms snoc
  obtain pb where b: "lrl (mem t) b = Some (pb, Some a)" "mid = Some b"
    "dls ((lrl (mem t))(b := Some (pb, q))) None (lru_start t) xs mid q" by auto
  from b(1) obtain e where e: "mem t b = Some e" "lru_prev e = pb" by (rule lrl_SomeE)
  let ?m = "(mem t)(b \<mapsto> e\<lparr>lru_next := q\<rparr>)"
  have "t\<lparr>mem := ?m\<rparr> = t\<lparr>mem := ?m, lru_start := lru_start t\<rparr>" by simp
  with b e snoc show ?thesis
    by (intro exI [of _ ?m] exI [of _ "lru_start t"]) (simp add: upd_entry_Some)
qed

lemma unlink_next:
  assumes "dls (lrl (mem t)) (Some a) q ys (lru_end t) None" "distinct ys"
  shows "\<exists>m' en. (case q of Some n \<Rightarrow> upd_entry n (\<lambda>en. en\<lparr>lru_prev := mid\<rparr>) t
       | None \<Rightarrow> Some (t\<lparr>lru_end := mid\<rparr>)) = Some (t\<lparr>mem := m', lru_end := en\<rparr>) \<and>
    ovl m' = ovl (mem t) \<and> row m' = row (mem t) \<and> dls (lrl m') mid q ys en None \<and>
    (\<forall>b. b \<notin> set ys \<longrightarrow> m' b = mem t b)"
proof (cases ys)
  case Nil
  have "t\<lparr>lru_end := mid\<rparr> = t\<lparr>mem := mem t, lru_end := mid\<rparr>" by simp
  with assms(1) Nil show ?thesis
    by (intro exI [of _ "mem t"] exI [of _ mid]) simp
next
  case (Cons n zs)
  with assms obtain q2 where n: "q = Some n" "lrl (mem t) n = Some (Some a, q2)"
    "dls (lrl (mem t)) (Some n) q2 zs (lru_end t) None" "n \<notin> set zs" by auto
  from n(2) obtain e where e: "mem t n = Some e" "lru_next e = q2" by (rule lrl_SomeE)
  let ?m = "(mem t)(n \<mapsto> e\<lparr>lru_prev := mid\<rparr>)"
  have "t\<lparr>mem := ?m\<rparr> = t\<lparr>mem := ?m, lru_end := lru_end t\<rparr>" by simp
  with n e Cons show ?thesis
    by (intro exI [of _ ?m] exI [of _ "lru_end t"]) (simp add: upd_entry_Some)
qed

lemma lrl_cong: "m a = m' a \<Longrightarrow> lrl m a = lrl m' a"
  by (simp add: lrl_def)

lemma lru_remove_ok:
  assumes "dls (lrl (mem t)) None (lru_start t) (xs @ a # ys) (lru_end t) None"
    "distinct (xs @ a # ys)"
  shows "\<exists>m' st en. lru_remove a t = Some (t\<lparr>mem := m', lru_start := st, lru_end := en\<rparr>) \<and>
    ovl m' = ovl (mem t) \<and> row m' = row (mem t) \<and> dls (lrl m') None st (xs @ ys) en None"
proof -
  from assms(1) obtain mid q where seg: "dls (lrl (mem t)) None (lru_start t) xs mid (Some a)"
    "lrl (mem t) a = Some (mid, q)" "dls (lrl (mem t)) (Some a) q ys (lru_end t) None"
    by (auto simp: dls_append)
  from seg(2) obtain e where e: "mem t a = Some e" "lru_prev e = mid" "lru_next e = q"
    by (rule lrl_SomeE)
  from unlink_prev [OF seg(1), of q] assms(2) obtain m1 st where 1:
    "(case mid of Some b \<Rightarrow> upd_entry b (\<lambda>eb. eb\<lparr>lru_next := q\<rparr>) t
       | None \<Rightarrow> Some (t\<lparr>lru_start := q\<rparr>)) = Some (t\<lparr>mem := m1, lru_start := st\<rparr>)"
    "ovl m1 = ovl (mem t)" "row m1 = row (mem t)" "dls (lrl m1) None st xs mid q"
    "\<And>b. b \<notin> set xs \<Longrightarrow> m1 b = mem t b" by auto
  let ?t1 = "t\<lparr>mem := m1, lru_start := st\<rparr>"
  have "dls (lrl m1) (Some a) q ys (lru_end t) None"
    using seg(3) assms(2) by (subst dls_cong [of _ _ "lrl (mem t)"]) (auto intro!: lrl_cong 1(5))
  with unlink_next [of ?t1 a q ys mid] assms(2) obtain m2 en where 2:
    "(case q of Some n \<Rightarrow> upd_entry n (\<lambda>en. en\<lparr>lru_prev := mid\<rparr>) ?t1
       | None \<Rightarrow> Some (?t1\<lparr>lru_end := mid\<rparr>)) = Some (?t1\<lparr>mem := m2, lru_end := en\<rparr>)"
    "ovl m2 = ovl m1" "row m2 = row m1" "dls (lrl m2) mid q ys en None"
    "\<And>b. b \<notin> set ys \<Longrightarrow> m2 b = m1 b" by auto
  have "dls (lrl m2) None st xs mid q"
    using 1(4) assms(2) by (subst dls_cong [of _ _ "lrl m1"]) (auto intro!: lrl_cong 2(5))
  with 2(4) have "dls (lrl m2) None st (xs @ ys) en None" by (auto simp: dls_append)
  moreover have "m1 a = Some e" using 1(5) [of a] e(1) assms(2) by simp
  then have "lru_remove a t = Some (t\<lparr>mem := m2, lru_start := st, lru_end := en\<rparr>)"
    using 1(1) 2(1) e by (simp add: lru_remove_def cong: option.case_cong)
  ultimately show ?thesis using 1(2,3) 2(2,3) by auto
qed


section \<open>Bins\<close>

lemma chain_split:
  assumes "chain f p (as @ a # bs)" "distinct (as @ a # bs)"
  obtains q where "f a = Some q" "chain f q bs" "as = [] \<Longrightarrow> p = Some a"
    "as \<noteq> [] \<Longrightarrow> chain (f(last as := Some q)) p (as @ bs)"
proof -
  have "\<exists>q. f a = Some q \<and> chain f q bs \<and> (as = [] \<longrightarrow> p = Some a) \<and>
      (as \<noteq> [] \<longrightarrow> chain (f(last as := Some q)) p (as @ bs))"
    using assms
  proof (induction as arbitrary: p)
    case (Cons b as)
    then obtain q where q: "p = Some b" "f b = Some q" "chain f q (as @ a # bs)" by auto
    have "distinct (as @ a # bs)" using Cons.prems(2) by simp
    from Cons.IH [OF q(3) this] obtain q' where q': "f a = Some q'" "chain f q' bs" "as = [] \<longrightarrow> q = Some a"
      "as \<noteq> [] \<longrightarrow> chain (f(last as := Some q')) q (as @ bs)" by blast
    show ?case
    proof (cases "as = []")
      case True
      with q q' Cons.prems(2) show ?thesis by (simp add: fun_upd_same fun_upd_other del: fun_upd_apply)
    next
      case False
      then have "b \<noteq> last as" using Cons.prems(2) by auto
      with False q q' show ?thesis by (simp add: fun_upd_same fun_upd_other del: fun_upd_apply)
    qed
  qed auto
  with that show ?thesis by blast
qed

lemma bin_overflow_remove_loop_chain:
  assumes "chain (ovl (mem t)) p (as @ a # bs)" "a \<notin> set as" "ovl (mem t) a = Some q"
  shows "bin_overflow_remove_loop i a prevp p t =
    (case (if as = [] then prevp else Some (last as)) of
       None \<Rightarrow> set_bin_head i q t
     | Some b \<Rightarrow> upd_entry b (\<lambda>eb. eb\<lparr>overflow_next := q\<rparr>) t)"
  using assms
proof (induction as arbitrary: p prevp)
  case Nil
  then show ?case
    by (subst bin_overflow_remove_loop.simps)
      (auto elim!: ovl_SomeE cong: option.case_cong)
next
  case (Cons b as)
  then obtain q' where q': "p = Some b" "ovl (mem t) b = Some q'" "chain (ovl (mem t)) q' (as @ a # bs)"
    by auto
  from q'(2) obtain e where "mem t b = Some e" "overflow_next e = q'" by (rule ovl_SomeE)
  with Cons.IH [OF q'(3) _ Cons.prems(3), of "Some b"] Cons.prems(2) q'(1) show ?case
    by (subst bin_overflow_remove_loop.simps) auto
qed

lemma bin_overflow_remove_ok:
  assumes "i < length (tab_array t)" "chain (ovl (mem t)) (tab_array t ! i) (as @ a # bs)"
    "distinct (as @ a # bs)"
  shows "\<exists>m' p'. bin_overflow_remove i a t = Some (t\<lparr>mem := m', tab_array := (tab_array t)[i := p']\<rparr>) \<and>
    lrl m' = lrl (mem t) \<and> row m' = row (mem t) \<and> (\<forall>b. b \<notin> set as \<longrightarrow> m' b = mem t b) \<and>
    chain (ovl m') p' (as @ bs)"
proof -
  from chain_split [OF assms(2,3)] obtain q where q: "ovl (mem t) a = Some q" "chain (ovl (mem t)) q bs"
    "as = [] \<Longrightarrow> tab_array t ! i = Some a"
    "as \<noteq> [] \<Longrightarrow> chain ((ovl (mem t))(last as := Some q)) (tab_array t ! i) (as @ bs)" by blast
  have loop: "bin_overflow_remove i a t = (case (if as = [] then None else Some (last as)) of
       None \<Rightarrow> set_bin_head i q t
     | Some b \<Rightarrow> upd_entry b (\<lambda>eb. eb\<lparr>overflow_next := q\<rparr>) t)"
    using bin_overflow_remove_loop_chain [OF assms(2) _ q(1)] assms(1,3)
    by (simp add: bin_overflow_remove_def bin_head_def)
  show ?thesis
  proof (cases "as = []")
    case True
    with loop q assms(1) show ?thesis
      by (intro exI [of _ "mem t"] exI [of _ q]) (simp add: set_bin_head_def bin_head_def)
  next
    case False
    then have "\<exists>q'. ovl (mem t) (last as) = Some q'"
    proof -
      obtain cs b where "as = cs @ [b]" using False by (cases as rule: rev_cases) auto
      with chain_split [of "ovl (mem t)" _ cs b "a # bs"] assms(2,3) show ?thesis by auto
    qed
    then obtain e where e: "mem t (last as) = Some e" by (auto elim: ovl_SomeE)
    let ?m = "(mem t)(last as \<mapsto> e\<lparr>overflow_next := q\<rparr>)"
    have "bin_overflow_remove i a t =
        Some (t\<lparr>mem := ?m, tab_array := (tab_array t)[i := tab_array t ! i]\<rparr>)"
      using loop False e by (simp add: upd_entry_Some)
    moreover have "last as \<in> set as" using False by simp
    ultimately show ?thesis
      using q(4) [OF False] e
      by (intro exI [of _ ?m] exI [of _ "tab_array t ! i"]) (auto simp: )
  qed
qed

text \<open>The search in a bin, for an entry with the hash and an equal key.\<close>

definition matches :: "('k \<Rightarrow> 'k \<Rightarrow> int) \<Rightarrow> u32 \<Rightarrow> 'k \<Rightarrow> u32 \<times> 'k \<times> 'd \<Rightarrow> bool" where
  "matches cmp hash key r \<longleftrightarrow> fst r = hash \<and> cmp (fst (snd r)) key = 0"

lemma bin_find_entry_loop_chain:
  assumes "chain (ovl (mem t)) p as"
  shows "\<exists>c'. bin_find_entry_loop t hash key p c =
    Some (find (\<lambda>a. \<exists>r. row (mem t) a = Some r \<and> matches (compfunc t) hash key r) as, c')"
  using assms
proof (induction as arbitrary: p c)
  case Nil
  then show ?case by (subst bin_find_entry_loop.simps) simp
next
  case (Cons a as)
  then obtain q where q: "p = Some a" "ovl (mem t) a = Some q" "chain (ovl (mem t)) q as" by auto
  from q(2) obtain e where "mem t a = Some e" "overflow_next e = q" by (rule ovl_SomeE)
  with Cons.IH [OF q(3), of "c + 1"] q(1) show ?case
    by (subst bin_find_entry_loop.simps) (auto simp: views_Some matches_def)
qed

end
