(* ===== verification/Lruhash_Inv.thy ===== *)
theory Lruhash_Inv
  imports Lruhash_Lists
begin

text \<open>
  The invariant of the hash table and the operations that look up, add and take out one entry.
\<close>

section \<open>The contract of the callbacks\<close>

text \<open>
  What the table relies on: \<open>compfunc\<close> returns zero for an equivalence of keys, and equal keys have
  the same size.
\<close>

locale hash_callbacks =
  fixes cmp :: "'k \<Rightarrow> 'k \<Rightarrow> int" and szf :: "'k \<Rightarrow> 'd \<Rightarrow> u64"
  assumes cmp_refl: "cmp k k = 0"
    and cmp_sym: "cmp k k' = 0 \<Longrightarrow> cmp k' k = 0"
    and cmp_trans: "cmp k k' = 0 \<Longrightarrow> cmp k' k'' = 0 \<Longrightarrow> cmp k k'' = 0"
    and size_eq: "cmp k k' = 0 \<Longrightarrow> szf k d = szf k' d"
begin

text \<open>A row with the same hash and an equal key matches whatever the other one matches.\<close>

lemma matches_same:
  assumes "matches cmp h k ra" "matches cmp h k rb"
  shows "matches cmp (fst ra) (fst (snd ra)) rb"
  using assms cmp_trans [OF _ cmp_sym, of "fst (snd rb)" k "fst (snd ra)"] by (simp add: matches_def)

lemma matches_sym:
  "matches cmp (fst ra) (fst (snd ra)) rb \<Longrightarrow> matches cmp (fst rb) (fst (snd rb)) ra"
  using cmp_sym [of "fst (snd rb)" "fst (snd ra)"] by (simp add: matches_def)

end

section \<open>Well-formed tables\<close>

definition mask_ok :: "('k, 'd) lruhash \<Rightarrow> bool" where
  "mask_ok t \<longleftrightarrow> (\<exists>n \<le> 32. tab_size t = 2 ^ n \<and> size_mask t = mask n)"

lemma bin_index_mod: "mask_ok t \<Longrightarrow> bin_index t h = unat h mod tab_size t"
proof -
  assume "mask_ok t"
  then obtain n where n: "tab_size t = 2 ^ n" "size_mask t = mask n" by (auto simp: mask_ok_def)
  have "bin_index t h = unat (take_bit n h)" by (simp only: bin_index_def n(2) take_bit_eq_mask)
  also have "\<dots> = take_bit n (unat h)" by (rule unsigned_take_bit_eq)
  also have "\<dots> = unat h mod tab_size t" by (simp add: take_bit_eq_mod n(1))
  finally show ?thesis .
qed

lemma bin_index_less: "mask_ok t \<Longrightarrow> bin_index t h < tab_size t"
  by (subst bin_index_mod) (auto simp: mask_ok_def)

lemma bin_index_cong [simp]:
  "bin_index (t\<lparr>mem := m\<rparr>) = bin_index t" "bin_index (t\<lparr>lru_start := s\<rparr>) = bin_index t"
  "bin_index (t\<lparr>lru_end := s\<rparr>) = bin_index t" "bin_index (t\<lparr>tab_num := n\<rparr>) = bin_index t"
  "bin_index (t\<lparr>space_used := u\<rparr>) = bin_index t" "bin_index (t\<lparr>max_collisions := n\<rparr>) = bin_index t"
  "bin_index (t\<lparr>tab_array := ar\<rparr>) = bin_index t" "bin_index (t\<lparr>del_log := l\<rparr>) = bin_index t"
  by (simp_all add: bin_index_def fun_eq_iff)

text \<open>
  The bins hold the set of entries \<open>S\<close>: bin \<open>i\<close> is the list \<open>B i\<close> of those whose hash belongs there.
\<close>

definition bins_ok :: "('k, 'd) lruhash \<Rightarrow> (nat \<Rightarrow> addr list) \<Rightarrow> addr set \<Rightarrow> bool" where
  "bins_ok t B S \<longleftrightarrow> length (tab_array t) = tab_size t \<and>
    (\<forall>i < tab_size t. chain (ovl (mem t)) (tab_array t ! i) (B i) \<and> distinct (B i) \<and>
       set (B i) = {a \<in> S. \<exists>r. row (mem t) a = Some r \<and> bin_index t (fst r) = i})"

definition entry_size :: "('k, 'd) lruhash \<Rightarrow> addr \<Rightarrow> u64" where
  "entry_size t a = (case row (mem t) a of None \<Rightarrow> 0 | Some (h, k, d) \<Rightarrow> sizefunc t k d)"

definition same_key :: "('k, 'd) lruhash \<Rightarrow> addr \<Rightarrow> addr \<Rightarrow> bool" where
  "same_key t a b \<longleftrightarrow> (\<exists>ra rb. row (mem t) a = Some ra \<and> row (mem t) b = Some rb \<and>
     matches (compfunc t) (fst ra) (fst (snd ra)) rb)"

definition lru_inv :: "('k, 'd) lruhash \<Rightarrow> addr list \<Rightarrow> bool" where
  "lru_inv t xs \<longleftrightarrow>
     dls (lrl (mem t)) None (lru_start t) xs (lru_end t) None \<and> distinct xs \<and>
     (\<exists>B. bins_ok t B (set xs)) \<and> mask_ok t \<and> tab_num t = length xs \<and>
     space_used t = (\<Sum>a\<in>set xs. entry_size t a) \<and>
     hash_callbacks (compfunc t) (sizefunc t) \<and>
     (\<forall>a \<in> set xs. \<forall>b \<in> set xs. same_key t a b \<longrightarrow> a = b)"

definition rows :: "('k, 'd) lruhash \<Rightarrow> addr list \<Rightarrow> (u32 \<times> 'k \<times> 'd) list" where
  "rows t xs = map (\<lambda>a. the (row (mem t) a)) xs"

lemma dls_dom: "dls g pr p xs en nx \<Longrightarrow> a \<in> set xs \<Longrightarrow> g a \<noteq> None"
  by (induction xs arbitrary: pr p) auto

lemma lru_inv_dom: "lru_inv t xs \<Longrightarrow> a \<in> set xs \<Longrightarrow> \<exists>e. mem t a = Some e"
  using dls_dom [of "lrl (mem t)" None "lru_start t" xs "lru_end t" None a]
  by (auto simp: lru_inv_def lrl_def)

lemma lru_inv_row: "lru_inv t xs \<Longrightarrow> a \<in> set xs \<Longrightarrow> \<exists>r. row (mem t) a = Some r"
  using lru_inv_dom by (fastforce simp: row_def)

text \<open>The invariant only looks at the entries in the table.\<close>

lemma lru_inv_cong:
  assumes "\<And>a. a \<in> set xs \<Longrightarrow> mem t' a = mem t a"
    "lru_start t' = lru_start t" "lru_end t' = lru_end t" "tab_array t' = tab_array t"
    "tab_size t' = tab_size t" "size_mask t' = size_mask t" "tab_num t' = tab_num t"
    "space_used t' = space_used t" "sizefunc t' = sizefunc t" "compfunc t' = compfunc t"
    "lru_inv t xs"
  shows "lru_inv t' xs"
proof -
  have v: "ovl (mem t') a = ovl (mem t) a" "lrl (mem t') a = lrl (mem t) a"
      "row (mem t') a = row (mem t) a" if "a \<in> set xs" for a
    using assms(1) [OF that] by (simp_all add: ovl_def lrl_def row_def)
  from assms(11) obtain B where B: "bins_ok t B (set xs)" by (auto simp: lru_inv_def)
  have idx: "bin_index t' = bin_index t" using assms(6) by (simp add: bin_index_def fun_eq_iff)
  have "bins_ok t' B (set xs)"
    unfolding bins_ok_def assms(4,5) idx
  proof (intro conjI allI impI)
    fix i assume i: "i < tab_size t"
    with B have b: "chain (ovl (mem t)) (tab_array t ! i) (B i)" "distinct (B i)"
      "set (B i) = {a \<in> set xs. \<exists>r. row (mem t) a = Some r \<and> bin_index t (fst r) = i}"
      by (auto simp: bins_ok_def)
    from b(1,3) show "chain (ovl (mem t')) (tab_array t ! i) (B i)"
      by (subst chain_cong [of _ _ "ovl (mem t)"]) (auto simp: v)
    from b(2) show "distinct (B i)" .
    from b(3) show "set (B i) = {a \<in> set xs. \<exists>r. row (mem t') a = Some r \<and> bin_index t (fst r) = i}"
      by (auto simp: v)
  qed (use B in \<open>simp add: bins_ok_def\<close>)
  moreover have "dls (lrl (mem t')) None (lru_start t) xs (lru_end t) None"
    using assms(11) by (subst dls_cong [of _ _ "lrl (mem t)"]) (auto simp: v lru_inv_def)
  moreover have "entry_size t' a = entry_size t a" if "a \<in> set xs" for a
    using v(3) [OF that] assms(9) by (simp add: entry_size_def split: option.split)
  moreover have "same_key t' a b = same_key t a b" if "a \<in> set xs" "b \<in> set xs" for a b
    using v(3) that assms(10) by (simp add: same_key_def)
  ultimately show ?thesis
    using assms(2-11) by (auto simp: lru_inv_def mask_ok_def)
qed

text \<open>Reordering the LRU list keeps the invariant.\<close>

lemma lru_inv_reorder:
  assumes "lru_inv t xs" "ovl m' = ovl (mem t)" "row m' = row (mem t)"
    "dls (lrl m') None st xs' en None" "set xs' = set xs" "distinct xs'"
  shows "lru_inv (t\<lparr>mem := m', lru_start := st, lru_end := en\<rparr>) xs'"
proof -
  let ?t = "t\<lparr>mem := m', lru_start := st, lru_end := en\<rparr>"
  have "bins_ok ?t B (set xs') = bins_ok t B (set xs)" for B
    using assms(2,3,5) by (simp add: bins_ok_def)
  moreover have "entry_size ?t = entry_size t" "same_key ?t = same_key t"
    using assms(3) by (simp_all add: entry_size_def same_key_def fun_eq_iff split: option.split)
  moreover have "length xs' = length xs"
    using assms(1,5,6) distinct_card [of xs] distinct_card [of xs'] by (simp add: lru_inv_def)
  ultimately show ?thesis
    using assms by (simp add: lru_inv_def mask_ok_def)
qed

lemma lru_touch_ok:
  assumes "dls (lrl (mem t)) None (lru_start t) (ys @ a # zs) (lru_end t) None" "distinct (ys @ a # zs)"
  shows "\<exists>m' st en. lru_touch a t = Some (t\<lparr>mem := m', lru_start := st, lru_end := en\<rparr>) \<and>
    ovl m' = ovl (mem t) \<and> row m' = row (mem t) \<and> dls (lrl m') None st (a # ys @ zs) en None"
proof (cases "Some a = lru_start t")
  case True
  have "ys = []"
  proof (cases ys)
    case (Cons b bs)
    with assms have "lru_start t = Some b" "b \<noteq> a" by auto
    with True show ?thesis by simp
  qed
  with True assms show ?thesis
    by (intro exI [of _ "mem t"] exI [of _ "lru_start t"] exI [of _ "lru_end t"])
      (simp add: lru_touch_def)
next
  case False
  from lru_remove_ok [OF assms] obtain m1 st en where
    1: "lru_remove a t = Some (t\<lparr>mem := m1, lru_start := st, lru_end := en\<rparr>)"
    "ovl m1 = ovl (mem t)" "row m1 = row (mem t)" "dls (lrl m1) None st (ys @ zs) en None"
    by blast
  let ?t = "t\<lparr>mem := m1, lru_start := st, lru_end := en\<rparr>"
  have "row (mem t) a \<noteq> None"
    using dls_dom [OF assms(1), of a] by (auto simp: lrl_def row_def)
  moreover have "row m1 a = row (mem t) a" using 1(3) by simp
  ultimately obtain e where e: "mem ?t a = Some e" by (auto simp: row_def)
  from lru_front_ok [OF e, of "ys @ zs"] 1(4) assms(2) obtain m2 en2 where
    2: "lru_front a ?t = Some (?t\<lparr>mem := m2, lru_start := Some a, lru_end := en2\<rparr>)"
    "ovl m2 = ovl m1" "row m2 = row m1" "dls (lrl m2) None (Some a) (a # ys @ zs) en2 None"
    by auto
  have "lru_touch a t = Some (t\<lparr>mem := m2, lru_start := Some a, lru_end := en2\<rparr>)"
    using False 1(1) 2(1) by (simp add: lru_touch_def)
  with 1(2,3) 2(2-4) show ?thesis
    by (intro exI [of _ m2] exI [of _ "Some a"] exI [of _ en2]) simp
qed

section \<open>Finding\<close>

lemma find_SomeD: "find P xs = Some a \<Longrightarrow> a \<in> set xs \<and> P a"
  by (auto simp: find_Some_iff)

lemma find_unique:
  assumes "a \<in> set xs" "P a" "\<And>b. b \<in> set xs \<Longrightarrow> P b \<Longrightarrow> b = a"
  shows "find P xs = Some a"
proof (cases "find P xs")
  case None
  with assms(1,2) show ?thesis by (auto simp: find_None_iff)
next
  case (Some b)
  with find_SomeD [OF Some] assms(3) show ?thesis by blast
qed

lemma find_map_option: "find P (map f xs) = map_option f (find (\<lambda>x. P (f x)) xs)"
  by (induction xs) auto

definition matching :: "('k, 'd) lruhash \<Rightarrow> u32 \<Rightarrow> 'k \<Rightarrow> addr \<Rightarrow> bool" where
  "matching t h k a \<longleftrightarrow> matches (compfunc t) h k (the (row (mem t) a))"

lemma matching_unique:
  assumes "lru_inv t xs" "a \<in> set xs" "b \<in> set xs" "matching t h k a" "matching t h k b"
  shows "b = a"
proof -
  from lru_inv_row [OF assms(1,2)] lru_inv_row [OF assms(1,3)] obtain ra rb where
    "row (mem t) a = Some ra" "row (mem t) b = Some rb" by blast
  moreover have "hash_callbacks (compfunc t) (sizefunc t)" using assms(1) by (simp add: lru_inv_def)
  ultimately have "same_key t a b"
    using assms(4,5) hash_callbacks.matches_same [of "compfunc t" "sizefunc t" h k ra rb]
    by (simp add: same_key_def matching_def)
  with assms(1-3) show ?thesis by (auto simp: lru_inv_def)
qed

lemma bin_find_ok:
  assumes "lru_inv t xs"
  shows "\<exists>c. bin_find_entry t (bin_index t h) h k = Some (find (matching t h k) xs, c)"
proof -
  let ?i = "bin_index t h"
  let ?P = "\<lambda>a. \<exists>r. row (mem t) a = Some r \<and> matches (compfunc t) h k r"
  from assms obtain B where B: "bins_ok t B (set xs)" "mask_ok t" by (auto simp: lru_inv_def)
  note i = bin_index_less [OF B(2), of h]
  from B(1) i have b: "chain (ovl (mem t)) (tab_array t ! ?i) (B ?i)" "?i < length (tab_array t)"
    "set (B ?i) = {a \<in> set xs. \<exists>r. row (mem t) a = Some r \<and> bin_index t (fst r) = ?i}"
    by (auto simp: bins_ok_def)
  have P: "?P a \<longleftrightarrow> matching t h k a" if "a \<in> set xs" for a
    using lru_inv_row [OF assms that] by (auto simp: matching_def)
  have "find ?P (B ?i) = find (matching t h k) xs"
  proof (cases "find ?P (B ?i)")
    case None
    have "\<not> matching t h k a" if "a \<in> set xs" for a
    proof
      assume m: "matching t h k a"
      with lru_inv_row [OF assms that] obtain r where "row (mem t) a = Some r" "fst r = h"
        by (auto simp: matching_def matches_def)
      with b(3) that have "a \<in> set (B ?i)" by (cases r) auto
      with None P [OF that] m show False by (auto simp: find_None_iff)
    qed
    then have "find (matching t h k) xs = None" by (simp add: find_None_iff)
    with None show ?thesis by simp
  next
    case (Some a)
    then have "a \<in> set xs" "?P a" using find_SomeD [OF Some] b(3) by auto
    then have "find (matching t h k) xs = Some a"
      using P matching_unique [OF assms] by (intro find_unique) blast+
    with Some show ?thesis by simp
  qed
  with bin_find_entry_loop_chain [OF b(1), of h k 0] b(2) show ?thesis
    by (auto simp: bin_find_entry_def bin_head_def)
qed

section \<open>Looking up\<close>

lemma split_remove1:
  assumes "a \<in> set xs" "distinct xs"
  obtains ys zs where "xs = ys @ a # zs" "remove1 a xs = ys @ zs"
proof -
  from assms(1) obtain ys zs where "xs = ys @ a # zs" by (meson split_list)
  with assms(2) that show ?thesis by (simp add: remove1_append)
qed

lemma lru_touch_inv:
  assumes "lru_inv t xs" "a \<in> set xs"
  shows "\<exists>m' st en. lru_touch a t = Some (t\<lparr>mem := m', lru_start := st, lru_end := en\<rparr>) \<and>
    ovl m' = ovl (mem t) \<and> row m' = row (mem t) \<and>
    lru_inv (t\<lparr>mem := m', lru_start := st, lru_end := en\<rparr>) (a # remove1 a xs)"
proof -
  have d: "distinct xs" using assms(1) by (simp add: lru_inv_def)
  from split_remove1 [OF assms(2) d] obtain ys zs where xs: "xs = ys @ a # zs" "remove1 a xs = ys @ zs" .
  from lru_touch_ok [of t ys a zs] assms(1) [unfolded lru_inv_def] d xs(1) obtain m' st en where
    m': "lru_touch a t = Some (t\<lparr>mem := m', lru_start := st, lru_end := en\<rparr>)"
    "ovl m' = ovl (mem t)" "row m' = row (mem t)" "dls (lrl m') None st (a # ys @ zs) en None" by blast
  moreover have "lru_inv (t\<lparr>mem := m', lru_start := st, lru_end := en\<rparr>) (a # ys @ zs)"
    using d by (intro lru_inv_reorder [OF assms(1) m'(2-4)]) (auto simp: xs(1))
  ultimately show ?thesis using xs(2) by (intro exI [of _ m'] exI [of _ st] exI [of _ en]) simp
qed

lemma lruhash_lookup_ok:
  assumes "lru_inv t xs"
  shows "\<exists>m' st en xs'. lruhash_lookup h k t = Some (find (matching t h k) xs,
      t\<lparr>mem := m', lru_start := st, lru_end := en\<rparr>) \<and>
    ovl m' = ovl (mem t) \<and> row m' = row (mem t) \<and>
    lru_inv (t\<lparr>mem := m', lru_start := st, lru_end := en\<rparr>) xs' \<and>
    xs' = (case find (matching t h k) xs of None \<Rightarrow> xs | Some a \<Rightarrow> a # remove1 a xs)"
proof -
  from bin_find_ok [OF assms] obtain c where
    f: "bin_find_entry t (bin_index t h) h k = Some (find (matching t h k) xs, c)" by blast
  show ?thesis
  proof (cases "find (matching t h k) xs")
    case None
    with f assms show ?thesis
      by (intro exI [of _ "mem t"] exI [of _ "lru_start t"] exI [of _ "lru_end t"] exI [of _ xs])
        (simp add: lruhash_lookup_def)
  next
    case (Some a)
    then have "a \<in> set xs" using find_SomeD by fast
    from lru_touch_inv [OF assms this] obtain m' st en where
      "lru_touch a t = Some (t\<lparr>mem := m', lru_start := st, lru_end := en\<rparr>)"
      "ovl m' = ovl (mem t)" "row m' = row (mem t)"
      "lru_inv (t\<lparr>mem := m', lru_start := st, lru_end := en\<rparr>) (a # remove1 a xs)" by blast
    with f Some show ?thesis
      by (intro exI [of _ m'] exI [of _ st] exI [of _ en] exI [of _ "a # remove1 a xs"])
        (simp add: lruhash_lookup_def)
  qed
qed


section \<open>Adding\<close>

lemma same_key_sym:
  "hash_callbacks (compfunc t) (sizefunc t) \<Longrightarrow> same_key t a b \<Longrightarrow> same_key t b a"
  unfolding same_key_def by (blast dest: hash_callbacks.matches_sym)

lemma bins_ok_add:
  assumes "bins_ok t B S" "a \<notin> S" "row (mem t) a = Some r" "i = bin_index t (fst r)" "i < tab_size t"
    "ovl m' = (ovl (mem t))(a := Some (tab_array t ! i))" "row m' = row (mem t)"
    "mem t' = m'" "tab_array t' = (tab_array t)[i := Some a]" "tab_size t' = tab_size t"
    "size_mask t' = size_mask t"
  shows "bins_ok t' (B(i := a # B i)) (insert a S)"
  unfolding bins_ok_def
proof (intro conjI allI impI)
  have idx: "bin_index t' = bin_index t" using assms(11) by (simp add: bin_index_def fun_eq_iff)
  show "length (tab_array t') = tab_size t'" using assms(1,9,10) by (simp add: bins_ok_def)
  fix j assume "j < tab_size t'"
  then have j: "j < tab_size t" using assms(10) by simp
  with assms(1) have b: "chain (ovl (mem t)) (tab_array t ! j) (B j)" "distinct (B j)"
    "set (B j) = {b \<in> S. \<exists>r. row (mem t) b = Some r \<and> bin_index t (fst r) = j}"
    "length (tab_array t) = tab_size t"
    by (auto simp: bins_ok_def)
  then have a: "a \<notin> set (B j)" using assms(2) by auto
  show "chain (ovl (mem t')) (tab_array t' ! j) ((B(i := a # B i)) j)"
    using a b(1,4) j assms(5,6,8,9) by (cases "j = i") simp_all
  show "distinct ((B(i := a # B i)) j)" using a b(2) by (cases "j = i") simp_all
  show "set ((B(i := a # B i)) j) =
      {b \<in> insert a S. \<exists>r. row (mem t') b = Some r \<and> bin_index t' (fst r) = j}"
    using b(3) assms(2,3,4,7,8) idx by (cases r) auto
qed

text \<open>The parts of the table that are not changed after creation.\<close>

definition same_env :: "('k, 'd) lruhash \<Rightarrow> ('k, 'd) lruhash \<Rightarrow> bool" where
  "same_env t t' \<longleftrightarrow> sizefunc t' = sizefunc t \<and> compfunc t' = compfunc t \<and>
     markdelfunc t' = markdelfunc t \<and> cb_arg t' = cb_arg t \<and> space_max t' = space_max t"

lemma add_entry_ok:
  assumes "lru_inv t xs" "a \<notin> set xs" "mem t a = Some e" "i = bin_index t (e_hash e)"
    "\<And>b. b \<in> set xs \<Longrightarrow> \<not> same_key t a b" "sz = sizefunc t (e_key e) (e_data e)"
  shows "\<exists>t'. add_entry i a sz c t = Some t' \<and> lru_inv t' (a # xs) \<and> row (mem t') = row (mem t) \<and>
    same_env t t' \<and> del_log t' = del_log t"
proof -
  from assms(1) obtain B where B: "bins_ok t B (set xs)" "mask_ok t" by (auto simp: lru_inv_def)
  have i: "i < tab_size t" "i < length (tab_array t)"
    using bin_index_less [OF B(2)] assms(4) B(1) by (simp_all add: bins_ok_def)
  let ?p = "tab_array t ! i"
  let ?m = "(mem t)(a \<mapsto> e\<lparr>overflow_next := ?p\<rparr>)"
  let ?t1 = "t\<lparr>mem := ?m, tab_array := (tab_array t)[i := Some a]\<rparr>"
  have m: "ovl ?m = (ovl (mem t))(a := Some ?p)" "lrl ?m = lrl (mem t)" "row ?m = row (mem t)"
    using assms(3) by simp_all
  have "\<exists>m' en. lru_front a ?t1 = Some (?t1\<lparr>mem := m', lru_start := Some a, lru_end := en\<rparr>) \<and>
    ovl m' = ovl (mem ?t1) \<and> row m' = row (mem ?t1) \<and> dls (lrl m') None (Some a) (a # xs) en None"
    using assms(1,2) m(2) by (intro lru_front_ok) (simp_all add: lru_inv_def)
  then obtain m' en where f: "lru_front a ?t1 = Some (?t1\<lparr>mem := m', lru_start := Some a, lru_end := en\<rparr>)"
    "ovl m' = ovl ?m" "row m' = row ?m" "dls (lrl m') None (Some a) (a # xs) en None" by auto
  define t' where "t' = ?t1\<lparr>mem := m', lru_start := Some a, lru_end := en,
    tab_num := tab_num t + 1,
    max_collisions := (if max_collisions t < c then c else max_collisions t),
    space_used := space_used t + sz\<rparr>"
  have run: "add_entry i a sz c t = Some t'"
    using i(2) assms(3) f(1)
    by (simp add: add_entry_def bin_head_def set_bin_head_def upd_entry_Some t'_def)
  have row: "row (mem t') = row (mem t)" using f(3) m(3) by (simp add: t'_def)
  have "row (mem t) a = Some (e_hash e, e_key e, e_data e)" using assms(3) by (simp add: row_def)
  with bins_ok_add [OF B(1) assms(2), of _ i m' t'] i(1) f(2,3) m(1,3) assms(4)
  have bins: "bins_ok t' (B(i := a # B i)) (insert a (set xs))" by (simp add: t'_def)
  have sz: "entry_size t' = entry_size t" "entry_size t a = sz"
    using row assms(3,6) by (simp_all add: entry_size_def fun_eq_iff t'_def row_def split: option.split)
  have key: "same_key t' = same_key t" using row by (simp add: same_key_def fun_eq_iff t'_def)
  have "lru_inv t' (a # xs)"
    unfolding lru_inv_def
  proof (intro conjI)
    show "dls (lrl (mem t')) None (lru_start t') (a # xs) (lru_end t') None"
      using f(4) by (simp add: t'_def)
    show "\<exists>B. bins_ok t' B (set (a # xs))" using bins by auto
    show "space_used t' = (\<Sum>a\<in>set (a # xs). entry_size t' a)"
      using assms(1,2) sz by (simp add: lru_inv_def t'_def add.commute)
    show "\<forall>x\<in>set (a # xs). \<forall>y\<in>set (a # xs). same_key t' x y \<longrightarrow> x = y"
      using assms(1,5) key same_key_sym [of t] by (auto simp: lru_inv_def)
  qed (use assms(1,2) in \<open>simp_all add: lru_inv_def mask_ok_def t'_def\<close>)
  with run row show ?thesis by (auto simp: same_env_def t'_def)
qed


section \<open>Taking entries out\<close>

lemma bins_ok_remove:
  assumes "bins_ok t B S" "a \<in> S" "row (mem t) a = Some r" "i = bin_index t (fst r)" "i < tab_size t"
  shows "\<exists>m' p' B'. bin_overflow_remove i a t = Some (t\<lparr>mem := m', tab_array := (tab_array t)[i := p']\<rparr>) \<and>
    lrl m' = lrl (mem t) \<and> row m' = row (mem t) \<and> (\<forall>b. b \<notin> S - {a} \<longrightarrow> m' b = mem t b) \<and>
    bins_ok (t\<lparr>mem := m', tab_array := (tab_array t)[i := p']\<rparr>) B' (S - {a})"
proof -
  have b: "chain (ovl (mem t)) (tab_array t ! j) (B j)" "distinct (B j)"
    "set (B j) = {b \<in> S. \<exists>r. row (mem t) b = Some r \<and> bin_index t (fst r) = j}"
    if "j < tab_size t" for j
    using assms(1) that by (auto simp: bins_ok_def)
  have len: "length (tab_array t) = tab_size t" using assms(1) by (simp add: bins_ok_def)
  have "a \<in> set (B i)" using b(3) [OF assms(5)] assms(2-4) by (cases r) auto
  with b(2) [OF assms(5)] obtain as bs where as: "B i = as @ a # bs" by (meson split_list)
  have "i < length (tab_array t)" "distinct (as @ a # bs)"
    "chain (ovl (mem t)) (tab_array t ! i) (as @ a # bs)"
    using len assms(5) b(1,2) [OF assms(5)] as by simp_all
  with bin_overflow_remove_ok obtain m' p' where
    m': "bin_overflow_remove i a t = Some (t\<lparr>mem := m', tab_array := (tab_array t)[i := p']\<rparr>)"
    "lrl m' = lrl (mem t)" "row m' = row (mem t)" "\<And>b. b \<notin> set as \<Longrightarrow> m' b = mem t b"
    "chain (ovl m') p' (as @ bs)" by blast
  let ?t = "t\<lparr>mem := m', tab_array := (tab_array t)[i := p']\<rparr>"
  have sub: "set as \<subseteq> S - {a}"
    using b(3) [OF assms(5)] b(2) [OF assms(5)] as by auto
  have ov: "ovl m' b = ovl (mem t) b" if "b \<notin> set as" for b
    using m'(4) [OF that] by (simp add: ovl_def)
  have "bins_ok ?t (B(i := as @ bs)) (S - {a})"
    unfolding bins_ok_def
  proof (intro conjI allI impI)
    show "length (tab_array ?t) = tab_size ?t" using len by simp
    fix j assume "j < tab_size ?t"
    then have j: "j < tab_size t" by simp
    show "chain (ovl (mem ?t)) (tab_array ?t ! j) ((B(i := as @ bs)) j)"
    proof (cases "j = i")
      case True
      with m'(5) len assms(5) show ?thesis by simp
    next
      case False
      have "set (B j) \<inter> set (B i) = {}"
        unfolding b(3) [OF j] b(3) [OF assms(5)] using False by auto
      then have "b \<notin> set as" if "b \<in> set (B j)" for b using that as by auto
      then have "chain (ovl m') (tab_array t ! j) (B j)"
        using b(1) [OF j] by (subst chain_cong [of _ _ "ovl (mem t)"]) (auto simp: ov)
      with False show ?thesis by simp
    qed
    show "distinct ((B(i := as @ bs)) j)"
      using b(2) [OF j] as by (cases "j = i") simp_all
    have "set ((B(i := as @ bs)) j) = set (B j) - {a}"
    proof (cases "j = i")
      case True
      with as b(2) [OF j] show ?thesis by auto
    next
      case False
      then have "a \<notin> set (B j)" using b(3) [OF j] assms(3,4) by (cases r) auto
      with False show ?thesis by simp
    qed
    then show "set ((B(i := as @ bs)) j) =
        {b \<in> S - {a}. \<exists>r. row (mem ?t) b = Some r \<and> bin_index ?t (fst r) = j}"
      using b(3) [OF j] m'(3) by auto
  qed
  moreover have "m' b = mem t b" if "b \<notin> S - {a}" for b
    using m'(4) [of b] sub that by blast
  ultimately show ?thesis using m'(1-3) by blast
qed

lemma lru_inv_drop:
  assumes "lru_inv t (ys @ a # zs)" "row (mem t') = row (mem t)"
    "dls (lrl (mem t')) None (lru_start t') (ys @ zs) (lru_end t') None"
    "bins_ok t' B' (set (ys @ a # zs) - {a})" "tab_num t' = tab_num t - 1"
    "space_used t' = space_used t - entry_size t a" "same_env t t'"
    "tab_size t' = tab_size t" "size_mask t' = size_mask t"
  shows "lru_inv t' (ys @ zs)"
proof -
  have d: "a \<notin> set (ys @ zs)" "distinct (ys @ zs)" using assms(1) by (auto simp: lru_inv_def)
  then have S: "set (ys @ a # zs) - {a} = set (ys @ zs)" by auto
  have sz: "entry_size t' = entry_size t"
    using assms(2,7) by (simp add: entry_size_def same_env_def fun_eq_iff split: option.split)
  have key: "same_key t' = same_key t"
    using assms(2,7) by (intro ext) (simp add: same_key_def same_env_def)
  have "(\<Sum>b\<in>set (ys @ a # zs). entry_size t b) = entry_size t a + (\<Sum>b\<in>set (ys @ zs). entry_size t b)"
    using d(1) by simp
  with assms(1,6) have sp: "space_used t' = (\<Sum>b\<in>set (ys @ zs). entry_size t b)"
    by (simp add: lru_inv_def)
  show ?thesis
    unfolding lru_inv_def
  proof (intro conjI)
    show "\<exists>B. bins_ok t' B (set (ys @ zs))" using assms(4) S by auto
    show "space_used t' = (\<Sum>a\<in>set (ys @ zs). entry_size t' a)" using sp sz by simp
    show "\<forall>x\<in>set (ys @ zs). \<forall>y\<in>set (ys @ zs). same_key t' x y \<longrightarrow> x = y"
      using assms(1) key by (auto simp: lru_inv_def)
  qed (use assms d in \<open>simp_all add: lru_inv_def same_env_def mask_ok_def\<close>)
qed

end
