(* ===== verification/Lruhash_Room.thy ===== *)
theory Lruhash_Room
  imports Lruhash_Inv
begin

text \<open>
  Eviction, growth of the bin array and deletion of what was taken out.
\<close>

section \<open>Making room\<close>

text \<open>The specification of eviction: drop from the end until the total size fits or one is left.\<close>

function spec_evict :: "('a \<Rightarrow> u64) \<Rightarrow> u64 \<Rightarrow> 'a list \<Rightarrow> 'a list" where
  "spec_evict sz mx rs =
     (if length rs > 1 \<and> (\<Sum>r\<leftarrow>rs. sz r) > mx then spec_evict sz mx (butlast rs) else rs)"
  by pat_completeness auto
termination by (relation "measure (\<lambda>(sz, mx, rs). length rs)") auto

declare spec_evict.simps [simp del]

lemma spec_evict_map: "spec_evict sz mx (map f xs) = map f (spec_evict (\<lambda>x. sz (f x)) mx xs)"
proof (induction xs rule: length_induct)
  case (1 xs)
  show ?case
  proof (cases "length xs > 1 \<and> (\<Sum>x\<leftarrow>xs. sz (f x)) > mx")
    case True
    then have "spec_evict sz mx (map f (butlast xs)) = map f (spec_evict (\<lambda>x. sz (f x)) mx (butlast xs))"
      using 1 [rule_format, of "butlast xs"] True by auto
    with True show ?thesis
      by (simp add: spec_evict.simps [of _ _ "map f xs"] spec_evict.simps [of _ _ xs] comp_def map_butlast)
  next
    case False
    then show ?thesis
      by (auto simp: spec_evict.simps [of _ _ "map f xs"] spec_evict.simps [of _ _ xs] comp_def)
  qed
qed

lemma spec_evict_prefix: "\<exists>ds. xs = spec_evict sz mx xs @ ds \<and> (xs \<noteq> [] \<longrightarrow> spec_evict sz mx xs \<noteq> [])"
proof (induction xs rule: length_induct)
  case (1 xs)
  show ?case
  proof (cases "length xs > 1 \<and> (\<Sum>x\<leftarrow>xs. sz x) > mx")
    case True
    then have "xs \<noteq> []" "butlast xs \<noteq> []" by (auto simp: Suc_lessD butlast_conv_take) 
    with 1 obtain ds where "butlast xs = spec_evict sz mx (butlast xs) @ ds"
      "spec_evict sz mx (butlast xs) \<noteq> []" by (metis append_butlast_last_id length_append_singleton lessI)
    with True \<open>xs \<noteq> []\<close> show ?thesis
      by (simp add: spec_evict.simps [of _ _ xs]) (metis append_assoc append_butlast_last_id)
  next
    case False
    then show ?thesis by (auto simp: spec_evict.simps [of _ _ xs])
  qed
qed

lemma row_dom: "row m' = row m \<Longrightarrow> m a = Some e \<Longrightarrow> \<exists>e'. m' a = Some e' \<and> e_hash e' = e_hash e \<and>
    e_key e' = e_key e \<and> e_data e' = e_data e"
  by (auto simp: row_def dest: fun_cong [of _ _ a])

lemma call_markdelfunc_simps [simp]:
  "mem (call_markdelfunc k t) = mem t" "lru_start (call_markdelfunc k t) = lru_start t"
  "lru_end (call_markdelfunc k t) = lru_end t" "tab_array (call_markdelfunc k t) = tab_array t"
  "tab_size (call_markdelfunc k t) = tab_size t" "size_mask (call_markdelfunc k t) = size_mask t"
  "tab_num (call_markdelfunc k t) = tab_num t" "space_used (call_markdelfunc k t) = space_used t"
  "sizefunc (call_markdelfunc k t) = sizefunc t" "compfunc (call_markdelfunc k t) = compfunc t"
  "markdelfunc (call_markdelfunc k t) = markdelfunc t" "cb_arg (call_markdelfunc k t) = cb_arg t"
  "space_max (call_markdelfunc k t) = space_max t"
  by (simp_all add: call_markdelfunc_def)

lemma bins_ok_cong:
  fixes t t' :: "('k, 'd) lruhash"
  assumes "bins_ok t B S" "\<And>a. a \<in> S \<Longrightarrow> ovl (mem t') a = ovl (mem t) a"
    "\<And>a. a \<in> S \<Longrightarrow> map_option fst (row (mem t') a) = map_option fst (row (mem t) a)"
    "tab_array t' = tab_array t" "tab_size t' = tab_size t" "size_mask t' = size_mask t"
  shows "bins_ok t' B S"
  unfolding bins_ok_def
proof (intro conjI allI impI)
  have idx: "bin_index t' = bin_index t" using assms(6) by (simp add: bin_index_def fun_eq_iff)
  show "length (tab_array t') = tab_size t'" using assms(1,4,5) by (simp add: bins_ok_def)
  fix i assume "i < tab_size t'"
  with assms(1,5) have b: "chain (ovl (mem t)) (tab_array t ! i) (B i)" "distinct (B i)"
    "set (B i) = {a \<in> S. \<exists>r. row (mem t) a = Some r \<and> bin_index t (fst r) = i}"
    by (auto simp: bins_ok_def)
  show "chain (ovl (mem t')) (tab_array t' ! i) (B i)"
    using b(1,3) assms(2,4) by (subst chain_cong [of _ _ "ovl (mem t)"]) auto
  show "distinct (B i)" by (rule b(2))
  have ex: "(\<exists>r. v = Some r \<and> bin_index t (fst r) = i) \<longleftrightarrow> map_option (bin_index t) (map_option fst v) = Some i"
    for v :: "(u32 \<times> 'k \<times> 'd) option" by auto
  show "set (B i) = {a \<in> S. \<exists>r. row (mem t') a = Some r \<and> bin_index t' (fst r) = i}"
    unfolding idx b(3) ex by (intro Collect_cong conj_cong refl) (simp only: assms(3))
qed

lemma reclaim_step:
  assumes inv: "lru_inv t (ys @ [b, d])" and lst: "chain (ovl (mem t)) lst ds"
    and dis: "set ds \<inter> set (ys @ [b, d]) = {}" and full: "space_used t > space_max t"
  shows "\<exists>t1. reclaim_space t lst = reclaim_space t1 (Some d) \<and> lru_inv t1 (ys @ [b]) \<and>
    chain (ovl (mem t1)) (Some d) (d # ds) \<and> row (mem t1) = row (mem t) \<and> same_env t t1"
proof -
  have dist: "distinct (ys @ [b, d])" and dl: "dls (lrl (mem t)) None (lru_start t) (ys @ [b, d]) (lru_end t) None"
    and num: "tab_num t > 1" using inv by (simp_all add: lru_inv_def)
  from dl have en: "lru_end t = Some d" and d: "lrl (mem t) d = Some (Some b, None)"
    and seg: "dls (lrl (mem t)) None (lru_start t) (ys @ [b]) (Some b) (Some d)"
    by (auto simp: dls_append)
  from d obtain e where e: "mem t d = Some e" "lru_prev e = Some b" by (rule lrl_SomeE)
  from dls_snoc_next [OF seg, of None] dist obtain pb where
    b: "lrl (mem t) b = Some (pb, Some d)"
    "dls ((lrl (mem t))(b := Some (pb, None))) None (lru_start t) (ys @ [b]) (Some b) None" by auto
  from b(1) obtain eb where eb: "mem t b = Some eb" "lru_prev eb = pb" by (rule lrl_SomeE)
  define m1 where "m1 = (mem t)(b \<mapsto> eb\<lparr>lru_next := None\<rparr>)"
  define t1 where "t1 = t\<lparr>lru_end := Some b, mem := m1, tab_num := tab_num t - 1\<rparr>"
  have m1: "ovl m1 = ovl (mem t)" "row m1 = row (mem t)" "lrl m1 = (lrl (mem t))(b := Some (pb, None))"
    using eb by (simp_all add: m1_def)
  from inv obtain B where B: "bins_ok t B (set (ys @ [b, d]))" "mask_ok t" by (auto simp: lru_inv_def)
  let ?i = "bin_index t (e_hash e)"
  have rd: "row (mem t) d = Some (e_hash e, e_key e, e_data e)" using e(1) by (simp add: row_def)
  have "bins_ok t1 B (set (ys @ [b, d]))"
    using B(1) m1(1,2) by (simp add: bins_ok_def t1_def)
  with bins_ok_remove [of t1 B "set (ys @ [b, d])" d _ ?i] rd m1(2) bin_index_less [OF B(2), of "e_hash e"]
  obtain m2 p' B' where r: "bin_overflow_remove ?i d t1 = Some (t1\<lparr>mem := m2, tab_array := (tab_array t1)[?i := p']\<rparr>)"
    "lrl m2 = lrl m1" "row m2 = row m1" "\<And>b'. b' \<notin> set (ys @ [b, d]) - {d} \<Longrightarrow> m2 b' = m1 b'"
    "bins_ok (t1\<lparr>mem := m2, tab_array := (tab_array t1)[?i := p']\<rparr>) B' (set (ys @ [b, d]) - {d})"
    by (auto simp: t1_def)
  have bd: "b \<noteq> d" using dist by auto
  have m2d: "m2 d = Some e" using r(4) [of d] e(1) bd by (simp add: m1_def)
  define m3 where "m3 = m2(d \<mapsto> e\<lparr>overflow_next := lst\<rparr>)"
  have m3: "ovl m3 = (ovl m2)(d := Some lst)" "row m3 = row m2" "lrl m3 = lrl m2"
    using m2d by (simp_all add: m3_def)
  define t3 where "t3 = t1\<lparr>tab_array := (tab_array t1)[?i := p'], mem := m3,
    space_used := space_used t - sizefunc t (e_key e) (e_data e)\<rparr>"
  define t4 where "t4 = call_markdelfunc (e_key e) t3"
  have "reclaim_space t lst = reclaim_space t4 (Some d)"
    using full num en e eb r(1) m2d
    by (subst reclaim_space.simps)
      (simp add: upd_entry_Some t4_def t3_def t1_def m1_def m3_def)
  moreover have "lru_inv t4 (ys @ [b])"
  proof -
    have "bins_ok t4 B' (set (ys @ [b, d]) - {d})"
      using m3 by (intro bins_ok_cong [OF r(5)]) (auto simp: t4_def t3_def)
    moreover have "entry_size t d = sizefunc t (e_key e) (e_data e)" by (simp add: entry_size_def rd)
    ultimately show ?thesis
      using lru_inv_drop [of t "ys @ [b]" d "[]" t4 B'] inv b(2) m3(2,3) r(2,3) m1(2,3)
      by (simp add: t4_def t3_def t1_def same_env_def)
  qed
  moreover have "chain (ovl (mem t4)) (Some d) (d # ds)"
  proof -
    have "d \<notin> set ds" using dis by auto
    moreover have "ovl m2 a = ovl (mem t) a" if "a \<in> set ds" for a
    proof -
      have "a \<notin> set (ys @ [b, d])" using that dis by auto
      then have "m2 a = mem t a" using r(4) [of a] by (auto simp: m1_def)
      then show ?thesis by (simp add: ovl_def)
    qed
    ultimately have "chain (ovl m3) lst ds"
      using lst m3(1) by (simp) (subst chain_cong [of _ _ "ovl (mem t)"], auto)
    then show ?thesis using m3(1) by (simp add: t4_def t3_def)
  qed
  moreover have "row (mem t4) = row (mem t)" using m1(2) r(3) m3(2) by (simp add: t4_def t3_def)
  moreover have "same_env t t4" by (simp add: same_env_def t4_def t3_def t1_def)
  ultimately show ?thesis by blast
qed


lemma reclaim_stop:
  "\<not> (tab_num t > 1 \<and> space_used t > space_max t) \<Longrightarrow> reclaim_space t lst = Some (t, lst)"
  by (subst reclaim_space.simps) auto

lemma space_used_sum_list:
  "lru_inv t xs \<Longrightarrow> space_used t = (\<Sum>a\<leftarrow>xs. entry_size t a)"
  by (simp add: lru_inv_def sum_list_distinct_conv_sum_set)

lemma reclaim_space_ok:
  assumes "lru_inv t xs" "chain (ovl (mem t)) lst ds" "distinct ds" "set ds \<inter> set xs = {}"
  shows "\<exists>t' lst' ds'. reclaim_space t lst = Some (t', lst') \<and>
    lru_inv t' (spec_evict (entry_size t) (space_max t) xs) \<and> chain (ovl (mem t')) lst' ds' \<and>
    xs @ ds = spec_evict (entry_size t) (space_max t) xs @ ds' \<and>
    row (mem t') = row (mem t) \<and> same_env t t' \<and> (tab_num t' \<le> 1 \<or> space_used t' \<le> space_max t')"
  using assms
proof (induction xs arbitrary: t lst ds rule: length_induct)
  case (1 xs)
  note inv = "1.prems"(1)
  note sum = space_used_sum_list [OF inv]
  have num: "tab_num t = length xs" using inv by (simp add: lru_inv_def)
  show ?case
  proof (cases "length xs > 1 \<and> space_used t > space_max t")
    case False
    then have "spec_evict (entry_size t) (space_max t) xs = xs"
      by (auto simp: spec_evict.simps [of _ _ xs] sum)
    with False num "1.prems" reclaim_stop [of t lst] show ?thesis
      by (intro exI [of _ t] exI [of _ lst] exI [of _ ds]) (auto simp: same_env_def)
  next
    case True
    then obtain ys b d where xs: "xs = ys @ [b, d]"
      by (cases xs rule: rev_cases; simp) (metis append.assoc append_Cons append_Nil length_greater_0_conv rev_exhaust)
    from reclaim_step [of t ys b d lst ds] "1.prems" True xs obtain t1 where
      t1: "reclaim_space t lst = reclaim_space t1 (Some d)" "lru_inv t1 (ys @ [b])"
      "chain (ovl (mem t1)) (Some d) (d # ds)" "row (mem t1) = row (mem t)" "same_env t t1" by blast
    have "distinct (d # ds)" "set (d # ds) \<inter> set (ys @ [b]) = {}"
      using "1.prems" xs by (auto simp: lru_inv_def)
    with "1.IH" [rule_format, of "ys @ [b]" t1 "Some d" "d # ds"] t1(2,3) xs obtain t' lst' ds' where
      t': "reclaim_space t1 (Some d) = Some (t', lst')"
      "lru_inv t' (spec_evict (entry_size t1) (space_max t1) (ys @ [b]))" "chain (ovl (mem t')) lst' ds'"
      "(ys @ [b]) @ d # ds = spec_evict (entry_size t1) (space_max t1) (ys @ [b]) @ ds'"
      "row (mem t') = row (mem t1)" "same_env t1 t'" "tab_num t' \<le> 1 \<or> space_used t' \<le> space_max t'"
      by auto
    have "entry_size t1 = entry_size t" "space_max t1 = space_max t"
      using t1(4,5) by (simp_all add: entry_size_def same_env_def fun_eq_iff split: option.split)
    moreover have "spec_evict (entry_size t) (space_max t) xs = spec_evict (entry_size t) (space_max t) (ys @ [b])"
      using True by (subst spec_evict.simps) (simp add: sum xs butlast_append)
    ultimately show ?thesis
      using t1 t' xs by (intro exI [of _ t'] exI [of _ lst'] exI [of _ ds']) (auto simp: same_env_def)
  qed
qed


section \<open>Growing\<close>

text \<open>The table as it will be after growing, with the bins filled so far.\<close>

definition with_bins :: "u32 \<Rightarrow> addr option list \<Rightarrow> ('k, 'd) lruhash \<Rightarrow> ('k, 'd) lruhash" where
  "with_bins nm newa t = t\<lparr>tab_array := newa, tab_size := length newa, size_mask := nm\<rparr>"

lemma with_bins_simps [simp]:
  "mem (with_bins nm newa t) = mem t" "tab_array (with_bins nm newa t) = newa"
  "tab_size (with_bins nm newa t) = length newa" "size_mask (with_bins nm newa t) = nm"
  "bin_index (with_bins nm newa t) h = unat (h AND nm)"
  by (simp_all add: with_bins_def bin_index_def)

lemma bin_split_loop_ok:
  assumes "chain (ovl (mem t)) p as" "distinct as" "set as \<inter> M = {}"
    "bins_ok (with_bins nm newa t) Bn M" "mask_ok (with_bins nm newa t)"
  shows "\<exists>newa' m' Bn'. bin_split_loop nm p newa t = Some (newa', t\<lparr>mem := m'\<rparr>) \<and>
    length newa' = length newa \<and> bins_ok (with_bins nm newa' (t\<lparr>mem := m'\<rparr>)) Bn' (M \<union> set as) \<and>
    lrl m' = lrl (mem t) \<and> row m' = row (mem t) \<and> (\<forall>b. b \<notin> set as \<longrightarrow> m' b = mem t b)"
  using assms
proof (induction as arbitrary: p newa t Bn M)
  case Nil
  then have "bin_split_loop nm p newa t = Some (newa, t\<lparr>mem := mem t\<rparr>)"
    by (subst bin_split_loop.simps) simp
  with Nil show ?case by (intro exI [of _ newa] exI [of _ "mem t"] exI [of _ Bn]) simp
next
  case (Cons a as)
  then obtain q where q: "p = Some a" "ovl (mem t) a = Some q" "chain (ovl (mem t)) q as" by auto
  from q(2) obtain e where e: "mem t a = Some e" "overflow_next e = q" by (rule ovl_SomeE)
  let ?i = "unat (e_hash e AND nm)"
  have i: "?i < length newa" using bin_index_less [OF Cons.prems(5), of "e_hash e"] by simp
  define m1 where "m1 = (mem t)(a \<mapsto> e\<lparr>overflow_next := newa ! ?i\<rparr>)"
  define t1 where "t1 = t\<lparr>mem := m1\<rparr>"
  define newa1 where "newa1 = newa[?i := Some a]"
  have m1: "ovl m1 = (ovl (mem t))(a := Some (newa ! ?i))" "row m1 = row (mem t)" "lrl m1 = lrl (mem t)"
    using e(1) by (simp_all add: m1_def)
  have bins: "bins_ok (with_bins nm newa1 t1) (Bn(?i := a # Bn ?i)) (insert a M)"
    using bins_ok_add [OF Cons.prems(4), of a "(e_hash e, e_key e, e_data e)" ?i m1
        "with_bins nm newa1 t1"] m1 i Cons.prems(3) e(1)
    by (simp add: row_def t1_def newa1_def)
  have ch: "chain (ovl (mem t1)) q as" using q(3) Cons.prems(2) m1(1) by (simp add: t1_def)
  have mk: "mask_ok (with_bins nm newa1 t1)"
    using Cons.prems(5) by (simp add: mask_ok_def newa1_def)
  have "distinct as" "set as \<inter> insert a M = {}" using Cons.prems(2,3) by auto
  from Cons.IH [OF ch this bins mk] obtain newa' m' Bn' where IH:
    "bin_split_loop nm q newa1 t1 = Some (newa', t1\<lparr>mem := m'\<rparr>)"
    "length newa' = length newa1" "bins_ok (with_bins nm newa' (t1\<lparr>mem := m'\<rparr>)) Bn' (insert a M \<union> set as)"
    "lrl m' = lrl (mem t1)" "row m' = row (mem t1)" "\<And>b. b \<notin> set as \<Longrightarrow> m' b = mem t1 b"
    by blast
  have "bin_split_loop nm p newa t = Some (newa', t\<lparr>mem := m'\<rparr>)"
    using q(1) e i IH(1)
    by (subst bin_split_loop.simps) (simp add: upd_entry_Some Let_def t1_def newa1_def m1_def)
  moreover have "\<forall>b. b \<notin> set (a # as) \<longrightarrow> m' b = mem t b" using IH(6) by (auto simp: t1_def m1_def)
  moreover have "insert a M \<union> set as = M \<union> set (a # as)" by auto
  ultimately show ?case using IH(2-5) m1(2,3)
    by (intro exI [of _ newa'] exI [of _ m'] exI [of _ Bn']) (simp add: t1_def newa1_def)
qed

lemma bin_split_ok:
  assumes "\<And>j. j \<in> set is \<Longrightarrow> j < length (tab_array t) \<and> chain (ovl (mem t)) (tab_array t ! j) (B j) \<and> distinct (B j)"
    "\<And>j. j \<in> set is \<Longrightarrow> set (B j) \<inter> M = {}"
    "\<And>i j. i \<noteq> j \<Longrightarrow> set (B i) \<inter> set (B j) = {}" "distinct is"
    "bins_ok (with_bins nm newa t) Bn M" "mask_ok (with_bins nm newa t)"
  shows "\<exists>newa' m' Bn'. bin_split nm is newa t = Some (newa', t\<lparr>mem := m'\<rparr>) \<and>
    length newa' = length newa \<and>
    bins_ok (with_bins nm newa' (t\<lparr>mem := m'\<rparr>)) Bn' (M \<union> (\<Union>j\<in>set is. set (B j))) \<and>
    lrl m' = lrl (mem t) \<and> row m' = row (mem t) \<and> (\<forall>b. b \<notin> (\<Union>j\<in>set is. set (B j)) \<longrightarrow> m' b = mem t b)"
  using assms
proof (induction "is" arbitrary: newa t Bn M)
  case Nil
  then show ?case by (intro exI [of _ newa] exI [of _ "mem t"] exI [of _ Bn]) simp
next
  case (Cons i "is")
  have i: "i < length (tab_array t)" "chain (ovl (mem t)) (tab_array t ! i) (B i)" "distinct (B i)"
    using Cons.prems(1) [of i] by simp_all
  have "set (B i) \<inter> M = {}" using Cons.prems(2) [of i] by simp
  from bin_split_loop_ok [OF i(2,3) this Cons.prems(5,6)] obtain newa1 m1 Bn1 where
    1: "bin_split_loop nm (tab_array t ! i) newa t = Some (newa1, t\<lparr>mem := m1\<rparr>)"
    "length newa1 = length newa" "bins_ok (with_bins nm newa1 (t\<lparr>mem := m1\<rparr>)) Bn1 (M \<union> set (B i))"
    "lrl m1 = lrl (mem t)" "row m1 = row (mem t)" "\<And>b. b \<notin> set (B i) \<Longrightarrow> m1 b = mem t b" by blast
  let ?t1 = "t\<lparr>mem := m1\<rparr>"
  have pre: "j < length (tab_array ?t1) \<and> chain (ovl (mem ?t1)) (tab_array ?t1 ! j) (B j) \<and> distinct (B j)"
    if "j \<in> set is" for j
  proof -
    have "j \<noteq> i" using that Cons.prems(4) by auto
    then have "ovl m1 b = ovl (mem t) b" if "b \<in> set (B j)" for b
      using 1(6) [of b] Cons.prems(3) [of j i] that by (simp add: ovl_def disjoint_iff)
    with Cons.prems(1) [of j] that show ?thesis
      using chain_cong [of "B j" "ovl m1" "ovl (mem t)"] by simp
  qed
  have dis: "set (B j) \<inter> (M \<union> set (B i)) = {}" if "j \<in> set is" for j
    using Cons.prems(2) [of j] Cons.prems(3) [of j i] Cons.prems(4) that by auto
  have "mask_ok (with_bins nm newa1 ?t1)" using Cons.prems(6) 1(2) by (simp add: mask_ok_def)
  with Cons.IH [of ?t1 "M \<union> set (B i)" newa1 Bn1] pre dis Cons.prems(3,4) 1(3) obtain newa' m' Bn' where
    2: "bin_split nm is newa1 ?t1 = Some (newa', ?t1\<lparr>mem := m'\<rparr>)" "length newa' = length newa1"
    "bins_ok (with_bins nm newa' (?t1\<lparr>mem := m'\<rparr>)) Bn' (M \<union> set (B i) \<union> (\<Union>j\<in>set is. set (B j)))"
    "lrl m' = lrl m1" "row m' = row m1" "\<And>b. b \<notin> (\<Union>j\<in>set is. set (B j)) \<Longrightarrow> m' b = m1 b"
    by auto
  have "bin_split nm (i # is) newa t = Some (newa', t\<lparr>mem := m'\<rparr>)"
    using 1(1) 2(1) i(1) by (simp add: bin_head_def)
  moreover have "M \<union> set (B i) \<union> (\<Union>j\<in>set is. set (B j)) = M \<union> (\<Union>j\<in>set (i # is). set (B j))" by auto
  moreover have "\<forall>b. b \<notin> (\<Union>j\<in>set (i # is). set (B j)) \<longrightarrow> m' b = mem t b" using 1(6) 2(6) by auto
  ultimately show ?case using 1(2,4,5) 2(2-5)
    by (intro exI [of _ newa'] exI [of _ m'] exI [of _ Bn']) (simp add: fun_eq_iff)
qed


lemma bins_ok_Union:
  assumes "bins_ok t B S" "mask_ok t" "\<And>a. a \<in> S \<Longrightarrow> row (mem t) a \<noteq> None"
  shows "(\<Union>j\<in>{0..<tab_size t}. set (B j)) = S"
proof (intro equalityI subsetI)
  fix a assume "a \<in> S"
  with assms(3) obtain r where r: "row (mem t) a = Some r" by blast
  have "bin_index t (fst r) < tab_size t" by (rule bin_index_less [OF assms(2)])
  moreover from this have "a \<in> set (B (bin_index t (fst r)))"
    using assms(1) \<open>a \<in> S\<close> r by (cases r) (auto simp: bins_ok_def)
  ultimately show "a \<in> (\<Union>j\<in>{0..<tab_size t}. set (B j))" by auto
qed (use assms(1) in \<open>auto simp: bins_ok_def\<close>)

lemma table_grow_ok:
  assumes "lru_inv t xs"
  shows "\<exists>t'. table_grow calloc_ok t = Some t' \<and> lru_inv t' xs \<and> row (mem t') = row (mem t) \<and>
    (\<forall>a. a \<notin> set xs \<longrightarrow> mem t' a = mem t a) \<and> same_env t t' \<and> del_log t' = del_log t \<and>
    tab_num t' = tab_num t \<and> space_used t' = space_used t"
proof (cases "size_mask t = - 1 \<or> \<not> calloc_ok")
  case True
  with assms show ?thesis by (auto simp: table_grow_def same_env_def)
next
  case False
  from assms obtain B0 n where B0: "bins_ok t B0 (set xs)" and mk: "mask_ok t"
    and n: "n \<le> 32" "tab_size t = 2 ^ n" "size_mask t = mask n"
    by (auto simp: lru_inv_def mask_ok_def)
  have "mask 32 = (- 1 :: u32)" by (rule bit_word_eqI) (simp add: bit_simps)
  with False n(3) have "n \<noteq> 32" by auto
  with n(1) have n32: "Suc n \<le> 32" by simp
  define nm :: u32 where "nm = push_bit 1 (size_mask t) OR 1"
  have nm: "nm = mask (Suc n)"
    by (simp add: nm_def n(3) mask_Suc_double push_bit_eq_mult or.commute mult.commute)
  define N where "N = replicate (tab_size t * 2) (None :: addr option)"
  define B where "B = (\<lambda>j. if j < tab_size t then B0 j else [])"
  have B: "bins_ok t B (set xs)" using B0 by (simp add: bins_ok_def B_def)
  have len: "length (tab_array t) = tab_size t" using B by (simp add: bins_ok_def)
  have mkN: "mask_ok (with_bins nm N t)"
    using n(2) n32 nm by (auto simp: mask_ok_def N_def intro!: exI [of _ "Suc n"])
  have "bins_ok (with_bins nm N t) (\<lambda>_. []) {}" by (simp add: bins_ok_def N_def)
  moreover have "set (B i) \<inter> set (B j) = {}" if "i \<noteq> j" for i j
  proof -
    have "set (B i) \<subseteq> {a. \<exists>r. row (mem t) a = Some r \<and> bin_index t (fst r) = i}" for i
      using B by (cases "i < tab_size t") (auto simp: bins_ok_def B_def)
    moreover have "{a. \<exists>r. row (mem t) a = Some r \<and> bin_index t (fst r) = i} \<inter>
        {a. \<exists>r. row (mem t) a = Some r \<and> bin_index t (fst r) = j} = {}" using that by auto
    ultimately show ?thesis by blast
  qed
  moreover have "j < length (tab_array t) \<and> chain (ovl (mem t)) (tab_array t ! j) (B j) \<and> distinct (B j)"
    if "j \<in> set [0..<tab_size t]" for j
    using that B len by (simp add: bins_ok_def)
  ultimately obtain newa m' Bn where s:
    "bin_split nm [0..<tab_size t] N t = Some (newa, t\<lparr>mem := m'\<rparr>)" "length newa = length N"
    "bins_ok (with_bins nm newa (t\<lparr>mem := m'\<rparr>)) Bn (\<Union>j\<in>{0..<tab_size t}. set (B j))"
    "lrl m' = lrl (mem t)" "row m' = row (mem t)"
    "\<And>b. b \<notin> (\<Union>j\<in>{0..<tab_size t}. set (B j)) \<Longrightarrow> m' b = mem t b"
    using bin_split_ok [of "[0..<tab_size t]" t B "{}" nm N "\<lambda>_. []"] mkN by auto
  have U: "(\<Union>j\<in>{0..<tab_size t}. set (B j)) = set xs"
    using lru_inv_row [OF assms] by (intro bins_ok_Union [OF B mk]) fastforce
  define t' where "t' = t\<lparr>mem := m', tab_size := tab_size t * 2, size_mask := nm, tab_array := newa\<rparr>"
  have "table_grow calloc_ok t = Some t'"
    using False s(1) by (simp add: table_grow_def Let_def t'_def N_def nm_def)
  moreover have "bins_ok t' Bn (set xs)"
    using s(3) U s(2) by (auto simp: bins_ok_def t'_def N_def with_bins_def bin_index_def)
  moreover have "mask_ok t'" using mkN by (simp add: mask_ok_def t'_def N_def)
  moreover have "entry_size t' = entry_size t"
    using s(5) by (simp add: entry_size_def fun_eq_iff t'_def split: option.split)
  moreover have "same_key t' = same_key t" using s(5) by (intro ext) (simp add: same_key_def t'_def)
  ultimately show ?thesis
    using assms s(4-6) U by (intro exI [of _ t']) (auto simp: lru_inv_def same_env_def t'_def)
qed

text \<open>Deleting the entries that were taken out.\<close>

fun del_events :: "addr option \<Rightarrow> (u32 \<times> 'k \<times> 'd) list \<Rightarrow> ('k, 'd) del_event list" where
  "del_events arg [] = []"
| "del_events arg ((h, k, d) # rs) = DelKey k arg # DelData d arg # del_events arg rs"

lemma restrict_all [simp]: "m |` UNIV = m"
  by (simp add: restrict_map_def)

lemma del_chain_ok:
  assumes "chain (ovl (mem t)) p ds" "distinct ds"
  shows "del_chain p arg t = Some (t\<lparr>mem := mem t |` (- set ds),
      del_log := del_log t @ del_events arg (map (\<lambda>a. the (row (mem t) a)) ds)\<rparr>)"
  using assms
proof (induction ds arbitrary: p t)
  case Nil
  then show ?case by (subst del_chain.simps) simp
next
  case (Cons a ds)
  then obtain q where q: "p = Some a" "ovl (mem t) a = Some q" "chain (ovl (mem t)) q ds" by auto
  from q(2) obtain e where e: "mem t a = Some e" "overflow_next e = q" by (rule ovl_SomeE)
  define t1 where "t1 = t\<lparr>mem := (mem t)(a := None),
    del_log := del_log t @ [DelKey (e_key e) arg, DelData (e_data e) arg]\<rparr>"
  have "chain (ovl (mem t1)) q ds"
    using q(3) Cons.prems(2) by (subst chain_cong [of _ _ "ovl (mem t)"]) (auto simp: t1_def ovl_def)
  from Cons.IH [OF this] Cons.prems(2) have
    m': "del_chain q arg t1 = Some (t1\<lparr>mem := mem t1 |` (- set ds),
      del_log := del_log t1 @ del_events arg (map (\<lambda>a. the (row (mem t1) a)) ds)\<rparr>)" by simp
  have eq: "map (\<lambda>a. the (row (mem t1) a)) ds = map (\<lambda>a. the (row (mem t) a)) ds"
    "mem t1 |` (- set ds) = mem t |` (- set (a # ds))"
    using Cons.prems(2) by (auto simp: t1_def row_def Compl_insert)
  have "del_chain p arg t = del_chain q arg t1"
    using q(1) e
    by (subst del_chain.simps) (simp add: delkeyfunc_def deldatafunc_def t1_def)
  then show ?case
    unfolding m' [unfolded eq] using e(1) by (simp add: t1_def views_Some)
qed

end
