(* ===== verification/Lruhash_Ops.thy ===== *)
theory Lruhash_Ops
  imports Lruhash_Room
begin

text \<open>
  The operations of the hash table against their specification on a list of rows.
\<close>

section \<open>The specification: a list of rows, the most recently used first\<close>

definition row_size :: "('k \<Rightarrow> 'd \<Rightarrow> u64) \<Rightarrow> u32 \<times> 'k \<times> 'd \<Rightarrow> u64" where
  "row_size szf r = szf (fst (snd r)) (snd (snd r))"

definition spec_find :: "('k \<Rightarrow> 'k \<Rightarrow> int) \<Rightarrow> u32 \<Rightarrow> 'k \<Rightarrow> (u32 \<times> 'k \<times> 'd) list \<Rightarrow> 'd option" where
  "spec_find cmp h k rs = map_option (\<lambda>r. snd (snd r)) (find (matches cmp h k) rs)"

definition spec_remove ::
    "('k \<Rightarrow> 'k \<Rightarrow> int) \<Rightarrow> u32 \<Rightarrow> 'k \<Rightarrow> (u32 \<times> 'k \<times> 'd) list \<Rightarrow> (u32 \<times> 'k \<times> 'd) list" where
  "spec_remove cmp h k rs = filter (\<lambda>r. \<not> matches cmp h k r) rs"

definition spec_touch ::
    "('k \<Rightarrow> 'k \<Rightarrow> int) \<Rightarrow> u32 \<Rightarrow> 'k \<Rightarrow> (u32 \<times> 'k \<times> 'd) list \<Rightarrow> (u32 \<times> 'k \<times> 'd) list" where
  "spec_touch cmp h k rs =
     (case find (matches cmp h k) rs of None \<Rightarrow> rs | Some r \<Rightarrow> r # spec_remove cmp h k rs)"

definition spec_put ::
    "('k \<Rightarrow> 'k \<Rightarrow> int) \<Rightarrow> u32 \<Rightarrow> 'k \<Rightarrow> 'd \<Rightarrow> (u32 \<times> 'k \<times> 'd) list \<Rightarrow> (u32 \<times> 'k \<times> 'd) list" where
  "spec_put cmp h k d rs =
     (case find (matches cmp h k) rs of None \<Rightarrow> (h, k, d) # rs
      | Some (h', k', _) \<Rightarrow> (h', k', d) # spec_remove cmp h k rs)"

lemma find_rows:
  "find (matches (compfunc t) h k) (rows t xs) =
    map_option (\<lambda>a. the (row (mem t) a)) (find (matching t h k) xs)"
  unfolding rows_def find_map_option by (simp add: matching_def [abs_def])

lemma rows_remove:
  assumes "lru_inv t xs" "find (matching t h k) xs = Some a"
  shows "spec_remove (compfunc t) h k (rows t xs) = rows t (remove1 a xs)"
proof -
  have d: "distinct xs" using assms(1) by (simp add: lru_inv_def)
  from find_SomeD [OF assms(2)] have a: "a \<in> set xs" "matching t h k a" by auto
  then have "matching t h k b \<longleftrightarrow> b = a" if "b \<in> set xs" for b
    using matching_unique [OF assms(1) a(1) that a(2)] by auto
  then have "filter (\<lambda>b. \<not> matching t h k b) xs = filter ((\<noteq>) a) xs"
    by (intro filter_cong) auto
  also have "\<dots> = remove1 a xs" using d by (simp add: distinct_remove1_removeAll removeAll_filter_not_eq)
  finally show ?thesis
    by (simp add: spec_remove_def rows_def filter_map comp_def matching_def)
qed

lemma rows_absent:
  assumes "find (matching t h k) xs = None"
  shows "spec_remove (compfunc t) h k (rows t xs) = rows t xs"
  using assms by (auto simp: spec_remove_def rows_def find_None_iff matching_def filter_id_conv)

lemma rows_cong: "(\<And>a. a \<in> set xs \<Longrightarrow> row (mem t') a = row (mem t) a) \<Longrightarrow> rows t' xs = rows t xs"
  by (simp add: rows_def)

section \<open>Making room after an insertion\<close>

lemma entry_size_row: "row (mem t) a = Some r \<Longrightarrow> entry_size t a = row_size (sizefunc t) r"
  by (cases r) (simp add: entry_size_def row_size_def)

lemma spec_evict_cong:
  "(\<And>a. a \<in> set xs \<Longrightarrow> sz a = sz' a) \<Longrightarrow> spec_evict sz mx xs = spec_evict sz' mx xs"
proof (induction xs rule: length_induct)
  case (1 xs)
  have "map sz xs = map sz' xs" using "1.prems" by simp
  then have "(\<Sum>r\<leftarrow>xs. sz r) = (\<Sum>r\<leftarrow>xs. sz' r)" by (rule arg_cong)
  moreover have "spec_evict sz mx (butlast xs) = spec_evict sz' mx (butlast xs)" if "xs \<noteq> []"
    using "1.IH" [rule_format, of "butlast xs"] "1.prems" that by (auto dest: in_set_butlastD)
  ultimately show ?case
    using spec_evict.simps [of sz mx xs] spec_evict.simps [of sz' mx xs] by (cases "xs = []") auto
qed

lemma rows_evict:
  assumes "lru_inv t xs"
  shows "spec_evict (row_size (sizefunc t)) mx (rows t xs) = rows t (spec_evict (entry_size t) mx xs)"
proof -
  have "row_size (sizefunc t) (the (row (mem t) a)) = entry_size t a" if "a \<in> set xs" for a
    using lru_inv_row [OF assms that] by (auto simp: entry_size_row)
  then show ?thesis
    unfolding rows_def spec_evict_map by (subst spec_evict_cong [of _ _ "entry_size t"]) auto
qed

lemma dom_row: "dom m = dom (row m)"
  by (auto simp: row_def dom_def)

lemma make_room_ok:
  assumes "lru_inv t xs" "dom (mem t) = set xs"
  shows "\<exists>t' xs'. make_room calloc_ok arg t = Some t' \<and> lru_inv t' xs' \<and> dom (mem t') = set xs' \<and>
    rows t' xs' = spec_evict (row_size (sizefunc t)) (space_max t) (rows t xs) \<and>
    (\<forall>a\<in>set xs'. row (mem t') a = row (mem t) a) \<and> same_env t t' \<and>
    xs' = spec_evict (entry_size t) (space_max t) xs \<and>
    (tab_num t' \<le> 1 \<or> space_used t' \<le> space_max t')"
proof -
  let ?xs = "spec_evict (entry_size t) (space_max t) xs"
  from reclaim_space_ok [OF assms(1), of None "[]"] obtain t1 lst ds where
    1: "reclaim_space t None = Some (t1, lst)" "lru_inv t1 ?xs" "chain (ovl (mem t1)) lst ds"
    "xs = ?xs @ ds" "row (mem t1) = row (mem t)" "same_env t t1"
    "tab_num t1 \<le> 1 \<or> space_used t1 \<le> space_max t1" by auto
  have r: "(if space_used t > space_max t then reclaim_space t None else Some (t, None)) = Some (t1, lst)"
    using 1(1) reclaim_stop [of t None] by auto
  have dist: "distinct ds" "set ds \<inter> set ?xs = {}"
  proof -
    have "distinct (?xs @ ds)" using assms(1) 1(4) by (simp add: lru_inv_def)
    then show "distinct ds" "set ds \<inter> set ?xs = {}" by auto
  qed
  have "\<exists>t2. (if tab_num t1 \<ge> tab_size t1 then table_grow calloc_ok t1 else Some t1) = Some t2 \<and>
      lru_inv t2 ?xs \<and> row (mem t2) = row (mem t1) \<and> (\<forall>a. a \<notin> set ?xs \<longrightarrow> mem t2 a = mem t1 a) \<and>
      same_env t1 t2 \<and> tab_num t2 = tab_num t1 \<and> space_used t2 = space_used t1"
    using table_grow_ok [OF 1(2), of calloc_ok] 1(2) by (auto simp: same_env_def)
  then obtain t2 where 2: "(if tab_num t1 \<ge> tab_size t1 then table_grow calloc_ok t1 else Some t1) = Some t2"
    "lru_inv t2 ?xs" "row (mem t2) = row (mem t1)" "\<And>a. a \<notin> set ?xs \<Longrightarrow> mem t2 a = mem t1 a"
    "same_env t1 t2" "tab_num t2 = tab_num t1" "space_used t2 = space_used t1" by blast
  have "chain (ovl (mem t2)) lst ds"
    using 1(3) dist(2) 2(4)
    by (subst chain_cong [of _ _ "ovl (mem t1)"]) (simp_all add: ovl_def disjoint_iff)
  from del_chain_ok [OF this dist(1), of arg] obtain l where
    3: "del_chain lst arg t2 = Some (t2\<lparr>mem := mem t2 |` (- set ds), del_log := l\<rparr>)" by blast
  define t3 where "t3 = t2\<lparr>mem := mem t2 |` (- set ds), del_log := l\<rparr>"
  have same: "mem t3 a = mem t2 a" if "a \<in> set ?xs" for a
    using that dist(2) by (auto simp: t3_def restrict_map_def)
  have inv: "lru_inv t3 ?xs"
    by (rule lru_inv_cong [OF same _ _ _ _ _ _ _ _ _ 2(2)]) (simp_all add: t3_def)
  have row: "row (mem t3) a = row (mem t) a" if "a \<in> set ?xs" for a
    using same [OF that] 2(3) 1(5) by (simp add: row_def fun_eq_iff)
  have "dom (mem t2) = dom (mem t)" using 2(3) 1(5) by (simp add: dom_row)
  then have "dom (mem t3) = set xs - set ds"
    using assms(2) by (auto simp: t3_def)
  also have "\<dots> = set ?xs"
  proof -
    have "set xs = set ?xs \<union> set ds" using arg_cong [OF 1(4), of set] by simp
    then show ?thesis using dist(2) by auto
  qed
  finally have dom: "dom (mem t3) = set ?xs" .
  have "make_room calloc_ok arg t = Some t3"
    using r 2(1) 3 by (simp add: make_room_def t3_def)
  moreover have "rows t3 ?xs = spec_evict (row_size (sizefunc t)) (space_max t) (rows t xs)"
    using rows_cong [of ?xs t3 t, OF row] rows_evict [OF assms(1)] by simp
  moreover have "same_env t t3" "tab_num t3 \<le> 1 \<or> space_used t3 \<le> space_max t3"
    using 1(6,7) 2(5-7) by (simp_all add: same_env_def t3_def)
  ultimately show ?thesis using inv dom row by blast
qed


section \<open>Inserting\<close>

text \<open>New data for one entry, which becomes the most recently used.\<close>

lemma lru_inv_update:
  assumes inv: "lru_inv t xs" and b: "b \<in> set xs" "row (mem t) b = Some (h, k, d0)"
    and dl: "dls (lrl (mem t')) None (lru_start t') xs' (lru_end t') None"
    and xs': "set xs' = set xs" "distinct xs'"
    and ov: "\<And>c. c \<in> set xs \<Longrightarrow> ovl (mem t') c = ovl (mem t) c"
    and rw: "\<And>c. c \<in> set xs \<Longrightarrow> row (mem t') c = (if c = b then Some (h, k, d) else row (mem t) c)"
    and fr: "tab_array t' = tab_array t" "tab_size t' = tab_size t" "size_mask t' = size_mask t"
      "tab_num t' = tab_num t" "same_env t t'"
    and sp: "space_used t' = space_used t + (sizefunc t k d - sizefunc t k d0)"
  shows "lru_inv t' xs'"
proof -
  from inv obtain B where B: "bins_ok t B (set xs)" by (auto simp: lru_inv_def)
  have "bins_ok t' B (set xs')"
    unfolding xs'(1) using b by (intro bins_ok_cong [OF B]) (simp_all add: ov rw fr)
  moreover have "(\<Sum>a\<in>set xs. entry_size t' a) = space_used t'"
  proof -
    have "(\<Sum>a\<in>set xs. entry_size t' a) = entry_size t' b + (\<Sum>a\<in>set xs - {b}. entry_size t' a)"
      using b(1) by (simp add: sum.remove)
    also have "(\<Sum>a\<in>set xs - {b}. entry_size t' a) = (\<Sum>a\<in>set xs - {b}. entry_size t a)"
      using fr(5) by (intro sum.cong) (auto simp: entry_size_def rw same_env_def split: option.split)
    also have "\<dots> = space_used t - entry_size t b"
      using inv b(1) by (simp add: lru_inv_def sum.remove)
    finally show ?thesis
      using b rw [OF b(1)] fr(5) sp by (simp add: entry_size_def same_env_def)
  qed
  moreover have "same_key t' x y = same_key t x y" if "x \<in> set xs" "y \<in> set xs" for x y
    using that fr(5) b by (auto simp: same_key_def rw same_env_def matches_def split: if_splits)
  moreover have "length xs' = length xs"
    using inv xs' distinct_card [of xs] distinct_card [of xs'] by (simp add: lru_inv_def)
  ultimately show ?thesis
    using inv dl xs' fr by (auto simp: lru_inv_def mask_ok_def same_env_def)
qed

text \<open>The branch of \<open>lruhash_insert\<close> for a key that is present.\<close>

lemma replace_data_ok:
  assumes inv: "lru_inv t xs" and b: "b \<in> set xs" "row (mem t) b = Some (h, k, d0)"
    and a: "a \<notin> set xs" "mem t a = Some e" and sz: "sz = sizefunc t k dat"
  shows "\<exists>t'. replace_data b a dat sz arg t = Some t' \<and> lru_inv t' (b # remove1 b xs) \<and>
    same_env t t' \<and> dom (mem t') = dom (mem t) - {a} \<and>
    (\<forall>c\<in>set xs. row (mem t') c = (if c = b then Some (h, k, dat) else row (mem t) c))"
proof -
  have d: "distinct xs" using inv by (simp add: lru_inv_def)
  from split_remove1 [OF b(1) d] obtain ys zs where xs: "xs = ys @ b # zs" "remove1 b xs = ys @ zs" .
  from b(2) obtain f where f: "mem t b = Some f" "e_hash f = h" "e_key f = k" "e_data f = d0"
    by (auto simp: row_def)
  have ab: "a \<noteq> b" using a(1) b(1) by auto
  define t1 where "t1 = t\<lparr>space_used := space_used t + (sz - sizefunc t k d0), mem := (mem t)(a := None),
    del_log := del_log t @ [DelKey (e_key e) arg]\<rparr>"
  have lr: "dls (lrl (mem t1)) None (lru_start t1) (ys @ b # zs) (lru_end t1) None"
    using inv a(1) xs(1)
    by (subst dls_cong [of _ _ "lrl (mem t)"]) (auto simp: lru_inv_def t1_def lrl_def)
  from lru_touch_ok [OF lr] d xs(1) obtain m2 st en where
    2: "lru_touch b t1 = Some (t1\<lparr>mem := m2, lru_start := st, lru_end := en\<rparr>)"
    "ovl m2 = ovl (mem t1)" "row m2 = row (mem t1)" "dls (lrl m2) None st (b # ys @ zs) en None" by auto
  have "row m2 b = Some (h, k, d0)" using 2(3) b(2) ab by (simp add: t1_def row_def)
  then obtain f2 where f2: "m2 b = Some f2" "e_hash f2 = h" "e_key f2 = k" "e_data f2 = d0"
    by (auto simp: row_def)
  define m3 where "m3 = m2(b \<mapsto> f2\<lparr>e_data := dat\<rparr>)"
  have m3: "ovl m3 = ovl m2" "lrl m3 = lrl m2" "row m3 = (row m2)(b := Some (h, k, dat))"
    using f2 by (simp_all add: m3_def)
  define t3 where "t3 = t1\<lparr>mem := m3, lru_start := st, lru_end := en,
    del_log := del_log t1 @ [DelData d0 arg]\<rparr>"
  have "replace_data b a dat sz arg t = Some t3"
    using f a(2) 2(1) f2
    by (simp add: replace_data_def delkeyfunc_def t1_def [symmetric])
      (simp add: t1_def t3_def deldatafunc_def upd_entry_def m3_def)
  moreover have rw: "row (mem t3) c = (if c = b then Some (h, k, dat) else row (mem t) c)"
    if "c \<in> set xs" for c
    using that a(1) 2(3) m3(3) by (auto simp: t3_def t1_def row_def fun_eq_iff)
  moreover have "lru_inv t3 (b # ys @ zs)"
  proof (rule lru_inv_update [OF inv b])
    show "ovl (mem t3) c = ovl (mem t) c" if "c \<in> set xs" for c
      using that a(1) 2(2) m3(1) by (auto simp: t3_def t1_def ovl_def fun_eq_iff)
  qed (use 2(4) m3(2) d xs(1) rw sz in \<open>auto simp: t3_def t1_def same_env_def\<close>)
  moreover have "dom (mem t3) = dom (mem t) - {a}"
  proof -
    have "dom m3 = dom m2" using f2(1) by (auto simp: m3_def)
    also have "\<dots> = dom (mem t) - {a}" using 2(3) dom_row [of m2] dom_row [of "mem t1"]
      by (auto simp: t1_def)
    finally show ?thesis by (simp add: t3_def)
  qed
  moreover have "same_env t t3" by (simp add: same_env_def t3_def t1_def)
  ultimately show ?thesis using xs(2) by auto
qed


text \<open>Inserting refines putting the row in front and evicting from the end.\<close>

lemma lruhash_insert_ok:
  assumes inv: "lru_inv t xs" and dm: "dom (mem t) = insert a (set xs)" and a: "a \<notin> set xs"
    and e: "mem t a = Some e" "e_hash e = h" "e_data e = d"
  shows "\<exists>t' xs'. lruhash_insert calloc_ok h a d arg t = Some t' \<and> lru_inv t' xs' \<and>
    dom (mem t') = set xs' \<and> same_env t t' \<and>
    rows t' xs' = spec_evict (row_size (sizefunc t)) (space_max t)
      (spec_put (compfunc t) h (e_key e) d (rows t xs)) \<and>
    (tab_num t' \<le> 1 \<or> space_used t' \<le> space_max t')"
proof -
  let ?k = "e_key e" and ?sz = "sizefunc t (e_key e) d" and ?i = "bin_index t h"
  let ?arg = "if arg = None then cb_arg t else arg"
  from bin_find_ok [OF inv, of h ?k] obtain c where
    f: "bin_find_entry t ?i h ?k = Some (find (matching t h ?k) xs, c)" by blast
  have "\<exists>t1 xs1. lruhash_insert calloc_ok h a d arg t = make_room calloc_ok ?arg t1 \<and>
      lru_inv t1 xs1 \<and> dom (mem t1) = set xs1 \<and> same_env t t1 \<and>
      rows t1 xs1 = spec_put (compfunc t) h ?k d (rows t xs)"
  proof (cases "find (matching t h ?k) xs")
    case None
    have ra: "row (mem t) a = Some (h, ?k, d)" using e by (simp add: row_def)
    have "\<not> same_key t a b" if "b \<in> set xs" for b
      using None that ra by (auto simp: find_None_iff matching_def same_key_def)
    with add_entry_ok [OF inv a e(1), of ?i ?sz c] e obtain t1 where
      1: "add_entry ?i a ?sz c t = Some t1" "lru_inv t1 (a # xs)" "row (mem t1) = row (mem t)"
      "same_env t t1" by auto
    have "rows t1 (a # xs) = spec_put (compfunc t) h ?k d (rows t xs)"
      using 1(3) ra None by (simp add: rows_def spec_put_def find_rows [unfolded rows_def])
    moreover have "dom (mem t1) = set (a # xs)" using 1(3) dm dom_row [of "mem t1"] dom_row [of "mem t"] by simp
    moreover have "lruhash_insert calloc_ok h a d arg t = make_room calloc_ok ?arg t1"
      using e(1) f None 1(1) by (simp add: lruhash_insert_def)
    ultimately show ?thesis using 1(2,4) by blast
  next
    case (Some b)
    then have b: "b \<in> set xs" "matching t h ?k b" using find_SomeD by fast+
    from lru_inv_row [OF inv b(1)] obtain hb kb db where rb: "row (mem t) b = Some (hb, kb, db)" by auto
    have cb: "hash_callbacks (compfunc t) (sizefunc t)" using inv by (simp add: lru_inv_def)
    have "compfunc t kb ?k = 0" using b(2) rb by (simp add: matching_def matches_def)
    then have sz: "?sz = sizefunc t kb d" using hash_callbacks.size_eq [OF cb] by metis
    from replace_data_ok [OF inv b(1) rb a e(1) sz, of ?arg] obtain t1 where
      1: "replace_data b a d ?sz ?arg t = Some t1" "lru_inv t1 (b # remove1 b xs)" "same_env t t1"
      "dom (mem t1) = dom (mem t) - {a}"
      "\<forall>c\<in>set xs. row (mem t1) c = (if c = b then Some (hb, kb, d) else row (mem t) c)" by blast
    have dx: "distinct xs" using inv by (simp add: lru_inv_def)
    have "dom (mem t1) = set (b # remove1 b xs)" using 1(4) dm a b(1) dx by auto
    moreover have "rows t1 (b # remove1 b xs) = (hb, kb, d) # rows t (remove1 b xs)"
      using 1(5) b(1) dx by (auto simp: rows_def)
    then have "rows t1 (b # remove1 b xs) = spec_put (compfunc t) h ?k d (rows t xs)"
      using Some rb rows_remove [OF inv Some] by (simp add: spec_put_def find_rows)
    moreover have "lruhash_insert calloc_ok h a d arg t = make_room calloc_ok ?arg t1"
      using e(1) f Some 1(1) by (simp add: lruhash_insert_def)
    ultimately show ?thesis using 1(2,3) by blast
  qed
  then obtain t1 xs1 where 1: "lruhash_insert calloc_ok h a d arg t = make_room calloc_ok ?arg t1"
    "lru_inv t1 xs1" "dom (mem t1) = set xs1" "same_env t t1"
    "rows t1 xs1 = spec_put (compfunc t) h ?k d (rows t xs)" by blast
  from make_room_ok [OF 1(2,3), of calloc_ok ?arg] obtain t' xs' where
    "make_room calloc_ok ?arg t1 = Some t'" "lru_inv t' xs'" "dom (mem t') = set xs'"
    "rows t' xs' = spec_evict (row_size (sizefunc t1)) (space_max t1) (rows t1 xs1)" "same_env t1 t'"
    "tab_num t' \<le> 1 \<or> space_used t' \<le> space_max t'" by blast
  with 1 show ?thesis by (auto simp: same_env_def)
qed


section \<open>Removing\<close>

lemma lruhash_remove_ok:
  assumes inv: "lru_inv t xs" and dm: "dom (mem t) = set xs"
  shows "\<exists>t' xs'. lruhash_remove h k t = Some t' \<and> lru_inv t' xs' \<and> dom (mem t') = set xs' \<and>
    same_env t t' \<and> rows t' xs' = spec_remove (compfunc t) h k (rows t xs)"
proof -
  let ?i = "bin_index t h"
  from bin_find_ok [OF inv, of h k] obtain c where
    f: "bin_find_entry t ?i h k = Some (find (matching t h k) xs, c)" by blast
  show ?thesis
  proof (cases "find (matching t h k) xs")
    case None
    with f assms show ?thesis
      by (intro exI [of _ t] exI [of _ xs]) (simp add: lruhash_remove_def same_env_def rows_absent)
  next
    case (Some a)
    then have a: "a \<in> set xs" "matching t h k a" using find_SomeD by fast+
    have dx: "distinct xs" using inv by (simp add: lru_inv_def)
    from split_remove1 [OF a(1) dx] obtain ys zs where xs: "xs = ys @ a # zs" "remove1 a xs = ys @ zs" .
    from lru_inv_dom [OF inv a(1)] obtain e where e: "mem t a = Some e" by blast
    then have r: "row (mem t) a = Some (e_hash e, e_key e, e_data e)" by (simp add: row_def)
    with a(2) have i: "?i = bin_index t (e_hash e)" by (simp add: matching_def matches_def)
    from inv obtain B where B: "bins_ok t B (set xs)" "mask_ok t" by (auto simp: lru_inv_def)
    from bins_ok_remove [OF B(1) a(1) r, of ?i] i bin_index_less [OF B(2)] obtain m1 p' B' where
      1: "bin_overflow_remove ?i a t = Some (t\<lparr>mem := m1, tab_array := (tab_array t)[?i := p']\<rparr>)"
      "lrl m1 = lrl (mem t)" "row m1 = row (mem t)" "\<And>b. b \<notin> set xs - {a} \<Longrightarrow> m1 b = mem t b"
      "bins_ok (t\<lparr>mem := m1, tab_array := (tab_array t)[?i := p']\<rparr>) B' (set xs - {a})" by auto
    define t1 where "t1 = t\<lparr>mem := m1, tab_array := (tab_array t)[?i := p']\<rparr>"
    have "dls (lrl (mem t1)) None (lru_start t1) (ys @ a # zs) (lru_end t1) None"
      using inv 1(2) xs(1) by (simp add: lru_inv_def t1_def)
    from lru_remove_ok [OF this] dx xs(1) obtain m2 st en where
      2: "lru_remove a t1 = Some (t1\<lparr>mem := m2, lru_start := st, lru_end := en\<rparr>)"
      "ovl m2 = ovl m1" "row m2 = row m1" "dls (lrl m2) None st (ys @ zs) en None"
      by (auto simp: t1_def)
    have "row m2 a = row (mem t) a" using 2(3) 1(3) by simp
    with r obtain e2 where e2: "m2 a = Some e2" "e_key e2 = e_key e" "e_data e2 = e_data e"
      by (auto simp: row_def)
    define t2 where "t2 = t1\<lparr>mem := m2, lru_start := st, lru_end := en, tab_num := tab_num t - 1,
      space_used := space_used t - sizefunc t (e_key e) (e_data e)\<rparr>"
    have "bins_ok t2 B' (set xs - {a})"
      using 2(2,3) by (intro bins_ok_cong [OF 1(5)]) (simp_all add: t2_def t1_def)
    then have inv2: "lru_inv t2 (ys @ zs)"
      using 2(3,4) 1(3) r
      by (intro lru_inv_drop [OF inv [unfolded xs(1)]])
        (simp_all add: t2_def t1_def xs(1) same_env_def entry_size_def)
    define t3 where "t3 = deldatafunc (e_data e) (cb_arg t) (call_markdelfunc (e_key e) t2
      \<lparr>mem := m2(a := None), del_log := del_log (call_markdelfunc (e_key e) t2) @ [DelKey (e_key e) (cb_arg t)]\<rparr>)"
    have "lruhash_remove h k t = Some t3"
      using f Some 1(1) 2(1) e2 by (simp add: lruhash_remove_def t1_def t2_def t3_def delkeyfunc_def Let_def)
    moreover have "lru_inv t3 (ys @ zs)"
      using dx xs(1)
      by (intro lru_inv_cong [OF _ _ _ _ _ _ _ _ _ _ inv2]) (auto simp: t3_def deldatafunc_def t2_def)
    moreover have "dom (mem t3) = set (ys @ zs)"
      using dx xs(1) dm 1(3) 2(3) dom_row [of m2] dom_row [of "mem t"]
      by (auto simp: t3_def deldatafunc_def)
    moreover have "rows t3 (ys @ zs) = rows t (ys @ zs)"
      using dx xs(1) 1(3) 2(3) by (intro rows_cong) (auto simp: t3_def deldatafunc_def row_def fun_eq_iff)
    moreover have "same_env t t3" by (simp add: same_env_def t3_def deldatafunc_def t2_def t1_def)
    ultimately show ?thesis using rows_remove [OF inv Some] xs(2) by metis
  qed
qed


section \<open>Emptying the table\<close>

lemma bins_disjoint:
  assumes "bins_ok t B S" "i \<noteq> j" "i \<ge> tab_size t \<Longrightarrow> B i = []" "j \<ge> tab_size t \<Longrightarrow> B j = []"
  shows "set (B i) \<inter> set (B j) = {}"
proof -
  have "set (B n) \<subseteq> {a. \<exists>r. row (mem t) a = Some r \<and> bin_index t (fst r) = n}"
    if "n \<ge> tab_size t \<Longrightarrow> B n = []" for n
    using assms(1) that by (cases "n < tab_size t") (auto simp: bins_ok_def)
  moreover have "{a. \<exists>r. row (mem t) a = Some r \<and> bin_index t (fst r) = i} \<inter>
      {a. \<exists>r. row (mem t) a = Some r \<and> bin_index t (fst r) = j} = {}" using assms(2) by auto
  ultimately show ?thesis using assms(3,4) by blast
qed

text \<open>A function that empties one bin, for \<open>bin_delete\<close> and \<open>bin_clear\<close> alike.\<close>

definition empties_bin :: "(nat \<Rightarrow> ('k, 'd) lruhash \<Rightarrow> ('k, 'd) lruhash option) \<Rightarrow> bool" where
  "empties_bin f \<longleftrightarrow> (\<forall>i t as. i < length (tab_array t) \<longrightarrow>
     chain (ovl (mem t)) (tab_array t ! i) as \<longrightarrow> distinct as \<longrightarrow>
     (\<exists>l. f i t = Some (t\<lparr>mem := mem t |` (- set as), tab_array := (tab_array t)[i := None],
        del_log := l\<rparr>)))"

lemma for_bins_empty:
  assumes "empties_bin f"
    "\<And>j. j \<in> set is \<Longrightarrow> j < length (tab_array t) \<and> chain (ovl (mem t)) (tab_array t ! j) (B j) \<and> distinct (B j)"
    "\<And>i j. i \<noteq> j \<Longrightarrow> set (B i) \<inter> set (B j) = {}" "distinct is"
  shows "\<exists>ar l. for_bins f is t = Some (t\<lparr>mem := mem t |` (- (\<Union>j\<in>set is. set (B j))),
      tab_array := ar, del_log := l\<rparr>) \<and>
    length ar = length (tab_array t) \<and> (\<forall>j\<in>set is. ar ! j = None) \<and>
    (\<forall>j. j \<notin> set is \<longrightarrow> ar ! j = tab_array t ! j)"
  using assms(2-)
proof (induction "is" arbitrary: t)
  case Nil
  then show ?case by (intro exI [of _ "tab_array t"] exI [of _ "del_log t"]) simp
next
  case (Cons i "is")
  have i: "i < length (tab_array t)" "chain (ovl (mem t)) (tab_array t ! i) (B i)" "distinct (B i)"
    using Cons.prems(1) [of i] by simp_all
  with assms(1) obtain l1 where
    1: "f i t = Some (t\<lparr>mem := mem t |` (- set (B i)), tab_array := (tab_array t)[i := None], del_log := l1\<rparr>)"
    unfolding empties_bin_def by blast
  define t1 where "t1 = t\<lparr>mem := mem t |` (- set (B i)), tab_array := (tab_array t)[i := None], del_log := l1\<rparr>"
  have pre: "j < length (tab_array t1) \<and> chain (ovl (mem t1)) (tab_array t1 ! j) (B j) \<and> distinct (B j)"
    if "j \<in> set is" for j
  proof -
    have "j \<noteq> i" using that Cons.prems(3) by auto
    then have "ovl (mem t1) b = ovl (mem t) b" if "b \<in> set (B j)" for b
      using Cons.prems(2) [of j i] that by (auto simp: ovl_def t1_def restrict_map_def disjoint_iff)
    with Cons.prems(1) [of j] that \<open>j \<noteq> i\<close> show ?thesis
      using chain_cong [of "B j" "ovl (mem t1)" "ovl (mem t)"] by (simp add: t1_def)
  qed
  have "distinct is" using Cons.prems(3) by simp
  from Cons.IH [OF pre Cons.prems(2) this] obtain ar l where
    2: "for_bins f is t1 = Some (t1\<lparr>mem := mem t1 |` (- (\<Union>j\<in>set is. set (B j))), tab_array := ar, del_log := l\<rparr>)"
    "length ar = length (tab_array t1)" "\<forall>j\<in>set is. ar ! j = None"
    "\<forall>j. j \<notin> set is \<longrightarrow> ar ! j = tab_array t1 ! j" by blast
  have "mem t1 |` (- (\<Union>j\<in>set is. set (B j))) = mem t |` (- (\<Union>j\<in>set (i # is). set (B j)))"
    by (simp add: t1_def Int_commute)
  then have "for_bins f (i # is) t =
      Some (t\<lparr>mem := mem t |` (- (\<Union>j\<in>set (i # is). set (B j))), tab_array := ar, del_log := l\<rparr>)"
    using 1 2(1) by (simp add: t1_def)
  moreover have "ar ! i = None" using 2(4) Cons.prems(3) i(1) by (simp add: t1_def)
  ultimately show ?case
    using 2(2-4) by (intro exI [of _ ar] exI [of _ l]) (simp add: t1_def)
qed

lemma bin_delete_empties: "empties_bin bin_delete"
  unfolding empties_bin_def
proof (intro allI impI)
  fix i as and t :: "('k, 'd) lruhash"
  assume i: "i < length (tab_array t)" "chain (ovl (mem t)) (tab_array t ! i) as" "distinct as"
  let ?t = "t\<lparr>tab_array := (tab_array t)[i := None]\<rparr>"
  have "chain (ovl (mem ?t)) (tab_array t ! i) as" using i(2) by simp
  from del_chain_ok [OF this i(3), of "cb_arg t"] i(1)
  have "bin_delete i t = Some (?t\<lparr>mem := mem t |` (- set as),
      del_log := del_log t @ del_events (cb_arg t) (map (\<lambda>a. the (row (mem t) a)) as)\<rparr>)"
    by (simp add: bin_delete_def bin_head_def set_bin_head_def)
  then show "\<exists>l. bin_delete i t = Some (t\<lparr>mem := mem t |` (- set as),
      tab_array := (tab_array t)[i := None], del_log := l\<rparr>)"
    by (intro exI [of _ "del_log t @ del_events (cb_arg t) (map (\<lambda>a. the (row (mem t) a)) as)"]) simp
qed

lemma bin_clear_loop_ok:
  assumes "chain (ovl (mem t)) p as" "distinct as"
  shows "\<exists>l. bin_clear_loop p t = Some (t\<lparr>mem := mem t |` (- set as), del_log := l\<rparr>)"
  using assms
proof (induction as arbitrary: p t)
  case Nil
  then show ?case by (intro exI [of _ "del_log t"]) (subst bin_clear_loop.simps, simp)
next
  case (Cons a as)
  then obtain q where q: "p = Some a" "ovl (mem t) a = Some q" "chain (ovl (mem t)) q as" by auto
  from q(2) obtain e where e: "mem t a = Some e" "overflow_next e = q" by (rule ovl_SomeE)
  define l1 where "l1 = del_log (call_markdelfunc (e_key e) t) @
    [DelKey (e_key e) (cb_arg t), DelData (e_data e) (cb_arg t)]"
  define t1 where "t1 = t\<lparr>mem := (mem t)(a := None), del_log := l1\<rparr>"
  have "chain (ovl (mem t1)) q as"
    using q(3) Cons.prems(2) by (subst chain_cong [of _ _ "ovl (mem t)"]) (auto simp: t1_def ovl_def)
  moreover have "distinct as" using Cons.prems(2) by simp
  ultimately obtain l where 1: "bin_clear_loop q t1 = Some (t1\<lparr>mem := mem t1 |` (- set as), del_log := l\<rparr>)"
    using Cons.IH by blast
  have "bin_clear_loop p t = bin_clear_loop q t1"
    using q(1) e
    by (subst bin_clear_loop.simps)
      (simp add: Let_def delkeyfunc_def deldatafunc_def t1_def l1_def call_markdelfunc_def)
  with 1 show ?case by (intro exI [of _ l]) (simp add: t1_def Compl_insert)
qed

lemma bin_clear_empties: "empties_bin bin_clear"
  unfolding empties_bin_def
proof (intro allI impI)
  fix i as and t :: "('k, 'd) lruhash"
  assume i: "i < length (tab_array t)" "chain (ovl (mem t)) (tab_array t ! i) as" "distinct as"
  from bin_clear_loop_ok [OF i(2,3)] obtain l where
    "bin_clear_loop (tab_array t ! i) t = Some (t\<lparr>mem := mem t |` (- set as), del_log := l\<rparr>)" by blast
  with i(1) have "bin_clear i t = Some (t\<lparr>mem := mem t |` (- set as), del_log := l,
      tab_array := (tab_array t)[i := None]\<rparr>)"
    by (simp add: bin_clear_def bin_head_def set_bin_head_def)
  then show "\<exists>l. bin_clear i t = Some (t\<lparr>mem := mem t |` (- set as),
      tab_array := (tab_array t)[i := None], del_log := l\<rparr>)"
    by (intro exI [of _ l]) simp
qed

lemma empty_table:
  assumes inv: "lru_inv t xs" and dm: "dom (mem t) = set xs" and f: "empties_bin f"
  shows "\<exists>l. for_bins f [0..<tab_size t] t =
      Some (t\<lparr>mem := Map.empty, tab_array := replicate (tab_size t) None, del_log := l\<rparr>)"
proof -
  from inv obtain B0 where B0: "bins_ok t B0 (set xs)" and mk: "mask_ok t" by (auto simp: lru_inv_def)
  define B where "B = (\<lambda>j. if j < tab_size t then B0 j else [])"
  have B: "bins_ok t B (set xs)" using B0 by (simp add: bins_ok_def B_def)
  have len: "length (tab_array t) = tab_size t" using B by (simp add: bins_ok_def)
  have dis: "set (B i) \<inter> set (B j) = {}" if "i \<noteq> j" for i j
    using B that by (rule bins_disjoint) (simp_all add: B_def)
  have pre: "j < length (tab_array t) \<and> chain (ovl (mem t)) (tab_array t ! j) (B j) \<and> distinct (B j)"
    if "j \<in> set [0..<tab_size t]" for j
    using that B len by (simp add: bins_ok_def)
  have "(\<Union>j\<in>set [0..<tab_size t]. set (B j)) = set xs"
    using bins_ok_Union [OF B mk] lru_inv_row [OF inv] by fastforce
  then have m: "mem t |` (- (\<Union>j\<in>set [0..<tab_size t]. set (B j))) = Map.empty"
    using dm by (auto simp: restrict_map_def fun_eq_iff)
  have "\<exists>ar l. for_bins f [0..<tab_size t] t =
      Some (t\<lparr>mem := mem t |` (- (\<Union>j\<in>set [0..<tab_size t]. set (B j))), tab_array := ar, del_log := l\<rparr>) \<and>
      length ar = length (tab_array t) \<and> (\<forall>j\<in>set [0..<tab_size t]. ar ! j = None) \<and>
      (\<forall>j. j \<notin> set [0..<tab_size t] \<longrightarrow> ar ! j = tab_array t ! j)"
    using pre dis by (intro for_bins_empty [OF f]) simp_all
  then obtain ar l where
    1: "for_bins f [0..<tab_size t] t = Some (t\<lparr>mem := Map.empty, tab_array := ar, del_log := l\<rparr>)"
    "length ar = length (tab_array t)" "\<forall>j\<in>set [0..<tab_size t]. ar ! j = None" unfolding m by blast
  have "ar = replicate (tab_size t) None"
    using 1(2,3) len by (intro nth_equalityI) simp_all
  with 1(1) show ?thesis by auto
qed

lemma lruhash_clear_ok:
  assumes inv: "lru_inv t xs" and dm: "dom (mem t) = set xs"
  shows "\<exists>t'. lruhash_clear t = Some t' \<and> lru_inv t' [] \<and> mem t' = Map.empty \<and> same_env t t'"
proof -
  from empty_table [OF inv dm bin_clear_empties] obtain l where
    1: "for_bins bin_clear [0..<tab_size t] t =
      Some (t\<lparr>mem := Map.empty, tab_array := replicate (tab_size t) None, del_log := l\<rparr>)" by blast
  define t' where "t' = t\<lparr>mem := Map.empty, tab_array := replicate (tab_size t) None, del_log := l,
    lru_start := None, lru_end := None, tab_num := 0, space_used := 0\<rparr>"
  have "lruhash_clear t = Some t'" using 1 by (simp add: lruhash_clear_def t'_def)
  moreover have "bins_ok t' (\<lambda>_. []) {}" by (simp add: bins_ok_def t'_def)
  then have "lru_inv t' []"
    using inv by (auto simp: lru_inv_def t'_def mask_ok_def)
  ultimately show ?thesis by (auto simp: t'_def same_env_def)
qed

lemma lruhash_delete_ok:
  assumes "lru_inv t xs" "dom (mem t) = set xs"
  shows "\<exists>l. lruhash_delete (Some t) = Some (Some (Map.empty, l))"
  using empty_table [OF assms bin_delete_empties] by (auto simp: lruhash_delete_def)

end
