(* ===== verification/Lruhash_Props.thy ===== *)
theory Lruhash_Props
  imports Lruhash_Ops
begin

text \<open>
  What \<open>util/storage/lruhash.c\<close> promises its callers. The relation \<open>lru_table\<close> says which rows (hash,
  key, data) a table holds, the most recently used first. Creation, insertion, lookup, removal and
  clearing are shown to follow the list operations \<open>spec_put\<close>, \<open>spec_evict\<close>, \<open>spec_touch\<close> and
  \<open>spec_remove\<close>, first one call at a time and then for every sequence of calls.
\<close>

section \<open>Tables and what they hold\<close>

text \<open>The table represents the rows, the most recently used first, and owns exactly their entries.\<close>

definition lru_table :: "('k, 'd) lruhash \<Rightarrow> (u32 \<times> 'k \<times> 'd) list \<Rightarrow> bool" where
  "lru_table t rs \<longleftrightarrow> (\<exists>xs. lru_inv t xs \<and> dom (mem t) = set xs \<and> rs = rows t xs)"

text \<open>The entry that a caller allocates and fills in before it inserts it.\<close>

definition new_entry :: "u32 \<Rightarrow> 'k \<Rightarrow> 'd \<Rightarrow> ('k, 'd) lruhash_entry" where
  "new_entry h k d = \<lparr>overflow_next = None, lru_next = None, lru_prev = None,
     e_hash = h, e_key = k, e_data = d\<rparr>"

definition insert_new ::
    "bool \<Rightarrow> addr \<Rightarrow> u32 \<Rightarrow> 'k \<Rightarrow> 'd \<Rightarrow> addr option \<Rightarrow> ('k, 'd) lruhash \<Rightarrow> ('k, 'd) lruhash option" where
  "insert_new calloc_ok a h k d arg t =
     lruhash_insert calloc_ok h a d arg (t\<lparr>mem := (mem t)(a \<mapsto> new_entry h k d)\<rparr>)"

datatype ('k, 'd) table_op =
  OpInsert bool u32 'k 'd "addr option" | OpLookup u32 'k | OpRemove u32 'k | OpClear

text \<open>One call; \<open>alloc\<close> is the allocator that gives a new entry its address.\<close>

fun table_step ::
    "(('k, 'd) heap \<Rightarrow> addr) \<Rightarrow> ('k, 'd) table_op \<Rightarrow> ('k, 'd) lruhash \<Rightarrow> ('k, 'd) lruhash option" where
  "table_step alloc (OpInsert ok h k d arg) t = insert_new ok (alloc (mem t)) h k d arg t"
| "table_step alloc (OpLookup h k) t = map_option snd (lruhash_lookup h k t)"
| "table_step alloc (OpRemove h k) t = lruhash_remove h k t"
| "table_step alloc OpClear t = lruhash_clear t"

fun run_ops :: "('o \<Rightarrow> 's \<Rightarrow> 's option) \<Rightarrow> 'o list \<Rightarrow> 's \<Rightarrow> 's option" where
  "run_ops step [] s = Some s"
| "run_ops step (op # ops) s = do { s \<leftarrow> step op s; run_ops step ops s }"

fun spec_step ::
    "('k \<Rightarrow> 'k \<Rightarrow> int) \<Rightarrow> ('k \<Rightarrow> 'd \<Rightarrow> u64) \<Rightarrow> u64 \<Rightarrow> ('k, 'd) table_op \<Rightarrow>
     (u32 \<times> 'k \<times> 'd) list \<Rightarrow> (u32 \<times> 'k \<times> 'd) list" where
  "spec_step cmp szf mx (OpInsert ok h k d arg) rs =
     spec_evict (row_size szf) mx (spec_put cmp h k d rs)"
| "spec_step cmp szf mx (OpLookup h k) rs = spec_touch cmp h k rs"
| "spec_step cmp szf mx (OpRemove h k) rs = spec_remove cmp h k rs"
| "spec_step cmp szf mx OpClear rs = []"

definition fresh_alloc :: "(('k, 'd) heap \<Rightarrow> addr) \<Rightarrow> bool" where
  "fresh_alloc alloc \<longleftrightarrow> (\<forall>m. finite (dom m) \<longrightarrow> alloc m \<notin> dom m)"

section \<open>Each operation\<close>

lemma table_create:
  assumes "hash_callbacks cmp szf" "n \<le> 32"
  shows "\<exists>t. lruhash_create (2 ^ n) maxmem szf cmp arg True True = Some t \<and> lru_table t [] \<and>
    compfunc t = cmp \<and> sizefunc t = szf \<and> space_max t = maxmem"
proof -
  define t where "t = \<lparr>sizefunc = szf, compfunc = cmp, markdelfunc = False, cb_arg = arg,
        tab_size = 2 ^ n, size_mask = of_nat (2 ^ n) - 1,
        tab_array = replicate (2 ^ n) None, lru_start = None, lru_end = None,
        tab_num = 0, space_used = 0, space_max = maxmem, max_collisions = 0,
        mem = Map.empty, del_log = []\<rparr>"
  have "bins_ok t (\<lambda>_. []) {}" by (simp add: bins_ok_def t_def)
  moreover have "mask_ok t" using assms(2) by (auto simp: mask_ok_def t_def mask_eq_exp_minus_1)
  ultimately have "lru_inv t []" using assms(1) by (auto simp: lru_inv_def t_def)
  then have "lru_table t []" unfolding lru_table_def
    by (intro exI [of _ "[]"]) (simp add: rows_def t_def)
  then show ?thesis by (simp add: lruhash_create_def t_def)
qed

lemma table_lookup:
  assumes "lru_table t rs"
  shows "\<exists>r t'. lruhash_lookup h k t = Some (r, t') \<and> same_env t t' \<and>
    lru_table t' (spec_touch (compfunc t) h k rs) \<and>
    (case r of None \<Rightarrow> spec_find (compfunc t) h k rs = None
     | Some a \<Rightarrow> \<exists>e. mem t' a = Some e \<and> spec_find (compfunc t) h k rs = Some (e_data e))"
proof -
  from assms obtain xs where xs: "lru_inv t xs" "dom (mem t) = set xs" "rs = rows t xs"
    by (auto simp: lru_table_def)
  from lruhash_lookup_ok [OF xs(1), of h k] obtain m' st en xs' where
    1: "lruhash_lookup h k t = Some (find (matching t h k) xs, t\<lparr>mem := m', lru_start := st, lru_end := en\<rparr>)"
    "row m' = row (mem t)" "lru_inv (t\<lparr>mem := m', lru_start := st, lru_end := en\<rparr>) xs'"
    "xs' = (case find (matching t h k) xs of None \<Rightarrow> xs | Some a \<Rightarrow> a # remove1 a xs)" by blast
  let ?t = "t\<lparr>mem := m', lru_start := st, lru_end := en\<rparr>"
  have dx: "distinct xs" using xs(1) by (simp add: lru_inv_def)
  have "set xs' = set xs" using 1(4) dx by (auto split: option.splits dest: find_SomeD)
  moreover have "dom (mem ?t) = dom (mem t)" using 1(2) dom_row [of m'] dom_row [of "mem t"] by simp
  moreover have "rows ?t xs' = spec_touch (compfunc t) h k rs"
  proof (cases "find (matching t h k) xs")
    case None
    with 1(2,4) xs(3) show ?thesis by (simp add: spec_touch_def find_rows) (simp add: rows_def)
  next
    case (Some a)
    with 1(4) xs(3) rows_remove [OF xs(1) Some] show ?thesis
      using 1(2) by (simp add: spec_touch_def find_rows) (simp add: rows_def)
  qed
  ultimately have "lru_table ?t (spec_touch (compfunc t) h k rs)"
    unfolding lru_table_def using 1(3) xs(2) by (intro exI [of _ xs']) auto
  moreover have "\<exists>e. mem ?t a = Some e \<and> e_data e = snd (snd (the (row (mem t) a)))"
    if "find (matching t h k) xs = Some a" for a
  proof -
    have "a \<in> set xs" using find_SomeD [OF that] by simp
    with lru_inv_row [OF xs(1)] obtain r where "row (mem t) a = Some r" by blast
    moreover from this 1(2) have "row m' a = Some r" by simp
    ultimately show ?thesis by (auto simp: row_def)
  qed
  then have "case find (matching t h k) xs of None \<Rightarrow> spec_find (compfunc t) h k rs = None
     | Some a \<Rightarrow> \<exists>e. mem ?t a = Some e \<and> spec_find (compfunc t) h k rs = Some (e_data e)"
    by (cases "find (matching t h k) xs") (auto simp: spec_find_def xs(3) find_rows)
  ultimately show ?thesis using 1(1) by (auto simp: same_env_def)
qed

lemma table_insert:
  assumes "lru_table t rs" "a \<notin> dom (mem t)"
  shows "\<exists>t'. insert_new ok a h k d arg t = Some t' \<and> same_env t t' \<and>
    lru_table t' (spec_evict (row_size (sizefunc t)) (space_max t) (spec_put (compfunc t) h k d rs)) \<and>
    (tab_num t' \<le> 1 \<or> space_used t' \<le> space_max t')"
proof -
  from assms(1) obtain xs where xs: "lru_inv t xs" "dom (mem t) = set xs" "rs = rows t xs"
    by (auto simp: lru_table_def)
  let ?t = "t\<lparr>mem := (mem t)(a \<mapsto> new_entry h k d)\<rparr>"
  have a: "a \<notin> set xs" using assms(2) xs(2) by simp
  have inv: "lru_inv ?t xs"
    using a by (intro lru_inv_cong [OF _ _ _ _ _ _ _ _ _ _ xs(1)]) auto
  have r: "rows ?t xs = rs" using a by (simp add: xs(3) rows_def)
  have dm: "dom (mem ?t) = insert a (set xs)" using xs(2) by simp
  have e: "mem ?t a = Some (new_entry h k d)" "e_hash (new_entry h k d) = h"
    "e_data (new_entry h k d) = d" "e_key (new_entry h k d) = k"
    by (simp_all add: new_entry_def)
  from lruhash_insert_ok [OF inv dm a e(1-3), of ok arg] obtain t' xs' where
    "lruhash_insert ok h a d arg ?t = Some t'" "lru_inv t' xs'" "dom (mem t') = set xs'" "same_env ?t t'"
    "rows t' xs' = spec_evict (row_size (sizefunc ?t)) (space_max ?t) (spec_put (compfunc ?t) h k d (rows ?t xs))"
    "tab_num t' \<le> 1 \<or> space_used t' \<le> space_max t'" unfolding e(4) by blast
  then show ?thesis
    unfolding insert_new_def lru_table_def
    by (intro exI [of _ t'] conjI exI [of _ xs']) (simp_all add: same_env_def r)
qed

lemma table_remove:
  assumes "lru_table t rs"
  shows "\<exists>t'. lruhash_remove h k t = Some t' \<and> same_env t t' \<and>
    lru_table t' (spec_remove (compfunc t) h k rs)"
proof -
  from assms obtain xs where xs: "lru_inv t xs" "dom (mem t) = set xs" "rs = rows t xs"
    by (auto simp: lru_table_def)
  from lruhash_remove_ok [OF xs(1,2), of h k] obtain t' xs' where
    "lruhash_remove h k t = Some t'" "lru_inv t' xs'" "dom (mem t') = set xs'" "same_env t t'"
    "rows t' xs' = spec_remove (compfunc t) h k rs" unfolding xs(3) by blast
  then show ?thesis
    unfolding lru_table_def by (intro exI [of _ t'] conjI exI [of _ xs']) simp_all
qed

lemma table_clear:
  assumes "lru_table t rs"
  shows "\<exists>t'. lruhash_clear t = Some t' \<and> same_env t t' \<and> lru_table t' []"
proof -
  from assms obtain xs where xs: "lru_inv t xs" "dom (mem t) = set xs" by (auto simp: lru_table_def)
  from lruhash_clear_ok [OF xs] obtain t' where
    "lruhash_clear t = Some t'" "lru_inv t' []" "mem t' = Map.empty" "same_env t t'" by blast
  then show ?thesis
    unfolding lru_table_def by (intro exI [of _ t']) (auto simp: rows_def intro!: exI [of _ "[]"])
qed

lemma table_step_ok:
  assumes "lru_table t rs" "fresh_alloc alloc"
  shows "\<exists>t'. table_step alloc op t = Some t' \<and> same_env t t' \<and>
    lru_table t' (spec_step (compfunc t) (sizefunc t) (space_max t) op rs)"
proof (cases op)
  case (OpInsert ok h k d arg)
  have "finite (dom (mem t))" using assms(1) by (auto simp: lru_table_def)
  then have "alloc (mem t) \<notin> dom (mem t)" using assms(2) by (auto simp: fresh_alloc_def)
  from table_insert [OF assms(1) this, of ok h k d arg] OpInsert show ?thesis by auto
next
  case (OpLookup h k)
  with table_lookup [OF assms(1), of h k] show ?thesis by auto
next
  case (OpRemove h k)
  with table_remove [OF assms(1), of h k] show ?thesis by auto
next
  case OpClear
  with table_clear [OF assms(1)] show ?thesis by auto
qed

lemma table_run_ok:
  assumes "lru_table t rs" "fresh_alloc alloc"
  shows "\<exists>t'. run_ops (table_step alloc) ops t = Some t' \<and> same_env t t' \<and>
    lru_table t' (fold (spec_step (compfunc t) (sizefunc t) (space_max t)) ops rs)"
  using assms(1)
proof (induction ops arbitrary: t rs)
  case Nil
  then show ?case by (simp add: same_env_def)
next
  case (Cons op ops)
  from table_step_ok [OF Cons.prems assms(2), of op] obtain t1 where
    1: "table_step alloc op t = Some t1" "same_env t t1"
    "lru_table t1 (spec_step (compfunc t) (sizefunc t) (space_max t) op rs)" by blast
  from Cons.IH [OF 1(3)] 1(1,2) show ?case by (auto simp: same_env_def)
qed


lemma table_account:
  assumes "lru_table t rs"
  shows "space_used t = (\<Sum>r\<leftarrow>rs. row_size (sizefunc t) r)" "tab_num t = length rs"
proof -
  from assms obtain xs where xs: "lru_inv t xs" "rs = rows t xs" by (auto simp: lru_table_def)
  have "map (entry_size t) xs = map (\<lambda>a. row_size (sizefunc t) (the (row (mem t) a))) xs"
    using lru_inv_row [OF xs(1)] by (auto simp: entry_size_row)
  then show "space_used t = (\<Sum>r\<leftarrow>rs. row_size (sizefunc t) r)"
    using space_used_sum_list [OF xs(1)] unfolding xs(2) rows_def map_map comp_def by argo
  show "tab_num t = length rs" using xs by (simp add: lru_inv_def rows_def)
qed

lemma table_callbacks: "lru_table t rs \<Longrightarrow> hash_callbacks (compfunc t) (sizefunc t)"
  by (auto simp: lru_table_def lru_inv_def)

lemma table_entries: "lru_table t rs \<Longrightarrow> card (dom (mem t)) = length rs"
  by (auto simp: lru_table_def lru_inv_def rows_def distinct_card)

lemma table_lookup_data:
  assumes "lru_table t rs" "spec_find (compfunc t) h k rs = Some d"
  shows "\<exists>t' a e. lruhash_lookup h k t = Some (Some a, t') \<and> mem t' a = Some e \<and> e_data e = d"
proof -
  from table_lookup [OF assms(1), of h k] obtain r t' where
    1: "lruhash_lookup h k t = Some (r, t')" "case r of None \<Rightarrow> spec_find (compfunc t) h k rs = None
     | Some a \<Rightarrow> \<exists>e. mem t' a = Some e \<and> spec_find (compfunc t) h k rs = Some (e_data e)" by blast
  with assms(2) show ?thesis by (cases r) auto
qed

lemma int_cast_negative:
  assumes "2 ^ 31 \<le> (x :: u64)" "x < 2 ^ 32"
  shows "sint (ucast x :: u32) < 0"
proof -
  have "2 ^ 31 \<le> uint x" "uint x < 2 ^ 32"
    using assms by (simp_all add: word_le_def word_less_def)
  then have "uint x div 2 ^ 31 = 1" by simp
  then have "bit (uint x) 31" unfolding bit_iff_odd by simp
  then have "bit x 31" by (simp add: bit_uint_iff)
  then have "bit (ucast x :: u32) 31" by (simp add: bit_ucast_iff)
  then show ?thesis by (simp add: sint_uint bit_uint_iff)
qed

text \<open>What was put is at the front, and eviction keeps the front.\<close>

lemma spec_put_find:
  assumes "hash_callbacks cmp szf"
  shows "spec_find cmp h k (spec_evict sz mx (spec_put cmp h k d rs)) = Some d"
proof -
  obtain h' k' rs' where p: "spec_put cmp h k d rs = (h', k', d) # rs'" "matches cmp h k (h', k', d)"
  proof (cases "find (matches cmp h k) rs")
    case None
    then show ?thesis
      using that hash_callbacks.cmp_refl [OF assms] by (simp add: spec_put_def matches_def)
  next
    case (Some r)
    with find_SomeD [OF Some] that show ?thesis
      by (cases r) (simp add: spec_put_def matches_def)
  qed
  from spec_evict_prefix [of "spec_put cmp h k d rs" sz mx] p(1) obtain rs'' where
    "spec_evict sz mx (spec_put cmp h k d rs) = (h', k', d) # rs''"
    by (cases "spec_evict sz mx (spec_put cmp h k d rs)") auto
  with p(2) show ?thesis by (simp add: spec_find_def)
qed

lemma spec_remove_find: "spec_find cmp h k (spec_remove cmp h k rs) = None"
  by (simp add: spec_find_def spec_remove_def find_None_iff)

section \<open>Properties\<close>

text \<open>A table for the examples: keys are numbers, every entry has size 10, at most 25 fit.\<close>

lemma nat_callbacks: "hash_callbacks (\<lambda>k k'. int k - int k') (\<lambda>k d. 10)"
  by unfold_locales simp_all

definition next_addr :: "('k, 'd) heap \<Rightarrow> addr" where
  "next_addr m = Suc (Max (insert 0 (dom m)))"

lemma next_addr_fresh: "fresh_alloc next_addr"
  unfolding fresh_alloc_def next_addr_def
  by (metis Max_ge Suc_n_not_le_n finite_insert insertCI)

definition sample_ops :: "(nat, nat) table_op list" where
  "sample_ops = [OpInsert True 1 1 11 None, OpInsert True 2 2 22 None, OpLookup 1 1,
     OpInsert True 3 3 33 None]"

lemma sample_rows:
  "fold (spec_step (\<lambda>k k'. int k - int k') (\<lambda>k d. 10) 25) sample_ops [] = [(3, 3, 33), (1, 1, 11)]"
  by (simp add: sample_ops_def spec_put_def spec_touch_def spec_remove_def matches_def row_size_def
      spec_evict.simps)

lemma sample_table:
  "\<exists>t. lru_table t [(3, 3, 33), (1, 1, 11 :: nat)] \<and> compfunc t = (\<lambda>k k'. int k - int k') \<and>
     sizefunc t = (\<lambda>k d. 10) \<and> space_max t = 25 \<and> next_addr (mem t) \<notin> dom (mem t)"
proof -
  from table_create [OF nat_callbacks, of 1 25 None] obtain t where
    t: "lru_table t ([] :: (u32 \<times> nat \<times> nat) list)" "compfunc t = (\<lambda>k k'. int k - int k')"
    "sizefunc t = (\<lambda>k d. 10)" "space_max t = 25" by auto
  from table_run_ok [OF t(1) next_addr_fresh, of sample_ops] obtain t' where
    "same_env t t'" "lru_table t' [(3, 3, 33), (1, 1, 11)]" by (auto simp: t(2-4) sample_rows)
  moreover from this(2) have "finite (dom (mem t'))" by (auto simp: lru_table_def)
  then have "next_addr (mem t') \<notin> dom (mem t')" using next_addr_fresh by (auto simp: fresh_alloc_def)
  ultimately show ?thesis using t(2-4) by (auto simp: same_env_def)
qed

text \<open>
  C7. Refinement: a table that was created with a power of two of bins behaves, under every sequence
  of insertions, lookups, removals and clearings, like a list of rows with the most recently used
  row first, where an insertion replaces or adds the row at the front and then drops rows from the
  end until the sizes fit. No call fails, and the table owns exactly the entries of the rows.
\<close>

theorem lruhash_refines_list:
  assumes "hash_callbacks cmp szf" "n \<le> 32" "fresh_alloc alloc"
  shows "\<exists>t t'. lruhash_create (2 ^ n) maxmem szf cmp arg True True = Some t \<and>
    run_ops (table_step alloc) ops t = Some t' \<and> lru_table t' (fold (spec_step cmp szf maxmem) ops [])"
proof -
  from table_create [OF assms(1,2), of maxmem arg] obtain t where
    "lruhash_create (2 ^ n) maxmem szf cmp arg True True = Some t" "lru_table t []"
    "compfunc t = cmp" "sizefunc t = szf" "space_max t = maxmem" by blast
  with table_run_ok [of t "[]" alloc ops] assms(3) show ?thesis by auto
qed

theorem lruhash_refines_list_witness:
  "\<exists>t t'. lruhash_create (2 ^ 1) 25 (\<lambda>k d. 10) (\<lambda>k k'. int k - int k') None True True = Some t \<and>
    run_ops (table_step next_addr) sample_ops t = Some t' \<and> lru_table t' [(3, 3, 33), (1, 1, 11)]"
  using lruhash_refines_list [OF nat_callbacks _ next_addr_fresh, of 1 25 None sample_ops]
  unfolding sample_rows by simp

text \<open>
  C13. A lookup right after an insertion finds the inserted data, whatever the table evicted or
  whether it grew: the entry inserted last is never the one that makes room.
\<close>

theorem lruhash_insert_then_lookup:
  assumes "lru_table t rs" "a \<notin> dom (mem t)"
  shows "\<exists>t1 t2 b e. insert_new ok a h k d arg t = Some t1 \<and>
    lruhash_lookup h k t1 = Some (Some b, t2) \<and> mem t2 b = Some e \<and> e_data e = d"
proof -
  from table_insert [OF assms, of ok h k d arg] obtain t1 where
    1: "insert_new ok a h k d arg t = Some t1" "same_env t t1"
    "lru_table t1 (spec_evict (row_size (sizefunc t)) (space_max t) (spec_put (compfunc t) h k d rs))"
    by blast
  have c: "compfunc t1 = compfunc t" using 1(2) by (simp add: same_env_def)
  have "spec_find (compfunc t1) h k
      (spec_evict (row_size (sizefunc t)) (space_max t) (spec_put (compfunc t) h k d rs)) = Some d"
    unfolding c by (rule spec_put_find [OF table_callbacks [OF assms(1)]])
  from table_lookup_data [OF 1(3) this] 1(1) show ?thesis by blast
qed

theorem lruhash_insert_then_lookup_witness:
  "\<exists>t t1 t2 b e. lru_table t [(3, 3, 33), (1, 1, 11 :: nat)] \<and>
    insert_new True (next_addr (mem t)) 4 4 44 None t = Some t1 \<and>
    lruhash_lookup 4 (4 :: nat) t1 = Some (Some b, t2) \<and> mem t2 b = Some e \<and> e_data e = 44"
proof -
  from sample_table obtain t where t: "lru_table t [(3, 3, 33), (1, 1 :: nat, 11 :: nat)]"
    "next_addr (mem t) \<notin> dom (mem t)" by blast
  from lruhash_insert_then_lookup [OF t, of True 4 4 44 None] t(1) show ?thesis by blast
qed

text \<open>
  After a removal the key is not found any more, and the entry has been released.
\<close>

lemma lruhash_remove_then_lookup:
  assumes "lru_table t rs"
  shows "\<exists>t1 t2. lruhash_remove h k t = Some t1 \<and> lruhash_lookup h k t1 = Some (None, t2) \<and>
    card (dom (mem t1)) = length (spec_remove (compfunc t) h k rs)"
proof -
  from table_remove [OF assms, of h k] obtain t1 where
    1: "lruhash_remove h k t = Some t1" "same_env t t1"
    "lru_table t1 (spec_remove (compfunc t) h k rs)" by blast
  have c: "compfunc t1 = compfunc t" using 1(2) by (simp add: same_env_def)
  from table_lookup [OF 1(3), of h k] 1(1) table_entries [OF 1(3)] show ?thesis
    by (auto simp: c spec_remove_find split: option.splits)
qed

text \<open>
  C14. The memory bound: after an insertion the recorded space is exactly the sum of the sizes of
  the entries (modulo the width of \<open>size_t\<close>), and it is within the limit unless one entry is left.
\<close>

theorem lruhash_insert_bound:
  assumes "lru_table t rs" "a \<notin> dom (mem t)"
  shows "\<exists>t' rs'. insert_new ok a h k d arg t = Some t' \<and> lru_table t' rs' \<and>
    space_used t' = (\<Sum>r\<leftarrow>rs'. row_size (sizefunc t) r) \<and> tab_num t' = length rs' \<and>
    (length rs' \<le> 1 \<or> space_used t' \<le> space_max t)"
proof -
  from table_insert [OF assms, of ok h k d arg] obtain t' where
    1: "insert_new ok a h k d arg t = Some t'" "same_env t t'"
    "lru_table t' (spec_evict (row_size (sizefunc t)) (space_max t) (spec_put (compfunc t) h k d rs))"
    "tab_num t' \<le> 1 \<or> space_used t' \<le> space_max t'" by blast
  with table_account [OF 1(3)] show ?thesis by (auto simp: same_env_def)
qed

theorem lruhash_insert_bound_witness:
  "\<exists>t t' rs'. lru_table t [(3, 3, 33), (1, 1, 11 :: nat)] \<and>
    insert_new True (next_addr (mem t)) 4 (4 :: nat) 44 None t = Some t' \<and> lru_table t' rs' \<and>
    space_used t' = (\<Sum>r\<leftarrow>rs'. 10) \<and> tab_num t' = length rs' \<and>
    (length rs' \<le> 1 \<or> space_used t' \<le> 25)"
proof -
  from sample_table obtain t where t: "lru_table t [(3, 3, 33), (1, 1 :: nat, 11 :: nat)]"
    "next_addr (mem t) \<notin> dom (mem t)" "space_max t = 25" "sizefunc t = (\<lambda>k d. 10)" by blast
  have "row_size (sizefunc t) = (\<lambda>r. 10)" by (auto simp: row_size_def t(4))
  with lruhash_insert_bound [OF t(1,2), of True 4 4 44 None] obtain t' rs' where
    "insert_new True (next_addr (mem t)) 4 4 44 None t = Some t'" "lru_table t' rs'"
    "space_used t' = (\<Sum>r\<leftarrow>rs'. 10)" "tab_num t' = length rs'"
    "length rs' \<le> 1 \<or> space_used t' \<le> 25" unfolding t(3) by auto
  with t(1) show ?thesis by blast
qed

text \<open>
  C15. Deleting the table releases every entry: no entry is lost and none is released twice.
\<close>

theorem lruhash_delete_releases_all:
  assumes "lru_table t rs"
  shows "\<exists>l. lruhash_delete (Some t) = Some (Some (Map.empty, l))"
  using assms lruhash_delete_ok by (auto simp: lru_table_def)

theorem lruhash_delete_releases_all_witness:
  "\<exists>t l. lru_table t [(3, 3, 33), (1, 1 :: nat, 11 :: nat)] \<and>
    lruhash_delete (Some t) = Some (Some (Map.empty, l))"
  using sample_table lruhash_delete_releases_all by blast

text \<open>
  C34. \<open>lruhash_update_space_used\<close> computes with \<open>int\<close>: once the table holds \<open>2 ^ 31\<close> bytes or more (and
  less than \<open>2 ^ 32\<close>), reporting a change of size zero makes the recorded space zero.
\<close>

theorem lruhash_update_space_used_truncates:
  assumes "2 ^ 31 \<le> space_used t" "space_used t < 2 ^ 32"
  shows "lruhash_update_space_used arg 0 t = Some (t\<lparr>space_used := 0\<rparr>)"
  using int_cast_negative [OF assms]
  by (simp add: lruhash_update_space_used_def del_chain.simps Let_def)

theorem lruhash_update_space_used_truncates_witness:
  "\<exists>t. lru_table t [] \<and> lruhash_update_space_used None 0 (t\<lparr>space_used := 3000000000\<rparr>) =
     Some ((t :: (nat, nat) lruhash)\<lparr>space_used := 0\<rparr>)"
proof -
  from table_create [OF nat_callbacks, of 1 25 None] obtain t where
    "lru_table t ([] :: (u32 \<times> nat \<times> nat) list)" by auto
  moreover have "lruhash_update_space_used None 0 (t\<lparr>space_used := 3000000000\<rparr>) =
      Some (t\<lparr>space_used := 3000000000, space_used := 0\<rparr>)"
    by (rule lruhash_update_space_used_truncates) simp_all
  ultimately show ?thesis by auto
qed

end
