(* ===== verification/Hash_Cache.thy ===== *)
theory Hash_Cache
  imports Lruhash_Props
begin

text \<open>
  What the users of a hash table rely on: it is a cache. Data that was put in may be gone, but data
  that is found is the data that was put in last for the key. The locale states this contract for
  one operation at a time and derives it for sequences of operations; the LRU hash table provides
  it, and so does the partitioned table built from it.
\<close>

section \<open>The contract\<close>

text \<open>What a cache may hold for a key after an operation, when nothing is dropped.\<close>

fun expect_step ::
    "('k \<Rightarrow> 'k \<Rightarrow> int) \<Rightarrow> u32 \<Rightarrow> 'k \<Rightarrow> ('k, 'd) table_op \<Rightarrow> 'd option \<Rightarrow> 'd option" where
  "expect_step cmp h k (OpInsert ok h' k' d arg) acc = (if h' = h \<and> cmp k' k = 0 then Some d else acc)"
| "expect_step cmp h k (OpRemove h' k') acc = (if h' = h \<and> cmp k' k = 0 then None else acc)"
| "expect_step cmp h k (OpLookup h' k') acc = acc"
| "expect_step cmp h k OpClear acc = None"

fun is_insert :: "('k, 'd) table_op \<Rightarrow> bool" where
  "is_insert (OpInsert ok h k d arg) \<longleftrightarrow> True"
| "is_insert _ \<longleftrightarrow> False"

lemma fold_expect_None:
  "fold (expect_step cmp h k) ops None = None \<or>
   fold (expect_step cmp h k) ops None = fold (expect_step cmp h k) ops x"
proof (induction ops rule: rev_induct)
  case (snoc op ops)
  then show ?case by (cases op) auto
qed simp

locale key_cache =
  fixes cmp :: "'k \<Rightarrow> 'k \<Rightarrow> int"
    and inv :: "'s \<Rightarrow> bool"
    and get :: "'s \<Rightarrow> u32 \<Rightarrow> 'k \<Rightarrow> 'd option"
    and step :: "('k, 'd) table_op \<Rightarrow> 's \<Rightarrow> 's option"
  assumes key_refl: "cmp k k = 0"
    and step_law: "inv s \<Longrightarrow> \<exists>s'. step op s = Some s' \<and> inv s' \<and>
      (\<forall>h k. get s' h k = None \<or> get s' h k = expect_step cmp h k op (get s h k))"
    and insert_law: "inv s \<Longrightarrow> step (OpInsert ok h k d arg) s = Some s' \<Longrightarrow> get s' h k = Some d"
    and keep_law: "inv s \<Longrightarrow> step op s = Some s' \<Longrightarrow> \<not> is_insert op \<Longrightarrow>
      get s' h k = expect_step cmp h k op (get s h k)"
begin

lemma run_coherent:
  "inv s \<Longrightarrow> \<exists>s'. run_ops step ops s = Some s' \<and> inv s' \<and>
    (get s' h k = None \<or> get s' h k = fold (expect_step cmp h k) ops (get s h k))"
proof (induction ops arbitrary: s)
  case (Cons op ops)
  from step_law [OF Cons.prems, of op] obtain s1 where
    1: "step op s = Some s1" "inv s1"
    "get s1 h k = None \<or> get s1 h k = expect_step cmp h k op (get s h k)" by blast
  from Cons.IH [OF 1(2)] obtain s' where
    2: "run_ops step ops s1 = Some s'" "inv s'"
    "get s' h k = None \<or> get s' h k = fold (expect_step cmp h k) ops (get s1 h k)" by blast
  with fold_expect_None [of cmp h k ops "expect_step cmp h k op (get s h k)"] 1 show ?case by auto
qed simp

end

section \<open>The LRU hash table\<close>

text \<open>The data that a lookup finds.\<close>

definition lru_get :: "('k, 'd) lruhash \<Rightarrow> u32 \<Rightarrow> 'k \<Rightarrow> 'd option" where
  "lru_get t h k = (case lruhash_lookup h k t of
     Some (Some a, t') \<Rightarrow> map_option e_data (mem t' a) | _ \<Rightarrow> None)"

lemma lru_get_rows: "lru_table t rs \<Longrightarrow> lru_get t h k = spec_find (compfunc t) h k rs"
  using table_lookup [of t rs h k] by (auto simp: lru_get_def split: option.splits)

lemma find_appendD: "find P xs = Some x \<Longrightarrow> find P (xs @ ys) = Some x"
  by (induction xs) (auto split: if_splits)

lemma spec_find_evict:
  "spec_find cmp h k (spec_evict sz mx rs) = None \<or>
   spec_find cmp h k (spec_evict sz mx rs) = spec_find cmp h k rs"
proof -
  from spec_evict_prefix [of rs sz mx] obtain ds where "rs = spec_evict sz mx rs @ ds" by blast
  with find_appendD [of "matches cmp h k" "spec_evict sz mx rs" _ ds] show ?thesis
    by (cases "find (matches cmp h k) (spec_evict sz mx rs)") (auto simp: spec_find_def)
qed

lemma find_filter: "(\<And>x. P x \<Longrightarrow> Q x) \<Longrightarrow> find P (filter Q xs) = find P xs"
  by (induction xs) auto

lemma find_filter_None: "(\<And>x. P x \<Longrightarrow> \<not> Q x) \<Longrightarrow> find P (filter Q xs) = None"
  by (induction xs) auto

locale hash_table = hash_callbacks cmp szf for cmp :: "'k \<Rightarrow> 'k \<Rightarrow> int" and szf :: "'k \<Rightarrow> 'd \<Rightarrow> u64" +
  fixes alloc :: "('k, 'd) heap \<Rightarrow> addr"
  assumes fresh: "fresh_alloc alloc"
begin

text \<open>Rows that match one of two keys match the other, if the keys are equal, and not otherwise.\<close>

lemma matches_other:
  assumes "matches cmp h k r"
  shows "matches cmp h' k' r \<longleftrightarrow> h = h' \<and> cmp k k' = 0"
  using assms cmp_sym [of "fst (snd r)" k] cmp_trans [of k "fst (snd r)" k'] cmp_trans [of "fst (snd r)" k k']
  by (auto simp: matches_def)

lemma spec_find_remove:
  "spec_find cmp h' k' (spec_remove cmp h k rs) =
     (if h = h' \<and> cmp k k' = 0 then None else spec_find cmp h' k' rs)"
proof (cases "h = h' \<and> cmp k k' = 0")
  case True
  have "find (matches cmp h' k') (filter (\<lambda>r. \<not> matches cmp h k r) rs) = None"
    using cmp_sym [of k k'] True by (intro find_filter_None) (auto dest: matches_other [of h' k' _ h k])
  with True show ?thesis by (simp add: spec_find_def spec_remove_def)
next
  case False
  have "find (matches cmp h' k') (filter (\<lambda>r. \<not> matches cmp h k r) rs) = find (matches cmp h' k') rs"
    using cmp_sym [of k' k] False by (intro find_filter) (auto dest: matches_other [of h' k' _ h k])
  with False show ?thesis by (auto simp: spec_find_def spec_remove_def)
qed

lemma matches_self: "matches cmp h k (h, k, d)"
  by (simp add: matches_def cmp_refl)

lemma find_matches_row:
  "find (matches cmp h k) rs = Some r \<Longrightarrow> matches cmp h' k' (fst r, fst (snd r), d) \<longleftrightarrow> h = h' \<and> cmp k k' = 0"
  using matches_other [of h k "(fst r, fst (snd r), d)" h' k'] find_SomeD [of "matches cmp h k" rs r]
  by (simp add: matches_def)

lemma spec_find_put:
  "spec_find cmp h' k' (spec_put cmp h k d rs) =
     (if h = h' \<and> cmp k k' = 0 then Some d else spec_find cmp h' k' rs)"
proof (cases "find (matches cmp h k) rs")
  case None
  then show ?thesis
    using matches_other [OF matches_self, of h' k' h k d] by (simp add: spec_put_def spec_find_def)
next
  case (Some r)
  then show ?thesis
    using find_matches_row [OF Some, of h' k' d] spec_find_remove [of h' k' h k rs]
    by (cases r) (auto simp: spec_put_def spec_find_def)
qed

lemma spec_find_touch:
  fixes rs :: "(u32 \<times> 'k \<times> 'd) list"
  shows "spec_find cmp h' k' (spec_touch cmp h k rs) = spec_find cmp h' k' rs"
proof (cases "find (matches cmp h k) rs")
  case (Some r)
  have "find (matches cmp h' k') rs = Some r" if "h = h' \<and> cmp k k' = 0"
  proof -
    have "matches cmp h' k' r = matches cmp h k r" for r :: "u32 \<times> 'k \<times> 'd"
      using that cmp_trans [of "fst (snd r)" k k'] cmp_trans [of "fst (snd r)" k' k] cmp_sym [of k k']
      by (auto simp: matches_def)
    then have "matches cmp h' k' = (matches cmp h k :: u32 \<times> 'k \<times> 'd \<Rightarrow> bool)" by (rule ext)
    with Some show ?thesis by simp
  qed
  then show ?thesis
    using Some find_matches_row [OF Some, of h' k' "snd (snd r)"] spec_find_remove [of h' k' h k rs]
    by (cases r) (auto simp: spec_touch_def spec_find_def)
qed (simp add: spec_touch_def)

lemma spec_find_Nil [simp]: "spec_find cmp h k [] = None"
  by (simp add: spec_find_def)

lemma spec_find_step:
  "spec_find cmp h k (spec_step cmp szf mx op rs) = None \<or>
   spec_find cmp h k (spec_step cmp szf mx op rs) = expect_step cmp h k op (spec_find cmp h k rs)"
proof (cases op)
  case (OpInsert ok h' k' d arg)
  then show ?thesis
    using spec_find_evict [of cmp h k "row_size szf" mx "spec_put cmp h' k' d rs"]
    by (simp add: spec_find_put)
qed (simp_all add: spec_find_touch spec_find_remove)

lemma spec_find_keep:
  "\<not> is_insert op \<Longrightarrow>
   spec_find cmp h k (spec_step cmp szf mx op rs) = expect_step cmp h k op (spec_find cmp h k rs)"
  by (cases op) (simp_all add: spec_find_touch spec_find_remove)

end

text \<open>The tables with these callbacks.\<close>

definition lru_cache :: "('k \<Rightarrow> 'k \<Rightarrow> int) \<Rightarrow> ('k \<Rightarrow> 'd \<Rightarrow> u64) \<Rightarrow> ('k, 'd) lruhash \<Rightarrow> bool" where
  "lru_cache cmp szf t \<longleftrightarrow> (\<exists>rs. lru_table t rs) \<and> compfunc t = cmp \<and> sizefunc t = szf"

lemma lru_cacheE:
  assumes "lru_cache cmp szf t"
  obtains rs where "lru_table t rs" "compfunc t = cmp" "sizefunc t = szf"
  using assms by (auto simp: lru_cache_def)

sublocale hash_table \<subseteq> lru: key_cache cmp "lru_cache cmp szf" lru_get "table_step alloc"
proof
  fix s op
  assume "lru_cache cmp szf s"
  then obtain rs where rs: "lru_table s rs" "compfunc s = cmp" "sizefunc s = szf" by (rule lru_cacheE)
  from table_step_ok [OF rs(1) fresh, of op] obtain s' where
    s': "table_step alloc op s = Some s'" "same_env s s'"
    "lru_table s' (spec_step cmp szf (space_max s) op rs)" by (auto simp: rs(2,3))
  have c: "compfunc s' = cmp" "sizefunc s' = szf" using s'(2) rs by (simp_all add: same_env_def)
  have g: "lru_get s' h k = spec_find cmp h k (spec_step cmp szf (space_max s) op rs)" for h k
    using lru_get_rows [OF s'(3)] by (simp add: c)
  show "\<exists>s'. table_step alloc op s = Some s' \<and> lru_cache cmp szf s' \<and>
      (\<forall>h k. lru_get s' h k = None \<or> lru_get s' h k = expect_step cmp h k op (lru_get s h k))"
    using s'(1,3) c spec_find_step [of _ _ "space_max s" op rs]
    by (auto simp: lru_cache_def g lru_get_rows [OF rs(1)] rs(2))
  fix s1
  assume "table_step alloc op s = Some s1"
  then have s1: "s1 = s'" using s'(1) by simp
  {
    assume "\<not> is_insert op"
    then show "lru_get s1 h k = expect_step cmp h k op (lru_get s h k)" for h k
      unfolding s1 by (simp add: g spec_find_keep lru_get_rows [OF rs(1)] rs(2))
  }
next
  fix s ok h k d arg s'
  assume "lru_cache cmp szf s" and s': "table_step alloc (OpInsert ok h k d arg) s = Some s'"
  then obtain rs where rs: "lru_table s rs" "compfunc s = cmp" "sizefunc s = szf" by (auto elim: lru_cacheE)
  from table_step_ok [OF rs(1) fresh, of "OpInsert ok h k d arg"] s' show "lru_get s' h k = Some d"
    using spec_put_find [OF hash_callbacks_axioms] by (auto simp: rs(2,3) lru_get_rows same_env_def)
qed (rule cmp_refl)

end
