(* ===== verification/Slabhash.thy ===== *)
theory Slabhash
  imports Hash_Cache
begin

text \<open>
  The partitioned hash table of \<open>util/storage/slabhash.c\<close>: an array of LRU hash tables, where the high
  bits of a hash value select the table. Every table has its own entries (its \<open>mem\<close>), so that a
  pointer to an entry is an address in the table that the hash value of the entry selects. A null
  pointer in the array is \<open>None\<close>; \<open>log_assert\<close> is disabled in the build and does not appear.
\<close>

record ('k, 'd) slabhash =
  sl_size :: nat
  sl_mask :: u32
  sl_shift :: u32
  sl_array :: "('k, 'd) lruhash option list"

section \<open>Creation and deletion\<close>

text \<open>The loop that moves the bits of the mask to the top. With a zero mask it would not end.\<close>

partial_function (option) slab_shift_loop :: "u32 \<Rightarrow> u32 \<Rightarrow> (u32 \<times> u32) option" where
  "slab_shift_loop msk shift =
     (if msk AND 0x80000000 = 0 then slab_shift_loop (push_bit 1 msk) (shift + 1)
      else Some (msk, shift))"

text \<open>Deleting gives, for every table, what is left of its entries and the callbacks made.\<close>

type_synonym ('k, 'd) deleted = "((addr \<Rightarrow> ('k, 'd) lruhash_entry option) \<times> ('k, 'd) del_event list) option list"

fun delete_tables :: "('k, 'd) lruhash option list \<Rightarrow> ('k, 'd) deleted option" where
  "delete_tables [] = Some []"
| "delete_tables (t # ts) = do { r \<leftarrow> lruhash_delete t; rs \<leftarrow> delete_tables ts; Some (r # rs) }"

definition slabhash_delete :: "('k, 'd) slabhash option \<Rightarrow> ('k, 'd) deleted option" where
  "slabhash_delete sl = (case sl of None \<Rightarrow> Some [] | Some s \<Rightarrow> delete_tables (sl_array s))"

text \<open>The loop that creates the tables, from table \<open>i\<close> on; \<open>None\<close> when a table could not be created,
  then the array holds the tables made before.\<close>

fun create_tables ::
    "(nat \<Rightarrow> ('k, 'd) lruhash option) \<Rightarrow> nat list \<Rightarrow> ('k, 'd) slabhash \<Rightarrow> bool \<times> ('k, 'd) slabhash" where
  "create_tables mk [] sl = (True, sl)"
| "create_tables mk (i # is) sl =
     (let sl = sl\<lparr>sl_array := (sl_array sl)[i := mk i]\<rparr>
      in if mk i = None then (False, sl) else create_tables mk is sl)"

text \<open>The outer option is the fault, the inner one the null result. With it comes what \<open>slabhash_delete\<close> gave when the function
  calls it, which is when one of the tables cannot be created, and else the empty list. The last three arguments are the
  results of the allocations, the last one for each table.\<close>

definition slabhash_create ::
    "nat \<Rightarrow> nat \<Rightarrow> u64 \<Rightarrow> ('k \<Rightarrow> 'd \<Rightarrow> u64) \<Rightarrow> ('k \<Rightarrow> 'k \<Rightarrow> int) \<Rightarrow> addr option \<Rightarrow>
     bool \<Rightarrow> bool \<Rightarrow> (nat \<Rightarrow> bool \<times> bool) \<Rightarrow> (('k, 'd) slabhash option \<times> ('k, 'd) deleted) option" where
  "slabhash_create numtables start_size maxmem szf cmpf arg sl_ok array_ok table_ok =
     (if \<not> sl_ok then Some (None, [])
      else if \<not> array_ok then Some (None, [])
      else do {
        let msk = of_nat numtables - 1;
        (msk, shift) \<leftarrow> (if msk = 0 then Some (msk, 0) else slab_shift_loop msk 0);
        let sl = \<lparr>sl_size = numtables, sl_mask = msk, sl_shift = shift,
                  sl_array = replicate numtables None\<rparr>;
        let (ok, sl) = create_tables
          (\<lambda>i. lruhash_create start_size (maxmem div of_nat (sl_size sl)) szf cmpf arg
                 (fst (table_ok i)) (snd (table_ok i))) [0..<sl_size sl] sl;
        if ok then Some (Some sl, []) else do { rest \<leftarrow> slabhash_delete (Some sl); Some (None, rest) } })"

section \<open>The operations\<close>

definition slab_idx :: "('k, 'd) slabhash \<Rightarrow> u32 \<Rightarrow> nat" where
  "slab_idx sl hash = unat (drop_bit (unat (sl_shift sl)) (hash AND sl_mask sl))"

text \<open>Reading a table of the array and writing it back.\<close>

definition slab_table :: "('k, 'd) slabhash \<Rightarrow> nat \<Rightarrow> ('k, 'd) lruhash option" where
  "slab_table sl i = (if i < length (sl_array sl) then sl_array sl ! i else None)"

definition set_table :: "nat \<Rightarrow> ('k, 'd) lruhash \<Rightarrow> ('k, 'd) slabhash \<Rightarrow> ('k, 'd) slabhash" where
  "set_table i t sl = sl\<lparr>sl_array := (sl_array sl)[i := Some t]\<rparr>"

definition on_table ::
    "nat \<Rightarrow> (('k, 'd) lruhash \<Rightarrow> ('k, 'd) lruhash option) \<Rightarrow> ('k, 'd) slabhash \<Rightarrow> ('k, 'd) slabhash option" where
  "on_table i f sl = do { t \<leftarrow> slab_table sl i; t \<leftarrow> f t; Some (set_table i t sl) }"

fun on_tables ::
    "(('k, 'd) lruhash \<Rightarrow> ('k, 'd) lruhash option) \<Rightarrow> nat list \<Rightarrow> ('k, 'd) slabhash \<Rightarrow> ('k, 'd) slabhash option" where
  "on_tables f [] sl = Some sl"
| "on_tables f (i # is) sl = do { sl \<leftarrow> on_table i f sl; on_tables f is sl }"

definition slabhash_clear :: "('k, 'd) slabhash option \<Rightarrow> ('k, 'd) slabhash option option" where
  "slabhash_clear sl = (case sl of None \<Rightarrow> Some None
     | Some s \<Rightarrow> map_option Some (on_tables lruhash_clear [0..<sl_size s] s))"

definition slabhash_insert ::
    "bool \<Rightarrow> u32 \<Rightarrow> addr \<Rightarrow> 'd \<Rightarrow> addr option \<Rightarrow> ('k, 'd) slabhash \<Rightarrow> ('k, 'd) slabhash option" where
  "slabhash_insert calloc_ok hash entry dat arg sl =
     on_table (slab_idx sl hash) (lruhash_insert calloc_ok hash entry dat arg) sl"

definition slabhash_lookup ::
    "u32 \<Rightarrow> 'k \<Rightarrow> ('k, 'd) slabhash \<Rightarrow> (addr option \<times> ('k, 'd) slabhash) option" where
  "slabhash_lookup hash key sl = do {
     t \<leftarrow> slab_table sl (slab_idx sl hash);
     (r, t) \<leftarrow> lruhash_lookup hash key t;
     Some (r, set_table (slab_idx sl hash) t sl) }"

definition slabhash_remove :: "u32 \<Rightarrow> 'k \<Rightarrow> ('k, 'd) slabhash \<Rightarrow> ('k, 'd) slabhash option" where
  "slabhash_remove hash key sl = on_table (slab_idx sl hash) (lruhash_remove hash key) sl"

definition slabhash_update_space_used ::
    "u32 \<Rightarrow> addr option \<Rightarrow> 32 word \<Rightarrow> ('k, 'd) slabhash \<Rightarrow> ('k, 'd) slabhash option" where
  "slabhash_update_space_used hash arg diff_size sl =
     on_table (slab_idx sl hash) (lruhash_update_space_used arg diff_size) sl"

definition slabhash_setmarkdel :: "bool \<Rightarrow> ('k, 'd) slabhash \<Rightarrow> ('k, 'd) slabhash option" where
  "slabhash_setmarkdel md sl = on_tables (\<lambda>t. Some (lruhash_setmarkdel md t)) [0..<sl_size sl] sl"

definition slabhash_traverse ::
    "(('k, 'd) lruhash_entry \<Rightarrow> 'd) \<Rightarrow> ('k, 'd) slabhash \<Rightarrow> ('k, 'd) slabhash option" where
  "slabhash_traverse func sh = on_tables (lruhash_traverse func) [0..<sl_size sh] sh"

definition slabhash_gettable :: "u32 \<Rightarrow> ('k, 'd) slabhash \<Rightarrow> ('k, 'd) lruhash option" where
  "slabhash_gettable hash sl = slab_table sl (slab_idx sl hash)"

section \<open>Totals\<close>

fun fold_tables :: "('k, 'd) slabhash \<Rightarrow> ('a \<Rightarrow> ('k, 'd) lruhash \<Rightarrow> 'a) \<Rightarrow> nat list \<Rightarrow> 'a \<Rightarrow> 'a option" where
  "fold_tables sl f [] acc = Some acc"
| "fold_tables sl f (i # is) acc = do { t \<leftarrow> slab_table sl i; fold_tables sl f is (f acc t) }"

definition slabhash_get_size :: "('k, 'd) slabhash \<Rightarrow> u64 option" where
  "slabhash_get_size sl = fold_tables sl (\<lambda>total t. total + space_max t) [0..<sl_size sl] 0"

definition slabhash_is_size :: "('k, 'd) slabhash option \<Rightarrow> u64 \<Rightarrow> nat \<Rightarrow> bool option" where
  "slabhash_is_size sl sz slabs = (case sl of None \<Rightarrow> Some False | Some s \<Rightarrow>
     if sl_size s \<noteq> slabs then Some False
     else if slabs = 0 then Some False
     else do { total \<leftarrow> slabhash_get_size s;
               Some ((sz div of_nat slabs) * of_nat slabs = total) })"

definition slabhash_get_mem :: "u64 \<Rightarrow> u64 \<Rightarrow> u64 \<Rightarrow> u64 \<Rightarrow> ('k, 'd) slabhash \<Rightarrow> u64 option" where
  "slabhash_get_mem sizeof_slabhash sizeof_lruhash sizeof_bin lock_mem sl =
     fold_tables sl (\<lambda>total t. total + lruhash_get_mem sizeof_lruhash sizeof_bin lock_mem t)
       [0..<sl_size sl] (sizeof_slabhash + 8 * of_nat (sl_size sl))"

definition count_slabhash_entries :: "('k, 'd) slabhash \<Rightarrow> nat option" where
  "count_slabhash_entries sh = fold_tables sh (\<lambda>cnt t. cnt + tab_num t) [0..<sl_size sh] 0"

text \<open>The two flags say which of the results the caller asked for.\<close>

definition get_slabhash_stats :: "bool \<Rightarrow> bool \<Rightarrow> ('k, 'd) slabhash \<Rightarrow> (nat option \<times> nat option) option" where
  "get_slabhash_stats num collisions sh = do {
     (cnt, max_coll) \<leftarrow> fold_tables sh (\<lambda>(cnt, mc) t.
        (cnt + tab_num t, if mc < max_collisions t then max_collisions t else mc)) [0..<sl_size sh] (0, 0);
     Some (if num then Some cnt else None, if collisions then Some max_coll else None) }"

section \<open>The selection of a table\<close>

definition slab_select :: "nat \<Rightarrow> ('k, 'd) slabhash \<Rightarrow> bool" where
  "slab_select n sl \<longleftrightarrow> n \<le> 32 \<and> sl_size sl = 2 ^ n \<and> sl_mask sl = push_bit (32 - n) (mask n) \<and>
     (n = 0 \<or> sl_shift sl = of_nat (32 - n))"

lemma unat_u32_less: "unat (h :: u32) < 2 ^ 32"
  by (rule order.strict_trans2 [OF unsigned_less]) simp

lemma high_bit_clear: "(w :: u32) AND 0x80000000 = 0 \<longleftrightarrow> \<not> bit w 31"
  using and_exp_eq_0_iff_not_bit [of w 31] by simp

lemma slab_shift_loop_ok:
  assumes "0 < n" "k + n \<le> 32"
  shows "slab_shift_loop (push_bit k (mask n)) s = Some (push_bit (32 - n) (mask n), s + of_nat (32 - n - k))"
  using assms(2)
proof (induction "32 - n - k" arbitrary: k s)
  case 0
  then have "bit (push_bit k (mask n) :: u32) 31" and "k = 32 - n"
    using assms(1) by (auto simp: bit_push_bit_iff bit_mask_iff)
  then show ?case by (subst slab_shift_loop.simps) (simp add: high_bit_clear)
next
  case (Suc d)
  then have "\<not> bit (push_bit k (mask n) :: u32) 31" and k: "d = 32 - n - Suc k" "Suc k + n \<le> 32"
    by (auto simp: bit_push_bit_iff bit_mask_iff)
  then have "slab_shift_loop (push_bit k (mask n)) s = slab_shift_loop (push_bit (Suc k) (mask n)) (s + 1)"
    by (subst slab_shift_loop.simps) (simp add: high_bit_clear push_bit_push_bit)
  with Suc.hyps(1) [OF k] Suc.hyps(2) show ?case by simp
qed

lemma slab_idx_div:
  assumes "slab_select n sl"
  shows "slab_idx sl h = unat h div 2 ^ (32 - n)"
proof (cases "n = 0")
  case True
  with unat_u32_less [of h] assms show ?thesis by (simp add: slab_idx_def slab_select_def)
next
  case False
  with assms have n: "0 < n" "n \<le> 32" "sl_mask sl = push_bit (32 - n) (mask n)"
    "sl_shift sl = of_nat (32 - n)" by (auto simp: slab_select_def)
  have s: "unat (sl_shift sl) = 32 - n" unfolding n(4) by (simp add: unsigned_of_nat take_bit_nat_eq_self del: of_nat_diff)
  have "drop_bit (32 - n) (h AND push_bit (32 - n) (mask n)) = drop_bit (32 - n) h"
  proof (rule bit_eqI)
    fix i
    have "\<not> bit h (32 - n + i)" if "n \<le> i" using bit_imp_le_length [of h "32 - n + i"] that n(2) by auto
    with n(2) show "bit (drop_bit (32 - n) (h AND push_bit (32 - n) (mask n))) i = bit (drop_bit (32 - n) h) i"
      by (cases "i < n") (auto simp: bit_drop_bit_eq bit_and_iff bit_push_bit_iff bit_mask_iff)
  qed
  then have "slab_idx sl h = unat (drop_bit (32 - n) h)" by (simp only: slab_idx_def n(3) s)
  also have "\<dots> = drop_bit (32 - n) (unat h)" using unat_u32_less [of h] by (simp add: unsigned_drop_bit_eq take_bit_nat_eq_self)
  finally show ?thesis by (simp add: drop_bit_eq_div)
qed

lemma slab_idx_less:
  assumes "slab_select n sl"
  shows "slab_idx sl h < sl_size sl"
proof -
  from assms have n: "n \<le> 32" "sl_size sl = 2 ^ n" by (auto simp: slab_select_def)
  have "unat h < 2 ^ (32 - n) * 2 ^ n" using unat_u32_less [of h] n(1) by (simp add: power_add [symmetric])
  then have "unat h div 2 ^ (32 - n) < 2 ^ n" by (simp add: less_mult_imp_div_less mult.commute)
  then show ?thesis by (simp add: slab_idx_div [OF assms] n(2))
qed

section \<open>What a partitioned table holds\<close>

definition slab_holds ::
    "('k \<Rightarrow> 'k \<Rightarrow> int) \<Rightarrow> ('k \<Rightarrow> 'd \<Rightarrow> u64) \<Rightarrow> u64 \<Rightarrow> ('k, 'd) slabhash \<Rightarrow>
     (nat \<Rightarrow> (u32 \<times> 'k \<times> 'd) list) \<Rightarrow> bool" where
  "slab_holds cmp szf mx sl rss \<longleftrightarrow>
     (\<exists>n. slab_select n sl) \<and> length (sl_array sl) = sl_size sl \<and>
     (\<forall>i < sl_size sl. \<exists>t. sl_array sl ! i = Some t \<and> lru_table t (rss i) \<and>
        compfunc t = cmp \<and> sizefunc t = szf \<and> space_max t = mx)"

lemma slab_holds_table:
  assumes "slab_holds cmp szf mx sl rss" "i < sl_size sl"
  obtains t where "slab_table sl i = Some t" "lru_table t (rss i)"
    "compfunc t = cmp" "sizefunc t = szf" "space_max t = mx"
  using assms by (auto simp: slab_holds_def slab_table_def)

lemma slab_holds_idx: "slab_holds cmp szf mx sl rss \<Longrightarrow> slab_idx sl h < sl_size sl"
  by (auto simp: slab_holds_def slab_idx_less)

lemma slab_idx_set [simp]: "slab_idx (set_table i t sl) = slab_idx sl"
  by (simp add: slab_idx_def set_table_def fun_eq_iff)

lemma sl_size_set [simp]: "sl_size (set_table i t sl) = sl_size sl"
  by (simp add: set_table_def)

lemma slab_holds_set:
  assumes "slab_holds cmp szf mx sl rss" "i < sl_size sl" "lru_table t' rs"
    "compfunc t' = cmp" "sizefunc t' = szf" "space_max t' = mx"
  shows "slab_holds cmp szf mx (set_table i t' sl) (rss(i := rs))"
  using assms by (auto simp: slab_holds_def set_table_def slab_select_def nth_list_update)

text \<open>An operation that the table of a slab supports is supported by the slab.\<close>

lemma on_table_ok:
  assumes "slab_holds cmp szf mx sl rss" "i < sl_size sl"
    and f: "\<And>t. lru_table t (rss i) \<Longrightarrow> compfunc t = cmp \<Longrightarrow> sizefunc t = szf \<Longrightarrow> space_max t = mx \<Longrightarrow>
      \<exists>t'. f t = Some t' \<and> same_env t t' \<and> lru_table t' rs"
  shows "\<exists>t'. on_table i f sl = Some (set_table i t' sl) \<and>
    slab_holds cmp szf mx (set_table i t' sl) (rss(i := rs))"
proof -
  from assms(1,2) obtain t where t: "slab_table sl i = Some t" "lru_table t (rss i)"
    "compfunc t = cmp" "sizefunc t = szf" "space_max t = mx" by (rule slab_holds_table)
  from f [OF t(2-)] obtain t' where t': "f t = Some t'" "same_env t t'" "lru_table t' rs" by blast
  from t'(2) t have "compfunc t' = cmp" "sizefunc t' = szf" "space_max t' = mx"
    by (simp_all add: same_env_def)
  from slab_holds_set [OF assms(1,2) t'(3) this] t(1) t'(1) show ?thesis
    by (auto simp: on_table_def)
qed

lemma on_tables_ok:
  assumes "slab_holds cmp szf mx sl rss" "\<forall>i \<in> set is. i < sl_size sl" "distinct is"
    and f: "\<And>t rs. lru_table t rs \<Longrightarrow> compfunc t = cmp \<Longrightarrow> sizefunc t = szf \<Longrightarrow> space_max t = mx \<Longrightarrow>
      \<exists>t'. f t = Some t' \<and> same_env t t' \<and> lru_table t' (g rs)"
  shows "\<exists>sl'. on_tables f is sl = Some sl' \<and> sl_size sl' = sl_size sl \<and> slab_idx sl' = slab_idx sl \<and>
    slab_holds cmp szf mx sl' (\<lambda>i. if i \<in> set is then g (rss i) else rss i)"
  using assms(1-3)
proof (induction "is" arbitrary: sl rss)
  case (Cons i "is")
  have i: "i < sl_size sl" "\<forall>j \<in> set is. j < sl_size (set_table i t sl)" "distinct is" "i \<notin> set is" for t
    using Cons.prems(2,3) by simp_all
  obtain t' where
    1: "on_table i f sl = Some (set_table i t' sl)"
    "slab_holds cmp szf mx (set_table i t' sl) (rss(i := g (rss i)))"
    using on_table_ok [OF Cons.prems(1) i(1), of f "g (rss i)"] f by blast
  from Cons.IH [OF 1(2) i(2,3)] obtain sl' where
    2: "on_tables f is (set_table i t' sl) = Some sl'" "sl_size sl' = sl_size sl"
    "slab_idx sl' = slab_idx sl"
    "slab_holds cmp szf mx sl' (\<lambda>j. if j \<in> set is then g ((rss(i := g (rss i))) j) else (rss(i := g (rss i))) j)"
    by (simp only: sl_size_set slab_idx_set) blast
  have "(\<lambda>j. if j \<in> set is then g ((rss(i := g (rss i))) j) else (rss(i := g (rss i))) j) =
      (\<lambda>j. if j \<in> set (i # is) then g (rss j) else rss j)"
    using i(4) by (auto simp: fun_eq_iff)
  with 1(1) 2 show ?case by simp
qed simp

end
