(* ===== verification/Slabhash_Props.thy ===== *)
theory Slabhash_Props
  imports Slabhash
begin

text \<open>
  What \<open>util/storage/slabhash.c\<close> promises its callers: creation either fails cleanly or gives empty
  tables; every slab then behaves as one LRU list under the calls that are directed to it; the whole
  is a cache in the sense of \<open>key_cache\<close>; the totals are what the tables hold.
\<close>

section \<open>Creation\<close>

lemma slab_mask_ok:
  assumes "n \<le> 32"
  shows "\<exists>msk sh. (if (of_nat (2 ^ n) - 1 :: u32) = 0 then Some (of_nat (2 ^ n) - 1, 0)
      else slab_shift_loop (of_nat (2 ^ n) - 1) 0) = Some (msk, sh) \<and>
    msk = push_bit (32 - n) (mask n) \<and> (n = 0 \<or> sh = of_nat (32 - n))"
proof (cases "n = 0")
  case False
  have m: "(of_nat (2 ^ n) - 1 :: u32) = push_bit 0 (mask n)" by (simp add: mask_eq_exp_minus_1)
  have "push_bit 0 (mask n) \<noteq> (0 :: u32)"
  proof
    assume "push_bit 0 (mask n) = (0 :: u32)"
    then have "bit (mask n :: u32) 0 = bit (0 :: u32) 0" by simp
    with False show False by (simp add: bit_mask_iff)
  qed
  then have "(of_nat (2 ^ n) - 1 :: u32) \<noteq> 0" unfolding m .
  with slab_shift_loop_ok [of n 0 0] False assms show ?thesis unfolding m by auto
qed simp

definition fresh_or_null :: "('k, 'd) lruhash option \<Rightarrow> bool" where
  "fresh_or_null p \<longleftrightarrow> (\<forall>t. p = Some t \<longrightarrow> lru_table t [])"

lemma create_tables_ok:
  "create_tables mk is sl = (ok, sl') \<Longrightarrow> \<forall>i \<in> set is. i < length (sl_array sl) \<Longrightarrow>
   sl' = sl\<lparr>sl_array := sl_array sl'\<rparr> \<and> length (sl_array sl') = length (sl_array sl) \<and>
   (ok \<longleftrightarrow> (\<forall>i \<in> set is. mk i \<noteq> None)) \<and>
   (\<forall>i < length (sl_array sl). sl_array sl' ! i = sl_array sl ! i \<or> sl_array sl' ! i = mk i) \<and>
   (ok \<longrightarrow> (\<forall>i \<in> set is. sl_array sl' ! i = mk i))"
proof (induction "is" arbitrary: sl)
  case (Cons i "is")
  show ?case
  proof (cases "mk i")
    case None
    with Cons.prems show ?thesis by (auto simp: Let_def nth_list_update)
  next
    case (Some t)
    define s1 where "s1 = sl\<lparr>sl_array := (sl_array sl)[i := mk i]\<rparr>"
    have l: "length (sl_array s1) = length (sl_array sl)" by (simp add: s1_def)
    have "create_tables mk is s1 = (ok, sl')" using Cons.prems(1) Some by (simp add: Let_def s1_def)
    moreover have "\<forall>i \<in> set is. i < length (sl_array s1)" using Cons.prems(2) l by simp
    ultimately have "sl' = s1\<lparr>sl_array := sl_array sl'\<rparr> \<and> length (sl_array sl') = length (sl_array s1) \<and>
      (ok \<longleftrightarrow> (\<forall>i \<in> set is. mk i \<noteq> None)) \<and>
      (\<forall>i < length (sl_array s1). sl_array sl' ! i = sl_array s1 ! i \<or> sl_array sl' ! i = mk i) \<and>
      (ok \<longrightarrow> (\<forall>i \<in> set is. sl_array sl' ! i = mk i))" by (rule Cons.IH)
    moreover have "sl_array s1 ! j = (if j = i then mk i else sl_array sl ! j)" if "j < length (sl_array sl)" for j
      using that by (simp add: s1_def)
    moreover have "s1\<lparr>sl_array := ar\<rparr> = sl\<lparr>sl_array := ar\<rparr>" for ar by (simp add: s1_def)
    ultimately show ?thesis using Cons.prems(2) Some l by (simp split: if_splits) metis
  qed
qed auto

lemma delete_tables_ok:
  "\<forall>p \<in> set ts. \<forall>t. p = Some t \<longrightarrow> (\<exists>rs. lru_table t rs) \<Longrightarrow>
   \<exists>rs. delete_tables ts = Some rs \<and> length rs = length ts \<and>
     (\<forall>i < length ts. rs ! i = None \<and> ts ! i = None \<or> ts ! i \<noteq> None \<and> (\<exists>l. rs ! i = Some (Map.empty, l)))"
proof (induction ts)
  case (Cons p ts)
  then obtain rs where 1: "delete_tables ts = Some rs" "length rs = length ts"
    "\<forall>i < length ts. rs ! i = None \<and> ts ! i = None \<or> ts ! i \<noteq> None \<and> (\<exists>l. rs ! i = Some (Map.empty, l))" by auto
  have "\<exists>r. lruhash_delete p = Some r \<and> (r = None \<and> p = None \<or> p \<noteq> None \<and> (\<exists>l. r = Some (Map.empty, l)))"
  proof (cases p)
    case None
    then show ?thesis by (simp add: lruhash_delete_def)
  next
    case (Some t)
    with Cons.prems obtain xs where "lru_inv t xs" "dom (mem t) = set xs" by (auto simp: lru_table_def)
    from lruhash_delete_ok [OF this] Some show ?thesis by auto
  qed
  then obtain r where "lruhash_delete p = Some r"
    "r = None \<and> p = None \<or> p \<noteq> None \<and> (\<exists>l. r = Some (Map.empty, l))" by blast
  with 1 show ?case by (intro exI [of _ "r # rs"]) (auto simp: nth_Cons split: nat.split)
qed simp

text \<open>When the loop stops, the array has the tables made before, and null pointers from the one that failed on.\<close>

lemma create_tables_stop:
  "create_tables mk [k..<m] sl = (ok, sl') \<Longrightarrow> k \<le> m \<Longrightarrow> m \<le> length (sl_array sl) \<Longrightarrow>
   \<forall>i. k \<le> i \<and> i < m \<longrightarrow> sl_array sl ! i = None \<Longrightarrow>
   (\<forall>i < k. sl_array sl' ! i = sl_array sl ! i) \<and>
   (\<forall>i. k \<le> i \<and> i < m \<longrightarrow> sl_array sl' ! i = (if \<forall>j. k \<le> j \<and> j \<le> i \<longrightarrow> mk j \<noteq> None then mk i else None))"
proof (induction "m - k" arbitrary: k sl)
  case (Suc n)
  define s1 where "s1 = sl\<lparr>sl_array := (sl_array sl)[k := mk k]\<rparr>"
  have k: "k < m" "[k..<m] = k # [Suc k..<m]" using Suc.hyps(2) by (simp_all add: upt_conv_Cons)
  have s1: "sl_array s1 ! i = (if i = k then mk k else sl_array sl ! i)" if "i < m" for i
    using that Suc.prems(3) k(1) by (simp add: s1_def)
  show ?case
  proof (cases "mk k = None")
    case True
    then have "sl' = s1" using Suc.prems(1) by (simp add: k(2) s1_def Let_def)
    then show ?thesis using s1 True Suc.prems(2,4) k(1) by auto
  next
    case False
    then have "create_tables mk [Suc k..<m] s1 = (ok, sl')" using Suc.prems(1) by (auto simp: k(2) s1_def Let_def split: if_splits)
    moreover have "m \<le> length (sl_array s1)" using Suc.prems(3) by (simp add: s1_def)
    moreover have "\<forall>i. Suc k \<le> i \<and> i < m \<longrightarrow> sl_array s1 ! i = None" using s1 Suc.prems(4) by auto
    ultimately have IH: "\<forall>i < Suc k. sl_array sl' ! i = sl_array s1 ! i"
      "\<forall>i. Suc k \<le> i \<and> i < m \<longrightarrow> sl_array sl' ! i = (if \<forall>j. Suc k \<le> j \<and> j \<le> i \<longrightarrow> mk j \<noteq> None then mk i else None)"
      using Suc.hyps(1) [of "Suc k" s1] Suc.hyps(2) k(1) by simp_all
    have all: "(\<forall>j. k \<le> j \<and> j \<le> i \<longrightarrow> mk j \<noteq> None) \<longleftrightarrow> (\<forall>j. Suc k \<le> j \<and> j \<le> i \<longrightarrow> mk j \<noteq> None)" for i
      using False by (metis Suc_leI le_neq_implies_less Suc_leD)
    have "sl_array sl' ! i = (if \<forall>j. k \<le> j \<and> j \<le> i \<longrightarrow> mk j \<noteq> None then mk i else None)" if i: "k \<le> i" "i < m" for i
    proof (cases "i = k")
      case True
      then show ?thesis using IH(1) s1 [OF k(1)] \<open>mk k \<noteq> None\<close> by (auto dest: le_antisym)
    next
      case False
      then show ?thesis using IH(2) i unfolding all by simp
    qed
    then show ?thesis using IH(1) s1 k(1) by simp
  qed
qed auto

text \<open>What is left after the creation fails at a table: every table made before it is released with its entries.\<close>

definition tables_released :: "nat \<Rightarrow> (nat \<Rightarrow> bool) \<Rightarrow> ('k, 'd) deleted \<Rightarrow> bool" where
  "tables_released n made rest \<longleftrightarrow> length rest = n \<and>
     (\<forall>i < n. if \<forall>j \<le> i. made j then \<exists>l. rest ! i = Some (Map.empty, l) else rest ! i = None)"

text \<open>The result of the creation, for every outcome of the allocations.\<close>

lemma slabhash_create_cases:
  assumes cb: "hash_callbacks cmp szf" and n: "n \<le> 32" and m: "m \<le> 32"
  shows "\<exists>r rest. slabhash_create (2 ^ n) (2 ^ m) maxmem szf cmp arg sl_ok array_ok table_ok = Some (r, rest) \<and>
    (r = None \<longleftrightarrow> \<not> (sl_ok \<and> array_ok \<and> (\<forall>i < 2 ^ n. fst (table_ok i) \<and> snd (table_ok i)))) \<and>
    (\<forall>sl. r = Some sl \<longrightarrow> sl_size sl = 2 ^ n \<and> rest = [] \<and>
       slab_holds cmp szf (maxmem div of_nat (2 ^ n)) sl (\<lambda>i. [])) \<and>
    (sl_ok \<and> array_ok \<and> r = None \<longrightarrow> tables_released (2 ^ n) (\<lambda>i. fst (table_ok i) \<and> snd (table_ok i)) rest)"
proof (cases "sl_ok \<and> array_ok")
  case False
  then show ?thesis by (auto simp: slabhash_create_def)
next
  case oks: True
  define mk where "mk i = lruhash_create (2 ^ m) (maxmem div of_nat (2 ^ n)) szf cmp arg
    (fst (table_ok i)) (snd (table_ok i))" for i
  have mk: "mk i = None \<longleftrightarrow> \<not> (fst (table_ok i) \<and> snd (table_ok i))" for i
    by (simp add: mk_def lruhash_create_def)
  have mk_fresh: "lru_table t [] \<and> compfunc t = cmp \<and> sizefunc t = szf \<and> space_max t = maxmem div of_nat (2 ^ n)"
    if "mk i = Some t" for i t
  proof -
    have "fst (table_ok i)" "snd (table_ok i)" using mk [of i] that by simp_all
    with that table_create [OF cb m, of "maxmem div of_nat (2 ^ n)" arg] show ?thesis
      by (auto simp: mk_def)
  qed
  obtain msk sh where sel: "(if (of_nat (2 ^ n) - 1 :: u32) = 0 then Some (of_nat (2 ^ n) - 1, 0)
      else slab_shift_loop (of_nat (2 ^ n) - 1) 0) = Some (msk, sh)"
    "msk = push_bit (32 - n) (mask n)" "n = 0 \<or> sh = of_nat (32 - n)"
    using slab_mask_ok [OF n] by blast
  define sl where "sl = \<lparr>sl_size = 2 ^ n, sl_mask = msk, sl_shift = sh,
    sl_array = replicate (2 ^ n) (None :: ('a, 'b) lruhash option)\<rparr>"
  obtain ok sl' where ct: "create_tables mk [0..<2 ^ n] sl = (ok, sl')" by fastforce
  have ct': "sl' = sl\<lparr>sl_array := sl_array sl'\<rparr>" "length (sl_array sl') = 2 ^ n"
    "ok \<longleftrightarrow> (\<forall>i < 2 ^ n. mk i \<noteq> None)"
    "\<forall>i < 2 ^ n. sl_array sl' ! i = None \<or> sl_array sl' ! i = mk i"
    "ok \<longrightarrow> (\<forall>i < 2 ^ n. sl_array sl' ! i = mk i)"
    using create_tables_ok [OF ct] by (auto simp: sl_def atLeast0LessThan)
  have cr: "slabhash_create (2 ^ n) (2 ^ m) maxmem szf cmp arg sl_ok array_ok table_ok =
      (if ok then Some (Some sl', []) else do { rest \<leftarrow> slabhash_delete (Some sl'); Some (None, rest) })"
    unfolding slabhash_create_def Let_def sel(1)
    using oks ct by (simp add: sl_def mk_def [abs_def])
  show ?thesis
  proof (cases ok)
    case True
    have "slab_select n sl'" using sel(2,3) n by (subst ct'(1)) (simp add: slab_select_def sl_def)
    moreover have "sl_size sl' = 2 ^ n" by (subst ct'(1)) (simp add: sl_def)
    moreover have "\<exists>t. mk i = Some t" if "i < 2 ^ n" for i using ct'(3) True that by blast
    ultimately have "slab_holds cmp szf (maxmem div of_nat (2 ^ n)) sl' (\<lambda>i. [])"
      unfolding slab_holds_def using ct'(2,5) True mk_fresh by fastforce
    moreover have "\<forall>i < 2 ^ n. fst (table_ok i) \<and> snd (table_ok i)" using ct'(3) True mk by blast
    ultimately show ?thesis using cr True oks \<open>sl_size sl' = 2 ^ n\<close> by auto
  next
    case False
    have stop: "sl_array sl' ! i = (if \<forall>j \<le> i. mk j \<noteq> None then mk i else None)" if "i < 2 ^ n" for i
      using create_tables_stop [OF ct] that by (simp add: sl_def)
    have "\<forall>p \<in> set (sl_array sl'). \<forall>t. p = Some t \<longrightarrow> (\<exists>rs. lru_table t rs)"
      using ct'(2,4) mk_fresh by (auto simp: in_set_conv_nth) (metis option.distinct(1))
    from delete_tables_ok [OF this] obtain rest where
      rest: "delete_tables (sl_array sl') = Some rest" "length rest = 2 ^ n"
      "\<And>i. i < 2 ^ n \<Longrightarrow> rest ! i = None \<and> sl_array sl' ! i = None \<or> sl_array sl' ! i \<noteq> None \<and> (\<exists>l. rest ! i = Some (Map.empty, l))"
      by (auto simp: ct'(2))
    have "tables_released (2 ^ n) (\<lambda>i. mk i \<noteq> None) rest"
      unfolding tables_released_def
    proof (intro conjI allI impI)
      fix i :: nat assume i: "i < 2 ^ n"
      show "if \<forall>j \<le> i. mk j \<noteq> None then \<exists>l. rest ! i = Some (Map.empty, l) else rest ! i = None"
        using rest(3) [OF i] stop [OF i] by (auto split: if_splits)
    qed (rule rest(2))
    moreover have "(\<lambda>i. mk i \<noteq> None) = (\<lambda>i. fst (table_ok i) \<and> snd (table_ok i))" using mk by auto
    moreover have "\<exists>i < 2 ^ n. \<not> (fst (table_ok i) \<and> snd (table_ok i))" using ct'(3) False mk by blast
    ultimately show ?thesis using rest(1) cr False by (auto simp: slabhash_delete_def)
  qed
qed

section \<open>The operations as a cache\<close>

text \<open>The caller allocates the entry; here \<open>alloc\<close> picks its address in the table of the slab.\<close>

definition slab_insert_new ::
    "bool \<Rightarrow> addr \<Rightarrow> u32 \<Rightarrow> 'k \<Rightarrow> 'd \<Rightarrow> addr option \<Rightarrow> ('k, 'd) slabhash \<Rightarrow> ('k, 'd) slabhash option" where
  "slab_insert_new calloc_ok a h k d arg sl = do {
     t \<leftarrow> slab_table sl (slab_idx sl h);
     slabhash_insert calloc_ok h a d arg
       (set_table (slab_idx sl h) (t\<lparr>mem := (mem t)(a \<mapsto> new_entry h k d)\<rparr>) sl) }"

fun slab_step ::
    "(('k, 'd) heap \<Rightarrow> addr) \<Rightarrow> ('k, 'd) table_op \<Rightarrow> ('k, 'd) slabhash \<Rightarrow> ('k, 'd) slabhash option" where
  "slab_step alloc (OpInsert ok h k d arg) sl = do {
     t \<leftarrow> slab_table sl (slab_idx sl h);
     slab_insert_new ok (alloc (mem t)) h k d arg sl }"
| "slab_step alloc (OpLookup h k) sl = map_option snd (slabhash_lookup h k sl)"
| "slab_step alloc (OpRemove h k) sl = slabhash_remove h k sl"
| "slab_step alloc OpClear sl = Option.bind (slabhash_clear (Some sl)) id"

definition slab_get :: "('k, 'd) slabhash \<Rightarrow> u32 \<Rightarrow> 'k \<Rightarrow> 'd option" where
  "slab_get sl h k = do {
     (r, sl') \<leftarrow> slabhash_lookup h k sl;
     a \<leftarrow> r;
     t \<leftarrow> slab_table sl' (slab_idx sl h);
     e \<leftarrow> mem t a;
     Some (e_data e) }"

text \<open>The slabs that an operation is directed to.\<close>

fun op_hits :: "(u32 \<Rightarrow> nat) \<Rightarrow> ('k, 'd) table_op \<Rightarrow> nat \<Rightarrow> bool" where
  "op_hits idx (OpInsert ok h k d arg) i \<longleftrightarrow> idx h = i"
| "op_hits idx (OpLookup h k) i \<longleftrightarrow> idx h = i"
| "op_hits idx (OpRemove h k) i \<longleftrightarrow> idx h = i"
| "op_hits idx OpClear i \<longleftrightarrow> True"

lemma slab_table_set: "i < length (sl_array sl) \<Longrightarrow> slab_table (set_table i t sl) i = Some t"
  by (simp add: slab_table_def set_table_def)

lemma slab_table_bound: "slab_table sl i = Some t \<Longrightarrow> i < length (sl_array sl)"
  by (simp add: slab_table_def split: if_splits)

lemma set_table_twice [simp]: "set_table i t (set_table i t' sl) = set_table i t sl"
  by (simp add: set_table_def)

lemma slab_step_on_table:
  fixes sl :: "('k, 'd) slabhash"
  shows "slab_step alloc (OpInsert ok h k d arg) sl = on_table (slab_idx sl h) (table_step alloc (OpInsert ok h k d arg)) sl"
  "slab_step alloc (OpLookup h k) sl = on_table (slab_idx sl h) (table_step alloc (OpLookup h k)) sl"
  "slab_step alloc (OpRemove h k) sl = on_table (slab_idx sl h) (table_step alloc (OpRemove h k)) sl"
  "slab_step alloc OpClear sl = on_tables (table_step alloc OpClear) [0..<sl_size sl] sl"
proof -
  show "slab_step alloc (OpInsert ok h k d arg) sl = on_table (slab_idx sl h) (table_step alloc (OpInsert ok h k d arg)) sl"
    by (cases "slab_table sl (slab_idx sl h)")
      (auto simp: slab_insert_new_def slabhash_insert_def on_table_def insert_new_def slab_table_set
        dest: slab_table_bound)
  show "slab_step alloc (OpLookup h k) sl = on_table (slab_idx sl h) (table_step alloc (OpLookup h k)) sl"
    by (cases "slab_table sl (slab_idx sl h)")
      (auto simp: slabhash_lookup_def on_table_def split: option.split bind_splits)
  have "table_step alloc OpClear = (lruhash_clear :: ('k, 'd) lruhash \<Rightarrow> _)" by (simp add: fun_eq_iff)
  then show "slab_step alloc OpClear sl = on_tables (table_step alloc OpClear) [0..<sl_size sl] sl"
    by (cases "on_tables lruhash_clear [0..<sl_size sl] sl") (simp_all add: slabhash_clear_def)
qed (simp add: slabhash_remove_def on_table_def)

lemma slab_step_ok:
  assumes "slab_holds cmp szf mx sl rss" "fresh_alloc alloc"
  shows "\<exists>sl'. slab_step alloc op sl = Some sl' \<and> sl_size sl' = sl_size sl \<and> slab_idx sl' = slab_idx sl \<and>
    slab_holds cmp szf mx sl'
      (\<lambda>i. if op_hits (slab_idx sl) op i then spec_step cmp szf mx op (rss i) else rss i)"
proof -
  have step: "\<exists>t'. table_step alloc op t = Some t' \<and> same_env t t' \<and> lru_table t' (spec_step cmp szf mx op rs)"
    if "lru_table t rs" "compfunc t = cmp" "sizefunc t = szf" "space_max t = mx" for t rs
    using table_step_ok [OF that(1) assms(2), of op] that(2-4) by simp
  have one: ?thesis if h: "slab_step alloc op sl = on_table (slab_idx sl h) (table_step alloc op) sl"
    "\<And>i. op_hits (slab_idx sl) op i \<longleftrightarrow> slab_idx sl h = i" for h
  proof -
    from on_table_ok [OF assms(1) slab_holds_idx [OF assms(1)], of h "table_step alloc op"
        "spec_step cmp szf mx op (rss (slab_idx sl h))"] step
    obtain t' where t': "on_table (slab_idx sl h) (table_step alloc op) sl = Some (set_table (slab_idx sl h) t' sl)"
      "slab_holds cmp szf mx (set_table (slab_idx sl h) t' sl)
        (rss(slab_idx sl h := spec_step cmp szf mx op (rss (slab_idx sl h))))" by blast
    have "(rss(slab_idx sl h := spec_step cmp szf mx op (rss (slab_idx sl h)))) =
        (\<lambda>i. if op_hits (slab_idx sl) op i then spec_step cmp szf mx op (rss i) else rss i)"
      by (auto simp: h(2))
    with t' h(1) show ?thesis by simp
  qed
  show ?thesis
  proof (cases op)
    case OpClear
    have "\<forall>i \<in> set [0..<sl_size sl]. i < sl_size sl" by simp
    from on_tables_ok [OF assms(1) this distinct_upt, of "table_step alloc op" "spec_step cmp szf mx op"] step
    obtain sl' where sl': "on_tables (table_step alloc op) [0..<sl_size sl] sl = Some sl'"
      "sl_size sl' = sl_size sl" "slab_idx sl' = slab_idx sl"
      "slab_holds cmp szf mx sl' (\<lambda>i. if i \<in> set [0..<sl_size sl] then spec_step cmp szf mx op (rss i) else rss i)"
      by blast
    have "slab_holds cmp szf mx sl' (\<lambda>i. spec_step cmp szf mx op (rss i))"
      using sl'(2,4) by (simp add: slab_holds_def)
    with sl' OpClear show ?thesis by (simp add: slab_step_on_table del: slab_step.simps)
  next
    case (OpInsert ok h k d arg)
    show ?thesis by (rule one [of h]) (simp_all only: OpInsert slab_step_on_table op_hits.simps)
  next
    case (OpLookup h k)
    show ?thesis by (rule one [of h]) (simp_all only: OpLookup slab_step_on_table op_hits.simps)
  next
    case (OpRemove h k)
    show ?thesis by (rule one [of h]) (simp_all only: OpRemove slab_step_on_table op_hits.simps)
  qed
qed

lemma slab_run_ok:
  assumes "slab_holds cmp szf mx sl rss" "fresh_alloc alloc"
  shows "\<exists>sl'. run_ops (slab_step alloc) ops sl = Some sl' \<and> sl_size sl' = sl_size sl \<and> slab_idx sl' = slab_idx sl \<and>
    slab_holds cmp szf mx sl' (\<lambda>i. fold (spec_step cmp szf mx) (filter (\<lambda>op. op_hits (slab_idx sl) op i) ops) (rss i))"
  using assms(1)
proof (induction ops arbitrary: sl rss)
  case (Cons op ops)
  from slab_step_ok [OF Cons.prems assms(2), of op] obtain s1 where
    1: "slab_step alloc op sl = Some s1" "sl_size s1 = sl_size sl" "slab_idx s1 = slab_idx sl"
    "slab_holds cmp szf mx s1
      (\<lambda>i. if op_hits (slab_idx sl) op i then spec_step cmp szf mx op (rss i) else rss i)" by blast
  from Cons.IH [OF 1(4)] 1(1-3) show ?case by (simp add: if_distrib if_distribR comp_def cong: if_cong)
qed simp

lemma slab_get_rows:
  assumes "slab_holds cmp szf mx sl rss"
  shows "slab_get sl h k = spec_find cmp h k (rss (slab_idx sl h))"
proof -
  from assms slab_holds_idx [OF assms] obtain t where t: "slab_table sl (slab_idx sl h) = Some t"
    "lru_table t (rss (slab_idx sl h))" "compfunc t = cmp" by (rule slab_holds_table) blast
  from table_lookup [OF t(2), of h k] obtain r t' where
    "lruhash_lookup h k t = Some (r, t')"
    "case r of None \<Rightarrow> spec_find cmp h k (rss (slab_idx sl h)) = None
     | Some a \<Rightarrow> \<exists>e. mem t' a = Some e \<and> spec_find cmp h k (rss (slab_idx sl h)) = Some (e_data e)"
    unfolding t(3) by blast
  then show ?thesis
    using t(1) slab_table_bound [OF t(1)]
    by (auto simp: slab_get_def slabhash_lookup_def slab_table_set split: option.splits)
qed

definition slab_cache :: "('k \<Rightarrow> 'k \<Rightarrow> int) \<Rightarrow> ('k \<Rightarrow> 'd \<Rightarrow> u64) \<Rightarrow> ('k, 'd) slabhash \<Rightarrow> bool" where
  "slab_cache cmp szf sl \<longleftrightarrow> (\<exists>mx rss. slab_holds cmp szf mx sl rss)"

sublocale hash_table \<subseteq> slab: key_cache cmp "slab_cache cmp szf" slab_get "slab_step alloc"
proof
  fix s op
  assume "slab_cache cmp szf s"
  then obtain mx rss where rss: "slab_holds cmp szf mx s rss" by (auto simp: slab_cache_def)
  from slab_step_ok [OF rss fresh, of op] obtain s' where
    s': "slab_step alloc op s = Some s'" "slab_idx s' = slab_idx s" "slab_holds cmp szf mx s'
      (\<lambda>i. if op_hits (slab_idx s) op i then spec_step cmp szf mx op (rss i) else rss i)" by blast
  have other: "expect_step cmp h k op acc = acc" if "\<not> op_hits (slab_idx s) op (slab_idx s h)" for h k acc
    using that by (cases op) auto
  have g: "slab_get s' h k = (if op_hits (slab_idx s) op (slab_idx s h)
      then spec_find cmp h k (spec_step cmp szf mx op (rss (slab_idx s h))) else slab_get s h k)" for h k
    using slab_get_rows [OF s'(3)] slab_get_rows [OF rss] s'(2) by simp
  show "\<exists>s'. slab_step alloc op s = Some s' \<and> slab_cache cmp szf s' \<and>
      (\<forall>h k. slab_get s' h k = None \<or> slab_get s' h k = expect_step cmp h k op (slab_get s h k))"
    using s'(1,3) spec_find_step [of _ _ mx op] other
    by (auto simp: slab_cache_def g slab_get_rows [OF rss])
  fix s1
  assume "slab_step alloc op s = Some s1"
  then have s1: "s1 = s'" using s'(1) by simp
  {
    assume "\<not> is_insert op"
    then show "slab_get s1 h k = expect_step cmp h k op (slab_get s h k)" for h k
      unfolding s1 by (simp add: g spec_find_keep other slab_get_rows [OF rss])
  }
next
  fix s ok h k d arg s'
  assume "slab_cache cmp szf s" and s': "slab_step alloc (OpInsert ok h k d arg) s = Some s'"
  then obtain mx rss where rss: "slab_holds cmp szf mx s rss" by (auto simp: slab_cache_def)
  from slab_step_ok [OF rss fresh, of "OpInsert ok h k d arg"] s' show "slab_get s' h k = Some d"
    using spec_put_find [OF hash_callbacks_axioms] by (auto simp: slab_get_rows)
qed (rule cmp_refl)

context hash_table
begin

lemma slab_coherent:
  assumes "slab_cache cmp szf sl"
  shows "\<exists>sl' sl''. run_ops (slab_step alloc) ops sl = Some sl' \<and>
    slab_get sl' h k \<in> {None, fold (expect_step cmp h k) ops (slab_get sl h k)} \<and>
    slab_step alloc (OpInsert ok h k d arg) sl' = Some sl'' \<and> slab_get sl'' h k = Some d"
proof -
  from slab.run_coherent [OF assms, of ops h k] obtain sl' where
    1: "run_ops (slab_step alloc) ops sl = Some sl'" "slab_cache cmp szf sl'"
    "slab_get sl' h k \<in> {None, fold (expect_step cmp h k) ops (slab_get sl h k)}" by blast
  from slab.step_law [OF 1(2)] obtain sl'' where
    2: "slab_step alloc (OpInsert ok h k d arg) sl' = Some sl''" by blast
  from 1 2 slab.insert_law [OF 1(2) 2] show ?thesis by blast
qed

end

section \<open>Totals\<close>

lemma fold_tables_ok:
  assumes "slab_holds cmp szf mx sl rss" "\<forall>i \<in> set is. i < sl_size sl"
    "\<And>acc t i. lru_table t (rss i) \<Longrightarrow> space_max t = mx \<Longrightarrow> f acc t = g acc i"
  shows "fold_tables sl f is acc = Some (fold (\<lambda>i acc. g acc i) is acc)"
  using assms(2)
proof (induction "is" arbitrary: acc)
  case (Cons i "is")
  then have "i < sl_size sl" by simp
  with assms(1) obtain t where "slab_table sl i = Some t" "lru_table t (rss i)" "space_max t = mx"
    by (rule slab_holds_table)
  with Cons assms(3) show ?case by simp
qed simp

lemma fold_add: "fold (\<lambda>i acc. acc + c) is acc = acc + of_nat (length is) * (c :: 'a :: comm_semiring_1)"
  by (induction "is" arbitrary: acc) (simp_all add: algebra_simps)

lemma fold_sum: "fold (\<lambda>i acc. acc + c i) is acc = acc + (\<Sum>i\<leftarrow>is. c i :: nat)"
  by (induction "is" arbitrary: acc) simp_all

lemma slabhash_get_size_ok:
  assumes "slab_holds cmp szf mx sl rss"
  shows "slabhash_get_size sl = Some (of_nat (sl_size sl) * mx)"
  unfolding slabhash_get_size_def
  by (subst fold_tables_ok [OF assms, of _ _ "\<lambda>acc i. acc + mx"]) (simp_all add: fold_add)

lemma count_slabhash_ok:
  assumes "slab_holds cmp szf mx sl rss"
  shows "count_slabhash_entries sl = Some (\<Sum>i < sl_size sl. length (rss i))"
  unfolding count_slabhash_entries_def
  by (subst fold_tables_ok [OF assms, of _ _ "\<lambda>acc i. acc + length (rss i)"])
    (simp_all add: table_account fold_sum sum_list_sum_nth atLeast0LessThan)

section \<open>Properties\<close>

text \<open>
  C29. Creation of a partitioned table with a power of two of slabs always returns. It gives null exactly when one of the
  allocations fails. When that happens at one of the tables, every table made before it has been deleted, without a fault and with
  nothing left in it, and the slots from the failed one on were null. If all allocations succeed nothing is deleted, and the
  result is an empty table whose slabs share the memory limit equally, which \<open>slabhash_is_size\<close> recognises as a
  table for that limit.
\<close>

theorem slabhash_create_outcome:
  assumes "hash_callbacks cmp szf" "n \<le> 32" "m \<le> 32"
  shows "\<exists>r rest. slabhash_create (2 ^ n) (2 ^ m) maxmem szf cmp arg sl_ok array_ok table_ok = Some (r, rest) \<and>
    (r = None \<longleftrightarrow> \<not> (sl_ok \<and> array_ok \<and> (\<forall>i < 2 ^ n. fst (table_ok i) \<and> snd (table_ok i)))) \<and>
    (sl_ok \<and> array_ok \<and> r = None \<longrightarrow> tables_released (2 ^ n) (\<lambda>i. fst (table_ok i) \<and> snd (table_ok i)) rest) \<and>
    (\<forall>sl. r = Some sl \<longrightarrow> slab_holds cmp szf (maxmem div of_nat (2 ^ n)) sl (\<lambda>i. []) \<and>
       slabhash_is_size r maxmem (2 ^ n) = Some True \<and> rest = [])"
proof -
  from slabhash_create_cases [OF assms, of maxmem arg sl_ok array_ok table_ok] obtain r rest where
    r: "slabhash_create (2 ^ n) (2 ^ m) maxmem szf cmp arg sl_ok array_ok table_ok = Some (r, rest)"
    "r = None \<longleftrightarrow> \<not> (sl_ok \<and> array_ok \<and> (\<forall>i < 2 ^ n. fst (table_ok i) \<and> snd (table_ok i)))"
    "\<forall>sl. r = Some sl \<longrightarrow> sl_size sl = 2 ^ n \<and> rest = [] \<and> slab_holds cmp szf (maxmem div of_nat (2 ^ n)) sl (\<lambda>i. [])"
    "sl_ok \<and> array_ok \<and> r = None \<longrightarrow> tables_released (2 ^ n) (\<lambda>i. fst (table_ok i) \<and> snd (table_ok i)) rest"
    by blast
  have "slabhash_is_size r maxmem (2 ^ n) = Some True" if "r = Some sl" for sl
  proof -
    from r(3) that have sl: "sl_size sl = 2 ^ n" "slab_holds cmp szf (maxmem div of_nat (2 ^ n)) sl (\<lambda>i. [])"
      by simp_all
    show ?thesis using slabhash_get_size_ok [OF sl(2)] sl(1) that
      by (simp add: slabhash_is_size_def mult.commute)
  qed
  with r show ?thesis by auto
qed

theorem slabhash_create_outcome_witness:
  "\<exists>rest :: (nat, nat) deleted. slabhash_create (2 ^ 2) (2 ^ 1) 1000 (\<lambda>k d. 10) (\<lambda>k k'. int k - int k') None True True
      (\<lambda>i. (i \<noteq> 2, True)) = Some (None, rest) \<and> (\<exists>l l'. rest = [Some (Map.empty, l), Some (Map.empty, l'), None, None])"
proof -
  have "\<not> (\<forall>i < 2 ^ 2. fst (i \<noteq> (2 :: nat), True) \<and> snd (i \<noteq> 2, True))" by (auto intro!: exI [of _ 2])
  with slabhash_create_outcome [OF nat_callbacks, of 2 1 1000 None True True "\<lambda>i. (i \<noteq> 2, True)"] obtain rest :: "(nat, nat) deleted" where
    1: "slabhash_create (2 ^ 2) (2 ^ 1) 1000 (\<lambda>k d. 10) (\<lambda>k k'. int k - int k') None True True (\<lambda>i. (i \<noteq> 2, True)) = Some (None, rest)"
    and r: "tables_released (2 ^ 2) (\<lambda>i. i \<noteq> 2) rest" by auto
  have n: "(\<forall>j \<le> 0. j \<noteq> (2 :: nat))" "\<forall>j \<le> 1. j \<noteq> (2 :: nat)" "\<not> (\<forall>j \<le> 2. j \<noteq> (2 :: nat))" "\<not> (\<forall>j \<le> 3. j \<noteq> (2 :: nat))" by auto
  have len: "length rest = 4" and at: "\<And>i. i < 4 \<Longrightarrow> if \<forall>j \<le> i. j \<noteq> 2 then \<exists>l. rest ! i = Some (Map.empty, l) else rest ! i = None"
    using r by (simp_all add: tables_released_def)
  obtain l l' where "rest ! 0 = Some (Map.empty, l)" "rest ! 1 = Some (Map.empty, l')" "rest ! 2 = None" "rest ! 3 = None"
    using at [of 0] at [of 1] at [of 2] at [of 3] n by auto
  moreover have "rest = [rest ! 0, rest ! 1, rest ! 2, rest ! 3]" by (rule nth_equalityI) (auto simp: len less_Suc_eq numeral_eq_Suc)
  ultimately show ?thesis using 1 by metis
qed

text \<open>
  C12. Refinement: under every sequence of calls, each slab behaves as an LRU list of its own that
  sees exactly the calls whose hash value selects it (and the clearings): the calls for other slabs
  change nothing of it, and no call fails.
\<close>

theorem slabhash_slabs_isolated:
  assumes "slab_holds cmp szf mx sl rss" "fresh_alloc alloc"
  shows "\<exists>sl'. run_ops (slab_step alloc) ops sl = Some sl' \<and>
    slab_holds cmp szf mx sl'
      (\<lambda>i. fold (spec_step cmp szf mx) (filter (\<lambda>op. op_hits (slab_idx sl) op i) ops) (rss i))"
  using slab_run_ok [OF assms] by blast

lemma sample_slabs:
  "\<exists>sl. slab_holds (\<lambda>k k'. int k - int k') (\<lambda>k (d :: nat). 10) 250 sl (\<lambda>i. []) \<and> slab_select 2 sl"
proof -
  from slabhash_create_cases [OF nat_callbacks, of 2 1 1000 None True True "\<lambda>i. (True, True)"]
  obtain sl where "sl_size sl = 2 ^ 2"
    "slab_holds (\<lambda>k k'. int k - int k') (\<lambda>k (d :: nat). 10) 250 sl (\<lambda>i. [])" by auto
  moreover from this obtain n where n: "slab_select n sl" by (auto simp: slab_holds_def)
  ultimately have "2 ^ n = (2 :: nat) ^ 2" by (simp add: slab_select_def)
  then have "n = 2" by (simp only: power_inject_exp)
  with n \<open>slab_holds _ _ 250 sl _\<close> show ?thesis by blast
qed

theorem slabhash_slabs_isolated_witness:
  "\<exists>sl sl'. slab_select 2 sl \<and>
    run_ops (slab_step next_addr) [OpInsert True 0 7 1 None, OpInsert True 0xC0000000 8 2 None] sl = Some sl' \<and>
    slab_holds (\<lambda>k k'. int k - int k') (\<lambda>k (d :: nat). 10) 250 sl'
      (\<lambda>i. if i = 0 then [(0, 7, 1)] else if i = 3 then [(0xC0000000, 8, 2)] else [])"
proof -
  from sample_slabs obtain sl where sl: "slab_holds (\<lambda>k k'. int k - int k') (\<lambda>k (d :: nat). 10) 250 sl (\<lambda>i. [])"
    "slab_select 2 sl" by blast
  define ops :: "(nat, nat) table_op list" where
    "ops = [OpInsert True 0 7 1 None, OpInsert True 0xC0000000 8 2 None]"
  have i: "slab_idx sl 0 = 0" "slab_idx sl 0xC0000000 = 3" by (simp_all add: slab_idx_div [OF sl(2)])
  have "(\<lambda>i. fold (spec_step (\<lambda>k k'. int k - int k') (\<lambda>k d. 10) 250)
      (filter (\<lambda>op. op_hits (slab_idx sl) op i) ops) []) =
    (\<lambda>i. if i = 0 then [(0, 7, 1)] else if i = 3 then [(0xC0000000, 8, 2)] else [])"
    by (auto simp: fun_eq_iff ops_def i spec_put_def row_size_def spec_evict.simps)
  with slabhash_slabs_isolated [OF sl(1) next_addr_fresh, of ops] sl(2) show ?thesis
    unfolding ops_def by auto
qed

text \<open>
  C11. No stale data: after any sequence of calls, what a lookup finds for a key is the data put in
  by the last insertion for that key with no later removal or clearing, or nothing; and a lookup right
  after an insertion finds the inserted data.
\<close>

theorem slabhash_coherent:
  assumes "hash_callbacks cmp szf" "fresh_alloc alloc" "slab_cache cmp szf sl"
  shows "\<exists>sl' sl''. run_ops (slab_step alloc) ops sl = Some sl' \<and>
    slab_get sl' h k \<in> {None, fold (expect_step cmp h k) ops (slab_get sl h k)} \<and>
    slab_step alloc (OpInsert ok h k d arg) sl' = Some sl'' \<and> slab_get sl'' h k = Some d"
proof -
  have "hash_table cmp szf alloc"
    using assms(1,2) by (simp add: hash_table_def hash_table_axioms_def)
  from hash_table.slab_coherent [OF this assms(3)] show ?thesis .
qed

theorem slabhash_coherent_witness:
  "\<exists>sl sl' sl''. slab_select 2 sl \<and>
    run_ops (slab_step next_addr) [OpInsert True 5 7 1 None, OpInsert True 5 7 2 None, OpLookup 6 6] sl = Some sl' \<and>
    slab_get sl' 5 7 \<in> {None, Some (2 :: nat)} \<and>
    slab_step next_addr (OpInsert True 5 (7 :: nat) 3 None) sl' = Some sl'' \<and> slab_get sl'' 5 7 = Some 3"
proof -
  from sample_slabs obtain sl where sl: "slab_holds (\<lambda>k k'. int k - int k') (\<lambda>k (d :: nat). 10) 250 sl (\<lambda>i. [])"
    "slab_select 2 sl" by blast
  then have "slab_cache (\<lambda>k k'. int k - int k') (\<lambda>k (d :: nat). 10) sl" by (auto simp: slab_cache_def)
  from slabhash_coherent [OF nat_callbacks next_addr_fresh this,
      of "[OpInsert True 5 7 1 None, OpInsert True 5 7 2 None, OpLookup 6 6]" 5 7 True 3 None] sl(2)
  show ?thesis by (auto simp del: run_ops.simps slab_step.simps)
qed

text \<open>
  The count of the entries is the number of rows that the slabs hold.
\<close>

lemma count_slabhash_entries_rows:
  assumes "slab_holds cmp szf mx sl rss"
  shows "count_slabhash_entries sl = Some (\<Sum>i < sl_size sl. length (rss i))"
  by (rule count_slabhash_ok [OF assms])

end
