(* ===== verification/Sockaddr.thy ===== *)
theory Sockaddr
  imports Comparators Prelude "HOL-Library.Signed_Division" "HOL-Library.Sublist"
begin

text \<open>
  The socket address helpers of \<open>util/net_help.c\<close>. A \<open>struct sockaddr_storage\<close> is its 128 bytes, laid
  out as on Linux: the family at 0, the port at 2, the IPv4 address at 4, the IPv6 flow label at 4 and
  the IPv6 address at 8; the family is in the byte order of a little-endian host. Lengths and numbers
  of bits are natural numbers.
\<close>

unbundle bit_operations_syntax

type_synonym sockaddr_storage = "byte list"

definition AF_INET :: nat where "AF_INET = 2"
definition AF_INET6 :: nat where "AF_INET6 = 10"
definition sizeof_sockaddr_in :: nat where "sizeof_sockaddr_in = 16"
definition sizeof_sockaddr_in6 :: nat where "sizeof_sockaddr_in6 = 28"
definition INET_SIZE :: nat where "INET_SIZE = 4"
definition INET6_SIZE :: nat where "INET6_SIZE = 16"

lemmas inet_consts =
  AF_INET_def AF_INET6_def sizeof_sockaddr_in_def sizeof_sockaddr_in6_def INET_SIZE_def INET6_SIZE_def

definition field_bytes :: "nat \<Rightarrow> nat \<Rightarrow> sockaddr_storage \<Rightarrow> byte list" where
  "field_bytes off n a = take n (drop off a)"

fun host16 :: "byte list \<Rightarrow> nat" where
  "host16 [x, y] = unat x + 256 * unat y"
| "host16 _ = 0"

definition sin_family :: "sockaddr_storage \<Rightarrow> nat" where "sin_family a = host16 (field_bytes 0 2 a)"
definition sin_port :: "sockaddr_storage \<Rightarrow> nat" where "sin_port a = host16 (field_bytes 2 2 a)"
definition sin_addr :: "sockaddr_storage \<Rightarrow> byte list" where "sin_addr a = field_bytes 4 INET_SIZE a"
definition sin6_addr :: "sockaddr_storage \<Rightarrow> byte list" where "sin6_addr a = field_bytes 8 INET6_SIZE a"

text \<open>\<open>memcmp\<close>, of which the code uses the sign only.\<close>

definition c_memcmp :: "byte list \<Rightarrow> byte list \<Rightarrow> nat \<Rightarrow> int" where
  "c_memcmp xs ys n = lexcmp lin_cmp (take n xs) (take n ys)"

section \<open>Comparison\<close>

definition sockaddr_cmp :: "sockaddr_storage \<Rightarrow> nat \<Rightarrow> sockaddr_storage \<Rightarrow> nat \<Rightarrow> int" where
  "sockaddr_cmp addr1 len1 addr2 len2 =
     (if len1 < len2 then -1
      else if len1 > len2 then 1
      else if sin_family addr1 < sin_family addr2 then -1
      else if sin_family addr1 > sin_family addr2 then 1
      else if sin_family addr1 = AF_INET then
        (if sin_port addr1 < sin_port addr2 then -1
         else if sin_port addr1 > sin_port addr2 then 1
         else c_memcmp (sin_addr addr1) (sin_addr addr2) INET_SIZE)
      else if sin_family addr1 = AF_INET6 then
        (if sin_port addr1 < sin_port addr2 then -1
         else if sin_port addr1 > sin_port addr2 then 1
         else c_memcmp (sin6_addr addr1) (sin6_addr addr2) INET6_SIZE)
      else c_memcmp addr1 addr2 len1)"

definition sockaddr_cmp_addr :: "sockaddr_storage \<Rightarrow> nat \<Rightarrow> sockaddr_storage \<Rightarrow> nat \<Rightarrow> int" where
  "sockaddr_cmp_addr addr1 len1 addr2 len2 =
     (if len1 < len2 then -1
      else if len1 > len2 then 1
      else if sin_family addr1 < sin_family addr2 then -1
      else if sin_family addr1 > sin_family addr2 then 1
      else if sin_family addr1 = AF_INET then c_memcmp (sin_addr addr1) (sin_addr addr2) INET_SIZE
      else if sin_family addr1 = AF_INET6 then c_memcmp (sin6_addr addr1) (sin6_addr addr2) INET6_SIZE
      else c_memcmp addr1 addr2 len1)"

definition addr_is_ip6 :: "sockaddr_storage \<Rightarrow> nat \<Rightarrow> bool" where
  "addr_is_ip6 addr len \<longleftrightarrow> len = sizeof_sockaddr_in6 \<and> sin_family addr = AF_INET6"

section \<open>Netblocks\<close>

text \<open>Where the address bytes are and how many.\<close>

definition addr_field :: "sockaddr_storage \<Rightarrow> nat \<Rightarrow> nat \<times> nat" where
  "addr_field addr len = (if addr_is_ip6 addr len then (8, 16) else (4, 4))"

definition mask_table :: "byte list" where
  "mask_table = [0x0, 0x80, 0xc0, 0xe0, 0xf0, 0xf8, 0xfc, 0xfe]"

text \<open>Access to a byte at an offset that is computed with signed integers. Out of the structure it is
  a fault.\<close>

definition get_byte :: "int \<Rightarrow> sockaddr_storage \<Rightarrow> byte option" where
  "get_byte i a = (if 0 \<le> i \<and> i < int (length a) then Some (a ! nat i) else None)"

definition put_byte :: "int \<Rightarrow> byte \<Rightarrow> sockaddr_storage \<Rightarrow> sockaddr_storage option" where
  "put_byte i b a = (if 0 \<le> i \<and> i < int (length a) then Some (a[nat i := b]) else None)"

fun zero_bytes :: "int list \<Rightarrow> sockaddr_storage \<Rightarrow> sockaddr_storage option" where
  "zero_bytes [] a = Some a"
| "zero_bytes (i # is) a = do { a \<leftarrow> put_byte i 0 a; zero_bytes is a }"

definition addr_mask :: "sockaddr_storage \<Rightarrow> nat \<Rightarrow> int \<Rightarrow> sockaddr_storage option" where
  "addr_mask addr len net =
     (let (s, n) = addr_field addr len; mx = 8 * int n
      in if net \<ge> mx then Some addr
         else do {
           addr \<leftarrow> zero_bytes (map (\<lambda>i. int s + i) [net sdiv 8 + 1..mx sdiv 8 - 1]) addr;
           b \<leftarrow> get_byte (int s + net sdiv 8) addr;
           put_byte (int s + net sdiv 8) (b AND mask_table ! nat (net mod 8)) addr })"

text \<open>The leading zero bits of a byte that is not zero; for zero the loop would not end.\<close>

partial_function (option) lead_zeros_loop :: "byte \<Rightarrow> nat \<Rightarrow> nat option" where
  "lead_zeros_loop z m = (if z AND 0x80 = 0 then lead_zeros_loop (push_bit 1 z) (m + 1) else Some m)"

fun in_common_loop :: "byte list \<Rightarrow> byte list \<Rightarrow> nat \<Rightarrow> nat \<Rightarrow> nat \<Rightarrow> nat option" where
  "in_common_loop s1 s2 0 i m = Some m"
| "in_common_loop s1 s2 (Suc n) i m =
     (if s1 ! i = s2 ! i then in_common_loop s1 s2 n (i + 1) (m + 8)
      else lead_zeros_loop (s1 ! i XOR s2 ! i) m)"

definition addr_in_common ::
    "sockaddr_storage \<Rightarrow> nat \<Rightarrow> sockaddr_storage \<Rightarrow> nat \<Rightarrow> nat \<Rightarrow> nat option" where
  "addr_in_common addr1 net1 addr2 net2 addrlen = do {
     let mn = (if net1 < net2 then net1 else net2);
     let (s, to) = addr_field addr1 addrlen;
     m \<leftarrow> in_common_loop (drop s addr1) (drop s addr2) to 0 0;
     Some (if m > mn then mn else m) }"

section \<open>Special addresses\<close>

definition addr_is_ip4mapped :: "sockaddr_storage \<Rightarrow> nat \<Rightarrow> bool" where
  "addr_is_ip4mapped addr addrlen \<longleftrightarrow>
     (if \<not> addr_is_ip6 addr addrlen then False
      else c_memcmp (sin6_addr addr) [0,0,0,0, 0,0,0,0, 0,0,0xff,0xff, 0,0,0,0] 12 = 0)"

definition addr_is_broadcast :: "sockaddr_storage \<Rightarrow> nat \<Rightarrow> bool" where
  "addr_is_broadcast addr addrlen \<longleftrightarrow>
     sin_family addr = AF_INET \<and> addrlen \<ge> sizeof_sockaddr_in \<and>
     c_memcmp (sin_addr addr) [0xff, 0xff, 0xff, 0xff] 4 = 0"

definition addr_is_any :: "sockaddr_storage \<Rightarrow> nat \<Rightarrow> bool" where
  "addr_is_any addr addrlen \<longleftrightarrow>
     (if sin_family addr = AF_INET \<and> addrlen \<ge> sizeof_sockaddr_in \<and>
         c_memcmp (sin_addr addr) (replicate 4 0) 4 = 0 then True
      else if sin_family addr = AF_INET6 \<and> addrlen \<ge> sizeof_sockaddr_in6 \<and>
         c_memcmp (sin6_addr addr) (replicate 16 0) 16 = 0 then True
      else False)"

definition prefixnet_is_nat64 :: "nat \<Rightarrow> bool" where
  "prefixnet_is_nat64 prefixnet \<longleftrightarrow>
     prefixnet = 32 \<or> prefixnet = 40 \<or> prefixnet = 48 \<or> prefixnet = 56 \<or> prefixnet = 64 \<or> prefixnet = 96"

text \<open>The loop over the four bytes, writing at byte \<open>p\<close> of the IPv6 address.\<close>

fun nat64_loop :: "byte list \<Rightarrow> nat \<Rightarrow> sockaddr_storage \<Rightarrow> sockaddr_storage" where
  "nat64_loop [] p a = a"
| "nat64_loop (b # bs) p a =
     (let (p, a) = (if p = 8 then (p + 1, a[8 + p := 0]) else (p, a))
      in nat64_loop bs (p + 1) (a[8 + p := b]))"

definition addr_to_nat64 ::
    "sockaddr_storage \<Rightarrow> sockaddr_storage \<Rightarrow> nat \<Rightarrow> nat \<Rightarrow> sockaddr_storage \<times> nat" where
  "addr_to_nat64 addr nat64_prefix nat64_prefixlen nat64_prefixnet =
     (let a = nat64_prefix;
          a = fold (\<lambda>i a. a[4 + i := 0]) [0..<4] a;
          a = a[2 := addr ! 2, 3 := addr ! 3]
      in (nat64_loop (field_bytes 4 4 addr) (nat64_prefixnet div 8) a, nat64_prefixlen))"

section \<open>Comparison is an order\<close>

text \<open>The numbers that the comparison looks at, in order.\<close>

definition sockaddr_key :: "sockaddr_storage \<times> nat \<Rightarrow> nat list" where
  "sockaddr_key al = (case al of (a, len) \<Rightarrow> [len, sin_family a] @
     (if sin_family a = AF_INET then sin_port a # map unat (sin_addr a)
      else if sin_family a = AF_INET6 then sin_port a # map unat (sin6_addr a)
      else map unat (take len a)))"

definition sockaddr_addr_key :: "sockaddr_storage \<times> nat \<Rightarrow> nat list" where
  "sockaddr_addr_key al = (case al of (a, len) \<Rightarrow> [len, sin_family a] @
     (if sin_family a = AF_INET then map unat (sin_addr a)
      else if sin_family a = AF_INET6 then map unat (sin6_addr a)
      else map unat (take len a)))"

lemma lexcmp_map_unat: "lexcmp lin_cmp (map unat xs) (map unat ys) = lexcmp lin_cmp xs (ys :: byte list)"
proof (induction xs ys rule: list_induct2')
  case (4 x xs y ys)
  have "lin_cmp (unat x) (unat y) = lin_cmp x y" by (simp add: lin_cmp_def word_less_nat_alt)
  with 4 show ?case by simp
qed simp_all

lemma sockaddr_cmp_key: "sockaddr_cmp a1 l1 a2 l2 = lexcmp lin_cmp (sockaddr_key (a1, l1)) (sockaddr_key (a2, l2))"
  by (auto simp: sockaddr_cmp_def sockaddr_key_def c_memcmp_def lexcmp_map_unat lin_cmp_def
      sin_addr_def sin6_addr_def field_bytes_def)

lemma sockaddr_cmp_addr_key:
  "sockaddr_cmp_addr a1 l1 a2 l2 = lexcmp lin_cmp (sockaddr_addr_key (a1, l1)) (sockaddr_addr_key (a2, l2))"
  by (auto simp: sockaddr_cmp_addr_def sockaddr_addr_key_def c_memcmp_def lexcmp_map_unat lin_cmp_def
      sin_addr_def sin6_addr_def field_bytes_def)

interpretation sockaddr_order: comparator UNIV "\<lambda>(a1, l1) (a2, l2). sockaddr_cmp a1 l1 a2 l2"
proof -
  have "comparator UNIV (\<lambda>x y. lexcmp lin_cmp (sockaddr_key x) (sockaddr_key y))"
    using comparator_key [OF comparator_lexcmp [OF lin.comparator_axioms], of sockaddr_key] by simp
  then show "comparator UNIV (\<lambda>(a1, l1) (a2, l2). sockaddr_cmp a1 l1 a2 l2)"
    by (rule comparator_cong) (auto simp: sockaddr_cmp_key)
qed

interpretation sockaddr_addr_order: comparator UNIV "\<lambda>(a1, l1) (a2, l2). sockaddr_cmp_addr a1 l1 a2 l2"
proof -
  have "comparator UNIV (\<lambda>x y. lexcmp lin_cmp (sockaddr_addr_key x) (sockaddr_addr_key y))"
    using comparator_key [OF comparator_lexcmp [OF lin.comparator_axioms], of sockaddr_addr_key] by simp
  then show "comparator UNIV (\<lambda>(a1, l1) (a2, l2). sockaddr_cmp_addr a1 l1 a2 l2)"
    by (rule comparator_cong) (auto simp: sockaddr_cmp_addr_key)
qed

section \<open>Addresses as strings of bits\<close>

definition byte_bits :: "byte \<Rightarrow> bool list" where
  "byte_bits b = map (bit b) (rev [0..<8])"

definition bits_of :: "byte list \<Rightarrow> bool list" where
  "bits_of bs = concat (map byte_bits bs)"

abbreviation lcp_len :: "'a list \<Rightarrow> 'a list \<Rightarrow> nat" where
  "lcp_len xs ys \<equiv> length (longest_common_prefix xs ys)"

lemma length_byte_bits [simp]: "length (byte_bits b) = 8" by (simp add: byte_bits_def)

lemma length_bits_of [simp]: "length (bits_of bs) = 8 * length bs"
  by (induction bs) (simp_all add: bits_of_def)

lemma bits_of_Cons [simp]: "bits_of (b # bs) = byte_bits b @ bits_of bs" "bits_of [] = []"
  by (simp_all add: bits_of_def)

lemma nth_byte_bits: "i < 8 \<Longrightarrow> byte_bits b ! i = bit b (7 - i)"
  by (simp add: byte_bits_def rev_nth)

lemma byte_bits_inject: "byte_bits x = byte_bits y \<longleftrightarrow> x = y"
proof
  assume e: "byte_bits x = byte_bits y"
  show "x = y"
  proof (rule bit_eqI)
    fix n assume "possible_bit TYPE(byte) n"
    then have "n < 8" by simp
    then have "7 - (7 - n) = n" "7 - n < 8" by simp_all
    with e nth_byte_bits [of "7 - n" x] nth_byte_bits [of "7 - n" y] show "bit x n = bit y n" by metis
  qed
qed simp

lemma lcp_len_same: "lcp_len (xs @ ys) (xs @ zs) = length xs + lcp_len ys zs"
  by (induction xs) simp_all

lemma lcp_len_differ: "length xs = length ys \<Longrightarrow> xs \<noteq> ys \<Longrightarrow> lcp_len (xs @ us) (ys @ vs) = lcp_len xs ys"
  by (induction xs ys rule: list_induct2) auto

lemma lcp_len_at:
  "k < length xs \<Longrightarrow> k < length ys \<Longrightarrow> (\<And>i. i < k \<Longrightarrow> xs ! i = ys ! i) \<Longrightarrow> xs ! k \<noteq> ys ! k \<Longrightarrow> lcp_len xs ys = k"
proof (induction k arbitrary: xs ys)
  case 0
  then show ?case by (cases xs; cases ys) auto
next
  case (Suc k)
  from Suc.prems(3) [of 0] Suc.prems(1,2) obtain x xs' ys' where l: "xs = x # xs'" "ys = x # ys'"
    by (cases xs; cases ys) auto
  have "lcp_len xs' ys' = k"
    using Suc.prems(1,2,4) Suc.prems(3) [of "Suc _"] by (intro Suc.IH) (auto simp: l)
  then show ?case by (simp add: l)
qed

lemma lead_zeros_loop_ok:
  assumes "k < 8" "bit z (7 - k)" "\<And>j. j < k \<Longrightarrow> \<not> bit z (7 - j)" "i \<le> k"
  shows "lead_zeros_loop (push_bit i z) m = Some (m + (k - i))"
  using assms(4)
proof (induction "k - i" arbitrary: i m)
  case 0
  then have "bit (push_bit i z) 7" using assms(1,2) by (simp add: bit_push_bit_iff)
  with 0 show ?case by (subst lead_zeros_loop.simps) (simp add: and_exp_eq_0_iff_not_bit [of _ 7, simplified])
next
  case (Suc d)
  then have "\<not> bit (push_bit i z) 7" using assms(1) assms(3) [of i] by (simp add: bit_push_bit_iff)
  then have "lead_zeros_loop (push_bit i z) m = lead_zeros_loop (push_bit (Suc i) z) (m + 1)"
    by (subst lead_zeros_loop.simps) (simp add: and_exp_eq_0_iff_not_bit [of _ 7, simplified] push_bit_push_bit)
  with Suc.hyps(1) [of "Suc i" "m + 1"] Suc.hyps(2) show ?case by simp
qed

lemma lead_zeros_common:
  assumes "x \<noteq> y"
  shows "lead_zeros_loop (x XOR y) m = Some (m + lcp_len (byte_bits x) (byte_bits y))"
proof -
  have "\<exists>i. i < 8 \<and> byte_bits x ! i \<noteq> byte_bits y ! i"
    using assms by (auto simp: list_eq_iff_nth_eq simp flip: byte_bits_inject)
  define k where "k = (LEAST i. i < 8 \<and> byte_bits x ! i \<noteq> byte_bits y ! i)"
  have k: "k < 8" "byte_bits x ! k \<noteq> byte_bits y ! k"
    using LeastI_ex [OF \<open>\<exists>i. _\<close>] by (simp_all add: k_def)
  have lt: "byte_bits x ! i = byte_bits y ! i" if "i < k" for i
    using not_less_Least [of i "\<lambda>i. i < 8 \<and> byte_bits x ! i \<noteq> byte_bits y ! i"] that k(1)
    by (auto simp: k_def)
  have "lcp_len (byte_bits x) (byte_bits y) = k" using k lt by (intro lcp_len_at) auto
  moreover have "lead_zeros_loop (push_bit 0 (x XOR y)) m = Some (m + (k - 0))"
    using k lt k(1) by (intro lead_zeros_loop_ok) (auto simp: nth_byte_bits bit_xor_iff)
  ultimately show ?thesis by simp
qed

lemma in_common_loop_ok:
  "i + n \<le> length s1 \<Longrightarrow> i + n \<le> length s2 \<Longrightarrow>
   in_common_loop s1 s2 n i m = Some (m + lcp_len (bits_of (take n (drop i s1))) (bits_of (take n (drop i s2))))"
proof (induction n arbitrary: i m)
  case (Suc n)
  have d: "take (Suc n) (drop i s1) = s1 ! i # take n (drop (Suc i) s1)"
    "take (Suc n) (drop i s2) = s2 ! i # take n (drop (Suc i) s2)"
    using Suc.prems by (auto simp: take_Suc_conv_app_nth Cons_nth_drop_Suc [symmetric])
  show ?case
  proof (cases "s1 ! i = s2 ! i")
    case True
    with Suc.IH [of "Suc i" "m + 8"] Suc.prems show ?thesis unfolding d by (simp add: lcp_len_same)
  next
    case False
    then show ?thesis unfolding d
      using lead_zeros_common [OF False] by (simp add: lcp_len_differ byte_bits_inject)
  qed
qed simp

text \<open>The bits of the address.\<close>

definition addr_bits :: "sockaddr_storage \<Rightarrow> nat \<Rightarrow> bool list" where
  "addr_bits a len = (case addr_field a len of (s, n) \<Rightarrow> bits_of (take n (drop s a)))"

lemma addr_in_common_ok:
  assumes "length a1 = 128" "length a2 = 128" "addr_field a1 len = addr_field a2 len"
  shows "addr_in_common a1 net1 a2 net2 len =
    Some (min (min net1 net2) (lcp_len (addr_bits a1 len) (addr_bits a2 len)))"
proof -
  obtain s n where f: "addr_field a1 len = (s, n)" "s + n \<le> 128"
    by (cases "addr_is_ip6 a1 len") (auto simp: addr_field_def)
  have "in_common_loop (drop s a1) (drop s a2) n 0 0 =
      Some (lcp_len (addr_bits a1 len) (addr_bits a2 len))"
    using in_common_loop_ok [of 0 n "drop s a1" "drop s a2" 0] f assms by (simp add: addr_bits_def)
  then show ?thesis using f(1) by (auto simp: addr_in_common_def min_def)
qed

end
