(* ===== verification/Addr_Parse.thy ===== *)
theory Addr_Parse
  imports Sockaddr Dname
begin

text \<open>
  Reading addresses and netblocks from text and from the names of response policy zones, after
  \<open>util/net_help.c\<close>. A C string is its bytes without the final zero. \<open>inet_pton\<close> and \<open>if_nametoindex\<close>
  of the C library are the parameters \<open>pton\<close> (family and text to the bytes of the address) and
  \<open>ifindex\<close>.
\<close>

section \<open>The C library\<close>

definition c_isspace :: "byte \<Rightarrow> bool" where
  "c_isspace b \<longleftrightarrow> b = 32 \<or> 9 \<le> b \<and> b \<le> 13"

definition digit_val :: "byte \<Rightarrow> nat option" where
  "digit_val b =
     (if 48 \<le> b \<and> b \<le> 57 then Some (unat b - 48)
      else if 97 \<le> b \<and> b \<le> 122 then Some (unat b - 87)
      else if 65 \<le> b \<and> b \<le> 90 then Some (unat b - 55)
      else None)"

definition digit_in :: "nat \<Rightarrow> byte \<Rightarrow> nat option" where
  "digit_in base b = (case digit_val b of Some v \<Rightarrow> if v < base then Some v else None | None \<Rightarrow> None)"

fun read_digits :: "nat \<Rightarrow> byte list \<Rightarrow> int \<Rightarrow> int \<times> byte list" where
  "read_digits base [] acc = (acc, [])"
| "read_digits base (b # bs) acc = (case digit_in base b of
     Some v \<Rightarrow> read_digits base bs (int base * acc + int v) | None \<Rightarrow> (acc, b # bs))"

definition skip_sign :: "byte list \<Rightarrow> bool \<times> byte list" where
  "skip_sign s = (case s of b # bs \<Rightarrow> if b = 45 then (True, bs) else if b = 43 then (False, bs) else (False, s)
     | [] \<Rightarrow> (False, s))"

definition skip_hex :: "byte list \<Rightarrow> byte list" where
  "skip_hex s = (case s of b0 # b1 # b2 # bs \<Rightarrow>
       if b0 = 48 \<and> (b1 = 120 \<or> b1 = 88) \<and> digit_in 16 b2 \<noteq> None then b2 # bs else s
     | _ \<Rightarrow> s)"

text \<open>The value, which saturates at the limits of \<open>long\<close>, and the text after the number.\<close>

definition c_strtol :: "nat \<Rightarrow> byte list \<Rightarrow> int \<times> byte list" where
  "c_strtol base s =
     (let (neg, t) = skip_sign (dropWhile c_isspace s);
          t = (if base = 16 then skip_hex t else t)
      in case t of
           b # _ \<Rightarrow> if digit_in base b = None then (0, s)
             else let (v, r) = read_digits base t 0; v = (if neg then - v else v)
                  in (max (- (2 ^ 63)) (min (2 ^ 63 - 1) v), r)
         | [] \<Rightarrow> (0, s))"

definition c_atoi :: "byte list \<Rightarrow> int" where
  "c_atoi s = signed_take_bit 31 (fst (c_strtol 10 s))"

text \<open>The text before the first occurrence of a character and the text after it.\<close>

fun c_strchr :: "byte list \<Rightarrow> byte \<Rightarrow> (byte list \<times> byte list) option" where
  "c_strchr [] c = None"
| "c_strchr (b # bs) c =
     (if b = c then Some ([], bs) else map_option (\<lambda>(p, r). (b # p, r)) (c_strchr bs c))"

section \<open>Addresses as text\<close>

definition MAX_ADDR_STRLEN :: nat where "MAX_ADDR_STRLEN = 128"
definition UNBOUND_DNS_PORT :: int where "UNBOUND_DNS_PORT = 53"
definition UNBOUND_DNS_OVER_TLS_PORT :: int where "UNBOUND_DNS_OVER_TLS_PORT = 853"

definition str_is_ip6 :: "byte list \<Rightarrow> bool" where
  "str_is_ip6 str \<longleftrightarrow> c_strchr str 0x3a \<noteq> None"

text \<open>Writing bytes at an offset, the address structure cleared with its family, and a port in network
  byte order.\<close>

definition put_bytes :: "nat \<Rightarrow> byte list \<Rightarrow> sockaddr_storage \<Rightarrow> sockaddr_storage" where
  "put_bytes off bs a = take off a @ bs @ drop (off + length bs) a"

definition clear_sockaddr :: "nat \<Rightarrow> nat \<Rightarrow> sockaddr_storage \<Rightarrow> sockaddr_storage" where
  "clear_sockaddr af len a = put_bytes 0 [of_nat af, 0] (put_bytes 0 (replicate len 0) a)"

definition put_port :: "int \<Rightarrow> sockaddr_storage \<Rightarrow> sockaddr_storage" where
  "put_port port a = put_bytes 2 [of_int (port div 256), of_int port] a"

definition sockaddr_store_port :: "sockaddr_storage \<Rightarrow> nat \<Rightarrow> int \<Rightarrow> sockaddr_storage" where
  "sockaddr_store_port addr addrlen port =
     (if addr_is_ip6 addr addrlen then put_port port addr else put_port port addr)"

definition put_scope :: "int \<Rightarrow> sockaddr_storage \<Rightarrow> sockaddr_storage" where
  "put_scope v a = put_bytes 24 [of_int v, of_int (v div 256), of_int (v div 65536), of_int (v div 16777216)] a"

text \<open>The result is the structure and its length; \<open>None\<close> is the return value 0.\<close>

definition ipstrtoaddr ::
    "(nat \<Rightarrow> byte list \<Rightarrow> byte list option) \<Rightarrow> (byte list \<Rightarrow> int) \<Rightarrow> byte list option \<Rightarrow> int \<Rightarrow>
     sockaddr_storage \<Rightarrow> (sockaddr_storage \<times> nat) option" where
  "ipstrtoaddr pton ifindex ip port addr = (case ip of None \<Rightarrow> None | Some ip \<Rightarrow>
     if str_is_ip6 ip then do {
       let addrlen = sizeof_sockaddr_in6;
       let addr = put_port port (clear_sockaddr AF_INET6 addrlen addr);
       (ip, addr) \<leftarrow> (case c_strchr ip 0x25 of
           Some (before, after) \<Rightarrow>
             if length before \<ge> MAX_ADDR_STRLEN then None
             else Some (before, put_scope (if ifindex after \<noteq> 0 then ifindex after else c_atoi after) addr)
         | None \<Rightarrow> Some (ip, addr));
       bs \<leftarrow> pton AF_INET6 ip;
       Some (put_bytes 8 bs addr, addrlen) }
     else do {
       let addrlen = sizeof_sockaddr_in;
       let addr = put_port port (clear_sockaddr AF_INET addrlen addr);
       bs \<leftarrow> pton AF_INET ip;
       Some (put_bytes 4 bs addr, addrlen) })"

definition extstrtoaddr ::
    "(nat \<Rightarrow> byte list \<Rightarrow> byte list option) \<Rightarrow> (byte list \<Rightarrow> int) \<Rightarrow> byte list \<Rightarrow> int \<Rightarrow>
     sockaddr_storage \<Rightarrow> (sockaddr_storage \<times> nat) option" where
  "extstrtoaddr pton ifindex str port addr = (case c_strchr str 0x40 of
     Some (before, after) \<Rightarrow>
       if length before \<ge> MAX_ADDR_STRLEN then None
       else if c_atoi after = 0 \<and> after \<noteq> [0x30] then None
       else ipstrtoaddr pton ifindex (Some before) (c_atoi after) addr
   | None \<Rightarrow> ipstrtoaddr pton ifindex (Some str) port addr)"

text \<open>Here the outer option is the fault of \<open>addr_mask\<close>. The copy into \<open>buf\<close> keeps 63 characters.\<close>

definition netblockstrtoaddr ::
    "(nat \<Rightarrow> byte list \<Rightarrow> byte list option) \<Rightarrow> (byte list \<Rightarrow> int) \<Rightarrow> byte list \<Rightarrow> int \<Rightarrow>
     sockaddr_storage \<Rightarrow> (sockaddr_storage \<times> nat \<times> int) option option" where
  "netblockstrtoaddr pton ifindex str port addr =
     (let net = (if str_is_ip6 str then 128 else 32)
      in case c_strchr str 0x2f of
        None \<Rightarrow> Some (map_option (\<lambda>(addr, addrlen). (addr, addrlen, net))
                   (ipstrtoaddr pton ifindex (Some str) port addr))
      | Some (_, after) \<Rightarrow>
          if c_atoi after > net then Some None
          else let net = c_atoi after
            in if net = 0 \<and> after \<noteq> [0x30] then Some None
               else let buf = take 63 str;
                        buf = (case c_strchr buf 0x2f of Some (before, _) \<Rightarrow> before | None \<Rightarrow> buf)
                    in case ipstrtoaddr pton ifindex (Some buf) port addr of
                         None \<Rightarrow> Some None
                       | Some (addr, addrlen) \<Rightarrow> do {
                           addr \<leftarrow> addr_mask addr addrlen net;
                           Some (Some (addr, addrlen, net)) })"

text \<open>The last result is the name for authentication, if there is one.\<close>

definition authextstrtoaddr ::
    "(nat \<Rightarrow> byte list \<Rightarrow> byte list option) \<Rightarrow> (byte list \<Rightarrow> int) \<Rightarrow> byte list \<Rightarrow>
     sockaddr_storage \<Rightarrow> ((sockaddr_storage \<times> nat) \<times> byte list option) option" where
  "authextstrtoaddr pton ifindex str addr = (case c_strchr str 0x40 of
     Some (before, after) \<Rightarrow>
       (let auth_name = map_option snd (c_strchr after 0x23); port = c_atoi after
        in if length before \<ge> MAX_ADDR_STRLEN then None
           else if port = 0 \<and> auth_name = None \<and> after \<noteq> [0x30] then None
           else if port = 0 \<and> auth_name \<noteq> None \<and> take 2 after \<noteq> [0x30, 0x23] then None
           else map_option (\<lambda>r. (r, auth_name)) (ipstrtoaddr pton ifindex (Some before) port addr))
   | None \<Rightarrow> (case c_strchr str 0x23 of
       Some (before, after) \<Rightarrow>
         if length before \<ge> MAX_ADDR_STRLEN then None
         else map_option (\<lambda>r. (r, Some after))
                (ipstrtoaddr pton ifindex (Some before) UNBOUND_DNS_OVER_TLS_PORT addr)
     | None \<Rightarrow> map_option (\<lambda>r. (r, None)) (ipstrtoaddr pton ifindex (Some str) UNBOUND_DNS_PORT addr)))"

section \<open>Addresses as names\<close>

text \<open>
  The loop of \<open>ipdnametoaddr\<close>: \<open>i\<close> is the index of the next byte of the address, from the end. The
  result is the index and the structure, \<open>None\<close> for the return value 0; the outer option is a read
  after the end of the name.
\<close>

function ipdname_loop ::
    "bool \<Rightarrow> nat \<Rightarrow> nat \<Rightarrow> byte \<Rightarrow> byte list \<Rightarrow> nat \<Rightarrow> int \<Rightarrow> bool \<Rightarrow> sockaddr_storage \<Rightarrow>
     (int \<times> sockaddr_storage) option option" where
  "ipdname_loop ip6 labs dnamelen lablen dname len i z addr =
     (if lablen \<noteq> 0 \<and> i \<ge> 0 \<and> len \<le> dnamelen then
        if (\<not> ip6 \<and> (unat lablen > 3 \<or> labs > 6)) \<or> (ip6 \<and> (unat lablen > 4 \<or> labs > 10)) then Some None
        else do {
          two \<leftarrow> peek_bytes dname 0 2;
          r \<leftarrow> (if two = [0x7a, 0x7a] \<and> ip6 then
                  let zl = 11 - int labs
                  in Some (if z \<or> zl < 0 then None else Some (i - zl * 2, True, addr))
                else do {
                  buff \<leftarrow> peek_bytes dname 0 (unat lablen);
                  let (v, e) = c_strtol (if ip6 then 16 else 10) (takeWhile (\<lambda>b. b \<noteq> 0) buff);
                  let chunk = (of_int v :: u16);
                  if e \<noteq> [] \<or> (\<not> ip6 \<and> chunk > 255) then Some None
                  else if \<not> ip6 then do {
                    addr \<leftarrow> put_byte (4 + i) (ucast chunk) addr;
                    Some (Some (i - 1, z, addr)) }
                  else do {
                    addr \<leftarrow> put_byte (8 + i - 1) (ucast (drop_bit 8 chunk)) addr;
                    addr \<leftarrow> put_byte (8 + i) (ucast (chunk AND 0xff)) addr;
                    Some (Some (i - 2, z, addr)) } });
          (case r of None \<Rightarrow> Some None | Some (i, z, addr) \<Rightarrow> do {
            (lablen', dname') \<leftarrow> rd1 (drop (unat lablen) dname);
            ipdname_loop ip6 labs dnamelen lablen' dname' (len + unat lablen') i z addr }) }
      else Some (Some (i, addr)))"
  by pat_completeness auto
termination
  by (relation "measure (\<lambda>(ip6, labs, dnamelen, lablen, dname, len, i, z, addr). length dname)")
    (auto simp del: rd1_Some dest: rd1_drop_less)

declare ipdname_loop.simps [simp del]

definition ipdnametoaddr ::
    "byte list \<Rightarrow> nat \<Rightarrow> sockaddr_storage \<Rightarrow> (sockaddr_storage \<times> nat \<times> nat) option option" where
  "ipdnametoaddr dname dnamelen addr = do {
     labs \<leftarrow> dname_count_labels dname;
     if dnamelen < 1 then Some None
     else do {
       zz \<leftarrow> (if labs > 6 then Some True else dname_has_label dname dnamelen [2, 0x7a, 0x7a]);
       (lablen, rest) \<leftarrow> rd1 dname;
       let af = (if zz then AF_INET6 else AF_INET);
       let addrlen = (if zz then sizeof_sockaddr_in6 else sizeof_sockaddr_in);
       r \<leftarrow> ipdname_loop zz labs dnamelen lablen rest (unat lablen) (if zz then 15 else 3) False
              (clear_sockaddr af addrlen addr);
       Some (case r of None \<Rightarrow> None
             | Some (i, addr) \<Rightarrow> if i \<noteq> -1 then None else Some (addr, addrlen, af)) } }"

definition netblockdnametoaddr ::
    "byte list \<Rightarrow> nat \<Rightarrow> sockaddr_storage \<Rightarrow> (sockaddr_storage \<times> nat \<times> int \<times> nat) option option" where
  "netblockdnametoaddr dname dnamelen addr =
     (if dnamelen < 1 then Some None
      else do {
        (nlab, rest) \<leftarrow> rd1 dname;
        if unat nlab > 3 then Some None
        else if dnamelen < 1 + unat nlab then Some None
        else do {
          buff \<leftarrow> peek_bytes rest 0 (unat nlab);
          let buff = takeWhile (\<lambda>b. b \<noteq> 0) buff;
          let net = c_atoi buff;
          if net = 0 \<and> buff \<noteq> [0x30] then Some None
          else do {
            r \<leftarrow> ipdnametoaddr (drop (unat nlab) rest) (dnamelen - 1 - unat nlab) addr;
            Some (case r of None \<Rightarrow> None
              | Some (addr, addrlen, af) \<Rightarrow>
                  if af = AF_INET6 \<and> net > 128 \<or> af = AF_INET \<and> net > 32 then None
                  else Some (addr, addrlen, net, af)) } } })"

end
