(* ===== verification/Addr_Props.thy ===== *)
theory Addr_Props
  imports Addr_Parse
begin

text \<open>
  Netblocks as strings of bits: masking keeps the first bits of an address and clears the others,
  and the number of bits in common decides whether two addresses are in the same netblock. The last
  property is about netblocks with a negative number of bits.
\<close>

lemma zero_bytes_ok:
  "\<forall>i \<in> set is. 0 \<le> i \<and> i < int (length a) \<Longrightarrow>
   \<exists>a'. zero_bytes is a = Some a' \<and> length a' = length a \<and>
     (\<forall>j < length a. a' ! j = (if int j \<in> set is then 0 else a ! j))"
proof (induction "is" arbitrary: a)
  case (Cons i "is")
  then have "zero_bytes (i # is) a = zero_bytes is (a[nat i := 0])" by (simp add: put_byte_def)
  with Cons.IH [of "a[nat i := 0]"] Cons.prems show ?case by (auto simp: nth_list_update)
qed simp

lemma nth_bits_of: "j < 8 * length bs \<Longrightarrow> bits_of bs ! j = bit (bs ! (j div 8)) (7 - j mod 8)"
proof (induction bs arbitrary: j)
  case (Cons b bs)
  show ?case
  proof (cases "j < 8")
    case True
    then show ?thesis by (simp add: nth_append nth_byte_bits)
  next
    case False
    with Cons.prems have "bits_of bs ! (j - 8) = bit (bs ! ((j - 8) div 8)) (7 - (j - 8) mod 8)"
      by (intro Cons.IH) simp
    moreover have "j div 8 = Suc ((j - 8) div 8)" "(j - 8) mod 8 = j mod 8"
      using False by (simp_all add: le_div_geq le_mod_geq)
    ultimately show ?thesis using False by (simp add: nth_append)
  qed
qed simp

lemma less_div_mod: "(j :: nat) < k \<longleftrightarrow> j div 8 < k div 8 \<or> j div 8 = k div 8 \<and> j mod 8 < k mod 8"
proof -
  have "8 * a + b < 8 * c + d \<longleftrightarrow> a < c \<or> a = c \<and> b < d" if "b < 8" "d < 8" for a b c d :: nat
    using that by arith
  from this [of "j mod 8" "k mod 8" "j div 8" "k div 8"] show ?thesis by simp
qed

lemma mask_table_bits:
  assumes "r < 8" "i < 8"
  shows "bit (mask_table ! r) (7 - i) \<longleftrightarrow> i < r"
proof -
  have m: "\<forall>r \<in> {0, 1, 2, 3, 4, 5, 6, 7}. \<forall>i \<in> {0, 1, 2, 3, 4, 5, 6, 7}.
      bit (mask_table ! r) (7 - i) \<longleftrightarrow> i < r" by (simp add: mask_table_def)
  have "r \<in> {0, 1, 2, 3, 4, 5, 6, 7}" "i \<in> {0, 1, 2, 3, 4, 5, 6, 7}" using assms by auto
  from m [THEN bspec, OF this(1), THEN bspec, OF this(2)] show ?thesis .
qed

definition addr_width :: "sockaddr_storage \<Rightarrow> nat \<Rightarrow> nat" where
  "addr_width a len = 8 * snd (addr_field a len)"

lemma addr_field_cases: "addr_field a len = (8, 16) \<or> addr_field a len = (4, 4)"
  by (simp add: addr_field_def)

lemma length_addr_bits: "length a = 128 \<Longrightarrow> length (addr_bits a len) = addr_width a len"
  using addr_field_cases [of a len] by (auto simp: addr_bits_def addr_width_def)

lemma addr_field_same:
  "length a' = length a \<Longrightarrow> take 4 a' = take 4 a \<Longrightarrow> addr_field a' len = addr_field a len"
proof -
  assume "length a' = length a" "take 4 a' = take 4 a"
  moreover have "take 2 x = take 2 (take 4 x)" for x :: "byte list" by (simp add: min_def)
  ultimately have "field_bytes 0 2 a' = field_bytes 0 2 a" unfolding field_bytes_def drop_0 by metis
  then show ?thesis by (simp add: addr_field_def addr_is_ip6_def sin_family_def)
qed

lemma addr_mask_ok:
  assumes len: "length a = 128" and net: "net \<le> addr_width a len"
  shows "\<exists>a'. addr_mask a len (int net) = Some a' \<and> length a' = 128 \<and> take 4 a' = take 4 a \<and>
    addr_bits a' len = take net (addr_bits a len) @ replicate (addr_width a len - net) False"
proof (cases "net = addr_width a len")
  case True
  then have "addr_mask a len (int net) = Some a"
    by (auto simp: addr_mask_def addr_width_def split: prod.splits)
  with True len show ?thesis by (simp add: length_addr_bits)
next
  case False
  obtain s n where f: "addr_field a len = (s, n)" "4 \<le> s" "s + n \<le> 128"
    using addr_field_cases [of a len] by auto
  have w: "addr_width a len = 8 * n" "net < 8 * n" using f(1) False net by (simp_all add: addr_width_def)
  define q where "q = net div 8"
  have q: "int net sdiv 8 = int q" "q < n" "8 * int n sdiv 8 = int n"
    using w by (auto simp: q_def signed_divide_int_def zdiv_int less_mult_imp_div_less)
  have set_is: "set (map (\<lambda>i. int s + i) [int q + 1..int n - 1]) = {int (s + q) <..< int (s + n)}"
    by (auto simp: image_iff)
  from zero_bytes_ok [of "map (\<lambda>i. int s + i) [int q + 1..int n - 1]" a] obtain a1 where
    a1: "zero_bytes (map (\<lambda>i. int s + i) [int q + 1..int n - 1]) a = Some a1" "length a1 = 128"
    "\<forall>j < 128. a1 ! j = (if s + q < j \<and> j < s + n then 0 else a ! j)"
    using f len unfolding set_is by auto
  define a' where "a' = a1[s + q := a1 ! (s + q) AND mask_table ! (net mod 8)]"
  have nm: "nat (int net mod 8) = net mod 8" by (simp add: nat_mod_distrib)
  have m: "addr_mask a len (int net) = Some a'"
    using f q a1(1,2) w by (auto simp: addr_mask_def a'_def get_byte_def put_byte_def nat_int_add nm)
  have nth: "a' ! j = (if j = s + q then a ! j AND mask_table ! (net mod 8)
      else if s + q < j \<and> j < s + n then 0 else a ! j)" if "j < 128" for j
    using a1(2,3) f q that by (simp add: a'_def nth_list_update)
  have l: "length a' = 128" using a1(2) by (simp add: a'_def)
  have t4: "take 4 a' = take 4 a" using nth f(2) l len by (auto intro!: nth_equalityI)
  have b: "addr_bits x len = bits_of (take n (drop s x))" if "addr_field x len = (s, n)" for x
    using that by (simp add: addr_bits_def)
  have f': "addr_field a' len = (s, n)" using addr_field_same [OF _ t4] l len f(1) by simp
  have "addr_bits a' len = take net (addr_bits a len) @ replicate (addr_width a len - net) False"
  proof (rule nth_equalityI)
    fix j assume "j < length (addr_bits a' len)"
    then have j: "j < 8 * n" using l f f' by (simp add: b)
    then have jn: "j div 8 < n" "s + j div 8 < 128" using f by auto
    have bj: "addr_bits x len ! j = bit (x ! (s + j div 8)) (7 - j mod 8)"
      if "addr_field x len = (s, n)" "length x = 128" for x
      using that j jn f by (simp add: b nth_bits_of)
    have "bit (mask_table ! (net mod 8)) (7 - j mod 8) \<longleftrightarrow> j mod 8 < net mod 8"
      by (rule mask_table_bits) simp_all
    moreover have "j < net \<longleftrightarrow> j div 8 < q \<or> j div 8 = q \<and> j mod 8 < net mod 8"
      unfolding q_def by (rule less_div_mod)
    ultimately show "addr_bits a' len ! j = (take net (addr_bits a len) @ replicate (addr_width a len - net) False) ! j"
      using j jn w bj [OF f(1) len] bj [OF f' l] nth [OF jn(2)] length_addr_bits [OF len, of len]
      by (auto simp: nth_append bit_and_iff)
  qed (use l len f f' w in \<open>simp add: b\<close>)
  with m l t4 show ?thesis by blast
qed

lemma lcp_take:
  "n \<le> length xs \<Longrightarrow> n \<le> length ys \<Longrightarrow> n \<le> lcp_len xs ys \<longleftrightarrow> take n xs = take n ys"
proof (induction xs ys arbitrary: n rule: list_induct2')
  case (4 x xs y ys)
  then show ?case by (cases n) auto
qed simp_all

section \<open>Negative numbers of bits\<close>

lemma addr_mask_underrun:
  assumes "\<not> addr_is_ip6 a len" "net \<le> - 40"
  shows "addr_mask a len net = None"
proof -
  have "net sdiv 8 < - 4" using assms(2) by (simp add: signed_divide_int_def sgn_if)
  then have "get_byte (4 + net sdiv 8) a' = None" for a' by (simp add: get_byte_def)
  with assms show ?thesis
    by (cases "zero_bytes (map (\<lambda>i. int 4 + i) [net sdiv 8 + 1..8 * int 4 sdiv 8 - 1]) a")
      (simp_all add: addr_mask_def addr_field_def)
qed

lemma c_strchr_Some: "c_strchr s c = Some (p, r) \<longleftrightarrow> s = p @ c # r \<and> c \<notin> set p"
proof (induction s arbitrary: p)
  case (Cons b s)
  then show ?case by (cases p) (auto split: option.splits)
qed simp

lemma c_strchr_None: "c_strchr s c = None \<longleftrightarrow> c \<notin> set s"
  by (induction s) auto

section \<open>Properties\<close>

text \<open>
  C30. Two addresses of the same kind are in the same netblock of \<open>net\<close> bits, by \<open>addr_in_common\<close>,
  exactly when masking them to \<open>net\<close> bits gives the same address; masking never leaves the
  structure, and keeps the first \<open>net\<close> bits of the address and clears the others.
\<close>

theorem netblock_match:
  assumes "length a1 = 128" "length a2 = 128" "addr_field a1 len = addr_field a2 len"
    "net \<le> addr_width a1 len"
  shows "\<exists>m1 m2. addr_mask a1 len (int net) = Some m1 \<and> addr_mask a2 len (int net) = Some m2 \<and>
    addr_bits m1 len = take net (addr_bits a1 len) @ replicate (addr_width a1 len - net) False \<and>
    (addr_in_common a1 net a2 net len = Some net \<longleftrightarrow> addr_bits m1 len = addr_bits m2 len)"
proof -
  have w: "addr_width a2 len = addr_width a1 len" using assms(3) by (simp add: addr_width_def)
  from addr_mask_ok [OF assms(1,4)] obtain m1 where m1: "addr_mask a1 len (int net) = Some m1"
    "addr_bits m1 len = take net (addr_bits a1 len) @ replicate (addr_width a1 len - net) False" by blast
  from addr_mask_ok [OF assms(2), of net len] assms(4) obtain m2 where m2: "addr_mask a2 len (int net) = Some m2"
    "addr_bits m2 len = take net (addr_bits a2 len) @ replicate (addr_width a1 len - net) False"
    by (auto simp: w)
  have "addr_in_common a1 net a2 net len = Some net \<longleftrightarrow>
      net \<le> lcp_len (addr_bits a1 len) (addr_bits a2 len)"
    using addr_in_common_ok [OF assms(1-3), of net net] by auto
  also have "\<dots> \<longleftrightarrow> take net (addr_bits a1 len) = take net (addr_bits a2 len)"
    using assms(1,2,4) by (intro lcp_take) (simp_all add: length_addr_bits w)
  finally show ?thesis using m1 m2 by auto
qed

definition sample_ip4 :: "byte list \<Rightarrow> sockaddr_storage" where
  "sample_ip4 bs = [2, 0, 0, 53] @ bs @ replicate 120 0"

theorem netblock_match_witness:
  "\<exists>m1 m2. addr_mask (sample_ip4 [192, 0, 2, 77]) 16 24 = Some m1 \<and>
    addr_mask (sample_ip4 [192, 0, 2, 5]) 16 24 = Some m2 \<and> addr_bits m1 16 = addr_bits m2 16"
proof -
  have f: "addr_field (sample_ip4 [192, 0, 2, x]) 16 = (4, 4)" for x
    by (simp add: addr_field_def addr_is_ip6_def inet_consts)
  have "lead_zeros_loop 0x90 25 = Some 25" by (subst lead_zeros_loop.simps) simp
  then have "lead_zeros_loop 0x48 24 = Some 25" by (subst lead_zeros_loop.simps) simp
  moreover have "in_common_loop ([192, 0, 2, 77] @ r) ([192, 0, 2, 5] @ r) (Suc (Suc (Suc (Suc 0)))) 0 0 =
      lead_zeros_loop 0x48 24" for r by simp
  moreover have "Suc (Suc (Suc (Suc 0))) = 4" by simp
  ultimately have "in_common_loop ([192, 0, 2, 77] @ r) ([192, 0, 2, 5] @ r) 4 0 0 = Some 25" for r by metis
  then have "addr_in_common (sample_ip4 [192, 0, 2, 77]) 24 (sample_ip4 [192, 0, 2, 5]) 24 16 = Some 24"
    using f by (simp add: addr_in_common_def sample_ip4_def)
  with netblock_match [of "sample_ip4 [192, 0, 2, 77]" "sample_ip4 [192, 0, 2, 5]" 16 24] f
  show ?thesis by (auto simp: sample_ip4_def addr_width_def)
qed

text \<open>
  C33. A netblock with a negative number of bits is not refused: for an IPv4 address followed by
  \<open>/\<close> and a number of at most -40 the code goes on and writes before the address structure.
\<close>

theorem netblockstrtoaddr_negative_net:
  assumes "c_strchr str 0x2f = Some (ip, after)" "c_atoi after \<le> - 40" "\<not> str_is_ip6 str"
    "length ip < 63" "pton AF_INET ip = Some bs"
  shows "netblockstrtoaddr pton ifindex str port addr = None"
proof -
  from assms(1) have str: "str = ip @ 0x2f # after" "0x2f \<notin> set ip" by (simp_all add: c_strchr_Some)
  then have "take 63 str = ip @ 0x2f # take (62 - length ip) after"
    using assms(4) by (simp add: take_Cons')
  then have buf: "c_strchr (take 63 str) 0x2f = Some (ip, take (62 - length ip) after)"
    using str(2) by (simp add: c_strchr_Some)
  have ip: "\<not> str_is_ip6 ip" using assms(3) str by (simp add: str_is_ip6_def c_strchr_None)
  obtain a where a: "ipstrtoaddr pton ifindex (Some ip) port addr = Some (a, 16)"
    using ip assms(5) by (simp add: ipstrtoaddr_def sizeof_sockaddr_in_def Let_def)
  have "addr_mask a 16 (c_atoi after) = None"
    using assms(2) by (intro addr_mask_underrun) (simp_all add: addr_is_ip6_def inet_consts)
  with a buf assms(1-3) show ?thesis by (simp add: netblockstrtoaddr_def Let_def)
qed

theorem netblockstrtoaddr_negative_net_witness:
  "netblockstrtoaddr (\<lambda>af ip. if af = 2 \<and> ip = [0x31, 0x2e, 0x32, 0x2e, 0x33, 0x2e, 0x34] then Some [1, 2, 3, 4] else None)
     (\<lambda>s. 0) (ascii_bytes ''1.2.3.4/-40'') 53 (replicate 128 0) = None"
proof (rule netblockstrtoaddr_negative_net)
  show "c_strchr (ascii_bytes ''1.2.3.4/-40'') 0x2f =
      Some ([0x31, 0x2e, 0x32, 0x2e, 0x33, 0x2e, 0x34], [0x2d, 0x34, 0x30])" by code_simp
  show "c_atoi [0x2d, 0x34, 0x30] \<le> - 40" by code_simp
  show "\<not> str_is_ip6 (ascii_bytes ''1.2.3.4/-40'')" by code_simp
qed (simp_all add: AF_INET_def)

end
