(* ===== verification/Slab_Data.thy ===== *)
theory Slab_Data
  imports Slabhash_Props
begin

text \<open>
  Users of a table change the data of an entry that a lookup returned, while they hold the lock of
  the entry. The two definitions are the access \<open>e->data\<close> through the pointer; the lemmas say that
  the table stays well-formed when the size of an entry does not depend on its data.
\<close>

definition entry_data :: "('k, 'd) slabhash \<Rightarrow> u32 \<Rightarrow> addr \<Rightarrow> 'd option" where
  "entry_data sl h a = do {
     t \<leftarrow> slab_table sl (slab_idx sl h);
     e \<leftarrow> mem t a;
     Some (e_data e) }"

definition set_entry_data :: "u32 \<Rightarrow> addr \<Rightarrow> 'd \<Rightarrow> ('k, 'd) slabhash \<Rightarrow> ('k, 'd) slabhash option" where
  "set_entry_data h a d sl = on_table (slab_idx sl h) (upd_entry a (\<lambda>e. e\<lparr>e_data := d\<rparr>)) sl"

section \<open>One table\<close>

lemma lru_inv_set_data:
  assumes inv: "lru_inv t xs" and a: "a \<in> set xs" "mem t a = Some e"
    and sz: "sizefunc t (e_key e) d = sizefunc t (e_key e) (e_data e)"
  shows "lru_inv (t\<lparr>mem := (mem t)(a \<mapsto> e\<lparr>e_data := d\<rparr>)\<rparr>) xs"
proof (rule lru_inv_update [OF inv a(1), where d = d])
  show "row (mem t) a = Some (e_hash e, e_key e, e_data e)" using a(2) by (simp add: row_def)
  show "dls (lrl (mem (t\<lparr>mem := (mem t)(a \<mapsto> e\<lparr>e_data := d\<rparr>)\<rparr>))) None
      (lru_start (t\<lparr>mem := (mem t)(a \<mapsto> e\<lparr>e_data := d\<rparr>)\<rparr>)) xs
      (lru_end (t\<lparr>mem := (mem t)(a \<mapsto> e\<lparr>e_data := d\<rparr>)\<rparr>)) None"
    using inv a(2) by (simp add: lru_inv_def)
qed (use inv a sz in \<open>auto simp: lru_inv_def row_def ovl_def same_env_def\<close>)

lemma table_lookup_set:
  assumes t: "lru_table t rs" and l: "lruhash_lookup h k t = Some (Some a, t1)"
    and sz: "\<And>k d d'. sizefunc t k d = sizefunc t k d'"
  shows "\<exists>e t2. mem t1 a = Some e \<and> spec_find (compfunc t) h k rs = Some (e_data e) \<and>
    upd_entry a (\<lambda>e. e\<lparr>e_data := d\<rparr>) t1 = Some t2 \<and> same_env t t2 \<and>
    lru_table t2 (spec_put (compfunc t) h k d rs)"
proof -
  from t obtain xs where xs: "lru_inv t xs" "dom (mem t) = set xs" "rs = rows t xs"
    by (auto simp: lru_table_def)
  from lruhash_lookup_ok [OF xs(1), of h k] obtain m' st en xs' where
    0: "lruhash_lookup h k t = Some (find (matching t h k) xs, t\<lparr>mem := m', lru_start := st, lru_end := en\<rparr>)"
    "row m' = row (mem t)" "lru_inv (t\<lparr>mem := m', lru_start := st, lru_end := en\<rparr>) xs'"
    "xs' = (case find (matching t h k) xs of None \<Rightarrow> xs | Some a \<Rightarrow> a # remove1 a xs)" by blast
  have "find (matching t h k) xs = Some a" "t1 = t\<lparr>mem := m', lru_start := st, lru_end := en\<rparr>"
    using 0(1) l by simp_all
  with 0 have 1: "find (matching t h k) xs = Some a" "t1 = t\<lparr>mem := m', lru_start := st, lru_end := en\<rparr>"
    "row m' = row (mem t)" "lru_inv t1 xs'" "xs' = a # remove1 a xs" by simp_all
  have dx: "distinct xs" using xs(1) by (simp add: lru_inv_def)
  have a: "a \<in> set xs" using find_SomeD [OF 1(1)] by simp
  with lru_inv_row [OF xs(1)] obtain r where r: "row (mem t) a = Some r" by blast
  then obtain e where e: "mem t1 a = Some e" "r = (e_hash e, e_key e, e_data e)"
    using 1(2,3) by (auto simp: row_def fun_eq_iff split: option.splits dest!: spec [of _ a])
  define t2 where "t2 = t1\<lparr>mem := (mem t1)(a \<mapsto> e\<lparr>e_data := d\<rparr>)\<rparr>"
  have inv2: "lru_inv t2 xs'"
    unfolding t2_def using 1(2,4,5) e(1) sz by (intro lru_inv_set_data) simp_all
  have dom2: "dom (mem t2) = set xs'"
  proof -
    have "dom (mem t2) = dom (mem t1)" using e(1) by (auto simp: t2_def)
    also have "\<dots> = dom (mem t)" using 1(2,3) dom_row [of m'] dom_row [of "mem t"] by simp
    finally show ?thesis using xs(2) 1(5) a dx by auto
  qed
  have "rows t2 xs' = (e_hash e, e_key e, d) # map (\<lambda>c. the (row (mem t) c)) (remove1 a xs)"
  proof -
    have "row (mem t2) c = row (mem t) c" if "c \<in> set (remove1 a xs)" for c
      using that dx 1(2,3) by (auto simp: t2_def row_def fun_eq_iff dest!: spec [of _ c])
    moreover have "row (mem t2) a = Some (e_hash e, e_key e, d)" by (simp add: t2_def row_def)
    ultimately show ?thesis by (simp add: rows_def 1(5))
  qed
  moreover have "find (matches (compfunc t) h k) rs = Some (e_hash e, e_key e, e_data e)"
    using 1(1) r e(2) by (simp add: xs(3) find_rows)
  moreover have "map (\<lambda>c. the (row (mem t) c)) (remove1 a xs) = spec_remove (compfunc t) h k rs"
    using rows_remove [OF xs(1) 1(1)] by (simp add: xs(3) rows_def)
  ultimately have "rows t2 xs' = spec_put (compfunc t) h k d rs"
    "spec_find (compfunc t) h k rs = Some (e_data e)" by (simp_all add: spec_put_def spec_find_def)
  moreover have "same_env t t2" by (simp add: t2_def 1(2) same_env_def)
  moreover have "upd_entry a (\<lambda>e. e\<lparr>e_data := d\<rparr>) t1 = Some t2" using e(1) by (simp add: upd_entry_def t2_def)
  ultimately show ?thesis using e(1) inv2 dom2 unfolding lru_table_def by metis
qed

section \<open>The partitioned table\<close>

locale fixed_size_table = hash_table cmp szf alloc
  for cmp :: "'k \<Rightarrow> 'k \<Rightarrow> int" and szf :: "'k \<Rightarrow> 'd \<Rightarrow> u64" and alloc :: "('k, 'd) heap \<Rightarrow> addr" +
  assumes size_data: "szf k d = szf k d'"
begin

lemma slab_lookup_set:
  assumes s: "slab_cache cmp szf s"
  shows "\<exists>r s1. slabhash_lookup h k s = Some (r, s1) \<and> slab_cache cmp szf s1 \<and> slab_get s1 = slab_get s \<and>
    slab_idx s1 = slab_idx s \<and>
    (case r of None \<Rightarrow> slab_get s h k = None
     | Some a \<Rightarrow> entry_data s1 h a = slab_get s h k \<and> slab_get s h k \<noteq> None \<and>
         (\<forall>d. \<exists>s2. set_entry_data h a d s1 = Some s2 \<and> slab_cache cmp szf s2 \<and> slab_idx s2 = slab_idx s \<and>
            (\<forall>h' k'. slab_get s2 h' k' = (if h = h' \<and> cmp k k' = 0 then Some d else slab_get s h' k'))))"
proof -
  from s obtain mx rss where rss: "slab_holds cmp szf mx s rss" by (auto simp: slab_cache_def)
  define i where "i = slab_idx s h"
  have il: "i < sl_size s" unfolding i_def by (rule slab_holds_idx [OF rss])
  with rss obtain t where t: "slab_table s i = Some t" "lru_table t (rss i)"
    "compfunc t = cmp" "sizefunc t = szf" "space_max t = mx" by (rule slab_holds_table)
  from table_lookup [OF t(2), of h k] obtain r t1 where
    t1: "lruhash_lookup h k t = Some (r, t1)" "same_env t t1" "lru_table t1 (spec_touch cmp h k (rss i))"
    "case r of None \<Rightarrow> spec_find cmp h k (rss i) = None
     | Some a \<Rightarrow> \<exists>e. mem t1 a = Some e \<and> spec_find cmp h k (rss i) = Some (e_data e)" unfolding t(3) by blast
  define s1 where "s1 = set_table i t1 s"
  have env1: "compfunc t1 = cmp" "sizefunc t1 = szf" "space_max t1 = mx"
    using t1(2) t by (simp_all add: same_env_def)
  have h1: "slab_holds cmp szf mx s1 (rss(i := spec_touch cmp h k (rss i)))"
    unfolding s1_def by (rule slab_holds_set [OF rss il t1(3) env1])
  have idx1: "slab_idx s1 = slab_idx s" by (simp add: s1_def)
  have tab1: "slab_table s1 i = Some t1"
    unfolding s1_def by (rule slab_table_set [OF slab_table_bound [OF t(1)]])
  have g: "slab_get s h' k' = spec_find cmp h' k' (rss (slab_idx s h'))" for h' k'
    by (rule slab_get_rows [OF rss])
  have "slab_get s1 h' k' = slab_get s h' k'" for h' k'
    using slab_get_rows [OF h1, of h' k'] by (simp add: g idx1 spec_find_touch)
  then have g1: "slab_get s1 = slab_get s" by (simp add: fun_eq_iff)
  have l1: "slabhash_lookup h k s = Some (r, s1)"
    using t(1) t1(1) by (simp add: slabhash_lookup_def i_def s1_def)
  have set: "\<exists>s2. set_entry_data h a d s1 = Some s2 \<and> slab_cache cmp szf s2 \<and> slab_idx s2 = slab_idx s \<and>
      (\<forall>h' k'. slab_get s2 h' k' = (if h = h' \<and> cmp k k' = 0 then Some d else slab_get s h' k'))"
    if r: "r = Some a" for a d
  proof -
    have "sizefunc t k d = sizefunc t k d'" for k d d' unfolding t(4) by (rule size_data)
    from table_lookup_set [OF t(2) t1(1) [unfolded r] this, of d] obtain t2 where
      t2: "upd_entry a (\<lambda>e. e\<lparr>e_data := d\<rparr>) t1 = Some t2" "same_env t t2"
      "lru_table t2 (spec_put cmp h k d (rss i))" unfolding t(3) by blast
    have env2: "compfunc t2 = cmp" "sizefunc t2 = szf" "space_max t2 = mx"
      using t2(2) t by (simp_all add: same_env_def)
    define s2 where "s2 = set_table i t2 s1"
    have h2: "slab_holds cmp szf mx s2 ((rss(i := spec_touch cmp h k (rss i)))(i := spec_put cmp h k d (rss i)))"
      unfolding s2_def using il by (intro slab_holds_set [OF h1 _ t2(3) env2]) (simp add: s1_def)
    have idx2: "slab_idx s2 = slab_idx s" by (simp add: s2_def idx1)
    have "slab_get s2 h' k' = (if h = h' \<and> cmp k k' = 0 then Some d else slab_get s h' k')" for h' k'
      using slab_get_rows [OF h2, of h' k'] by (auto simp: g idx2 spec_find_put i_def)
    moreover have "set_entry_data h a d s1 = Some s2"
      using tab1 t2(1) idx1 by (simp add: set_entry_data_def on_table_def s2_def i_def)
    ultimately show ?thesis using h2 idx2 by (auto simp: slab_cache_def)
  qed
  have c1: "slab_cache cmp szf s1" using h1 by (auto simp: slab_cache_def)
  show ?thesis
  proof (cases r)
    case None
    with t1(4) l1 c1 g1 idx1 show ?thesis by (simp add: g i_def)
  next
    case (Some a)
    with t1(4) tab1 idx1 have "entry_data s1 h a = slab_get s h k \<and> slab_get s h k \<noteq> None"
      by (auto simp: g entry_data_def i_def)
    with set [OF Some] l1 c1 g1 idx1 Some show ?thesis by simp
  qed
qed

lemma slab_get_same:
  assumes s: "slab_cache cmp szf s" and k: "cmp k k' = 0"
  shows "slab_get s h k' = slab_get s h k"
proof -
  from s obtain mx rss where rss: "slab_holds cmp szf mx s rss" by (auto simp: slab_cache_def)
  have "matches cmp h k' r = matches cmp h k r" for r :: "u32 \<times> 'k \<times> 'd"
    using k cmp_sym [OF k] cmp_trans [of "fst (snd r)" k k'] cmp_trans [of "fst (snd r)" k' k]
    by (auto simp: matches_def)
  then have "matches cmp h k' = (matches cmp h k :: u32 \<times> 'k \<times> 'd \<Rightarrow> bool)" by (rule ext)
  then show ?thesis by (simp add: slab_get_rows [OF rss] spec_find_def)
qed

end

section \<open>Writing twice\<close>

lemma set_entry_data_twice:
  assumes "set_entry_data h a d s = Some s2"
  shows "entry_data s2 h a = Some d" "set_entry_data h a d' s2 = set_entry_data h a d' s"
proof -
  from assms obtain t e where t: "slab_table s (slab_idx s h) = Some t" "mem t a = Some e"
    "s2 = set_table (slab_idx s h) (t\<lparr>mem := (mem t)(a \<mapsto> e\<lparr>e_data := d\<rparr>)\<rparr>) s"
    by (auto simp: set_entry_data_def on_table_def upd_entry_def split: bind_splits)
  note b = slab_table_set [OF slab_table_bound [OF t(1)]]
  show "entry_data s2 h a = Some d" by (simp add: entry_data_def t(3) b)
  show "set_entry_data h a d' s2 = set_entry_data h a d' s"
    by (simp add: set_entry_data_def on_table_def upd_entry_def t b)
qed

end
