(* ===== verification/Infra_Keys.thy ===== *)
theory Infra_Keys
  imports Slab_Data Sockaddr Dname_Props
begin

text \<open>
  The keys of the infrastructure cache of \<open>services/cache/infra.c\<close>, with the callbacks that its three
  hash tables are created with, and the hash values of the keys. A zone name in a key is a pointer to
  a valid name in wire format, a value of the type \<open>wire_name\<close>; what the key comparison returns is then
  always defined. Sizes of C structures are parameters.
\<close>

section \<open>Keys\<close>

typedef wire_name = "{d. \<exists>ls. dname_ok ls \<and> d = wire ls}"
  morphisms name_bytes Wire_name
  by (auto intro!: exI [of _ "[]"] simp: dname_ok_def)

lemma name_bytes_labels:
  obtains ls where "dname_ok ls" "name_bytes n = wire ls" "labels_of (name_bytes n) = Some ls"
proof -
  from name_bytes [of n] obtain ls where ls: "dname_ok ls" "name_bytes n = wire ls" by auto
  with labels_of_wire [of ls "[]"] that show ?thesis by (simp add: dname_ok_def)
qed

record infra_key =
  ik_addr :: sockaddr_storage
  ik_addrlen :: nat
  ik_zonename :: wire_name
  ik_namelen :: nat

record rate_key =
  rk_name :: wire_name
  rk_namelen :: nat

record ip_rate_key =
  irk_addr :: sockaddr_storage
  irk_addrlen :: nat

text \<open>The sizes of the key, of the data and of the lock of an entry.\<close>

record struct_sizes =
  sz_key :: u64
  sz_data :: u64
  sz_lock :: u64

section \<open>The callbacks\<close>

definition infra_sizefunc :: "struct_sizes \<Rightarrow> infra_key \<Rightarrow> 'd \<Rightarrow> u64" where
  "infra_sizefunc sz k d = sz_key sz + sz_data sz + of_nat (ik_namelen k) + sz_lock sz"

definition infra_compfunc :: "infra_key \<Rightarrow> infra_key \<Rightarrow> int" where
  "infra_compfunc k1 k2 =
     (let r = sockaddr_cmp (ik_addr k1) (ik_addrlen k1) (ik_addr k2) (ik_addrlen k2)
      in if r \<noteq> 0 then r
         else if ik_namelen k1 \<noteq> ik_namelen k2 then (if ik_namelen k1 < ik_namelen k2 then -1 else 1)
         else the (query_dname_compare (name_bytes (ik_zonename k1)) (name_bytes (ik_zonename k2))))"

definition rate_sizefunc :: "struct_sizes \<Rightarrow> rate_key \<Rightarrow> 'd \<Rightarrow> u64" where
  "rate_sizefunc sz k d = sz_key sz + sz_data sz + of_nat (rk_namelen k) + sz_lock sz"

definition rate_compfunc :: "rate_key \<Rightarrow> rate_key \<Rightarrow> int" where
  "rate_compfunc k1 k2 =
     (if rk_namelen k1 \<noteq> rk_namelen k2 then (if rk_namelen k1 < rk_namelen k2 then -1 else 1)
      else the (query_dname_compare (name_bytes (rk_name k1)) (name_bytes (rk_name k2))))"

definition ip_rate_sizefunc :: "struct_sizes \<Rightarrow> ip_rate_key \<Rightarrow> 'd \<Rightarrow> u64" where
  "ip_rate_sizefunc sz k d = sz_key sz + sz_data sz + sz_lock sz"

definition ip_rate_compfunc :: "ip_rate_key \<Rightarrow> ip_rate_key \<Rightarrow> int" where
  "ip_rate_compfunc k1 k2 =
     sockaddr_cmp_addr (irk_addr k1) (irk_addrlen k1) (irk_addr k2) (irk_addrlen k2)"

section \<open>Hash values\<close>

text \<open>What \<open>hashlittle\<close> depends on besides the bytes: the byte order of the host, the addresses of the
  socket address and of the label buffer, the random initial value.\<close>

record hash_env =
  he_little :: bool
  he_addr :: nat
  he_labuf :: nat
  he_raninit :: u32

definition hash_addr :: "hash_env \<Rightarrow> sockaddr_storage \<Rightarrow> nat \<Rightarrow> bool \<Rightarrow> u32 option" where
  "hash_addr he addr addrlen use_port =
     (let hl = (\<lambda>off n h. hashlittle (he_little he) (he_addr he + off) (he_raninit he)
                  (field_bytes off n addr) n h)
      in if addr_is_ip6 addr addrlen then do {
           h \<leftarrow> hl 0 2 0xab;
           h \<leftarrow> (if use_port then hl 2 2 h else Some h);
           hl 8 INET6_SIZE h }
         else do {
           h \<leftarrow> hl 0 2 0xab;
           h \<leftarrow> (if use_port then hl 2 2 h else Some h);
           hl 4 INET_SIZE h })"

definition hash_infra :: "hash_env \<Rightarrow> sockaddr_storage \<Rightarrow> nat \<Rightarrow> wire_name \<Rightarrow> u32 option" where
  "hash_infra he addr addrlen name = do {
     h \<leftarrow> hash_addr he addr addrlen True;
     dname_query_hash (he_little he) (he_labuf he) (he_raninit he) (name_bytes name) h }"

definition hash_rate :: "hash_env \<Rightarrow> wire_name \<Rightarrow> u32 option" where
  "hash_rate he name =
     dname_query_hash (he_little he) (he_labuf he) (he_raninit he) (name_bytes name) 0xab"

section \<open>The callbacks satisfy the contract of the hash table\<close>

text \<open>The labels of a name in lower case: what comparison and hashing see of it.\<close>

definition name_key :: "wire_name \<Rightarrow> label list" where
  "name_key n = lowers (the (labels_of (name_bytes n)))"

lemma name_compare_eq_0:
  "the (query_dname_compare (name_bytes a) (name_bytes b)) = 0 \<longleftrightarrow> name_key a = name_key b"
proof -
  obtain la where "labels_of (name_bytes a) = Some la" by (rule name_bytes_labels)
  moreover obtain lb where "labels_of (name_bytes b) = Some lb" by (rule name_bytes_labels)
  ultimately show ?thesis by (simp add: labels_of_query_compare name_key_def)
qed

lemma infra_compfunc_eq_0:
  "infra_compfunc k1 k2 = 0 \<longleftrightarrow>
     (sockaddr_key (ik_addr k1, ik_addrlen k1), ik_namelen k1, name_key (ik_zonename k1)) =
     (sockaddr_key (ik_addr k2, ik_addrlen k2), ik_namelen k2, name_key (ik_zonename k2))"
  by (auto simp: infra_compfunc_def Let_def name_compare_eq_0 sockaddr_cmp_key)

lemma rate_compfunc_eq_0:
  "rate_compfunc k1 k2 = 0 \<longleftrightarrow>
     (rk_namelen k1, name_key (rk_name k1)) = (rk_namelen k2, name_key (rk_name k2))"
  by (auto simp: rate_compfunc_def name_compare_eq_0)

lemma ip_rate_compfunc_eq_0:
  "ip_rate_compfunc k1 k2 = 0 \<longleftrightarrow>
     sockaddr_addr_key (irk_addr k1, irk_addrlen k1) = sockaddr_addr_key (irk_addr k2, irk_addrlen k2)"
  by (auto simp: ip_rate_compfunc_def sockaddr_cmp_addr_key)

interpretation infra_hosts:
  fixed_size_table infra_compfunc "infra_sizefunc sz :: infra_key \<Rightarrow> 'd \<Rightarrow> u64" next_addr for sz
  by unfold_locales (auto simp: infra_compfunc_eq_0 infra_sizefunc_def next_addr_fresh)

interpretation domain_rates:
  fixed_size_table rate_compfunc "rate_sizefunc sz :: rate_key \<Rightarrow> 'd \<Rightarrow> u64" next_addr for sz
  by unfold_locales (auto simp: rate_compfunc_eq_0 rate_sizefunc_def next_addr_fresh)

interpretation client_ip_rates:
  fixed_size_table ip_rate_compfunc "ip_rate_sizefunc sz :: ip_rate_key \<Rightarrow> 'd \<Rightarrow> u64" next_addr for sz
  by unfold_locales (auto simp: ip_rate_compfunc_eq_0 ip_rate_sizefunc_def next_addr_fresh)

section \<open>Equal keys have the same hash value\<close>

lemma name_hash_key:
  "\<exists>v. dname_query_hash le la ini (name_bytes n) h = Some v \<and>
    (\<forall>n'. name_key n' = name_key n \<longrightarrow> dname_query_hash le la ini (name_bytes n') h = Some v)"
proof -
  obtain ls where ls: "labels_of (name_bytes n) = Some ls" by (rule name_bytes_labels)
  have "dname_query_hash le la ini (name_bytes n') h = Some (fold (label_hash le la ini) ls h)"
    if n': "name_key n' = name_key n" for n'
  proof -
    obtain ls' where ls': "labels_of (name_bytes n') = Some ls'" by (rule name_bytes_labels)
    with ls n' have "lowers ls' = lowers ls" by (simp add: name_key_def)
    from fold_label_hash_lowers [OF this] ls' show ?thesis by (simp add: dname_query_hash_labels)
  qed
  from this [of n] this show ?thesis by auto
qed

text \<open>The socket addresses that the cache is used with.\<close>

definition sockaddr_ok :: "sockaddr_storage \<Rightarrow> nat \<Rightarrow> bool" where
  "sockaddr_ok a len \<longleftrightarrow> length a = 128 \<and>
     (sin_family a = AF_INET \<and> len = sizeof_sockaddr_in \<or> sin_family a = AF_INET6 \<and> len = sizeof_sockaddr_in6)"

lemma host16_inject:
  assumes "length xs = 2" "length ys = 2" "host16 xs = host16 ys"
  shows "xs = ys"
proof -
  from assms(1,2) obtain x y u v where l: "xs = [x, y]" "ys = [u, v]"
    by (auto simp: length_Suc_conv numeral_2_eq_2)
  have e: "unat x + 256 * unat y = unat u + 256 * unat v" using assms(3) by (simp add: l)
  have "unat x = (unat x + 256 * unat y) mod 256" "unat u = (unat u + 256 * unat v) mod 256" by simp_all
  moreover have "unat y = (unat x + 256 * unat y) div 256" "unat v = (unat u + 256 * unat v) div 256" by simp_all
  ultimately have "unat x = unat u" "unat y = unat v" unfolding e by presburger+
  then show ?thesis by (simp add: l word_unat_eq_iff)
qed

lemma hashlittle_enough: "n \<le> length key \<Longrightarrow> \<exists>v. hashlittle le a ini key n h = Some v"
  by (auto simp: hashlittle_def Let_def)

lemma sockaddr_key_fields:
  assumes "sockaddr_ok a la" "sockaddr_ok b lb"
  shows "sockaddr_key (a, la) = sockaddr_key (b, lb) \<Longrightarrow>
      la = lb \<and> addr_is_ip6 b lb = addr_is_ip6 a la \<and> field_bytes 0 2 b = field_bytes 0 2 a \<and>
      field_bytes 2 2 b = field_bytes 2 2 a \<and>
      (if addr_is_ip6 a la then sin6_addr b = sin6_addr a else sin_addr b = sin_addr a)"
    and "sockaddr_addr_key (a, la) = sockaddr_addr_key (b, lb) \<Longrightarrow>
      la = lb \<and> addr_is_ip6 b lb = addr_is_ip6 a la \<and> field_bytes 0 2 b = field_bytes 0 2 a \<and>
      (if addr_is_ip6 a la then sin6_addr b = sin6_addr a else sin_addr b = sin_addr a)"
proof -
  have l: "length (field_bytes 0 2 a) = 2" "length (field_bytes 0 2 b) = 2"
    "length (field_bytes 2 2 a) = 2" "length (field_bytes 2 2 b) = 2"
    using assms by (simp_all add: sockaddr_ok_def field_bytes_def)
  have inj: "map unat xs = map unat ys \<longleftrightarrow> xs = (ys :: byte list)" for xs ys
    by (simp add: inj_map_eq_map inj_on_def word_unat_eq_iff)
  have fam: "field_bytes 0 2 b = field_bytes 0 2 a" if "sin_family a = sin_family b"
    using that l by (intro host16_inject) (simp_all add: sin_family_def)
  have port: "field_bytes 2 2 b = field_bytes 2 2 a" if "sin_port a = sin_port b"
    using that l by (intro host16_inject) (simp_all add: sin_port_def)
  show "sockaddr_key (a, la) = sockaddr_key (b, lb) \<Longrightarrow>
      la = lb \<and> addr_is_ip6 b lb = addr_is_ip6 a la \<and> field_bytes 0 2 b = field_bytes 0 2 a \<and>
      field_bytes 2 2 b = field_bytes 2 2 a \<and>
      (if addr_is_ip6 a la then sin6_addr b = sin6_addr a else sin_addr b = sin_addr a)"
    using assms fam port by (auto simp: sockaddr_key_def sockaddr_ok_def addr_is_ip6_def inj inet_consts)
  show "sockaddr_addr_key (a, la) = sockaddr_addr_key (b, lb) \<Longrightarrow>
      la = lb \<and> addr_is_ip6 b lb = addr_is_ip6 a la \<and> field_bytes 0 2 b = field_bytes 0 2 a \<and>
      (if addr_is_ip6 a la then sin6_addr b = sin6_addr a else sin_addr b = sin_addr a)"
    using assms fam by (auto simp: sockaddr_addr_key_def sockaddr_ok_def addr_is_ip6_def inj inet_consts)
qed

lemma hash_addr_total:
  assumes "sockaddr_ok a la"
  shows "\<exists>v. hash_addr he a la p = Some v"
proof -
  have l: "length (field_bytes 0 2 a) = 2" "length (field_bytes 2 2 a) = 2"
    "length (field_bytes 8 INET6_SIZE a) = INET6_SIZE" "length (field_bytes 4 INET_SIZE a) = INET_SIZE"
    using assms by (simp_all add: sockaddr_ok_def field_bytes_def inet_consts)
  have t: "\<exists>v. hashlittle (he_little he) x (he_raninit he) key n h = Some v" if "length key = n" for x key n h
    by (rule hashlittle_enough) (simp add: that)
  obtain h0 where h0: "hashlittle (he_little he) (he_addr he + 0) (he_raninit he) (field_bytes 0 2 a) 2 0xab = Some h0"
    using t [OF l(1)] by blast
  obtain h1 where h1: "(if p then hashlittle (he_little he) (he_addr he + 2) (he_raninit he) (field_bytes 2 2 a) 2 h0
      else Some h0) = Some h1"
    using t [OF l(2)] by (cases p) auto
  obtain h6 where h6: "hashlittle (he_little he) (he_addr he + 8) (he_raninit he) (field_bytes 8 INET6_SIZE a) INET6_SIZE h1 = Some h6"
    using t [OF l(3)] by blast
  obtain h4 where h4: "hashlittle (he_little he) (he_addr he + 4) (he_raninit he) (field_bytes 4 INET_SIZE a) INET_SIZE h1 = Some h4"
    using t [OF l(4)] by blast
  show ?thesis unfolding hash_addr_def Let_def h0 bind.bind_lunit h1 h6 h4 by simp
qed

lemma hash_addr_key:
  assumes "sockaddr_ok a la" "sockaddr_ok b lb"
  shows "sockaddr_key (a, la) = sockaddr_key (b, lb) \<Longrightarrow> hash_addr he b lb p = hash_addr he a la p"
    and "sockaddr_addr_key (a, la) = sockaddr_addr_key (b, lb) \<Longrightarrow> hash_addr he b lb False = hash_addr he a la False"
  using sockaddr_key_fields [OF assms]
  by (cases p; auto simp: hash_addr_def Let_def sin_addr_def sin6_addr_def split: if_splits)+

lemma hash_infra_total:
  assumes "sockaddr_ok a la"
  shows "\<exists>v. hash_infra he a la n = Some v"
proof -
  from hash_addr_total [OF assms, of he True] obtain h where "hash_addr he a la True = Some h" by blast
  with name_hash_key [of "he_little he" "he_labuf he" "he_raninit he" n h] show ?thesis
    by (auto simp: hash_infra_def)
qed

lemma hash_infra_key:
  assumes "sockaddr_ok a la" "sockaddr_ok b lb" "sockaddr_key (a, la) = sockaddr_key (b, lb)"
    "name_key n = name_key n'"
  shows "hash_infra he b lb n' = hash_infra he a la n"
proof -
  from hash_addr_total [OF assms(1), of he True] obtain h where h: "hash_addr he a la True = Some h" by blast
  with hash_addr_key(1) [OF assms(1,2,3)] have "hash_addr he b lb True = Some h" by simp
  with h name_hash_key [of "he_little he" "he_labuf he" "he_raninit he" n h] assms(4) show ?thesis
    by (auto simp: hash_infra_def)
qed

section \<open>Properties\<close>

text \<open>
  Keys of the host cache that compare equal (same address and port, same zone name up to letter
  case) have the same hash value, which is always defined: a lookup with an equal key goes to the slab
  and to the bin where the entry is.
\<close>

lemma infra_equal_keys_equal_hash:
  assumes "sockaddr_ok (ik_addr k1) (ik_addrlen k1)" "sockaddr_ok (ik_addr k2) (ik_addrlen k2)"
    "infra_compfunc k1 k2 = 0"
  shows "\<exists>h. hash_infra he (ik_addr k1) (ik_addrlen k1) (ik_zonename k1) = Some h \<and>
    hash_infra he (ik_addr k2) (ik_addrlen k2) (ik_zonename k2) = Some h"
proof -
  from hash_infra_total [OF assms(1)] obtain h where
    "hash_infra he (ik_addr k1) (ik_addrlen k1) (ik_zonename k1) = Some h" by blast
  moreover have eq: "sockaddr_key (ik_addr k1, ik_addrlen k1) = sockaddr_key (ik_addr k2, ik_addrlen k2)"
    "name_key (ik_zonename k1) = name_key (ik_zonename k2)" using assms(3) by (simp_all add: infra_compfunc_eq_0)
  ultimately show ?thesis using hash_infra_key [OF assms(1,2) eq, of he] by simp
qed

definition sample_sockaddr :: "byte \<Rightarrow> sockaddr_storage" where
  "sample_sockaddr x = [2, 0, 0, 53, 192, 0, 2, 1] @ replicate 8 0 @ [x] @ replicate 111 0"

lemma sample_sockaddr_ok: "sockaddr_ok (sample_sockaddr x) 16"
  by (simp add: sockaddr_ok_def sample_sockaddr_def sin_family_def field_bytes_def inet_consts)

definition sample_name :: "byte \<Rightarrow> wire_name" where
  "sample_name x = Wire_name [3, x, 98, 99, 0]"

lemma sample_name_bytes: "name_bytes (sample_name x) = [3, x, 98, 99, 0]"
  unfolding sample_name_def
  by (rule Wire_name_inverse) (auto intro!: exI [of _ "[[x, 98, 99]]"] simp: dname_ok_def label_ok_def)

end
