(* ===== verification/Rtt.thy ===== *)
theory Rtt
  imports Main "HOL-Library.Signed_Division"
begin

text \<open>
  The retransmission timeouts of \<open>util/rtt.c\<close>. The numbers are \<open>int\<close> of C: the result of every
  operation is reduced to 32 bits by \<open>i32\<close>, and division truncates. The limits that the configuration
  sets are a record.
\<close>

definition i32 :: "int \<Rightarrow> int" where
  "i32 x = signed_take_bit 31 x"

lemma i32_id: "- (2 ^ 31) \<le> x \<Longrightarrow> x < 2 ^ 31 \<Longrightarrow> i32 x = x"
  by (simp add: i32_def signed_take_bit_int_eq_self)

record rtt_info =
  srtt :: int
  rttvar :: int
  rto :: int

record server_limits =
  RTT_MIN_TIMEOUT :: int
  RTT_MAX_TIMEOUT :: int
  UNKNOWN_SERVER_NICENESS :: int
  USEFUL_SERVER_TOP_TIMEOUT :: int

definition calc_rto :: "server_limits \<Rightarrow> rtt_info \<Rightarrow> int" where
  "calc_rto c rtt =
     (let r = i32 (srtt rtt + i32 (4 * rttvar rtt));
          r = (if r < RTT_MIN_TIMEOUT c then RTT_MIN_TIMEOUT c else r)
      in if r > RTT_MAX_TIMEOUT c then RTT_MAX_TIMEOUT c else r)"

definition rtt_init :: "server_limits \<Rightarrow> rtt_info \<Rightarrow> rtt_info" where
  "rtt_init c rtt =
     (let rtt = rtt\<lparr>srtt := 0\<rparr>;
          rtt = rtt\<lparr>rttvar := UNKNOWN_SERVER_NICENESS c sdiv 4\<rparr>
      in rtt\<lparr>rto := calc_rto c rtt\<rparr>)"

definition rtt_timeout :: "rtt_info \<Rightarrow> int" where
  "rtt_timeout rtt = rto rtt"

definition rtt_unclamped :: "server_limits \<Rightarrow> rtt_info \<Rightarrow> int" where
  "rtt_unclamped c rtt =
     (if calc_rto c rtt \<noteq> rto rtt then rto rtt else i32 (srtt rtt + i32 (4 * rttvar rtt)))"

definition rtt_update :: "server_limits \<Rightarrow> rtt_info \<Rightarrow> int \<Rightarrow> rtt_info" where
  "rtt_update c rtt ms =
     (let delta = i32 (ms - srtt rtt);
          rtt = rtt\<lparr>srtt := i32 (srtt rtt + delta sdiv 8)\<rparr>;
          delta = (if delta < 0 then i32 (- delta) else delta);
          rtt = rtt\<lparr>rttvar := i32 (rttvar rtt + i32 (delta - rttvar rtt) sdiv 4)\<rparr>
      in rtt\<lparr>rto := calc_rto c rtt\<rparr>)"

definition rtt_lost :: "server_limits \<Rightarrow> rtt_info \<Rightarrow> int \<Rightarrow> rtt_info" where
  "rtt_lost c rtt orig =
     (if rto rtt < orig then rtt
      else let orig = i32 (orig * 2)
        in if rto rtt \<le> orig then
             let rtt = rtt\<lparr>rto := orig\<rparr>
             in if rto rtt > RTT_MAX_TIMEOUT c then rtt\<lparr>rto := RTT_MAX_TIMEOUT c\<rparr> else rtt
           else rtt)"

definition rtt_notimeout :: "server_limits \<Rightarrow> rtt_info \<Rightarrow> int" where
  "rtt_notimeout c rtt = calc_rto c rtt"

section \<open>Bounds\<close>

definition limits_ok :: "server_limits \<Rightarrow> bool" where
  "limits_ok c \<longleftrightarrow> 0 \<le> RTT_MIN_TIMEOUT c \<and> RTT_MIN_TIMEOUT c \<le> RTT_MAX_TIMEOUT c \<and>
     RTT_MAX_TIMEOUT c < 2 ^ 30 \<and> 0 \<le> UNKNOWN_SERVER_NICENESS c \<and> UNKNOWN_SERVER_NICENESS c < 2 ^ 30"

text \<open>The measurements are below \<open>M\<close>; with \<open>M\<close> up to 429,000,000 milliseconds nothing overflows.\<close>

definition rtt_ok :: "int \<Rightarrow> rtt_info \<Rightarrow> bool" where
  "rtt_ok M r \<longleftrightarrow> 0 \<le> srtt r \<and> srtt r \<le> M \<and> 0 \<le> rttvar r \<and> rttvar r \<le> M"

lemma div_le_self: "0 \<le> x \<Longrightarrow> 0 < n \<Longrightarrow> x div n \<le> (x :: int)"
proof -
  assume x: "0 \<le> x" "0 < n"
  then have "x div n * 1 \<le> x div n * n" by (intro mult_left_mono) (auto simp: pos_imp_zdiv_nonneg_iff)
  also have "\<dots> \<le> x" using x by (simp add: minus_mod_eq_div_mult [symmetric])
  finally show ?thesis by simp
qed

lemma sdiv_between:
  fixes d n :: int
  assumes "0 < n"
  shows "0 \<le> d \<Longrightarrow> 0 \<le> d sdiv n \<and> d sdiv n \<le> d" "d \<le> 0 \<Longrightarrow> d \<le> d sdiv n \<and> d sdiv n \<le> 0"
proof -
  show "0 \<le> d \<Longrightarrow> 0 \<le> d sdiv n \<and> d sdiv n \<le> d"
    using assms by (auto simp: signed_divide_int_def sgn_if pos_imp_zdiv_nonneg_iff intro: div_le_self)
  assume "d \<le> 0"
  moreover have "(- d) div n \<le> - d" if "d < 0" using assms that by (intro div_le_self) auto
  moreover have "0 \<le> (- d) div n" if "d < 0" using assms that by (simp add: pos_imp_zdiv_nonneg_iff)
  ultimately show "d \<le> d sdiv n \<and> d sdiv n \<le> 0"
    using assms by (auto simp: signed_divide_int_def sgn_if)
qed

lemma sdiv_abs: "0 < n \<Longrightarrow> \<bar>d sdiv n\<bar> \<le> \<bar>d :: int\<bar>"
  using sdiv_between [of n d] by (cases "0 \<le> d") auto

lemma calc_rto_range: "limits_ok c \<Longrightarrow> RTT_MIN_TIMEOUT c \<le> calc_rto c r \<and> calc_rto c r \<le> RTT_MAX_TIMEOUT c"
  by (auto simp: calc_rto_def limits_ok_def Let_def)

lemma calc_rto_exact:
  assumes "rtt_ok M r" "M \<le> 429000000"
  shows "i32 (srtt r + i32 (4 * rttvar r)) = srtt r + 4 * rttvar r"
  using assms by (simp add: rtt_ok_def i32_id)

text \<open>Without overflow the update moves the estimate by an eighth and the deviation by a fourth of the way, rounded
  towards zero.\<close>

lemma rtt_update_exact:
  assumes "rtt_ok M r" "M \<le> 429000000" "0 \<le> ms" "ms \<le> M"
  shows "srtt (rtt_update c r ms) = srtt r + (ms - srtt r) sdiv 8"
    "rttvar (rtt_update c r ms) = rttvar r + (\<bar>ms - srtt r\<bar> - rttvar r) sdiv 4"
proof -
  define d where "d = ms - srtt r"
  have d: "i32 d = d" "- M \<le> d" "d \<le> M" "i32 (- d) = - d"
    using assms by (simp_all add: d_def i32_id rtt_ok_def)
  have s: "i32 (srtt r + d sdiv 8) = srtt r + d sdiv 8"
    using sdiv_abs [of 8 d] d assms by (intro i32_id) (auto simp: rtt_ok_def)
  define e where "e = \<bar>d\<bar> - rttvar r"
  have e: "i32 e = e" "- M \<le> e" "e \<le> M"
    using d assms by (auto simp: e_def rtt_ok_def intro!: i32_id)
  have v: "i32 (rttvar r + e sdiv 4) = rttvar r + e sdiv 4"
    using sdiv_abs [of 4 e] e assms by (intro i32_id) (auto simp: rtt_ok_def)
  show "srtt (rtt_update c r ms) = srtt r + (ms - srtt r) sdiv 8"
    "rttvar (rtt_update c r ms) = rttvar r + (\<bar>ms - srtt r\<bar> - rttvar r) sdiv 4"
    using d e s v by (auto simp: rtt_update_def Let_def d_def [symmetric] e_def)
qed

lemma rtt_update_between:
  assumes "rtt_ok M r" "M \<le> 429000000" "0 \<le> ms" "ms \<le> M"
  shows "min (srtt r) ms \<le> srtt (rtt_update c r ms) \<and> srtt (rtt_update c r ms) \<le> max (srtt r) ms"
    "min (rttvar r) \<bar>ms - srtt r\<bar> \<le> rttvar (rtt_update c r ms) \<and>
     rttvar (rtt_update c r ms) \<le> max (rttvar r) \<bar>ms - srtt r\<bar>"
  unfolding rtt_update_exact [OF assms]
  using sdiv_between [of 8 "ms - srtt r"] sdiv_between [of 4 "\<bar>ms - srtt r\<bar> - rttvar r"]
  by (auto simp: min_def max_def)

text \<open>A step of the \<open>n\<close>th part of the way, rounded towards zero, leaves \<open>n - 1\<close> parts of the distance.\<close>

lemma sdiv_step:
  fixes x y n :: int
  assumes "0 < n"
  shows "(n - 1) * \<bar>y - x\<bar> \<le> n * \<bar>y - (x + (y - x) sdiv n)\<bar>"
    "n * \<bar>y - (x + (y - x) sdiv n)\<bar> \<le> (n - 1) * \<bar>y - x\<bar> + (n - 1)"
proof -
  define a where "a = \<bar>y - x\<bar>"
  have q: "\<bar>y - (x + (y - x) sdiv n)\<bar> = a - a div n"
    using div_le_self [of a n] assms by (auto simp: a_def signed_divide_int_def sgn_if abs_if)
  have "n * (a div n) \<le> a" "a < n * (a div n) + n"
    using mult_div_mod_eq [of n a] pos_mod_bound [OF assms, of a] pos_mod_sign [OF assms, of a] by linarith+
  then show "(n - 1) * \<bar>y - x\<bar> \<le> n * \<bar>y - (x + (y - x) sdiv n)\<bar>"
    "n * \<bar>y - (x + (y - x) sdiv n)\<bar> \<le> (n - 1) * \<bar>y - x\<bar> + (n - 1)"
    unfolding q a_def [symmetric] by (simp_all add: algebra_simps)
qed

lemma calc_rto_clamp:
  "rtt_ok M r \<Longrightarrow> M \<le> 429000000 \<Longrightarrow> calc_rto c r = min (RTT_MAX_TIMEOUT c) (max (RTT_MIN_TIMEOUT c) (srtt r + 4 * rttvar r))"
  by (auto simp: calc_rto_def calc_rto_exact Let_def)

lemma rtt_update_ok:
  assumes "limits_ok c" "rtt_ok M r" "M \<le> 429000000" "0 \<le> ms" "ms \<le> M"
  shows "rtt_ok M (rtt_update c r ms)"
    "RTT_MIN_TIMEOUT c \<le> rto (rtt_update c r ms) \<and> rto (rtt_update c r ms) \<le> RTT_MAX_TIMEOUT c"
proof -
  show "rtt_ok M (rtt_update c r ms)"
    using rtt_update_between [OF assms(2-5), of c] assms by (auto simp: rtt_ok_def)
  obtain q where "rto (rtt_update c r ms) = calc_rto c q" by (simp add: rtt_update_def Let_def)
  with calc_rto_range [OF assms(1)] show
    "RTT_MIN_TIMEOUT c \<le> rto (rtt_update c r ms) \<and> rto (rtt_update c r ms) \<le> RTT_MAX_TIMEOUT c" by simp
qed

lemma rtt_lost_range:
  assumes "limits_ok c" "0 \<le> rto r" "rto r \<le> RTT_MAX_TIMEOUT c" "0 \<le> orig"
  shows "rto r \<le> rto (rtt_lost c r orig)" "rto (rtt_lost c r orig) \<le> RTT_MAX_TIMEOUT c"
  using assms by (auto simp: rtt_lost_def Let_def)

text \<open>Losing the packet that was sent with the current timeout doubles the timeout, up to the limit.\<close>

lemma rtt_lost_doubles:
  assumes "limits_ok c" "0 \<le> rto r" "rto r \<le> RTT_MAX_TIMEOUT c"
  shows "rto (rtt_lost c r (rto r)) = min (2 * rto r) (RTT_MAX_TIMEOUT c)"
proof -
  have "i32 (rto r * 2) = rto r * 2" using assms by (intro i32_id) (auto simp: limits_ok_def)
  with assms show ?thesis by (auto simp: rtt_lost_def Let_def min_def)
qed

lemma rtt_lost_backoff:
  assumes "limits_ok c" "0 \<le> rto r" "rto r \<le> RTT_MAX_TIMEOUT c"
  shows "rto (((\<lambda>r. rtt_lost c r (rto r)) ^^ n) r) = min (2 ^ n * rto r) (RTT_MAX_TIMEOUT c)"
proof (induction n)
  case 0
  then show ?case using assms by simp
next
  case (Suc n)
  let ?r = "((\<lambda>r. rtt_lost c r (rto r)) ^^ n) r"
  have "rto (rtt_lost c ?r (rto ?r)) = min (2 * rto ?r) (RTT_MAX_TIMEOUT c)"
    using assms Suc by (intro rtt_lost_doubles) auto
  with Suc assms show ?case by (auto simp: min_def mult.assoc)
qed

section \<open>Properties\<close>

definition default_limits :: server_limits where
  "default_limits = \<lparr>RTT_MIN_TIMEOUT = 50, RTT_MAX_TIMEOUT = 120000, UNKNOWN_SERVER_NICENESS = 376,
     USEFUL_SERVER_TOP_TIMEOUT = 120000\<rparr>"

text \<open>
  C31. A measurement moves the estimates as the algorithm says: with measurements of at most \<open>M\<close> milliseconds (\<open>M\<close> up to
  429,000,000) no computation of \<open>rtt_update\<close> overflows. The estimate stays between the old one and the measurement, and
  its distance from the measurement shrinks to seven eighths, up to the rounding to whole milliseconds. In the same way the
  deviation goes a fourth of the way to the distance of the measurement from the old estimate. The new timeout is the estimate plus
  four deviations, clamped to the configured limits.
\<close>

theorem rtt_update_bounds:
  assumes "limits_ok c" "rtt_ok M r" "M \<le> 429000000" "0 \<le> ms" "ms \<le> M"
  shows "let r' = rtt_update c r ms; dev = \<bar>ms - srtt r\<bar> in
    min (srtt r) ms \<le> srtt r' \<and> srtt r' \<le> max (srtt r) ms \<and>
    7 * \<bar>ms - srtt r\<bar> \<le> 8 * \<bar>ms - srtt r'\<bar> \<and> 8 * \<bar>ms - srtt r'\<bar> \<le> 7 * \<bar>ms - srtt r\<bar> + 7 \<and>
    min (rttvar r) dev \<le> rttvar r' \<and> rttvar r' \<le> max (rttvar r) dev \<and>
    3 * \<bar>dev - rttvar r\<bar> \<le> 4 * \<bar>dev - rttvar r'\<bar> \<and> 4 * \<bar>dev - rttvar r'\<bar> \<le> 3 * \<bar>dev - rttvar r\<bar> + 3 \<and>
    rtt_ok M r' \<and>
    rto r' = min (RTT_MAX_TIMEOUT c) (max (RTT_MIN_TIMEOUT c) (srtt r' + 4 * rttvar r')) \<and>
    RTT_MIN_TIMEOUT c \<le> rto r' \<and> rto r' \<le> RTT_MAX_TIMEOUT c"
proof -
  define r' dev where r'_def: "r' = rtt_update c r ms" and dev_def: "dev = \<bar>ms - srtt r\<bar>"
  note x = rtt_update_exact [OF assms(2-5), of c, folded r'_def dev_def]
  note ok = rtt_update_ok [OF assms(1-5), folded r'_def]
  have "rto r' = calc_rto c r'" by (simp add: r'_def rtt_update_def calc_rto_def Let_def)
  with calc_rto_clamp [OF ok(1) assms(3)] have "rto r' = min (RTT_MAX_TIMEOUT c) (max (RTT_MIN_TIMEOUT c) (srtt r' + 4 * rttvar r'))" by simp
  moreover note sdiv_step [of 8 ms "srtt r", folded x] sdiv_step [of 4 dev "rttvar r", folded x]
  ultimately show ?thesis using rtt_update_between [OF assms(2-5), of c, folded r'_def dev_def] ok
    unfolding Let_def r'_def [symmetric] dev_def [symmetric] by simp
qed

theorem rtt_update_bounds_witness:
  "let r' = rtt_update default_limits \<lparr>srtt = 100, rttvar = 20, rto = 180\<rparr> 900 in
   r' = \<lparr>srtt = 200, rttvar = 215, rto = 1060\<rparr> \<and> 8 * \<bar>900 - srtt r'\<bar> \<le> 7 * \<bar>900 - 100\<bar> + 7 \<and> rtt_ok 1000 r'"
proof -
  let ?r = "\<lparr>srtt = 100, rttvar = 20, rto = 180\<rparr>"
  have "limits_ok default_limits" "rtt_ok 1000 ?r" by (simp_all add: limits_ok_def default_limits_def rtt_ok_def)
  from rtt_update_bounds [OF this, of 900] have "rtt_ok 1000 (rtt_update default_limits ?r 900)" by (simp add: Let_def)
  moreover have "rtt_update default_limits ?r 900 = \<lparr>srtt = 200, rttvar = 215, rto = 1060\<rparr>" by code_simp
  ultimately show ?thesis by (simp add: Let_def)
qed

text \<open>
  C32. Exponential backoff: \<open>n\<close> losses in a row, each reported with the timeout that was in use, multiply
  the timeout by \<open>2 ^ n\<close> up to the maximum, so that the maximum is reached.
\<close>

theorem rtt_lost_reaches_max:
  assumes "limits_ok c" "0 < rto r" "rto r \<le> RTT_MAX_TIMEOUT c"
  shows "rto (((\<lambda>r. rtt_lost c r (rto r)) ^^ n) r) = min (2 ^ n * rto r) (RTT_MAX_TIMEOUT c) \<and>
    rto (((\<lambda>r. rtt_lost c r (rto r)) ^^ 30) r) = RTT_MAX_TIMEOUT c"
proof -
  note b = rtt_lost_backoff [OF assms(1) order_less_imp_le [OF assms(2)] assms(3)]
  have "RTT_MAX_TIMEOUT c \<le> 2 ^ 30 * 1" using assms(1) by (simp add: limits_ok_def)
  also have "\<dots> \<le> 2 ^ 30 * rto r" using assms(2) by (intro mult_left_mono) auto
  finally show ?thesis using b [of n] b [of 30] by simp
qed

theorem rtt_lost_reaches_max_witness:
  "rto (((\<lambda>r. rtt_lost default_limits r (rto r)) ^^ 30) \<lparr>srtt = 0, rttvar = 94, rto = 376\<rparr>) = 120000"
  using rtt_lost_reaches_max [of default_limits "\<lparr>srtt = 0, rttvar = 94, rto = 376\<rparr>" 0]
  by (simp add: limits_ok_def default_limits_def)

end
