(* ===== verification/Infra_Host.thy ===== *)
theory Infra_Host
  imports Infra_Keys Rtt
begin

text \<open>
  The cache of server addresses of \<open>services/cache/infra.c\<close>: what is known of a server for a zone
  (timeouts, EDNS, lameness) and the operations on it. The code runs under the locks of the entries;
  here the operations run one after the other, and a pointer to an entry is the hash value that
  selects its table together with its address there. New entries get the address \<open>next_addr\<close>; the
  results of \<open>malloc\<close> and the contents of the memory it returns are arguments.
\<close>

section \<open>State\<close>

record infra_data =
  ttl :: int
  probedelay :: int
  id_rtt :: rtt_info
  edns_version :: int
  edns_lame_known :: bool
  isdnsseclame :: bool
  rec_lame :: bool
  lame_type_A :: bool
  lame_other :: bool
  timeout_A :: byte
  timeout_AAAA :: byte
  timeout_other :: byte

record host_cache =
  hosts :: "(infra_key, infra_data) slabhash"
  host_ttl :: int
  infra_keep_probing :: bool

record infra_env =
  ie_hash :: hash_env
  ie_limits :: server_limits
  ie_grow_ok :: bool

record infra_malloc =
  key_ok :: bool
  data_ok :: bool
  name_ok :: bool
  raw_data :: infra_data

definition PROBE_MAXRTO :: int where "PROBE_MAXRTO = 12000"
definition TIMEOUT_COUNT_MAX :: byte where "TIMEOUT_COUNT_MAX = 3"
definition LDNS_RR_TYPE_A :: nat where "LDNS_RR_TYPE_A = 1"
definition LDNS_RR_TYPE_AAAA :: nat where "LDNS_RR_TYPE_AAAA = 28"

text \<open>The four arguments that say which server and zone is meant.\<close>

record server_id =
  s_addr :: sockaddr_storage
  s_addrlen :: nat
  s_name :: wire_name
  s_namelen :: nat

definition server_key :: "server_id \<Rightarrow> infra_key" where
  "server_key s = \<lparr>ik_addr = s_addr s, ik_addrlen = s_addrlen s, ik_zonename = s_name s, ik_namelen = s_namelen s\<rparr>"

type_synonym entry_ptr = "u32 \<times> addr"

definition host_data :: "'z host_cache_scheme \<Rightarrow> entry_ptr \<Rightarrow> infra_data option" where
  "host_data infra p = entry_data (hosts infra) (fst p) (snd p)"

definition set_host_data :: "entry_ptr \<Rightarrow> infra_data \<Rightarrow> 'z host_cache_scheme \<Rightarrow> 'z host_cache_scheme option" where
  "set_host_data p d infra = do {
     sl \<leftarrow> set_entry_data (fst p) (snd p) d (hosts infra);
     Some (infra\<lparr>hosts := sl\<rparr>) }"

section \<open>Finding and creating entries\<close>

definition infra_lookup_nottl ::
    "infra_env \<Rightarrow> server_id \<Rightarrow> 'z host_cache_scheme \<Rightarrow> (entry_ptr option \<times> 'z host_cache_scheme) option" where
  "infra_lookup_nottl env s infra = do {
     h \<leftarrow> hash_infra (ie_hash env) (s_addr s) (s_addrlen s) (s_name s);
     (r, sl) \<leftarrow> slabhash_lookup h (server_key s) (hosts infra);
     Some (map_option (\<lambda>a. (h, a)) r, infra\<lparr>hosts := sl\<rparr>) }"

definition data_entry_init :: "server_limits \<Rightarrow> int \<Rightarrow> int \<Rightarrow> infra_data \<Rightarrow> infra_data" where
  "data_entry_init lim httl timenow d =
     d\<lparr>ttl := timenow + httl, id_rtt := rtt_init lim (id_rtt d), edns_version := 0,
       edns_lame_known := False, probedelay := 0, isdnsseclame := False, rec_lame := False,
       lame_type_A := False, lame_other := False, timeout_A := 0, timeout_AAAA := 0, timeout_other := 0\<rparr>"

text \<open>The hash value, the key and the data of the new entry; \<open>memdup\<close> fails for the length 0.\<close>

definition infra_new_entry ::
    "infra_env \<Rightarrow> infra_malloc \<Rightarrow> server_id \<Rightarrow> int \<Rightarrow> 'z host_cache_scheme \<Rightarrow>
     (u32 \<times> infra_key \<times> infra_data) option option" where
  "infra_new_entry env mk s tm infra =
     (if \<not> key_ok mk then Some None
      else if \<not> data_ok mk then Some None
      else if s_namelen s = 0 \<or> \<not> name_ok mk then Some None
      else do {
        h \<leftarrow> hash_infra (ie_hash env) (s_addr s) (s_addrlen s) (s_name s);
        Some (Some (h, server_key s, data_entry_init (ie_limits env) (host_ttl infra) tm (raw_data mk))) })"

definition infra_insert ::
    "infra_env \<Rightarrow> u32 \<Rightarrow> infra_key \<Rightarrow> infra_data \<Rightarrow> 'z host_cache_scheme \<Rightarrow> 'z host_cache_scheme option" where
  "infra_insert env h k d infra = do {
     t \<leftarrow> slab_table (hosts infra) (slab_idx (hosts infra) h);
     sl \<leftarrow> slab_insert_new (ie_grow_ok env) (next_addr (mem t)) h k d None (hosts infra);
     Some (infra\<lparr>hosts := sl\<rparr>) }"

text \<open>
  The start that \<open>infra_set_lame\<close>, \<open>infra_rtt_update\<close> and \<open>infra_edns_update\<close> share: look up the
  entry, make one that is to be inserted if there is none, and initialise it again if it has expired.
  The result is the entry, its data, whether it had expired and then the old probe delay. The end
  that they share inserts the new entry or leaves the changed data in the table.
\<close>

datatype host_entry = Fresh u32 infra_key | Existing entry_ptr

definition infra_obtain ::
    "infra_env \<Rightarrow> infra_malloc \<Rightarrow> server_id \<Rightarrow> int \<Rightarrow> 'z host_cache_scheme \<Rightarrow>
     ((host_entry \<times> infra_data \<times> bool \<times> int) option \<times> 'z host_cache_scheme) option" where
  "infra_obtain env mk s timenow infra = do {
     (e, infra) \<leftarrow> infra_lookup_nottl env s infra;
     (case e of
        None \<Rightarrow> do {
          r \<leftarrow> infra_new_entry env mk s timenow infra;
          Some (map_option (\<lambda>(h, k, d). (Fresh h k, d, False, 0)) r, infra) }
      | Some p \<Rightarrow> do {
          d \<leftarrow> host_data infra p;
          if ttl d < timenow
          then Some (Some (Existing p, data_entry_init (ie_limits env) (host_ttl infra) timenow d, True, probedelay d), infra)
          else Some (Some (Existing p, d, False, 0), infra) }) }"

definition infra_store ::
    "infra_env \<Rightarrow> host_entry \<Rightarrow> infra_data \<Rightarrow> 'z host_cache_scheme \<Rightarrow> 'z host_cache_scheme option" where
  "infra_store env e d infra = (case e of
     Fresh h k \<Rightarrow> infra_insert env h k d infra
   | Existing p \<Rightarrow> set_host_data p d infra)"

section \<open>The operations\<close>

text \<open>The results of \<open>infra_host\<close> are the return value and the three values stored for the caller.\<close>

definition infra_host ::
    "infra_env \<Rightarrow> infra_malloc \<Rightarrow> server_id \<Rightarrow> int \<Rightarrow> 'z host_cache_scheme \<Rightarrow>
     ((int \<times> bool \<times> int) option \<times> 'z host_cache_scheme) option" where
  "infra_host env mk s timenow infra = do {
     let lim = ie_limits env;
     (e, infra) \<leftarrow> infra_lookup_nottl env s infra;
     (e, wr, infra) \<leftarrow> (case e of None \<Rightarrow> Some (None, False, infra) | Some p \<Rightarrow> do {
        d \<leftarrow> host_data infra p;
        if ttl d < timenow then do {
          (e, infra) \<leftarrow> infra_lookup_nottl env s infra;
          (case e of None \<Rightarrow> Some (None, False, infra) | Some p \<Rightarrow> do {
             d' \<leftarrow> host_data infra p;
             let d' = data_entry_init lim (host_ttl infra) timenow d';
             let d' = (if rto (id_rtt d) \<ge> USEFUL_SERVER_TOP_TIMEOUT lim
                       then d'\<lparr>id_rtt := (id_rtt d')\<lparr>rto := USEFUL_SERVER_TOP_TIMEOUT lim\<rparr>,
                               probedelay := probedelay d, timeout_A := timeout_A d,
                               timeout_AAAA := timeout_AAAA d, timeout_other := timeout_other d\<rparr>
                       else d');
             infra \<leftarrow> set_host_data p d' infra;
             Some (Some p, True, infra) }) }
        else Some (Some p, False, infra) });
     (case e of
        None \<Rightarrow> do {
          r \<leftarrow> infra_new_entry env mk s timenow infra;
          (case r of None \<Rightarrow> Some (None, infra) | Some (h, k, d) \<Rightarrow> do {
             let res = (edns_version d, edns_lame_known d, rtt_timeout (id_rtt d));
             infra \<leftarrow> infra_insert env h k d infra;
             Some (Some res, infra) }) }
      | Some p \<Rightarrow> do {
          d \<leftarrow> host_data infra p;
          let to = rtt_timeout (id_rtt d);
          let res = (edns_version d, edns_lame_known d, to);
          if to \<ge> PROBE_MAXRTO \<and> (infra_keep_probing infra \<or> i32 (rtt_notimeout lim (id_rtt d) * 4) \<le> to) then do {
            (e, infra) \<leftarrow> (if \<not> wr then infra_lookup_nottl env s infra else Some (Some p, infra));
            (case e of None \<Rightarrow> Some (Some res, infra) | Some p \<Rightarrow> do {
               d \<leftarrow> host_data infra p;
               infra \<leftarrow> set_host_data p (d\<lparr>probedelay := timenow + i32 (to + 1999) sdiv 1000\<rparr>) infra;
               Some (Some res, infra) }) }
          else Some (Some res, infra) }) }"

definition infra_set_lame ::
    "infra_env \<Rightarrow> infra_malloc \<Rightarrow> server_id \<Rightarrow> int \<Rightarrow> bool \<Rightarrow> bool \<Rightarrow> nat \<Rightarrow> 'z host_cache_scheme \<Rightarrow>
     (bool \<times> 'z host_cache_scheme) option" where
  "infra_set_lame env mk s timenow dnsseclame reclame qtype infra = do {
     (r, infra) \<leftarrow> infra_obtain env mk s timenow infra;
     (case r of None \<Rightarrow> Some (False, infra) | Some (e, d, _, _) \<Rightarrow> do {
        let d = (if dnsseclame then d\<lparr>isdnsseclame := True\<rparr> else d);
        let d = (if reclame then d\<lparr>rec_lame := True\<rparr> else d);
        let d = (if \<not> dnsseclame \<and> \<not> reclame \<and> qtype = LDNS_RR_TYPE_A then d\<lparr>lame_type_A := True\<rparr> else d);
        let d = (if \<not> dnsseclame \<and> \<not> reclame \<and> qtype \<noteq> LDNS_RR_TYPE_A then d\<lparr>lame_other := True\<rparr> else d);
        infra \<leftarrow> infra_store env e d infra;
        Some (True, infra) }) }"

definition infra_update_tcp_works ::
    "infra_env \<Rightarrow> server_id \<Rightarrow> 'z host_cache_scheme \<Rightarrow> 'z host_cache_scheme option" where
  "infra_update_tcp_works env s infra = do {
     (e, infra) \<leftarrow> infra_lookup_nottl env s infra;
     (case e of None \<Rightarrow> Some infra | Some p \<Rightarrow> do {
        d \<leftarrow> host_data infra p;
        if rto (id_rtt d) \<ge> RTT_MAX_TIMEOUT (ie_limits env)
        then set_host_data p (d\<lparr>id_rtt := (id_rtt d)\<lparr>rto := RTT_MAX_TIMEOUT (ie_limits env) - 1000\<rparr>\<rparr>) infra
        else Some infra }) }"

text \<open>The change of the data in \<open>infra_rtt_update\<close>; \<open>isnew\<close> is \<open>needtoinsert || expired\<close>.\<close>

definition count_timeout :: "byte \<Rightarrow> byte" where
  "count_timeout n = (if n < TIMEOUT_COUNT_MAX then n + 1 else n)"

definition rtt_update_data ::
    "server_limits \<Rightarrow> bool \<Rightarrow> int \<Rightarrow> nat \<Rightarrow> int \<Rightarrow> int \<Rightarrow> infra_data \<Rightarrow> infra_data" where
  "rtt_update_data lim isnew oldprobedelay qtype roundtrip orig_rtt d =
     (if roundtrip = -1 then
        let d = (if isnew then d\<lparr>id_rtt := (id_rtt d)\<lparr>rto := orig_rtt\<rparr>, probedelay := oldprobedelay\<rparr> else d);
            d = d\<lparr>id_rtt := rtt_lost lim (id_rtt d) orig_rtt\<rparr>
        in if qtype = LDNS_RR_TYPE_A then d\<lparr>timeout_A := count_timeout (timeout_A d)\<rparr>
           else if qtype = LDNS_RR_TYPE_AAAA then d\<lparr>timeout_AAAA := count_timeout (timeout_AAAA d)\<rparr>
           else d\<lparr>timeout_other := count_timeout (timeout_other d)\<rparr>
      else
        let d = (if rtt_unclamped lim (id_rtt d) \<ge> USEFUL_SERVER_TOP_TIMEOUT lim
                 then d\<lparr>id_rtt := rtt_init lim (id_rtt d)\<rparr> else d);
            d = d\<lparr>id_rtt := rtt_update lim (id_rtt d) roundtrip\<rparr>;
            d = d\<lparr>probedelay := 0\<rparr>
        in if qtype = LDNS_RR_TYPE_A then d\<lparr>timeout_A := 0\<rparr>
           else if qtype = LDNS_RR_TYPE_AAAA then d\<lparr>timeout_AAAA := 0\<rparr>
           else d\<lparr>timeout_other := 0\<rparr>)"

definition infra_rtt_update ::
    "infra_env \<Rightarrow> infra_malloc \<Rightarrow> server_id \<Rightarrow> nat \<Rightarrow> int \<Rightarrow> int \<Rightarrow> int \<Rightarrow> 'z host_cache_scheme \<Rightarrow>
     (int \<times> 'z host_cache_scheme) option" where
  "infra_rtt_update env mk s qtype roundtrip orig_rtt timenow infra = do {
     (r, infra) \<leftarrow> infra_obtain env mk s timenow infra;
     (case r of None \<Rightarrow> Some (0, infra) | Some (e, d, expired, oldprobedelay) \<Rightarrow> do {
        let needtoinsert = (case e of Fresh _ _ \<Rightarrow> True | Existing _ \<Rightarrow> False);
        let d = rtt_update_data (ie_limits env) (needtoinsert \<or> expired) oldprobedelay qtype roundtrip orig_rtt d;
        let ret = (if rto (id_rtt d) > 0 then rto (id_rtt d) else 1);
        infra \<leftarrow> infra_store env e d infra;
        Some (ret, infra) }) }"

text \<open>The results: the remaining time to live (-1 without an entry, -2 when it has expired), the timeouts
  and the delay if they are stored for the caller, and the three counts if there is an entry.\<close>

definition infra_get_host_rto ::
    "infra_env \<Rightarrow> server_id \<Rightarrow> int \<Rightarrow> 'z host_cache_scheme \<Rightarrow>
     ((int \<times> (rtt_info \<times> int) option \<times> (byte \<times> byte \<times> byte) option) \<times> 'z host_cache_scheme) option" where
  "infra_get_host_rto env s timenow infra = do {
     (e, infra) \<leftarrow> infra_lookup_nottl env s infra;
     (case e of None \<Rightarrow> Some ((-1, None, None), infra) | Some p \<Rightarrow> do {
        d \<leftarrow> host_data infra p;
        let (t, r) = (if ttl d \<ge> timenow
               then (ttl d - timenow, Some (id_rtt d, if timenow < probedelay d then i32 (probedelay d - timenow) else 0))
               else (-2, None));
        Some ((t, r, Some (timeout_A d, timeout_AAAA d, timeout_other d)), infra) }) }"

definition infra_edns_update ::
    "infra_env \<Rightarrow> infra_malloc \<Rightarrow> server_id \<Rightarrow> int \<Rightarrow> int \<Rightarrow> 'z host_cache_scheme \<Rightarrow>
     (bool \<times> 'z host_cache_scheme) option" where
  "infra_edns_update env mk s edns_vs timenow infra = do {
     (r, infra) \<leftarrow> infra_obtain env mk s timenow infra;
     (case r of None \<Rightarrow> Some (False, infra) | Some (e, d, _, _) \<Rightarrow> do {
        let d = (if \<not> (edns_vs = -1 \<and> (edns_version d \<noteq> -1 \<and> edns_lame_known d))
                 then d\<lparr>edns_version := edns_vs, edns_lame_known := True\<rparr> else d);
        infra \<leftarrow> infra_store env e d infra;
        Some (True, infra) }) }"

text \<open>What \<open>infra_get_lame_rtt\<close> reads from the data: whether it returns true, the timeout, and the
  three kinds of lameness if they are stored.\<close>

definition probe_rtt :: "server_limits \<Rightarrow> byte \<Rightarrow> int" where
  "probe_rtt lim timeouts =
     (if timeouts \<ge> TIMEOUT_COUNT_MAX then USEFUL_SERVER_TOP_TIMEOUT lim
      else USEFUL_SERVER_TOP_TIMEOUT lim - 1000)"

definition lame_rtt_data ::
    "server_limits \<Rightarrow> bool \<Rightarrow> nat \<Rightarrow> int \<Rightarrow> infra_data \<Rightarrow> bool \<times> int \<times> (bool \<times> bool \<times> bool) option" where
  "lame_rtt_data lim keep_probing qtype timenow host =
     (let top = USEFUL_SERVER_TOP_TIMEOUT lim;
          rtt = rtt_unclamped lim (id_rtt host);
          rtt = (if rto (id_rtt host) \<ge> PROBE_MAXRTO \<and> timenow \<ge> probedelay host \<and> keep_probing then
                   (if rtt \<ge> top then top - 1000 else rtt)
                 else if rto (id_rtt host) \<ge> PROBE_MAXRTO \<and> timenow < probedelay host \<and>
                         i32 (rtt_notimeout lim (id_rtt host) * 4) \<le> rto (id_rtt host) then
                   (if qtype = LDNS_RR_TYPE_A then probe_rtt lim (timeout_A host)
                    else if qtype = LDNS_RR_TYPE_AAAA then probe_rtt lim (timeout_AAAA host)
                    else probe_rtt lim (timeout_other host))
                 else rtt)
      in if timenow > ttl host then
           (if rto (id_rtt host) \<ge> top then (True, top - 1000, Some (False, False, False))
            else (False, rtt, None))
         else if lame_type_A host \<and> qtype = LDNS_RR_TYPE_A then (True, rtt, Some (True, False, False))
         else if lame_other host \<and> qtype \<noteq> LDNS_RR_TYPE_A then (True, rtt, Some (True, False, False))
         else if isdnsseclame host then (True, rtt, Some (False, True, False))
         else if rec_lame host then (True, rtt, Some (False, False, True))
         else (True, rtt, Some (False, False, False)))"

definition infra_get_lame_rtt ::
    "infra_env \<Rightarrow> server_id \<Rightarrow> nat \<Rightarrow> int \<Rightarrow> 'z host_cache_scheme \<Rightarrow>
     ((bool \<times> int option \<times> (bool \<times> bool \<times> bool) option) \<times> 'z host_cache_scheme) option" where
  "infra_get_lame_rtt env s qtype timenow infra = do {
     (e, infra) \<leftarrow> infra_lookup_nottl env s infra;
     (case e of None \<Rightarrow> Some ((False, None, None), infra) | Some p \<Rightarrow> do {
        host \<leftarrow> host_data infra p;
        let (ret, rtt, lame) = lame_rtt_data (ie_limits env) (infra_keep_probing infra) qtype timenow host;
        Some ((ret, Some rtt, lame), infra) }) }"

end
