(* ===== verification/Infra_Host_Map.thy ===== *)
theory Infra_Host_Map
  imports Infra_Host
begin

text \<open>
  The cache of server addresses as a partial map from servers to data: every operation reads and
  writes the data of the server it is called for and leaves the data of other servers as they are or
  drops them.
\<close>

section \<open>The cache as a map\<close>

definition host_inv :: "struct_sizes \<Rightarrow> 'z host_cache_scheme \<Rightarrow> bool" where
  "host_inv sz infra \<longleftrightarrow> slab_cache infra_compfunc (infra_sizefunc sz) (hosts infra)"

definition host_view :: "infra_env \<Rightarrow> 'z host_cache_scheme \<Rightarrow> server_id \<Rightarrow> infra_data option" where
  "host_view env infra s = do {
     h \<leftarrow> hash_infra (ie_hash env) (s_addr s) (s_addrlen s) (s_name s);
     slab_get (hosts infra) h (server_key s) }"

definition server_ok :: "server_id \<Rightarrow> bool" where
  "server_ok s \<longleftrightarrow> sockaddr_ok (s_addr s) (s_addrlen s)"

definition same_server :: "server_id \<Rightarrow> server_id \<Rightarrow> bool" where
  "same_server s s' \<longleftrightarrow> infra_compfunc (server_key s) (server_key s') = 0"

text \<open>Only the table of hosts differs.\<close>

definition hosts_only :: "'z host_cache_scheme \<Rightarrow> 'z host_cache_scheme \<Rightarrow> bool" where
  "hosts_only infra infra' \<longleftrightarrow> (\<exists>sl. infra' = infra\<lparr>hosts := sl\<rparr>)"

lemma hosts_only_simps [simp]:
  "hosts_only infra infra" "hosts_only infra (infra\<lparr>hosts := sl\<rparr>)"
  unfolding hosts_only_def by (rule exI [of _ "hosts infra"], simp) blast

lemma hosts_only_fields:
  assumes "hosts_only infra infra'"
  shows "host_ttl infra' = host_ttl infra" "infra_keep_probing infra' = infra_keep_probing infra"
  using assms by (auto simp: hosts_only_def)

lemma hosts_only_trans: "hosts_only a b \<Longrightarrow> hosts_only b c \<Longrightarrow> hosts_only a c"
  by (auto simp: hosts_only_def)

lemma same_server_refl [simp]: "same_server s s"
  by (simp add: same_server_def infra_hosts.cmp_refl)

lemma hash_same_server:
  assumes "server_ok s" "server_ok s'" "same_server s s'"
  shows "hash_infra he (s_addr s') (s_addrlen s') (s_name s') = hash_infra he (s_addr s) (s_addrlen s) (s_name s)"
  using assms by (intro hash_infra_key)
    (simp_all add: server_ok_def same_server_def infra_compfunc_eq_0 server_key_def)

section \<open>Lookup, change and insertion\<close>

lemma infra_lookup_ok:
  assumes inv: "host_inv sz infra" and s: "server_ok s"
  shows "\<exists>r infra1. infra_lookup_nottl env s infra = Some (r, infra1) \<and> host_inv sz infra1 \<and>
    hosts_only infra infra1 \<and> host_view env infra1 = host_view env infra \<and>
    (case r of None \<Rightarrow> host_view env infra s = None
     | Some p \<Rightarrow> host_data infra1 p = host_view env infra s \<and> host_view env infra s \<noteq> None \<and>
         (\<forall>d. \<exists>infra2. set_host_data p d infra1 = Some infra2 \<and> host_inv sz infra2 \<and> hosts_only infra infra2 \<and>
            (\<forall>s'. server_ok s' \<longrightarrow>
               host_view env infra2 s' = (if same_server s s' then Some d else host_view env infra s'))))"
proof -
  from hash_infra_total [of "s_addr s" "s_addrlen s" "ie_hash env" "s_name s"] s obtain h where
    h: "hash_infra (ie_hash env) (s_addr s) (s_addrlen s) (s_name s) = Some h" by (auto simp: server_ok_def)
  from infra_hosts.slab_lookup_set [of sz "hosts infra" h "server_key s"] inv obtain r sl where
    1: "slabhash_lookup h (server_key s) (hosts infra) = Some (r, sl)"
    "slab_cache infra_compfunc (infra_sizefunc sz) sl" "slab_get sl = slab_get (hosts infra)"
    "case r of None \<Rightarrow> slab_get (hosts infra) h (server_key s) = None
     | Some a \<Rightarrow> entry_data sl h a = slab_get (hosts infra) h (server_key s) \<and>
         slab_get (hosts infra) h (server_key s) \<noteq> None \<and>
         (\<forall>d. \<exists>s2. set_entry_data h a d sl = Some s2 \<and> slab_cache infra_compfunc (infra_sizefunc sz) s2 \<and>
            slab_idx s2 = slab_idx (hosts infra) \<and>
            (\<forall>h' k'. slab_get s2 h' k' =
               (if h = h' \<and> infra_compfunc (server_key s) k' = 0 then Some d else slab_get (hosts infra) h' k')))"
    unfolding host_inv_def by blast
  define infra1 where "infra1 = infra\<lparr>hosts := sl\<rparr>"
  have l: "infra_lookup_nottl env s infra = Some (map_option (\<lambda>a. (h, a)) r, infra1)"
    using h 1(1) by (simp add: infra_lookup_nottl_def infra1_def)
  have b: "host_inv sz infra1" "hosts_only infra infra1" "host_view env infra1 = host_view env infra"
    using 1(2,3) by (simp_all add: infra1_def host_inv_def host_view_def fun_eq_iff)
  show ?thesis
  proof (cases r)
    case None
    with l b 1(4) h show ?thesis by (simp add: host_view_def)
  next
    case (Some a)
    have v: "host_view env infra s = slab_get (hosts infra) h (server_key s)" using h by (simp add: host_view_def)
    have set: "\<exists>infra2. set_host_data (h, a) d infra1 = Some infra2 \<and> host_inv sz infra2 \<and> hosts_only infra infra2 \<and>
        (\<forall>s'. server_ok s' \<longrightarrow>
           host_view env infra2 s' = (if same_server s s' then Some d else host_view env infra s'))" for d
    proof -
      from 1(4) Some obtain s2 where s2: "set_entry_data h a d sl = Some s2"
        "slab_cache infra_compfunc (infra_sizefunc sz) s2"
        "\<And>h' k'. slab_get s2 h' k' =
          (if h = h' \<and> infra_compfunc (server_key s) k' = 0 then Some d else slab_get (hosts infra) h' k')"
        by auto blast
      have "host_view env (infra\<lparr>hosts := s2\<rparr>) s' = (if same_server s s' then Some d else host_view env infra s')"
        if s': "server_ok s'" for s'
      proof -
        from hash_infra_total [of "s_addr s'" "s_addrlen s'" "ie_hash env" "s_name s'"] s' obtain h' where
          h': "hash_infra (ie_hash env) (s_addr s') (s_addrlen s') (s_name s') = Some h'" by (auto simp: server_ok_def)
        have "h = h'" if "same_server s s'" using hash_same_server [OF s s' that, of "ie_hash env"] h h' by simp
        with h' s2(3) [of h' "server_key s'"] show ?thesis by (auto simp: host_view_def same_server_def)
      qed
      with s2(1,2) show ?thesis by (auto simp: set_host_data_def infra1_def host_inv_def)
    qed
    from Some 1(4) have "host_data infra1 (h, a) = host_view env infra s" "host_view env infra s \<noteq> None"
      by (simp_all add: host_data_def infra1_def v)
    with l b set Some show ?thesis by simp
  qed
qed

lemma infra_insert_ok:
  assumes inv: "host_inv sz infra" and s: "server_ok s"
    and h: "hash_infra (ie_hash env) (s_addr s) (s_addrlen s) (s_name s) = Some h"
  shows "\<exists>infra2. infra_insert env h (server_key s) d infra = Some infra2 \<and> host_inv sz infra2 \<and>
    hosts_only infra infra2 \<and> host_view env infra2 s = Some d \<and>
    (\<forall>s'. server_ok s' \<longrightarrow> host_view env infra2 s' = None \<or>
       host_view env infra2 s' = (if same_server s s' then Some d else host_view env infra s'))"
proof -
  let ?op = "OpInsert (ie_grow_ok env) h (server_key s) d None"
  from infra_hosts.slab.step_law [of sz "hosts infra" ?op] inv obtain sl where
    1: "slab_step next_addr ?op (hosts infra) = Some sl" "slab_cache infra_compfunc (infra_sizefunc sz) sl"
    "\<And>h' k'. slab_get sl h' k' = None \<or>
      slab_get sl h' k' = expect_step infra_compfunc h' k' ?op (slab_get (hosts infra) h' k')"
    unfolding host_inv_def by blast
  have g: "slab_get sl h (server_key s) = Some d"
    using infra_hosts.slab.insert_law [OF _ 1(1), of sz] inv by (simp add: host_inv_def)
  have "infra_insert env h (server_key s) d infra = Some (infra\<lparr>hosts := sl\<rparr>)"
    using 1(1) by (auto simp: infra_insert_def split: bind_splits)
  moreover have "host_view env (infra\<lparr>hosts := sl\<rparr>) s' = None \<or>
      host_view env (infra\<lparr>hosts := sl\<rparr>) s' = (if same_server s s' then Some d else host_view env infra s')"
    if s': "server_ok s'" for s'
  proof -
    from hash_infra_total [of "s_addr s'" "s_addrlen s'" "ie_hash env" "s_name s'"] s' obtain h' where
      h': "hash_infra (ie_hash env) (s_addr s') (s_addrlen s') (s_name s') = Some h'" by (auto simp: server_ok_def)
    have "h = h'" if "same_server s s'" using hash_same_server [OF s s' that, of "ie_hash env"] h h' by simp
    with h' 1(3) [of h' "server_key s'"] show ?thesis by (auto simp: host_view_def same_server_def)
  qed
  moreover have "host_view env (infra\<lparr>hosts := sl\<rparr>) s = Some d" using g h by (simp add: host_view_def)
  ultimately show ?thesis using 1(2) by (simp add: host_inv_def)
qed

section \<open>The common part of the updates\<close>

definition malloc_ok :: "infra_malloc \<Rightarrow> server_id \<Rightarrow> bool" where
  "malloc_ok mk s \<longleftrightarrow> key_ok mk \<and> data_ok mk \<and> name_ok mk \<and> s_namelen s \<noteq> 0"

text \<open>The data that an update starts from.\<close>

definition base_data :: "infra_env \<Rightarrow> infra_malloc \<Rightarrow> int \<Rightarrow> int \<Rightarrow> infra_data option \<Rightarrow> infra_data" where
  "base_data env mk httl tm v = (case v of
     None \<Rightarrow> data_entry_init (ie_limits env) httl tm (raw_data mk)
   | Some d \<Rightarrow> if ttl d < tm then data_entry_init (ie_limits env) httl tm d else d)"

definition expired_at :: "int \<Rightarrow> infra_data option \<Rightarrow> bool" where
  "expired_at tm v \<longleftrightarrow> (\<exists>d. v = Some d \<and> ttl d < tm)"

definition old_delay :: "int \<Rightarrow> infra_data option \<Rightarrow> int" where
  "old_delay tm v = (case v of Some d \<Rightarrow> if ttl d < tm then probedelay d else 0 | None \<Rightarrow> 0)"

definition is_fresh :: "host_entry \<Rightarrow> bool" where
  "is_fresh e = (case e of Fresh _ _ \<Rightarrow> True | Existing _ \<Rightarrow> False)"

text \<open>What storing data for a server does to the map.\<close>

definition stored :: "infra_env \<Rightarrow> server_id \<Rightarrow> infra_data \<Rightarrow> 'z host_cache_scheme \<Rightarrow> 'z host_cache_scheme \<Rightarrow> bool" where
  "stored env s d infra infra' \<longleftrightarrow> host_view env infra' s = Some d \<and>
     (\<forall>s'. server_ok s' \<longrightarrow> host_view env infra' s' = None \<or>
        host_view env infra' s' = (if same_server s s' then Some d else host_view env infra s'))"

lemma infra_obtain_ok:
  assumes inv: "host_inv sz infra" and s: "server_ok s"
  shows "\<exists>r infra1. infra_obtain env mk s tm infra = Some (r, infra1) \<and> host_inv sz infra1 \<and>
    hosts_only infra infra1 \<and> host_view env infra1 = host_view env infra \<and>
    (if host_view env infra s = None \<and> \<not> malloc_ok mk s then r = None
     else \<exists>e. r = Some (e, base_data env mk (host_ttl infra) tm (host_view env infra s),
         expired_at tm (host_view env infra s), old_delay tm (host_view env infra s)) \<and>
       (is_fresh e \<longleftrightarrow> host_view env infra s = None) \<and>
       (\<forall>d'. \<exists>infra2. infra_store env e d' infra1 = Some infra2 \<and> host_inv sz infra2 \<and>
          hosts_only infra infra2 \<and> stored env s d' infra infra2))"
proof -
  from infra_lookup_ok [OF inv s, of env] obtain r infra1 where
    1: "infra_lookup_nottl env s infra = Some (r, infra1)" "host_inv sz infra1"
    "hosts_only infra infra1" "host_view env infra1 = host_view env infra"
    "case r of None \<Rightarrow> host_view env infra s = None
     | Some p \<Rightarrow> host_data infra1 p = host_view env infra s \<and> host_view env infra s \<noteq> None \<and>
         (\<forall>d. \<exists>infra2. set_host_data p d infra1 = Some infra2 \<and> host_inv sz infra2 \<and> hosts_only infra infra2 \<and>
            (\<forall>s'. server_ok s' \<longrightarrow>
               host_view env infra2 s' = (if same_server s s' then Some d else host_view env infra s')))"
    by blast
  note fld = hosts_only_fields [OF 1(3)]
  show ?thesis
  proof (cases r)
    case None
    with 1(5) have v: "host_view env infra s = None" by simp
    from hash_infra_total [of "s_addr s" "s_addrlen s" "ie_hash env" "s_name s"] s obtain h where
      h: "hash_infra (ie_hash env) (s_addr s) (s_addrlen s) (s_name s) = Some h" by (auto simp: server_ok_def)
    show ?thesis
    proof (cases "malloc_ok mk s")
      case False
      then have "infra_obtain env mk s tm infra = Some (None, infra1)"
        using 1(1) None by (auto simp: infra_obtain_def infra_new_entry_def malloc_ok_def)
      with 1(2-4) v False show ?thesis by simp
    next
      case True
      have o: "infra_obtain env mk s tm infra =
          Some (Some (Fresh h (server_key s), base_data env mk (host_ttl infra) tm None, False, 0), infra1)"
        using 1(1) None True h fld by (simp add: infra_obtain_def infra_new_entry_def malloc_ok_def base_data_def)
      have "\<exists>infra2. infra_store env (Fresh h (server_key s)) d' infra1 = Some infra2 \<and> host_inv sz infra2 \<and>
          hosts_only infra infra2 \<and> stored env s d' infra infra2" for d'
      proof -
        from infra_insert_ok [OF 1(2) s h, of d'] obtain infra2 where
          i2: "infra_insert env h (server_key s) d' infra1 = Some infra2" "host_inv sz infra2"
          "hosts_only infra1 infra2" "stored env s d' infra infra2"
          unfolding stored_def 1(4) by blast
        with hosts_only_trans [OF 1(3) i2(3)] show ?thesis by (simp add: infra_store_def)
      qed
      with o 1(2-4) v True show ?thesis
        by (auto simp: expired_at_def old_delay_def is_fresh_def)
    qed
  next
    case (Some p)
    with 1(5) obtain d where v: "host_view env infra s = Some d" "host_data infra1 p = Some d" by auto
    have o: "infra_obtain env mk s tm infra =
        Some (Some (Existing p, base_data env mk (host_ttl infra) tm (Some d), expired_at tm (Some d), old_delay tm (Some d)), infra1)"
      using 1(1) Some v(2) fld by (simp add: infra_obtain_def base_data_def expired_at_def old_delay_def)
    have "\<exists>infra2. infra_store env (Existing p) d' infra1 = Some infra2 \<and> host_inv sz infra2 \<and>
        hosts_only infra infra2 \<and> stored env s d' infra infra2" for d'
    proof -
      from 1(5) Some obtain infra2 where i2: "set_host_data p d' infra1 = Some infra2" "host_inv sz infra2"
        "hosts_only infra infra2" "\<And>s'. server_ok s' \<Longrightarrow>
          host_view env infra2 s' = (if same_server s s' then Some d' else host_view env infra s')" by auto
      with s show ?thesis by (auto simp: infra_store_def stored_def)
    qed
    with o 1(2-4) v(1) show ?thesis by (auto simp: is_fresh_def)
  qed
qed

section \<open>Each operation on the map\<close>

lemma infra_rtt_update_ok:
  assumes "host_inv sz infra" "server_ok s" "host_view env infra s \<noteq> None \<or> malloc_ok mk s"
    "v = host_view env infra s"
    "d = rtt_update_data (ie_limits env) (v = None \<or> expired_at tm v) (old_delay tm v) qtype roundtrip orig_rtt
       (base_data env mk (host_ttl infra) tm v)"
  shows "\<exists>infra'. infra_rtt_update env mk s qtype roundtrip orig_rtt tm infra =
      Some (if rto (id_rtt d) > 0 then rto (id_rtt d) else 1, infra') \<and>
    host_inv sz infra' \<and> hosts_only infra infra' \<and> stored env s d infra infra'"
proof -
  from infra_obtain_ok [OF assms(1,2), of env mk tm] assms(3,4) obtain e infra1 where
    1: "infra_obtain env mk s tm infra = Some (Some (e, base_data env mk (host_ttl infra) tm v, expired_at tm v, old_delay tm v), infra1)"
    "is_fresh e \<longleftrightarrow> v = None"
    "\<forall>d'. \<exists>infra2. infra_store env e d' infra1 = Some infra2 \<and> host_inv sz infra2 \<and>
          hosts_only infra infra2 \<and> stored env s d' infra infra2" by auto
  from 1(3) obtain infra2 where 2: "infra_store env e d infra1 = Some infra2" "host_inv sz infra2"
    "hosts_only infra infra2" "stored env s d infra infra2" by blast
  have d: "rtt_update_data (ie_limits env) (is_fresh e \<or> expired_at tm v) (old_delay tm v) qtype roundtrip orig_rtt
       (base_data env mk (host_ttl infra) tm v) = d" using 1(2) by (simp add: assms(5))
  show ?thesis
    using 1(1) 2 by (simp add: infra_rtt_update_def Let_def is_fresh_def [symmetric] d)
qed

lemma infra_edns_update_ok:
  assumes "host_inv sz infra" "server_ok s" "host_view env infra s \<noteq> None \<or> malloc_ok mk s"
    "b = base_data env mk (host_ttl infra) tm (host_view env infra s)"
    "d = (if \<not> (vs = -1 \<and> edns_version b \<noteq> -1 \<and> edns_lame_known b)
          then b\<lparr>edns_version := vs, edns_lame_known := True\<rparr> else b)"
  shows "\<exists>infra'. infra_edns_update env mk s vs tm infra = Some (True, infra') \<and>
    host_inv sz infra' \<and> hosts_only infra infra' \<and> stored env s d infra infra'"
proof -
  from infra_obtain_ok [OF assms(1,2), of env mk tm] assms(3,4) obtain e infra1 where
    1: "infra_obtain env mk s tm infra = Some (Some (e, b, expired_at tm (host_view env infra s), old_delay tm (host_view env infra s)), infra1)"
    "\<forall>d'. \<exists>infra2. infra_store env e d' infra1 = Some infra2 \<and> host_inv sz infra2 \<and>
          hosts_only infra infra2 \<and> stored env s d' infra infra2" by auto
  from 1(2) obtain infra2 where 2: "infra_store env e d infra1 = Some infra2" "host_inv sz infra2"
    "hosts_only infra infra2" "stored env s d infra infra2" by blast
  have "infra_edns_update env mk s vs tm infra = Some (True, infra2)"
    using 1(1) 2(1) unfolding assms(5) by (simp add: infra_edns_update_def Let_def split: if_splits)
  with 2 show ?thesis by blast
qed

definition lame_data :: "bool \<Rightarrow> bool \<Rightarrow> nat \<Rightarrow> infra_data \<Rightarrow> infra_data" where
  "lame_data dnsseclame reclame qtype d =
     d\<lparr>isdnsseclame := isdnsseclame d \<or> dnsseclame, rec_lame := rec_lame d \<or> reclame,
       lame_type_A := lame_type_A d \<or> (\<not> dnsseclame \<and> \<not> reclame \<and> qtype = LDNS_RR_TYPE_A),
       lame_other := lame_other d \<or> (\<not> dnsseclame \<and> \<not> reclame \<and> qtype \<noteq> LDNS_RR_TYPE_A)\<rparr>"

lemma infra_set_lame_ok:
  assumes "host_inv sz infra" "server_ok s" "host_view env infra s \<noteq> None \<or> malloc_ok mk s"
    "d = lame_data dnsseclame reclame qtype (base_data env mk (host_ttl infra) tm (host_view env infra s))"
  shows "\<exists>infra'. infra_set_lame env mk s tm dnsseclame reclame qtype infra = Some (True, infra') \<and>
    host_inv sz infra' \<and> hosts_only infra infra' \<and> stored env s d infra infra'"
proof -
  define b where "b = base_data env mk (host_ttl infra) tm (host_view env infra s)"
  from infra_obtain_ok [OF assms(1,2), of env mk tm] assms(3) obtain e infra1 where
    1: "infra_obtain env mk s tm infra = Some (Some (e, b, expired_at tm (host_view env infra s), old_delay tm (host_view env infra s)), infra1)"
    "\<forall>d'. \<exists>infra2. infra_store env e d' infra1 = Some infra2 \<and> host_inv sz infra2 \<and>
          hosts_only infra infra2 \<and> stored env s d' infra infra2" by (auto simp: b_def)
  from 1(2) obtain infra2 where 2: "infra_store env e d infra1 = Some infra2" "host_inv sz infra2"
    "hosts_only infra infra2" "stored env s d infra infra2" by blast
  have "infra_set_lame env mk s tm dnsseclame reclame qtype infra = Some (True, infra2)"
    using 1(1) 2(1) unfolding assms(4) b_def [symmetric]
    by (cases dnsseclame; cases reclame; cases "qtype = LDNS_RR_TYPE_A")
      (simp_all add: infra_set_lame_def Let_def lame_data_def)
  with 2 show ?thesis by blast
qed

lemma infra_malloc_fails:
  assumes "host_inv sz infra" "server_ok s" "host_view env infra s = None" "\<not> malloc_ok mk s"
  shows "\<exists>infra'. infra_obtain env mk s tm infra = Some (None, infra') \<and> host_inv sz infra' \<and>
    hosts_only infra infra' \<and> host_view env infra' = host_view env infra"
  using infra_obtain_ok [OF assms(1,2), of env mk tm] assms(3,4) by auto

lemma infra_read_ok:
  assumes "host_inv sz infra" "server_ok s"
  shows "\<exists>r infra1. infra_lookup_nottl env s infra = Some (r, infra1) \<and> host_inv sz infra1 \<and>
    hosts_only infra infra1 \<and> host_view env infra1 = host_view env infra \<and>
    (case r of None \<Rightarrow> host_view env infra s = None
     | Some p \<Rightarrow> host_data infra1 p = host_view env infra s \<and> host_view env infra s \<noteq> None)"
  using infra_lookup_ok [OF assms, of env] by (auto split: option.splits)

lemma infra_get_host_rto_ok:
  assumes "host_inv sz infra" "server_ok s"
  shows "\<exists>infra'. infra_get_host_rto env s tm infra = Some ((case host_view env infra s of
        None \<Rightarrow> (-1, None, None)
      | Some d \<Rightarrow> (if ttl d \<ge> tm then ttl d - tm else -2,
          if ttl d \<ge> tm then Some (id_rtt d, if tm < probedelay d then i32 (probedelay d - tm) else 0) else None,
          Some (timeout_A d, timeout_AAAA d, timeout_other d))), infra') \<and>
    host_inv sz infra' \<and> hosts_only infra infra' \<and> host_view env infra' = host_view env infra"
  using infra_read_ok [OF assms, of env] by (auto simp: infra_get_host_rto_def split: option.splits)

lemma infra_get_lame_rtt_ok:
  assumes "host_inv sz infra" "server_ok s"
  shows "\<exists>infra'. infra_get_lame_rtt env s qtype tm infra = Some ((case host_view env infra s of
        None \<Rightarrow> (False, None, None)
      | Some d \<Rightarrow> (case lame_rtt_data (ie_limits env) (infra_keep_probing infra) qtype tm d of
          (ret, rtt, lame) \<Rightarrow> (ret, Some rtt, lame))), infra') \<and>
    host_inv sz infra' \<and> hosts_only infra infra' \<and> host_view env infra' = host_view env infra"
proof -
  from infra_read_ok [OF assms, of env] obtain r infra1 where
    1: "infra_lookup_nottl env s infra = Some (r, infra1)" "host_inv sz infra1"
    "hosts_only infra infra1" "host_view env infra1 = host_view env infra"
    "case r of None \<Rightarrow> host_view env infra s = None
     | Some p \<Rightarrow> host_data infra1 p = host_view env infra s \<and> host_view env infra s \<noteq> None" by blast
  then show ?thesis using hosts_only_fields [OF 1(3)]
    by (auto simp: infra_get_lame_rtt_def split: option.splits prod.splits)
qed

lemma infra_update_tcp_works_ok:
  assumes "host_inv sz infra" "server_ok s"
  shows "\<exists>infra'. infra_update_tcp_works env s infra = Some infra' \<and> host_inv sz infra' \<and> hosts_only infra infra' \<and>
    (\<forall>s'. server_ok s' \<longrightarrow> host_view env infra' s' =
       (case host_view env infra s of
          Some d \<Rightarrow> if same_server s s' \<and> rto (id_rtt d) \<ge> RTT_MAX_TIMEOUT (ie_limits env)
            then Some (d\<lparr>id_rtt := (id_rtt d)\<lparr>rto := RTT_MAX_TIMEOUT (ie_limits env) - 1000\<rparr>\<rparr>)
            else host_view env infra s'
        | None \<Rightarrow> host_view env infra s'))"
proof -
  from infra_lookup_ok [OF assms, of env] obtain r infra1 where
    1: "infra_lookup_nottl env s infra = Some (r, infra1)" "host_inv sz infra1"
    "hosts_only infra infra1" "host_view env infra1 = host_view env infra"
    "case r of None \<Rightarrow> host_view env infra s = None
     | Some p \<Rightarrow> host_data infra1 p = host_view env infra s \<and> host_view env infra s \<noteq> None \<and>
         (\<forall>d. \<exists>infra2. set_host_data p d infra1 = Some infra2 \<and> host_inv sz infra2 \<and> hosts_only infra infra2 \<and>
            (\<forall>s'. server_ok s' \<longrightarrow>
               host_view env infra2 s' = (if same_server s s' then Some d else host_view env infra s')))"
    by blast
  show ?thesis
  proof (cases r)
    case None
    with 1 show ?thesis by (simp add: infra_update_tcp_works_def)
  next
    case (Some p)
    with 1(5) obtain d where d: "host_view env infra s = Some d" "host_data infra1 p = Some d" by auto
    let ?d = "d\<lparr>id_rtt := (id_rtt d)\<lparr>rto := RTT_MAX_TIMEOUT (ie_limits env) - 1000\<rparr>\<rparr>"
    from 1(5) Some obtain infra2 where i2: "set_host_data p ?d infra1 = Some infra2" "host_inv sz infra2"
      "hosts_only infra infra2" "\<And>s'. server_ok s' \<Longrightarrow>
        host_view env infra2 s' = (if same_server s s' then Some ?d else host_view env infra s')" by auto
    show ?thesis
    proof (cases "rto (id_rtt d) \<ge> RTT_MAX_TIMEOUT (ie_limits env)")
      case True
      with 1(1) Some d i2 show ?thesis by (simp add: infra_update_tcp_works_def)
    next
      case False
      with 1 Some d show ?thesis by (simp add: infra_update_tcp_works_def)
    qed
  qed
qed

text \<open>The data of a server after \<open>infra_host\<close>: a new entry, or the entry with what had expired
  initialised again, possibly with a new probe delay.\<close>

definition host_base :: "infra_env \<Rightarrow> infra_malloc \<Rightarrow> int \<Rightarrow> int \<Rightarrow> infra_data option \<Rightarrow> infra_data" where
  "host_base env mk httl tm v = (case v of
     None \<Rightarrow> data_entry_init (ie_limits env) httl tm (raw_data mk)
   | Some d \<Rightarrow> if ttl d < tm then
       (let d' = data_entry_init (ie_limits env) httl tm d
        in if rto (id_rtt d) \<ge> USEFUL_SERVER_TOP_TIMEOUT (ie_limits env)
           then d'\<lparr>id_rtt := (id_rtt d')\<lparr>rto := USEFUL_SERVER_TOP_TIMEOUT (ie_limits env)\<rparr>,
                   probedelay := probedelay d, timeout_A := timeout_A d,
                   timeout_AAAA := timeout_AAAA d, timeout_other := timeout_other d\<rparr>
           else d')
     else d)"

lemma host_view_same:
  assumes "host_inv sz infra" "server_ok s" "server_ok s'" "same_server s s'"
  shows "host_view env infra s' = host_view env infra s"
  using assms(1,4) infra_hosts.slab_get_same [of sz "hosts infra" "server_key s" "server_key s'"]
  by (simp add: host_view_def hash_same_server [OF assms(2-4)] host_inv_def same_server_def)

lemma stored_cong: "host_view env infra1 = host_view env infra \<Longrightarrow> stored env s d infra1 x = stored env s d infra x"
  by (simp add: stored_def)

lemma stored_unchanged:
  assumes "host_inv sz infra" "server_ok s" "host_view env infra s = Some d" "host_view env infra' = host_view env infra"
  shows "stored env s d infra infra'"
  unfolding stored_def assms(4)
proof (intro conjI allI impI)
  fix s' assume "server_ok s'"
  then show "host_view env infra s' = None \<or>
      host_view env infra s' = (if same_server s s' then Some d else host_view env infra s')"
    using host_view_same [OF assms(1,2), of s' env] assms(3) by (cases "same_server s s'") simp_all
qed (fact assms(3))

text \<open>An entry that is found can be written once or twice through the same pointer.\<close>

lemma infra_found:
  assumes "host_inv sz infra" "server_ok s" "host_view env infra s = Some d0"
  shows "\<exists>p infra1. infra_lookup_nottl env s infra = Some (Some p, infra1) \<and> host_inv sz infra1 \<and>
    hosts_only infra infra1 \<and> host_view env infra1 = host_view env infra \<and> host_data infra1 p = Some d0 \<and>
    (\<forall>d. \<exists>infra2. set_host_data p d infra1 = Some infra2 \<and> host_inv sz infra2 \<and> hosts_only infra infra2 \<and>
       host_data infra2 p = Some d \<and> stored env s d infra infra2 \<and>
       (\<forall>d'. set_host_data p d' infra2 = set_host_data p d' infra1))"
proof -
  from infra_lookup_ok [OF assms(1,2), of env] obtain r infra1 where
    0: "infra_lookup_nottl env s infra = Some (r, infra1)" "host_inv sz infra1"
    "hosts_only infra infra1" "host_view env infra1 = host_view env infra"
    "case r of None \<Rightarrow> host_view env infra s = None
     | Some p \<Rightarrow> host_data infra1 p = host_view env infra s \<and> host_view env infra s \<noteq> None \<and>
         (\<forall>d. \<exists>infra2. set_host_data p d infra1 = Some infra2 \<and> host_inv sz infra2 \<and> hosts_only infra infra2 \<and>
            (\<forall>s'. server_ok s' \<longrightarrow>
               host_view env infra2 s' = (if same_server s s' then Some d else host_view env infra s')))"
    by blast
  from 0(5) assms(3) obtain p where p: "r = Some p" by (cases r) auto
  have 1: "infra_lookup_nottl env s infra = Some (Some p, infra1)" "host_inv sz infra1"
    "hosts_only infra infra1" "host_view env infra1 = host_view env infra" "host_data infra1 p = Some d0"
    "\<forall>d. \<exists>infra2. set_host_data p d infra1 = Some infra2 \<and> host_inv sz infra2 \<and> hosts_only infra infra2 \<and>
            (\<forall>s'. server_ok s' \<longrightarrow>
               host_view env infra2 s' = (if same_server s s' then Some d else host_view env infra s'))"
    using 0 p assms(3) by simp_all
  have "\<exists>infra2. set_host_data p d infra1 = Some infra2 \<and> host_inv sz infra2 \<and> hosts_only infra infra2 \<and>
       host_data infra2 p = Some d \<and> stored env s d infra infra2 \<and>
       (\<forall>d'. set_host_data p d' infra2 = set_host_data p d' infra1)" for d
  proof -
    from 1(6) obtain infra2 where i2: "set_host_data p d infra1 = Some infra2" "host_inv sz infra2"
      "hosts_only infra infra2" "\<And>s'. server_ok s' \<Longrightarrow>
        host_view env infra2 s' = (if same_server s s' then Some d else host_view env infra s')" by blast
    from i2(1) obtain sl where sl: "set_entry_data (fst p) (snd p) d (hosts infra1) = Some sl"
      "infra2 = infra1\<lparr>hosts := sl\<rparr>" by (auto simp: set_host_data_def split: bind_splits)
    note tw = set_entry_data_twice [OF sl(1)]
    have "host_data infra2 p = Some d" "set_host_data p d' infra2 = set_host_data p d' infra1" for d'
      using tw by (simp_all add: host_data_def set_host_data_def sl(2))
    with i2 assms(2) show ?thesis by (simp add: stored_def)
  qed
  with 1(1-5) show ?thesis by blast
qed

definition probes :: "server_limits \<Rightarrow> bool \<Rightarrow> infra_data \<Rightarrow> bool" where
  "probes lim keep d \<longleftrightarrow> rtt_timeout (id_rtt d) \<ge> PROBE_MAXRTO \<and>
     (keep \<or> i32 (rtt_notimeout lim (id_rtt d) * 4) \<le> rtt_timeout (id_rtt d))"

text \<open>The data of a server after \<open>infra_host\<close>.\<close>

definition host_result :: "infra_env \<Rightarrow> bool \<Rightarrow> int \<Rightarrow> bool \<Rightarrow> infra_data \<Rightarrow> infra_data" where
  "host_result env keep tm existed b =
     (if existed \<and> probes (ie_limits env) keep b
      then b\<lparr>probedelay := tm + i32 (rtt_timeout (id_rtt b) + 1999) sdiv 1000\<rparr> else b)"

lemma infra_host_new:
  assumes "host_inv sz infra" "server_ok s" "host_view env infra s = None" "malloc_ok mk s"
    "b = host_base env mk (host_ttl infra) tm None"
  shows "\<exists>infra'. infra_host env mk s tm infra =
      Some (Some (edns_version b, edns_lame_known b, rtt_timeout (id_rtt b)), infra') \<and>
    host_inv sz infra' \<and> hosts_only infra infra' \<and> stored env s b infra infra'"
proof -
  from infra_read_ok [OF assms(1,2), of env] obtain r infra1 where
    0: "infra_lookup_nottl env s infra = Some (r, infra1)" "host_inv sz infra1"
    "hosts_only infra infra1" "host_view env infra1 = host_view env infra"
    "case r of None \<Rightarrow> host_view env infra s = None
     | Some p \<Rightarrow> host_data infra1 p = host_view env infra s \<and> host_view env infra s \<noteq> None" by blast
  with assms(3) have "r = None" by (cases r) auto
  with 0 have 1: "infra_lookup_nottl env s infra = Some (None, infra1)" "host_inv sz infra1"
    "hosts_only infra infra1" "host_view env infra1 = host_view env infra" by simp_all
  from hash_infra_total [of "s_addr s" "s_addrlen s" "ie_hash env" "s_name s"] assms(2) obtain h where
    h: "hash_infra (ie_hash env) (s_addr s) (s_addrlen s) (s_name s) = Some h" by (auto simp: server_ok_def)
  from infra_insert_ok [OF 1(2) assms(2) h, of b] obtain infra2 where
    2: "infra_insert env h (server_key s) b infra1 = Some infra2" "host_inv sz infra2"
    "hosts_only infra1 infra2" "stored env s b infra infra2" unfolding stored_def 1(4) by blast
  have "infra_new_entry env mk s tm infra1 = Some (Some (h, server_key s, b))"
    using h assms(4) hosts_only_fields [OF 1(3)]
    by (simp add: infra_new_entry_def malloc_ok_def assms(5) host_base_def)
  with 1(1) 2 hosts_only_trans [OF 1(3) 2(3)] show ?thesis by (simp add: infra_host_def)
qed

lemma infra_host_valid:
  assumes "host_inv sz infra" "server_ok s" "host_view env infra s = Some b" "\<not> ttl b < tm"
  shows "\<exists>infra'. infra_host env mk s tm infra =
      Some (Some (edns_version b, edns_lame_known b, rtt_timeout (id_rtt b)), infra') \<and>
    host_inv sz infra' \<and> hosts_only infra infra' \<and>
    stored env s (host_result env (infra_keep_probing infra) tm True b) infra infra'"
proof -
  from infra_found [OF assms(1-3)] obtain p infra1 where
    1: "infra_lookup_nottl env s infra = Some (Some p, infra1)" "host_inv sz infra1"
    "hosts_only infra infra1" "host_view env infra1 = host_view env infra" "host_data infra1 p = Some b" by blast
  note fld = hosts_only_fields [OF 1(3)]
  show ?thesis
  proof (cases "probes (ie_limits env) (infra_keep_probing infra) b")
    case False
    then have "infra_host env mk s tm infra =
        Some (Some (edns_version b, edns_lame_known b, rtt_timeout (id_rtt b)), infra1)"
      using 1(1,5) assms(4) fld by (auto simp: infra_host_def probes_def Let_def)
    with 1 False stored_unchanged [OF assms(1-3) 1(4)] show ?thesis by (simp add: host_result_def)
  next
    case True
    let ?d = "host_result env (infra_keep_probing infra) tm True b"
    have v1: "host_view env infra1 s = Some b" using 1(4) assms(3) by simp
    from infra_found [OF 1(2) assms(2) v1] obtain q infra2 where
      2: "infra_lookup_nottl env s infra1 = Some (Some q, infra2)" "host_data infra2 q = Some b"
      "\<forall>d. \<exists>infra3. set_host_data q d infra2 = Some infra3 \<and> host_inv sz infra3 \<and>
         hosts_only infra1 infra3 \<and> stored env s d infra1 infra3" by blast
    from 2(3) obtain infra3 where 3: "set_host_data q ?d infra2 = Some infra3" "host_inv sz infra3"
      "hosts_only infra1 infra3" "stored env s ?d infra1 infra3" by blast
    have "infra_host env mk s tm infra =
        Some (Some (edns_version b, edns_lame_known b, rtt_timeout (id_rtt b)), infra3)"
      using 1(1,5) 2(1,2) 3(1) assms(4) fld True
      by (simp add: infra_host_def probes_def host_result_def Let_def)
    with 3 hosts_only_trans [OF 1(3) 3(3)] show ?thesis by (simp add: stored_cong [OF 1(4)])
  qed
qed

lemma infra_host_expired:
  assumes "host_inv sz infra" "server_ok s" "host_view env infra s = Some d" "ttl d < tm"
    "b = host_base env mk (host_ttl infra) tm (Some d)"
  shows "\<exists>infra'. infra_host env mk s tm infra =
      Some (Some (edns_version b, edns_lame_known b, rtt_timeout (id_rtt b)), infra') \<and>
    host_inv sz infra' \<and> hosts_only infra infra' \<and>
    stored env s (host_result env (infra_keep_probing infra) tm True b) infra infra'"
proof -
  from infra_found [OF assms(1-3)] obtain p infra1 where
    1: "infra_lookup_nottl env s infra = Some (Some p, infra1)" "host_inv sz infra1"
    "hosts_only infra infra1" "host_view env infra1 = host_view env infra" "host_data infra1 p = Some d" by blast
  have v1: "host_view env infra1 s = Some d" using 1(4) assms(3) by simp
  from infra_found [OF 1(2) assms(2) v1] obtain q infra2 where
    2: "infra_lookup_nottl env s infra1 = Some (Some q, infra2)" "host_data infra2 q = Some d"
    "hosts_only infra1 infra2"
    "\<forall>d. \<exists>infra3. set_host_data q d infra2 = Some infra3 \<and> host_inv sz infra3 \<and>
       hosts_only infra1 infra3 \<and> host_data infra3 q = Some d \<and> stored env s d infra1 infra3 \<and>
       (\<forall>d'. set_host_data q d' infra3 = set_host_data q d' infra2)" by blast
  from 2(4) obtain infra3 where 3: "set_host_data q b infra2 = Some infra3" "host_inv sz infra3"
    "hosts_only infra1 infra3" "host_data infra3 q = Some b" "stored env s b infra1 infra3"
    "\<forall>d'. set_host_data q d' infra3 = set_host_data q d' infra2" by blast
  let ?d = "host_result env (infra_keep_probing infra) tm True b"
  from 2(4) obtain infra4 where 4: "set_host_data q ?d infra2 = Some infra4" "host_inv sz infra4"
    "hosts_only infra1 infra4" "stored env s ?d infra1 infra4" by blast
  note fld = hosts_only_fields [OF 1(3)] hosts_only_fields [OF 2(3)] hosts_only_fields [OF 3(3)]
  let ?d1 = "data_entry_init (ie_limits env) (host_ttl infra2) tm d"
  have b: "(if rto (id_rtt d) \<ge> USEFUL_SERVER_TOP_TIMEOUT (ie_limits env)
      then ?d1\<lparr>id_rtt := (id_rtt ?d1)\<lparr>rto := USEFUL_SERVER_TOP_TIMEOUT (ie_limits env)\<rparr>,
             probedelay := probedelay d, timeout_A := timeout_A d,
             timeout_AAAA := timeout_AAAA d, timeout_other := timeout_other d\<rparr> else ?d1) = b"
    using assms(4) fld by (simp add: assms(5) host_base_def Let_def)
  show ?thesis
  proof (cases "probes (ie_limits env) (infra_keep_probing infra) b")
    case False
    then have np: "(PROBE_MAXRTO \<le> rtt_timeout (id_rtt b) \<and> (infra_keep_probing infra \<or>
        i32 (rtt_notimeout (ie_limits env) (id_rtt b) * 4) \<le> rtt_timeout (id_rtt b))) = False"
      by (simp add: probes_def)
    have "infra_host env mk s tm infra =
        Some (Some (edns_version b, edns_lame_known b, rtt_timeout (id_rtt b)), infra3)"
      using 1(1,5) 2(1,2) 3(1,4) assms(4) fld
      by (simp add: infra_host_def Let_def b np split del: if_split)
    with 3 False hosts_only_trans [OF 1(3) 3(3)] show ?thesis
      by (simp add: stored_cong [OF 1(4)] host_result_def)
  next
    case True
    then have "infra_host env mk s tm infra =
        Some (Some (edns_version b, edns_lame_known b, rtt_timeout (id_rtt b)), infra4)"
      using 1(1,5) 2(1,2) 3(1,4,6) 4(1) assms(4) fld
      by (simp add: infra_host_def probes_def host_result_def Let_def b split del: if_split)
    with 4 hosts_only_trans [OF 1(3) 4(3)] show ?thesis by (simp add: stored_cong [OF 1(4)])
  qed
qed

end
