(* ===== verification/Infra_Host_Props.thy ===== *)
theory Infra_Host_Props
  imports Infra_Host_Map
begin

text \<open>
  Properties of the cache of server addresses: runs of operations, and what is recorded by one call
  and read by another.
\<close>

section \<open>Runs of operations\<close>







section \<open>The data stay in range\<close>









section \<open>One step\<close>












section \<open>What an update records\<close>







section \<open>Sample values\<close>

definition sample_env :: infra_env where
  "sample_env = \<lparr>ie_hash = \<lparr>he_little = True, he_addr = 0, he_labuf = 0, he_raninit = 7\<rparr>,
     ie_limits = default_limits, ie_grow_ok = True\<rparr>"

definition sample_server :: "byte \<Rightarrow> byte \<Rightarrow> server_id" where
  "sample_server x y = \<lparr>s_addr = sample_sockaddr x, s_addrlen = 16, s_name = sample_name y, s_namelen = 5\<rparr>"

definition sample_data :: infra_data where
  "sample_data = \<lparr>ttl = 0, probedelay = 0, id_rtt = \<lparr>srtt = 0, rttvar = 0, rto = 0\<rparr>, edns_version = 0,
     edns_lame_known = False, isdnsseclame = False, rec_lame = False, lame_type_A = False, lame_other = False,
     timeout_A = 0, timeout_AAAA = 0, timeout_other = 0\<rparr>"

definition sample_malloc :: infra_malloc where
  "sample_malloc = \<lparr>key_ok = True, data_ok = True, name_ok = True, raw_data = sample_data\<rparr>"

definition sample_sizes :: struct_sizes where
  "sample_sizes = \<lparr>sz_key = 200, sz_data = 48, sz_lock = 0\<rparr>"

lemma sample_server_ok: "server_ok (sample_server x y)"
  by (simp add: server_ok_def sample_server_def sample_sockaddr_ok)


lemma sample_malloc_ok: "malloc_ok sample_malloc (sample_server x y)"
  by (simp add: malloc_ok_def sample_malloc_def sample_server_def)



text \<open>An empty cache of four tables, as \<open>slabhash_create\<close> makes it.\<close>

lemma sample_cache:
  "\<exists>infra :: host_cache. host_inv sample_sizes infra \<and> host_ttl infra = 900 \<and>
     (\<forall>s. host_view env infra s = None)"
proof -
  from slabhash_create_cases [OF infra_hosts.hash_callbacks_axioms [of sample_sizes], of 2 1 1000000 None True True "\<lambda>i. (True, True)"]
  obtain sl :: "(infra_key, infra_data) slabhash" where
    sl: "slab_holds infra_compfunc (infra_sizefunc sample_sizes) (1000000 div of_nat (2 ^ 2)) sl (\<lambda>i. [])" by auto
  have "slab_get sl h k = None" for h k by (simp add: slab_get_rows [OF sl] spec_find_def)
  then have "host_view env \<lparr>hosts = sl, host_ttl = 900, infra_keep_probing = False\<rparr> s = None" for s
    by (simp add: host_view_def bind_eq_None_conv)
  moreover have "host_inv sample_sizes \<lparr>hosts = sl, host_ttl = 900, infra_keep_probing = False\<rparr>"
    using sl by (auto simp: host_inv_def slab_cache_def)
  ultimately show ?thesis by (intro exI [of _ "\<lparr>hosts = sl, host_ttl = 900, infra_keep_probing = False\<rparr>"]) simp
qed

section \<open>Properties\<close>





text \<open>
  A server that is marked lame is reported lame: right after \<open>infra_set_lame\<close>, \<open>infra_get_lame_rtt\<close>
  for the same type of query finds the entry and reports some kind of lameness, and lameness for the
  type when the server was marked neither DNSSEC-lame nor recursion-lame.
\<close>

lemma infra_set_lame_then_get:
  assumes "host_inv sz infra" "server_ok s" "server_ok s'" "same_server s s'" "0 \<le> host_ttl infra"
    "host_view env infra s = None \<longrightarrow> malloc_ok mk s"
  shows "\<exists>infra1 rtt lame dlame rlame infra2.
    infra_set_lame env mk s tm dl rl qt infra = Some (True, infra1) \<and>
    infra_get_lame_rtt env s' qt tm infra1 = Some ((True, Some rtt, Some (lame, dlame, rlame)), infra2) \<and>
    (lame \<or> dlame \<or> rlame) \<and> (\<not> dl \<and> \<not> rl \<longrightarrow> lame)"
proof -
  define b where "b = base_data env mk (host_ttl infra) tm (host_view env infra s)"
  define d where "d = lame_data dl rl qt b"
  have m: "host_view env infra s \<noteq> None \<or> malloc_ok mk s" using assms(6) by blast
  from infra_set_lame_ok [OF assms(1,2) m d_def [unfolded b_def]] obtain infra1 where
    1: "infra_set_lame env mk s tm dl rl qt infra = Some (True, infra1)" "host_inv sz infra1"
    "host_view env infra1 s = Some d" by (auto simp: stored_def)
  have 2: "host_view env infra1 s' = Some d" using host_view_same [OF 1(2) assms(2-4), of env] 1(3) by simp
  have tb: "\<not> ttl d < tm"
    using assms(5) by (auto simp: d_def lame_data_def b_def base_data_def data_entry_init_def split: option.split)
  obtain rtt lame dlame rlame where
    r: "lame_rtt_data (ie_limits env) (infra_keep_probing infra1) qt tm d = (True, rtt, Some (lame, dlame, rlame))"
    "lame \<or> dlame \<or> rlame" "\<not> dl \<and> \<not> rl \<longrightarrow> lame"
    using tb unfolding lame_rtt_data_def Let_def
    by (cases dl; cases rl; cases "qt = LDNS_RR_TYPE_A"; cases "lame_type_A b"; cases "lame_other b"; cases "isdnsseclame b")
      (simp_all add: d_def lame_data_def)
  from infra_get_lame_rtt_ok [OF 1(2) assms(3), of env qt tm] 2 r(1) obtain infra2 where
    "infra_get_lame_rtt env s' qt tm infra1 = Some ((True, Some rtt, Some (lame, dlame, rlame)), infra2)" by auto
  with 1(1) r(2,3) show ?thesis by blast
qed

text \<open>
  C18. Reuse of an expired entry forgets lameness: after \<open>infra_host\<close> on an entry that has expired,
  \<open>infra_get_lame_rtt\<close> reports no lameness of any kind, whatever was recorded before. The comment in
  \<open>infra_host\<close> says that lameness is not touched.
\<close>

theorem infra_host_forgets_lameness:
  assumes "host_inv sz infra" "server_ok s" "host_view env infra s = Some d" "ttl d < tm" "0 \<le> host_ttl infra"
  shows "\<exists>res infra1 rtt infra2. infra_host env mk s tm infra = Some (Some res, infra1) \<and>
    infra_get_lame_rtt env s qt tm infra1 = Some ((True, Some rtt, Some (False, False, False)), infra2)"
proof -
  define b where "b = host_base env mk (host_ttl infra) tm (Some d)"
  define r where "r = host_result env (infra_keep_probing infra) tm True b"
  from infra_host_expired [OF assms(1-4) b_def] obtain res infra1 where
    1: "infra_host env mk s tm infra = Some (Some res, infra1)" "host_inv sz infra1" "host_view env infra1 s = Some r"
    by (auto simp: stored_def r_def)
  have "\<not> ttl r < tm" "\<not> lame_type_A r" "\<not> lame_other r" "\<not> isdnsseclame r" "\<not> rec_lame r"
    using assms(4,5) by (simp_all add: r_def b_def host_result_def host_base_def Let_def data_entry_init_def)
  then obtain rtt where
    "lame_rtt_data (ie_limits env) (infra_keep_probing infra1) qt tm r = (True, rtt, Some (False, False, False))"
    by (simp add: lame_rtt_data_def Let_def)
  with infra_get_lame_rtt_ok [OF 1(2) assms(2), of env qt tm] 1(1,3) show ?thesis by fastforce
qed

theorem infra_host_forgets_lameness_witness:
  "\<exists>(infra :: host_cache) d res infra1 rtt infra2. host_view sample_env infra (sample_server 1 65) = Some d \<and> lame_other d \<and>
    infra_host sample_env sample_malloc (sample_server 1 65) 5000 infra = Some (Some res, infra1) \<and>
    infra_get_lame_rtt sample_env (sample_server 1 65) 28 5000 infra1 = Some ((True, Some rtt, Some (False, False, False)), infra2)"
proof -
  let ?s = "sample_server 1 65"
  from sample_cache obtain infra0 :: host_cache where
    0: "host_inv sample_sizes infra0" "host_ttl infra0 = 900" "\<And>s. host_view sample_env infra0 s = None" by blast
  define d where "d = lame_data False False 28 (base_data sample_env sample_malloc 900 1000 None)"
  have d: "lame_other d" "ttl d < 5000"
    by (simp_all add: d_def lame_data_def LDNS_RR_TYPE_A_def base_data_def data_entry_init_def)
  from infra_set_lame_ok [OF 0(1) sample_server_ok, of sample_env 1 65 sample_malloc d False False 28 1000] 0 sample_malloc_ok
  obtain infra where 1: "host_inv sample_sizes infra" "hosts_only infra0 infra" "host_view sample_env infra ?s = Some d"
    by (auto simp: stored_def d_def)
  have h: "0 \<le> host_ttl infra" using hosts_only_fields(1) [OF 1(2)] 0(2) by simp
  from infra_host_forgets_lameness [OF 1(1) sample_server_ok 1(3) d(2) h, of sample_malloc 28] 1(3) d(1)
  show ?thesis by blast
qed

end
