(* ===== verification/Rbtree.thy ===== *)
theory Rbtree
  imports Prelude
begin

text \<open>
  The red-black tree of \<open>util/rbtree.c\<close>. Nodes live in a memory from addresses to nodes. A link is an
  address or \<open>RBTREE_NULL\<close>, the address of the shared sentinel \<open>rbtree_null_node\<close>, whose fields are
  constant: it is black and its links are \<open>RBTREE_NULL\<close>. A write to the sentinel, which all trees
  share, is a failure of the model, as is an access to an address without a node; a loop that does not
  end is one too. The null pointer as a result is \<open>None\<close>. A key is the contents of the structure that
  the key pointer points to.
\<close>

section \<open>Nodes and trees\<close>

datatype rb_color = BLACK | RED

abbreviation RBTREE_NULL :: "addr option" where "RBTREE_NULL \<equiv> None"

record 'k rbnode =
  rb_parent :: "addr option"
  rb_left :: "addr option"
  rb_right :: "addr option"
  rb_key :: 'k
  rb_color :: rb_color

record 'k rbtree =
  rb_root :: "addr option"
  rb_count :: u64
  rb_cmp :: "'k \<Rightarrow> 'k \<Rightarrow> int"
  rb_mem :: "addr \<Rightarrow> 'k rbnode option"

text \<open>Reading and writing a field through a link.\<close>

definition get_link :: "('k rbnode \<Rightarrow> addr option) \<Rightarrow> 'k rbtree \<Rightarrow> addr option \<Rightarrow> addr option option" where
  "get_link f t p = (case p of None \<Rightarrow> Some RBTREE_NULL | Some a \<Rightarrow> map_option f (rb_mem t a))"

definition get_color :: "'k rbtree \<Rightarrow> addr option \<Rightarrow> rb_color option" where
  "get_color t p = (case p of None \<Rightarrow> Some BLACK | Some a \<Rightarrow> map_option rb_color (rb_mem t a))"

definition get_key :: "'k rbtree \<Rightarrow> addr option \<Rightarrow> 'k option" where
  "get_key t p = (case p of None \<Rightarrow> None | Some a \<Rightarrow> map_option rb_key (rb_mem t a))"

definition upd_node :: "addr option \<Rightarrow> ('k rbnode \<Rightarrow> 'k rbnode) \<Rightarrow> 'k rbtree \<Rightarrow> 'k rbtree option" where
  "upd_node p f t = do { a \<leftarrow> p; n \<leftarrow> rb_mem t a; Some (t\<lparr>rb_mem := (rb_mem t)(a \<mapsto> f n)\<rparr>) }"

definition set_parent :: "addr option \<Rightarrow> addr option \<Rightarrow> 'k rbtree \<Rightarrow> 'k rbtree option" where
  "set_parent p q = upd_node p (\<lambda>n. n\<lparr>rb_parent := q\<rparr>)"

definition set_left :: "addr option \<Rightarrow> addr option \<Rightarrow> 'k rbtree \<Rightarrow> 'k rbtree option" where
  "set_left p q = upd_node p (\<lambda>n. n\<lparr>rb_left := q\<rparr>)"

definition set_right :: "addr option \<Rightarrow> addr option \<Rightarrow> 'k rbtree \<Rightarrow> 'k rbtree option" where
  "set_right p q = upd_node p (\<lambda>n. n\<lparr>rb_right := q\<rparr>)"

definition set_color :: "addr option \<Rightarrow> rb_color \<Rightarrow> 'k rbtree \<Rightarrow> 'k rbtree option" where
  "set_color p c = upd_node p (\<lambda>n. n\<lparr>rb_color := c\<rparr>)"

section \<open>Creation and rotations\<close>

definition rbtree_init :: "('k \<Rightarrow> 'k \<Rightarrow> int) \<Rightarrow> 'k rbtree \<Rightarrow> 'k rbtree" where
  "rbtree_init cmpf t = t\<lparr>rb_root := RBTREE_NULL, rb_count := 0, rb_cmp := cmpf\<rparr>"

definition rbtree_create :: "bool \<Rightarrow> ('k \<Rightarrow> 'k \<Rightarrow> int) \<Rightarrow> 'k rbtree \<Rightarrow> 'k rbtree option" where
  "rbtree_create malloc_ok cmpf raw = (if \<not> malloc_ok then None else Some (rbtree_init cmpf raw))"

definition rbtree_rotate_left :: "'k rbtree \<Rightarrow> addr option \<Rightarrow> 'k rbtree option" where
  "rbtree_rotate_left t node = do {
     right \<leftarrow> get_link rb_right t node;
     rl \<leftarrow> get_link rb_left t right;
     t \<leftarrow> set_right node rl t;
     rl \<leftarrow> get_link rb_left t right;
     t \<leftarrow> (if rl \<noteq> RBTREE_NULL then set_parent rl node t else Some t);
     np \<leftarrow> get_link rb_parent t node;
     t \<leftarrow> set_parent right np t;
     np \<leftarrow> get_link rb_parent t node;
     t \<leftarrow> (if np \<noteq> RBTREE_NULL then do {
             npl \<leftarrow> get_link rb_left t np;
             if node = npl then set_left np right t else set_right np right t }
           else Some (t\<lparr>rb_root := right\<rparr>));
     t \<leftarrow> set_left right node t;
     set_parent node right t }"

definition rbtree_rotate_right :: "'k rbtree \<Rightarrow> addr option \<Rightarrow> 'k rbtree option" where
  "rbtree_rotate_right t node = do {
     left \<leftarrow> get_link rb_left t node;
     lr \<leftarrow> get_link rb_right t left;
     t \<leftarrow> set_left node lr t;
     lr \<leftarrow> get_link rb_right t left;
     t \<leftarrow> (if lr \<noteq> RBTREE_NULL then set_parent lr node t else Some t);
     np \<leftarrow> get_link rb_parent t node;
     t \<leftarrow> set_parent left np t;
     np \<leftarrow> get_link rb_parent t node;
     t \<leftarrow> (if np \<noteq> RBTREE_NULL then do {
             npr \<leftarrow> get_link rb_right t np;
             if node = npr then set_right np left t else set_left np left t }
           else Some (t\<lparr>rb_root := left\<rparr>));
     t \<leftarrow> set_right left node t;
     set_parent node left t }"

section \<open>Insertion\<close>

text \<open>The body of the loop: the tree and the node of the next round.\<close>

definition insert_fixup_body :: "'k rbtree \<Rightarrow> addr option \<Rightarrow> ('k rbtree \<times> addr option) option" where
  "insert_fixup_body t node = do {
     np \<leftarrow> get_link rb_parent t node;
     npp \<leftarrow> get_link rb_parent t np;
     nppl \<leftarrow> get_link rb_left t npp;
     if np = nppl then do {
       uncle \<leftarrow> get_link rb_right t npp;
       uc \<leftarrow> get_color t uncle;
       if uc = RED then do {
         t \<leftarrow> set_color np BLACK t;
         t \<leftarrow> set_color uncle BLACK t;
         t \<leftarrow> set_color npp RED t;
         Some (t, npp) }
       else do {
         npr \<leftarrow> get_link rb_right t np;
         (t, node) \<leftarrow> (if node = npr then do { t \<leftarrow> rbtree_rotate_left t np; Some (t, np) } else Some (t, node));
         np \<leftarrow> get_link rb_parent t node;
         t \<leftarrow> set_color np BLACK t;
         npp \<leftarrow> get_link rb_parent t np;
         t \<leftarrow> set_color npp RED t;
         t \<leftarrow> rbtree_rotate_right t npp;
         Some (t, node) } }
     else do {
       uncle \<leftarrow> get_link rb_left t npp;
       uc \<leftarrow> get_color t uncle;
       if uc = RED then do {
         t \<leftarrow> set_color np BLACK t;
         t \<leftarrow> set_color uncle BLACK t;
         t \<leftarrow> set_color npp RED t;
         Some (t, npp) }
       else do {
         npl \<leftarrow> get_link rb_left t np;
         (t, node) \<leftarrow> (if node = npl then do { t \<leftarrow> rbtree_rotate_right t np; Some (t, np) } else Some (t, node));
         np \<leftarrow> get_link rb_parent t node;
         t \<leftarrow> set_color np BLACK t;
         npp \<leftarrow> get_link rb_parent t np;
         t \<leftarrow> set_color npp RED t;
         t \<leftarrow> rbtree_rotate_left t npp;
         Some (t, node) } } }"

partial_function (option) insert_fixup_loop :: "'k rbtree \<Rightarrow> addr option \<Rightarrow> 'k rbtree option" where
  "insert_fixup_loop t node =
     (if node \<noteq> rb_root t then do {
        np \<leftarrow> get_link rb_parent t node;
        c \<leftarrow> get_color t np;
        if c = RED then do {
          (t, node) \<leftarrow> insert_fixup_body t node;
          insert_fixup_loop t node }
        else Some t }
      else Some t)"

definition rbtree_insert_fixup :: "'k rbtree \<Rightarrow> addr option \<Rightarrow> 'k rbtree option" where
  "rbtree_insert_fixup t node = do {
     t \<leftarrow> insert_fixup_loop t node;
     set_color (rb_root t) BLACK t }"

text \<open>The search for the new parent: \<open>None\<close> for a duplicate, else the parent and the last comparison.\<close>

partial_function (option) insert_find_loop ::
    "'k rbtree \<Rightarrow> 'k \<Rightarrow> addr option \<Rightarrow> addr option \<Rightarrow> int \<Rightarrow> (addr option \<times> int) option option" where
  "insert_find_loop t key node parent r =
     (if node \<noteq> RBTREE_NULL then do {
        nk \<leftarrow> get_key t node;
        let r = rb_cmp t key nk;
        if r = 0 then Some None
        else if r < 0 then do { n \<leftarrow> get_link rb_left t node; insert_find_loop t key n node r }
        else do { n \<leftarrow> get_link rb_right t node; insert_find_loop t key n node r } }
      else Some (Some (parent, r)))"

definition rbtree_insert :: "'k rbtree \<Rightarrow> addr \<Rightarrow> (addr option \<times> 'k rbtree) option" where
  "rbtree_insert t data = do {
     key \<leftarrow> get_key t (Some data);
     f \<leftarrow> insert_find_loop t key (rb_root t) RBTREE_NULL 0;
     (case f of None \<Rightarrow> Some (None, t) | Some (parent, r) \<Rightarrow> do {
        t \<leftarrow> upd_node (Some data) (\<lambda>n. n\<lparr>rb_parent := parent, rb_left := RBTREE_NULL,
               rb_right := RBTREE_NULL, rb_color := RED\<rparr>) t;
        let t = t\<lparr>rb_count := rb_count t + 1\<rparr>;
        t \<leftarrow> (if parent \<noteq> RBTREE_NULL then
                 (if r < 0 then set_left parent (Some data) t else set_right parent (Some data) t)
               else Some (t\<lparr>rb_root := Some data\<rparr>));
        t \<leftarrow> rbtree_insert_fixup t (Some data);
        Some (Some data, t) }) }"

section \<open>Searching and walking\<close>

partial_function (option) find_less_equal_loop ::
    "'k rbtree \<Rightarrow> 'k \<Rightarrow> addr option \<Rightarrow> addr option \<Rightarrow> (bool \<times> addr option) option" where
  "find_less_equal_loop t key node res =
     (if node \<noteq> RBTREE_NULL then do {
        nk \<leftarrow> get_key t node;
        let r = rb_cmp t key nk;
        if r = 0 then Some (True, node)
        else if r < 0 then do { n \<leftarrow> get_link rb_left t node; find_less_equal_loop t key n res }
        else do { n \<leftarrow> get_link rb_right t node; find_less_equal_loop t key n node } }
      else Some (False, res))"

definition rbtree_find_less_equal :: "'k rbtree \<Rightarrow> 'k \<Rightarrow> (bool \<times> addr option) option" where
  "rbtree_find_less_equal t key = find_less_equal_loop t key (rb_root t) None"

definition rbtree_search :: "'k rbtree \<Rightarrow> 'k \<Rightarrow> addr option option" where
  "rbtree_search t key = do {
     (found, node) \<leftarrow> rbtree_find_less_equal t key;
     Some (if found then node else None) }"

partial_function (option) leftmost_loop :: "'k rbtree \<Rightarrow> addr option \<Rightarrow> addr option option" where
  "leftmost_loop t node = do {
     l \<leftarrow> get_link rb_left t node;
     if l \<noteq> RBTREE_NULL then leftmost_loop t l else Some node }"

partial_function (option) rightmost_loop :: "'k rbtree \<Rightarrow> addr option \<Rightarrow> addr option option" where
  "rightmost_loop t node = do {
     r \<leftarrow> get_link rb_right t node;
     if r \<noteq> RBTREE_NULL then rightmost_loop t r else Some node }"

definition rbtree_first :: "'k rbtree \<Rightarrow> addr option option" where
  "rbtree_first t = leftmost_loop t (rb_root t)"

definition rbtree_last :: "'k rbtree \<Rightarrow> addr option option" where
  "rbtree_last t = rightmost_loop t (rb_root t)"

partial_function (option) next_up_loop :: "'k rbtree \<Rightarrow> addr option \<Rightarrow> addr option \<Rightarrow> addr option option" where
  "next_up_loop t node parent =
     (if parent \<noteq> RBTREE_NULL then do {
        r \<leftarrow> get_link rb_right t parent;
        if node = r then do { pp \<leftarrow> get_link rb_parent t parent; next_up_loop t parent pp }
        else Some parent }
      else Some parent)"

definition rbtree_next :: "'k rbtree \<Rightarrow> addr option \<Rightarrow> addr option option" where
  "rbtree_next t node = do {
     r \<leftarrow> get_link rb_right t node;
     if r \<noteq> RBTREE_NULL then leftmost_loop t r
     else do { parent \<leftarrow> get_link rb_parent t node; next_up_loop t node parent } }"

partial_function (option) previous_up_loop :: "'k rbtree \<Rightarrow> addr option \<Rightarrow> addr option \<Rightarrow> addr option option" where
  "previous_up_loop t node parent =
     (if parent \<noteq> RBTREE_NULL then do {
        l \<leftarrow> get_link rb_left t parent;
        if node = l then do { pp \<leftarrow> get_link rb_parent t parent; previous_up_loop t parent pp }
        else Some parent }
      else Some parent)"

definition rbtree_previous :: "'k rbtree \<Rightarrow> addr option \<Rightarrow> addr option option" where
  "rbtree_previous t node = do {
     l \<leftarrow> get_link rb_left t node;
     if l \<noteq> RBTREE_NULL then rightmost_loop t l
     else do { parent \<leftarrow> get_link rb_parent t node; previous_up_loop t node parent } }"

text \<open>The callback changes the tree and a state of its own; it may free its node.\<close>

partial_function (option) traverse_post ::
    "(addr \<Rightarrow> 'k rbtree \<times> 's \<Rightarrow> ('k rbtree \<times> 's) option) \<Rightarrow> addr option \<Rightarrow> 'k rbtree \<times> 's \<Rightarrow> ('k rbtree \<times> 's) option" where
  "traverse_post func node s = (case node of None \<Rightarrow> Some s | Some a \<Rightarrow> do {
     l \<leftarrow> get_link rb_left (fst s) node;
     s \<leftarrow> traverse_post func l s;
     r \<leftarrow> get_link rb_right (fst s) node;
     s \<leftarrow> traverse_post func r s;
     func a s })"

definition traverse_postorder ::
    "(addr \<Rightarrow> 'k rbtree \<times> 's \<Rightarrow> ('k rbtree \<times> 's) option) \<Rightarrow> 'k rbtree \<Rightarrow> 's \<Rightarrow> ('k rbtree \<times> 's) option" where
  "traverse_postorder func t s = traverse_post func (rb_root t) (t, s)"

section \<open>Deletion\<close>

definition swap_int8 :: "addr option \<Rightarrow> addr option \<Rightarrow> 'k rbtree \<Rightarrow> 'k rbtree option" where
  "swap_int8 p q t = do {
     x \<leftarrow> get_color t p;
     y \<leftarrow> get_color t q;
     t \<leftarrow> set_color p y t;
     set_color q x t }"

definition swap_np ::
    "('k rbnode \<Rightarrow> addr option) \<Rightarrow> (addr option \<Rightarrow> addr option \<Rightarrow> 'k rbtree \<Rightarrow> 'k rbtree option) \<Rightarrow>
     addr option \<Rightarrow> addr option \<Rightarrow> 'k rbtree \<Rightarrow> 'k rbtree option" where
  "swap_np field assign p q t = do {
     x \<leftarrow> get_link field t p;
     y \<leftarrow> get_link field t q;
     t \<leftarrow> assign p y t;
     assign q x t }"

definition change_parent_ptr ::
    "addr option \<Rightarrow> addr option \<Rightarrow> addr option \<Rightarrow> 'k rbtree \<Rightarrow> 'k rbtree option" where
  "change_parent_ptr parent old new t =
     (if parent = RBTREE_NULL then do {
        c_assert (rb_root t = old);
        Some (if rb_root t = old then t\<lparr>rb_root := new\<rparr> else t) }
      else do {
        l \<leftarrow> get_link rb_left t parent;
        r \<leftarrow> get_link rb_right t parent;
        c_assert (l = old \<or> r = old \<or> l = new \<or> r = new);
        t \<leftarrow> (if l = old then set_left parent new t else Some t);
        r \<leftarrow> get_link rb_right t parent;
        if r = old then set_right parent new t else Some t })"

definition change_child_ptr ::
    "addr option \<Rightarrow> addr option \<Rightarrow> addr option \<Rightarrow> 'k rbtree \<Rightarrow> 'k rbtree option" where
  "change_child_ptr child old new t =
     (if child = RBTREE_NULL then Some t
      else do {
        p \<leftarrow> get_link rb_parent t child;
        c_assert (p = old \<or> p = new);
        if p = old then set_parent child new t else Some t })"

text \<open>The parent links of the children but the right one of \<open>to_delete\<close>, and the links of the two nodes.\<close>

definition swap_children :: "addr option \<Rightarrow> addr option \<Rightarrow> 'k rbtree \<Rightarrow> 'k rbtree option" where
  "swap_children to_delete smright t = do {
     sl \<leftarrow> get_link rb_left t smright;
     t \<leftarrow> change_child_ptr sl smright to_delete t;
     sl \<leftarrow> get_link rb_left t smright;
     t \<leftarrow> change_child_ptr sl smright to_delete t;
     sr \<leftarrow> get_link rb_right t smright;
     t \<leftarrow> change_child_ptr sr smright to_delete t;
     sr \<leftarrow> get_link rb_right t smright;
     t \<leftarrow> change_child_ptr sr smright to_delete t;
     dl \<leftarrow> get_link rb_left t to_delete;
     change_child_ptr dl to_delete smright t }"

definition swap_links :: "addr option \<Rightarrow> addr option \<Rightarrow> 'k rbtree \<Rightarrow> 'k rbtree option" where
  "swap_links to_delete smright t = do {
     t \<leftarrow> swap_np rb_parent set_parent to_delete smright t;
     t \<leftarrow> swap_np rb_left set_left to_delete smright t;
     swap_np rb_right set_right to_delete smright t }"

text \<open>Exchange of a node with the smallest node of its right subtree, which has no left child.\<close>

definition swap_nodes :: "addr option \<Rightarrow> addr option \<Rightarrow> 'k rbtree \<Rightarrow> 'k rbtree option" where
  "swap_nodes to_delete smright t = do {
     t \<leftarrow> swap_int8 to_delete smright t;
     dp \<leftarrow> get_link rb_parent t to_delete;
     t \<leftarrow> change_parent_ptr dp to_delete smright t;
     dr \<leftarrow> get_link rb_right t to_delete;
     t \<leftarrow> (if dr \<noteq> smright then do {
             sp \<leftarrow> get_link rb_parent t smright;
             change_parent_ptr sp smright to_delete t } else Some t);
     t \<leftarrow> swap_children to_delete smright t;
     dr \<leftarrow> get_link rb_right t to_delete;
     t \<leftarrow> (if dr \<noteq> smright then change_child_ptr dr to_delete smright t else Some t);
     dr \<leftarrow> get_link rb_right t to_delete;
     t \<leftarrow> (if dr = smright then do {
             t \<leftarrow> set_right to_delete to_delete t;
             set_parent smright smright t } else Some t);
     swap_links to_delete smright t }"

text \<open>The sibling of a child: \<open>child_parent->right == child ? child_parent->left : child_parent->right\<close>.\<close>

definition get_sibling :: "'k rbtree \<Rightarrow> addr option \<Rightarrow> addr option \<Rightarrow> addr option option" where
  "get_sibling t child child_parent = do {
     r \<leftarrow> get_link rb_right t child_parent;
     if r = child then get_link rb_left t child_parent else Some r }"

definition all_black :: "'k rbtree \<Rightarrow> addr option \<Rightarrow> bool option" where
  "all_black t sibling = do {
     c \<leftarrow> get_color t sibling;
     l \<leftarrow> get_link rb_left t sibling;
     lc \<leftarrow> get_color t l;
     r \<leftarrow> get_link rb_right t sibling;
     rc \<leftarrow> get_color t r;
     Some (c = BLACK \<and> lc = BLACK \<and> rc = BLACK) }"

text \<open>The body of the loop that moves up: the tree, the child, its parent and sibling, and \<open>go_up\<close>.\<close>

definition delete_fixup_body ::
    "'k rbtree \<Rightarrow> addr option \<Rightarrow> addr option \<Rightarrow> addr option \<Rightarrow>
     ('k rbtree \<times> addr option \<times> addr option \<times> addr option \<times> bool) option" where
  "delete_fixup_body t child child_parent sibling = do {
     sc \<leftarrow> get_color t sibling;
     (t, sibling) \<leftarrow> (if sc = RED then do {
         t \<leftarrow> set_color child_parent RED t;
         t \<leftarrow> set_color sibling BLACK t;
         r \<leftarrow> get_link rb_right t child_parent;
         t \<leftarrow> (if r = child then rbtree_rotate_right t child_parent else rbtree_rotate_left t child_parent);
         sibling \<leftarrow> get_sibling t child child_parent;
         Some (t, sibling) }
       else Some (t, sibling));
     pc \<leftarrow> get_color t child_parent;
     b \<leftarrow> all_black t sibling;
     if pc = BLACK \<and> b then do {
       t \<leftarrow> (if sibling \<noteq> RBTREE_NULL then set_color sibling RED t else Some t);
       pp \<leftarrow> get_link rb_parent t child_parent;
       sibling \<leftarrow> get_sibling t child_parent pp;
       Some (t, child_parent, pp, sibling, True) }
     else Some (t, child, child_parent, sibling, False) }"

text \<open>The loop: \<open>None\<close> when it returned at the root, else the last nodes.\<close>

partial_function (option) delete_fixup_loop ::
    "'k rbtree \<Rightarrow> addr option \<Rightarrow> addr option \<Rightarrow> addr option \<Rightarrow>
     ('k rbtree \<times> (addr option \<times> addr option \<times> addr option) option) option" where
  "delete_fixup_loop t child child_parent sibling =
     (if child_parent = RBTREE_NULL then Some (t, None)
      else do {
        (t, child, child_parent, sibling, go_up) \<leftarrow> delete_fixup_body t child child_parent sibling;
        if go_up then delete_fixup_loop t child child_parent sibling
        else Some (t, Some (child, child_parent, sibling)) })"

text \<open>The last rotation, and the end of the fix-up.\<close>

definition delete_fixup_rotate ::
    "'k rbtree \<Rightarrow> addr option \<Rightarrow> addr option \<Rightarrow> addr option \<Rightarrow> 'k rbtree option" where
  "delete_fixup_rotate t child child_parent sibling = do {
     pc \<leftarrow> get_color t child_parent;
     t \<leftarrow> set_color sibling pc t;
     t \<leftarrow> set_color child_parent BLACK t;
     pr \<leftarrow> get_link rb_right t child_parent;
     if pr = child then do {
       sl \<leftarrow> get_link rb_left t sibling;
       slc \<leftarrow> get_color t sl;
       c_assert (slc = RED);
       t \<leftarrow> set_color sl BLACK t;
       rbtree_rotate_right t child_parent }
     else do {
       sr \<leftarrow> get_link rb_right t sibling;
       src \<leftarrow> get_color t sr;
       c_assert (src = RED);
       t \<leftarrow> set_color sr BLACK t;
       rbtree_rotate_left t child_parent } }"

definition delete_fixup_end ::
    "'k rbtree \<Rightarrow> addr option \<Rightarrow> addr option \<Rightarrow> addr option \<Rightarrow> 'k rbtree option" where
  "delete_fixup_end t child child_parent sibling = do {
     pc \<leftarrow> get_color t child_parent;
     b \<leftarrow> all_black t sibling;
     if pc = RED \<and> b then do {
       t \<leftarrow> (if sibling \<noteq> RBTREE_NULL then set_color sibling RED t else Some t);
       set_color child_parent BLACK t }
     else do {
       c_assert (sibling \<noteq> RBTREE_NULL);
       pl \<leftarrow> get_link rb_left t child_parent;
       pr \<leftarrow> get_link rb_right t child_parent;
       sc \<leftarrow> get_color t sibling;
       sl \<leftarrow> get_link rb_left t sibling;
       slc \<leftarrow> get_color t sl;
       sr \<leftarrow> get_link rb_right t sibling;
       src \<leftarrow> get_color t sr;
       (t, sibling) \<leftarrow> (if pr = child \<and> sc = BLACK \<and> src = RED \<and> slc = BLACK then do {
           t \<leftarrow> set_color sibling RED t;
           t \<leftarrow> set_color sr BLACK t;
           t \<leftarrow> rbtree_rotate_left t sibling;
           sibling \<leftarrow> get_sibling t child child_parent;
           Some (t, sibling) }
         else if pl = child \<and> sc = BLACK \<and> slc = RED \<and> src = BLACK then do {
           t \<leftarrow> set_color sibling RED t;
           t \<leftarrow> set_color sl BLACK t;
           t \<leftarrow> rbtree_rotate_right t sibling;
           sibling \<leftarrow> get_sibling t child child_parent;
           Some (t, sibling) }
         else Some (t, sibling));
       delete_fixup_rotate t child child_parent sibling } }"

definition rbtree_delete_fixup :: "'k rbtree \<Rightarrow> addr option \<Rightarrow> addr option \<Rightarrow> 'k rbtree option" where
  "rbtree_delete_fixup t child child_parent = do {
     sibling \<leftarrow> get_sibling t child child_parent;
     (t, r) \<leftarrow> delete_fixup_loop t child child_parent sibling;
     (case r of None \<Rightarrow> Some t
      | Some (child, child_parent, sibling) \<Rightarrow> delete_fixup_end t child child_parent sibling) }"

text \<open>Taking out a node with at most one child.\<close>

definition delete_unlink :: "'k rbtree \<Rightarrow> addr option \<Rightarrow> (addr option \<times> 'k rbtree) option" where
  "delete_unlink t to_delete = do {
     dl \<leftarrow> get_link rb_left t to_delete;
     dr \<leftarrow> get_link rb_right t to_delete;
     c_assert (dl = RBTREE_NULL \<or> dr = RBTREE_NULL);
     let child = (if dl \<noteq> RBTREE_NULL then dl else dr);
     dp \<leftarrow> get_link rb_parent t to_delete;
     t \<leftarrow> change_parent_ptr dp to_delete child t;
     dp \<leftarrow> get_link rb_parent t to_delete;
     t \<leftarrow> change_child_ptr child to_delete dp t;
     dc \<leftarrow> get_color t to_delete;
     cc \<leftarrow> get_color t child;
     t \<leftarrow> (if dc = RED then Some t
           else if cc = RED then (if child \<noteq> RBTREE_NULL then set_color child BLACK t else Some t)
           else do {
             dp \<leftarrow> get_link rb_parent t to_delete;
             rbtree_delete_fixup t child dp });
     t \<leftarrow> upd_node to_delete (\<lambda>n. n\<lparr>rb_parent := RBTREE_NULL, rb_left := RBTREE_NULL,
            rb_right := RBTREE_NULL, rb_color := BLACK\<rparr>) t;
     Some (to_delete, t) }"

definition rbtree_delete :: "'k rbtree \<Rightarrow> 'k \<Rightarrow> (addr option \<times> 'k rbtree) option" where
  "rbtree_delete t key = do {
     to_delete \<leftarrow> rbtree_search t key;
     if to_delete = None then Some (None, t)
     else do {
       let t = t\<lparr>rb_count := rb_count t - 1\<rparr>;
       dl \<leftarrow> get_link rb_left t to_delete;
       dr \<leftarrow> get_link rb_right t to_delete;
       t \<leftarrow> (if dl \<noteq> RBTREE_NULL \<and> dr \<noteq> RBTREE_NULL then do {
               smright \<leftarrow> leftmost_loop t dr;
               swap_nodes to_delete smright t }
             else Some t);
       delete_unlink t to_delete } }"

end
