(* ===== verification/Rbtree_Links.thy ===== *)
theory Rbtree_Links
  imports Rbtree "HOL-Library.Tree"
begin

text \<open>
  The links of the nodes as a binary tree of addresses, and the tree seen from one of its nodes as the
  subtree there and the path up to the root. The rotations change the shape of the tree as they should
  and nothing else. Exchanging left and right in all nodes turns one rotation into the other.
\<close>

section \<open>The parts of a node\<close>

type_synonym links = "addr \<Rightarrow> (addr option \<times> addr option \<times> addr option) option"

definition lk :: "'k rbtree \<Rightarrow> links" where
  "lk t a = map_option (\<lambda>n. (rb_parent n, rb_left n, rb_right n)) (rb_mem t a)"

definition cl :: "'k rbtree \<Rightarrow> addr \<Rightarrow> rb_color" where
  "cl t a = (case rb_mem t a of None \<Rightarrow> BLACK | Some n \<Rightarrow> rb_color n)"

definition ky :: "'k rbtree \<Rightarrow> addr \<Rightarrow> 'k option" where
  "ky t a = map_option rb_key (rb_mem t a)"

lemma lk_Some: "lk t a = Some (p, l, r) \<longleftrightarrow> (\<exists>n. rb_mem t a = Some n \<and> rb_parent n = p \<and> rb_left n = l \<and> rb_right n = r)"
  by (auto simp: lk_def)

lemma dom_lk: "dom (lk t) = dom (rb_mem t)"
  by (auto simp: lk_def)

text \<open>What an operation on the links keeps: the keys, the colours and everything outside of a set.\<close>

definition keeps :: "addr set \<Rightarrow> 'k rbtree \<Rightarrow> 'k rbtree \<Rightarrow> bool" where
  "keeps S t t' \<longleftrightarrow> ky t' = ky t \<and> rb_cmp t' = rb_cmp t \<and> rb_count t' = rb_count t \<and>
     (\<forall>a. a \<notin> S \<longrightarrow> rb_mem t' a = rb_mem t a)"

lemma keeps_refl [simp]: "keeps S t t"
  by (simp add: keeps_def)

lemma keeps_trans: "keeps S t t' \<Longrightarrow> keeps S t' t'' \<Longrightarrow> keeps S t t''"
  by (auto simp: keeps_def)

lemma keeps_mono: "keeps S t t' \<Longrightarrow> S \<subseteq> S' \<Longrightarrow> keeps S' t t'"
  by (auto simp: keeps_def)

text \<open>Reading and writing one node.\<close>

lemma get_link_None [simp]: "get_link f t None = Some None"
  by (simp add: get_link_def)

lemma get_color_None [simp]: "get_color t None = Some BLACK"
  by (simp add: get_color_def)

lemma get_links [simp]:
  assumes "lk t a = Some (p, l, r)"
  shows "get_link rb_parent t (Some a) = Some p" "get_link rb_left t (Some a) = Some l"
    "get_link rb_right t (Some a) = Some r"
  using assms by (auto simp: lk_Some get_link_def)

lemma get_color_cl: "lk t a \<noteq> None \<Longrightarrow> get_color t (Some a) = Some (cl t a)"
  by (auto simp: lk_def get_color_def cl_def)

lemma lk_exists: "lk t a = Some v \<Longrightarrow> \<exists>n. rb_mem t a = Some n"
  by (auto simp: lk_def)

lemma set_links:
  assumes "lk t a = Some (p, l, r)"
  shows "\<exists>t'. set_parent (Some a) q t = Some t' \<and> lk t' = (lk t)(a \<mapsto> (q, l, r)) \<and> cl t' = cl t \<and>
      keeps {a} t t' \<and> rb_root t' = rb_root t"
    "\<exists>t'. set_left (Some a) q t = Some t' \<and> lk t' = (lk t)(a \<mapsto> (p, q, r)) \<and> cl t' = cl t \<and>
      keeps {a} t t' \<and> rb_root t' = rb_root t"
    "\<exists>t'. set_right (Some a) q t = Some t' \<and> lk t' = (lk t)(a \<mapsto> (p, l, q)) \<and> cl t' = cl t \<and>
      keeps {a} t t' \<and> rb_root t' = rb_root t"
proof -
  from assms obtain n where n: "rb_mem t a = Some n" "rb_parent n = p" "rb_left n = l" "rb_right n = r"
    by (auto simp: lk_Some)
  show "\<exists>t'. set_parent (Some a) q t = Some t' \<and> lk t' = (lk t)(a \<mapsto> (q, l, r)) \<and> cl t' = cl t \<and>
      keeps {a} t t' \<and> rb_root t' = rb_root t"
    using n by (simp add: set_parent_def upd_node_def lk_def cl_def ky_def keeps_def fun_eq_iff)
  show "\<exists>t'. set_left (Some a) q t = Some t' \<and> lk t' = (lk t)(a \<mapsto> (p, q, r)) \<and> cl t' = cl t \<and>
      keeps {a} t t' \<and> rb_root t' = rb_root t"
    using n by (simp add: set_left_def upd_node_def lk_def cl_def ky_def keeps_def fun_eq_iff)
  show "\<exists>t'. set_right (Some a) q t = Some t' \<and> lk t' = (lk t)(a \<mapsto> (p, l, q)) \<and> cl t' = cl t \<and>
      keeps {a} t t' \<and> rb_root t' = rb_root t"
    using n by (simp add: set_right_def upd_node_def lk_def cl_def ky_def keeps_def fun_eq_iff)
qed

lemma set_color_ok:
  assumes "lk t a \<noteq> None"
  shows "\<exists>t'. set_color (Some a) c t = Some t' \<and> lk t' = lk t \<and> cl t' = (cl t)(a := c) \<and>
      keeps {a} t t' \<and> rb_root t' = rb_root t"
  using assms by (auto simp: set_color_def upd_node_def lk_def cl_def ky_def keeps_def fun_eq_iff)

section \<open>Trees of addresses\<close>

fun rp :: "addr tree \<Rightarrow> addr option" where
  "rp Leaf = None"
| "rp (Node l a r) = Some a"

fun tree_at :: "links \<Rightarrow> addr option \<Rightarrow> addr tree \<Rightarrow> bool" where
  "tree_at m p Leaf \<longleftrightarrow> True"
| "tree_at m p (Node l a r) \<longleftrightarrow> m a = Some (p, rp l, rp r) \<and> tree_at m (Some a) l \<and> tree_at m (Some a) r"

text \<open>The path from a subtree to the root: whether it is a left or a right child, its parent and the
  other subtree of the parent, and so on.\<close>

datatype frame = L addr "addr tree" | R "addr tree" addr

fun f_addr :: "frame \<Rightarrow> addr" where
  "f_addr (L a r) = a"
| "f_addr (R l a) = a"

fun f_tree :: "frame \<Rightarrow> addr tree" where
  "f_tree (L a r) = r"
| "f_tree (R l a) = l"

fun fill :: "frame \<Rightarrow> addr tree \<Rightarrow> addr tree" where
  "fill (L a r) t = Node t a r"
| "fill (R l a) t = Node l a t"

fun plug :: "frame list \<Rightarrow> addr tree \<Rightarrow> addr tree" where
  "plug [] t = t"
| "plug (f # c) t = plug c (fill f t)"

fun cp :: "frame list \<Rightarrow> addr option" where
  "cp [] = None"
| "cp (f # c) = Some (f_addr f)"

fun f_links :: "addr option \<Rightarrow> addr option \<Rightarrow> frame \<Rightarrow> addr option \<times> addr option \<times> addr option" where
  "f_links p q (L a r) = (p, q, rp r)"
| "f_links p q (R l a) = (p, rp l, q)"

fun ctx_at :: "links \<Rightarrow> addr option \<Rightarrow> frame list \<Rightarrow> bool" where
  "ctx_at m q [] \<longleftrightarrow> True"
| "ctx_at m q (f # c) \<longleftrightarrow> m (f_addr f) = Some (f_links (cp c) q f) \<and>
     tree_at m (Some (f_addr f)) (f_tree f) \<and> ctx_at m (Some (f_addr f)) c"

fun croot :: "addr option \<Rightarrow> frame list \<Rightarrow> addr option" where
  "croot q [] = q"
| "croot q (f # c) = croot (Some (f_addr f)) c"

definition f_nodes :: "frame \<Rightarrow> addr set" where
  "f_nodes f = insert (f_addr f) (set_tree (f_tree f))"

definition c_nodes :: "frame list \<Rightarrow> addr set" where
  "c_nodes c = (\<Union>f \<in> set c. f_nodes f)"

lemma c_nodes_simps [simp]: "c_nodes [] = {}" "c_nodes (f # c) = f_nodes f \<union> c_nodes c"
  by (simp_all add: c_nodes_def)

lemma f_nodes_simps [simp]:
  "f_nodes (L a r) = insert a (set_tree r)" "f_nodes (R l a) = insert a (set_tree l)"
  by (simp_all add: f_nodes_def)

lemma rp_fill [simp]: "rp (fill f t) = Some (f_addr f)"
  by (cases f) simp_all

lemma set_fill [simp]: "set_tree (fill f t) = f_nodes f \<union> set_tree t"
  by (cases f) (auto simp: f_nodes_def)

lemma tree_at_fill [simp]:
  "tree_at m p (fill f t) \<longleftrightarrow> m (f_addr f) = Some (f_links p (rp t) f) \<and>
     tree_at m (Some (f_addr f)) (f_tree f) \<and> tree_at m (Some (f_addr f)) t"
  by (cases f) auto

lemma tree_at_plug: "tree_at m None (plug c t) \<longleftrightarrow> ctx_at m (rp t) c \<and> tree_at m (cp c) t"
  by (induction c arbitrary: t) auto

lemma rp_plug: "rp (plug c t) = croot (rp t) c"
  by (induction c arbitrary: t) simp_all

lemma set_plug [simp]: "set_tree (plug c t) = c_nodes c \<union> set_tree t"
  by (induction c arbitrary: t) auto

lemma plug_append: "plug (c @ d) t = plug d (plug c t)"
  by (induction c arbitrary: t) simp_all

text \<open>The nodes in order: before, in and after the subtree.\<close>

fun c_left :: "frame list \<Rightarrow> addr list" where
  "c_left [] = []"
| "c_left (L a r # c) = c_left c"
| "c_left (R l a # c) = c_left c @ inorder l @ [a]"

fun c_right :: "frame list \<Rightarrow> addr list" where
  "c_right [] = []"
| "c_right (L a r # c) = a # inorder r @ c_right c"
| "c_right (R l a # c) = c_right c"

lemma inorder_plug: "inorder (plug c t) = c_left c @ inorder t @ c_right c"
proof (induction c arbitrary: t)
  case (Cons f c)
  then show ?case by (cases f) simp_all
qed simp

lemma c_nodes_set: "c_nodes c = set (c_left c) \<union> set (c_right c)"
proof (induction c)
  case (Cons f c)
  then show ?case by (cases f) auto
qed simp

lemma distinct_plug:
  "distinct (inorder (plug c t)) \<longleftrightarrow> distinct (inorder t) \<and> distinct (c_left c @ c_right c) \<and> c_nodes c \<inter> set_tree t = {}"
  by (auto simp: inorder_plug c_nodes_set set_inorder [symmetric] simp del: set_inorder)

lemma distinct_frame:
  "distinct (c_left (f # c) @ c_right (f # c)) \<longleftrightarrow>
     distinct (c_left c @ c_right c) \<and> f_addr f \<notin> set_tree (f_tree f) \<and> distinct (inorder (f_tree f)) \<and>
     f_nodes f \<inter> c_nodes c = {}"
  by (cases f) (auto simp: c_nodes_set)

text \<open>Every node of the tree is at the end of a path.\<close>

lemma plug_ex: "x \<in> set_tree t \<Longrightarrow> \<exists>c l r. t = plug c (Node l x r)"
proof (induction t)
  case (Node l a r)
  then consider "x = a" | "x \<in> set_tree l" | "x \<in> set_tree r" by auto
  then show ?case
  proof cases
    case 1
    then show ?thesis by (intro exI [of _ "[]"]) auto
  next
    case 2
    with Node.IH(1) obtain c l' r' where "l = plug c (Node l' x r')" by blast
    then have "Node l a r = plug (c @ [L a r]) (Node l' x r')" by (simp add: plug_append)
    then show ?thesis by blast
  next
    case 3
    with Node.IH(2) obtain c l' r' where "r = plug c (Node l' x r')" by blast
    then have "Node l a r = plug (c @ [R l a]) (Node l' x r')" by (simp add: plug_append)
    then show ?thesis by blast
  qed
qed simp

text \<open>Links outside of a tree or path do not matter.\<close>

lemma tree_at_cong: "(\<And>a. a \<in> set_tree t \<Longrightarrow> m' a = m a) \<Longrightarrow> tree_at m' p t = tree_at m p t"
  by (induction t arbitrary: p) auto

lemma tree_at_upd [simp]: "a \<notin> set_tree t \<Longrightarrow> tree_at (m(a := v)) p t = tree_at m p t"
  by (rule tree_at_cong) auto

lemma ctx_at_cong: "(\<And>a. a \<in> c_nodes c \<Longrightarrow> m' a = m a) \<Longrightarrow> ctx_at m' q c = ctx_at m q c"
proof (induction c arbitrary: q)
  case (Cons f c)
  then have "tree_at m' (Some (f_addr f)) (f_tree f) = tree_at m (Some (f_addr f)) (f_tree f)"
    by (intro tree_at_cong) (auto simp: f_nodes_def)
  with Cons show ?case by (auto simp: f_nodes_def)
qed simp

lemma ctx_at_upd [simp]: "a \<notin> c_nodes c \<Longrightarrow> ctx_at (m(a := v)) q c = ctx_at m q c"
  by (rule ctx_at_cong) auto

lemma tree_at_Some: "tree_at m p t \<Longrightarrow> a \<in> set_tree t \<Longrightarrow> m a \<noteq> None"
  by (induction t arbitrary: p) auto

section \<open>The tree that a tree object holds\<close>

definition rb_holds :: "'k rbtree \<Rightarrow> addr tree \<Rightarrow> bool" where
  "rb_holds t T \<longleftrightarrow> tree_at (lk t) None T \<and> rb_root t = rp T \<and> distinct (inorder T)"

lemma rb_holds_plug:
  "rb_holds t (plug c T) \<longleftrightarrow> ctx_at (lk t) (rp T) c \<and> tree_at (lk t) (cp c) T \<and> rb_root t = croot (rp T) c \<and>
     distinct (inorder T) \<and> distinct (c_left c @ c_right c) \<and> c_nodes c \<inter> set_tree T = {}"
  by (simp add: rb_holds_def tree_at_plug rp_plug distinct_plug)

section \<open>Rotations\<close>

text \<open>Putting another node in the place of a child, and giving a subtree another parent.\<close>

lemma relink_ok:
  assumes c: "ctx_at (lk t) (Some x) c" "rb_root t = croot (Some x) c" "distinct (c_left c @ c_right c)" "x \<notin> c_nodes c"
  shows "\<exists>t'. (if cp c \<noteq> RBTREE_NULL then do {
          l \<leftarrow> get_link rb_left t (cp c);
          if Some x = l then set_left (cp c) q t else set_right (cp c) q t }
        else Some (t\<lparr>rb_root := q\<rparr>)) = Some t' \<and>
    ctx_at (lk t') q c \<and> rb_root t' = croot q c \<and> (\<forall>a. a \<notin> c_nodes c \<longrightarrow> lk t' a = lk t a) \<and>
    cl t' = cl t \<and> keeps (c_nodes c) t t'"
proof (cases c)
  case Nil
  then show ?thesis by (simp add: lk_def cl_def fun_eq_iff keeps_def ky_def)
next
  case (Cons f c')
  have f: "f_nodes f \<inter> c_nodes c' = {}" "f_addr f \<notin> set_tree (f_tree f)"
    using c(3) unfolding Cons distinct_frame by simp_all
  show ?thesis
  proof (cases f)
    case (L a r)
    have a: "lk t a = Some (cp c', Some x, rp r)" using c(1) by (simp add: Cons L)
    from set_links(2) [OF a, of q] obtain t' where
      1: "set_left (Some a) q t = Some t'" "lk t' = (lk t)(a \<mapsto> (cp c', q, rp r))" "cl t' = cl t"
      "keeps {a} t t'" "rb_root t' = rb_root t" by blast
    have "(if cp c \<noteq> RBTREE_NULL then do {
          l \<leftarrow> get_link rb_left t (cp c);
          if Some x = l then set_left (cp c) q t else set_right (cp c) q t }
        else Some (t\<lparr>rb_root := q\<rparr>)) = Some t'"
      using a 1(1) by (simp add: Cons L)
    moreover have "ctx_at (lk t') q c" using c(1) f by (simp add: Cons L 1(2))
    moreover have "rb_root t' = croot q c" using c(2) by (simp add: Cons L 1(5))
    moreover have "\<forall>b. b \<notin> c_nodes c \<longrightarrow> lk t' b = lk t b" by (simp add: 1(2) Cons L)
    moreover have "keeps (c_nodes c) t t'" by (rule keeps_mono [OF 1(4)]) (simp add: Cons L)
    ultimately show ?thesis using 1(3) by blast
  next
    case (R l a)
    have a: "lk t a = Some (cp c', rp l, Some x)" using c(1) by (simp add: Cons R)
    have x: "rp l \<noteq> Some x" using c(4) by (cases l) (auto simp: Cons R)
    from set_links(3) [OF a, of q] obtain t' where
      1: "set_right (Some a) q t = Some t'" "lk t' = (lk t)(a \<mapsto> (cp c', rp l, q))" "cl t' = cl t"
      "keeps {a} t t'" "rb_root t' = rb_root t" by blast
    have "(if cp c \<noteq> RBTREE_NULL then do {
          l \<leftarrow> get_link rb_left t (cp c);
          if Some x = l then set_left (cp c) q t else set_right (cp c) q t }
        else Some (t\<lparr>rb_root := q\<rparr>)) = Some t'"
      using a x [symmetric] 1(1) by (simp add: Cons R)
    moreover have "ctx_at (lk t') q c" using c(1) f by (simp add: Cons R 1(2))
    moreover have "rb_root t' = croot q c" using c(2) by (simp add: Cons R 1(5))
    moreover have "\<forall>b. b \<notin> c_nodes c \<longrightarrow> lk t' b = lk t b" by (simp add: 1(2) Cons R)
    moreover have "keeps (c_nodes c) t t'" by (rule keeps_mono [OF 1(4)]) (simp add: Cons R)
    ultimately show ?thesis using 1(3) by blast
  qed
qed

lemma reparent_ok:
  assumes "tree_at (lk t) p B" "distinct (inorder B)"
  shows "\<exists>t'. (if rp B \<noteq> RBTREE_NULL then set_parent (rp B) q t else Some t) = Some t' \<and>
    tree_at (lk t') q B \<and> (\<forall>a. a \<notin> set_tree B \<longrightarrow> lk t' a = lk t a) \<and> cl t' = cl t \<and>
    keeps (set_tree B) t t' \<and> rb_root t' = rb_root t"
proof (cases B)
  case Leaf
  then show ?thesis by simp
next
  case (Node l a r)
  have a: "lk t a = Some (p, rp l, rp r)" using assms(1) by (simp add: Node)
  from set_links(1) [OF a, of q] obtain t' where
    1: "set_parent (Some a) q t = Some t'" "lk t' = (lk t)(a \<mapsto> (q, rp l, rp r))" "cl t' = cl t"
    "keeps {a} t t'" "rb_root t' = rb_root t" by blast
  moreover have "keeps (set_tree B) t t'" by (rule keeps_mono [OF 1(4)]) (simp add: Node)
  ultimately show ?thesis using assms by (auto simp: Node)
qed

lemma rotate_left_ok:
  assumes "rb_holds t (plug c (Node A x (Node B y C)))"
  shows "\<exists>t'. rbtree_rotate_left t (Some x) = Some t' \<and> rb_holds t' (plug c (Node (Node A x B) y C)) \<and>
    cl t' = cl t \<and> keeps (c_nodes c \<union> {x, y} \<union> set_tree B) t t'"
proof -
  let ?S = "c_nodes c \<union> {x, y} \<union> set_tree B"
  from assms have c: "ctx_at (lk t) (Some x) c" "rb_root t = croot (Some x) c" "distinct (c_left c @ c_right c)"
    and x: "lk t x = Some (cp c, rp A, Some y)" and y: "lk t y = Some (Some x, rp B, rp C)"
    and sub: "tree_at (lk t) (Some x) A" "tree_at (lk t) (Some y) B" "tree_at (lk t) (Some y) C"
    and dist: "distinct (inorder A)" "distinct (inorder B)" "distinct (inorder C)" "x \<noteq> y"
      "x \<notin> set_tree A" "x \<notin> set_tree B" "x \<notin> set_tree C" "y \<notin> set_tree A" "y \<notin> set_tree B" "y \<notin> set_tree C"
      "set_tree A \<inter> set_tree B = {}" "set_tree A \<inter> set_tree C = {}" "set_tree B \<inter> set_tree C = {}"
      "x \<notin> c_nodes c" "y \<notin> c_nodes c" "c_nodes c \<inter> set_tree A = {}" "c_nodes c \<inter> set_tree B = {}" "c_nodes c \<inter> set_tree C = {}"
    by (auto simp: rb_holds_plug)
  from set_links(3) [OF x, of "rp B"] obtain t1 where
    1: "set_right (Some x) (rp B) t = Some t1" "lk t1 = (lk t)(x \<mapsto> (cp c, rp A, rp B))" "cl t1 = cl t"
    "keeps {x} t t1" "rb_root t1 = rb_root t" by blast
  have "tree_at (lk t1) (Some y) B" using sub(2) dist by (simp add: 1(2))
  from reparent_ok [OF this dist(2), of "Some x"] obtain t2 where
    2: "(if rp B \<noteq> RBTREE_NULL then set_parent (rp B) (Some x) t1 else Some t1) = Some t2"
    "tree_at (lk t2) (Some x) B" "\<And>a. a \<notin> set_tree B \<Longrightarrow> lk t2 a = lk t1 a" "cl t2 = cl t1"
    "keeps (set_tree B) t1 t2" "rb_root t2 = rb_root t1" by blast
  have y2: "lk t2 y = Some (Some x, rp B, rp C)" using 2(3) [of y] dist y by (simp add: 1(2))
  from set_links(1) [OF y2, of "cp c"] obtain t3 where
    3: "set_parent (Some y) (cp c) t2 = Some t3" "lk t3 = (lk t2)(y \<mapsto> (cp c, rp B, rp C))" "cl t3 = cl t2"
    "keeps {y} t2 t3" "rb_root t3 = rb_root t2" by blast
  have x2: "lk t2 x = Some (cp c, rp A, rp B)" "lk t3 x = Some (cp c, rp A, rp B)"
    using 2(3) [of x] dist by (simp_all add: 1(2) 3(2))
  have "ctx_at (lk t3) (Some x) c = ctx_at (lk t) (Some x) c"
  proof (rule ctx_at_cong)
    fix a assume "a \<in> c_nodes c"
    with dist have "a \<notin> set_tree B" "a \<noteq> x" "a \<noteq> y" by auto
    then show "lk t3 a = lk t a" using 2(3) by (simp add: 1(2) 3(2))
  qed
  with c have c3: "ctx_at (lk t3) (Some x) c" "rb_root t3 = croot (Some x) c" by (simp_all add: 1 2 3)
  from relink_ok [OF c3 c(3) dist(14), of "Some y"] obtain t4 where
    4: "(if cp c \<noteq> RBTREE_NULL then do {
          l \<leftarrow> get_link rb_left t3 (cp c);
          if Some x = l then set_left (cp c) (Some y) t3 else set_right (cp c) (Some y) t3 }
        else Some (t3\<lparr>rb_root := Some y\<rparr>)) = Some t4"
    "ctx_at (lk t4) (Some y) c" "rb_root t4 = croot (Some y) c" "\<And>a. a \<notin> c_nodes c \<Longrightarrow> lk t4 a = lk t3 a"
    "cl t4 = cl t3" "keeps (c_nodes c) t3 t4" by blast
  have y4: "lk t4 y = Some (cp c, rp B, rp C)" using 4(4) [of y] dist by (simp add: 3(2))
  from set_links(2) [OF y4, of "Some x"] obtain t5 where
    5: "set_left (Some y) (Some x) t4 = Some t5" "lk t5 = (lk t4)(y \<mapsto> (cp c, Some x, rp C))" "cl t5 = cl t4"
    "keeps {y} t4 t5" "rb_root t5 = rb_root t4" by blast
  have x5: "lk t5 x = Some (cp c, rp A, rp B)" using 4(4) [of x] dist x2 by (simp add: 5(2))
  from set_links(1) [OF x5, of "Some y"] obtain t6 where
    6: "set_parent (Some x) (Some y) t5 = Some t6" "lk t6 = (lk t5)(x \<mapsto> (Some y, rp A, rp B))" "cl t6 = cl t5"
    "keeps {x} t5 t6" "rb_root t6 = rb_root t5" by blast
  have y1: "lk t1 y = Some (Some x, rp B, rp C)" using y dist by (simp add: 1(2))
  have run: "rbtree_rotate_left t (Some x) = Some t6"
    unfolding rbtree_rotate_left_def
    by (simp only: get_links [OF x] get_links [OF y] get_links [OF y1] get_links [OF x2(1)] get_links [OF x2(2)]
        bind.bind_lunit 1(1) 2(1) 3(1) 4(1) 5(1) 6(1))
  have out: "lk t6 a = lk t a" if "a \<notin> c_nodes c" "a \<noteq> x" "a \<noteq> y" "a \<notin> set_tree B" for a
    using that 2(3) [of a] 4(4) [of a] by (simp add: 6(2) 5(2) 3(2) 1(2))
  have "tree_at (lk t6) (Some x) A = tree_at (lk t) (Some x) A"
    "tree_at (lk t6) (Some y) C = tree_at (lk t) (Some y) C"
    using dist by (intro tree_at_cong; intro out; fastforce)+
  moreover have "tree_at (lk t6) (Some x) B = tree_at (lk t2) (Some x) B"
  proof (rule tree_at_cong)
    fix a assume "a \<in> set_tree B"
    with dist have "a \<notin> c_nodes c" "a \<noteq> x" "a \<noteq> y" by auto
    then show "lk t6 a = lk t2 a" using 4(4) by (simp add: 6(2) 5(2) 3(2))
  qed
  moreover have "ctx_at (lk t6) (Some y) c" using 4(2) dist by (simp add: 6(2) 5(2))
  ultimately have "rb_holds t6 (plug c (Node (Node A x B) y C))"
    using dist sub 2(2) 4(3) c(3) 4(4) [of y] by (auto simp: rb_holds_plug 6(2,5) 5(2,5))
  moreover have "keeps ?S t t6"
  proof -
    have "keeps ?S t t1" "keeps ?S t1 t2" "keeps ?S t2 t3" "keeps ?S t3 t4" "keeps ?S t4 t5" "keeps ?S t5 t6"
      by (rule keeps_mono [OF 1(4)] keeps_mono [OF 2(5)] keeps_mono [OF 3(4)] keeps_mono [OF 4(6)]
        keeps_mono [OF 5(4)] keeps_mono [OF 6(4)]; blast)+
    then show ?thesis by (meson keeps_trans)
  qed
  ultimately show ?thesis using run 1(3) 2(4) 3(3) 4(5) 5(3) 6(3) by simp
qed

section \<open>Exchange of left and right\<close>

definition flip_node :: "'k rbnode \<Rightarrow> 'k rbnode" where
  "flip_node n = n\<lparr>rb_left := rb_right n, rb_right := rb_left n\<rparr>"

definition flip :: "'k rbtree \<Rightarrow> 'k rbtree" where
  "flip t = t\<lparr>rb_mem := \<lambda>a. map_option flip_node (rb_mem t a)\<rparr>"

lemma flip_node_simps [simp]:
  "rb_left (flip_node n) = rb_right n" "rb_right (flip_node n) = rb_left n" "rb_parent (flip_node n) = rb_parent n"
  "rb_key (flip_node n) = rb_key n" "rb_color (flip_node n) = rb_color n" "flip_node (flip_node n) = n"
  by (simp_all add: flip_node_def)

lemma flip_simps [simp]:
  "rb_root (flip t) = rb_root t" "rb_count (flip t) = rb_count t" "rb_cmp (flip t) = rb_cmp t"
  "cl (flip t) = cl t" "ky (flip t) = ky t" "flip (flip t) = t"
  "(flip t)\<lparr>rb_root := q\<rparr> = flip (t\<lparr>rb_root := q\<rparr>)"
  by (simp_all add: flip_def cl_def ky_def fun_eq_iff option.map_comp o_def option.case_eq_if option.map_sel
      option.map_id [unfolded id_def])

lemma flip_get [simp]:
  "get_link rb_left (flip t) p = get_link rb_right t p" "get_link rb_right (flip t) p = get_link rb_left t p"
  "get_link rb_parent (flip t) p = get_link rb_parent t p" "get_color (flip t) p = get_color t p"
  by (simp_all add: flip_def get_link_def get_color_def option.map_comp o_def split: option.split)

lemma flip_set [simp]:
  "set_left p q (flip t) = map_option flip (set_right p q t)" "set_right p q (flip t) = map_option flip (set_left p q t)"
  "set_parent p q (flip t) = map_option flip (set_parent p q t)" "set_color p c (flip t) = map_option flip (set_color p c t)"
  by (auto simp: flip_def set_left_def set_right_def set_parent_def set_color_def upd_node_def flip_node_def fun_eq_iff
      split: bind_splits)

lemma bind_flip [simp]: "Option.bind (map_option flip m) f = Option.bind m (\<lambda>t. f (flip t))"
  by (cases m) simp_all

lemma map_flip_bind: "map_option g (Option.bind m f) = Option.bind m (\<lambda>x. map_option g (f x))"
  by (cases m) simp_all

lemma rotate_right_flip: "rbtree_rotate_right t node = map_option flip (rbtree_rotate_left (flip t) node)"
  by (simp add: rbtree_rotate_right_def rbtree_rotate_left_def map_flip_bind option.map_comp o_def
      option.map_id [unfolded id_def] if_distrib [of "map_option flip"] if_distrib [of "\<lambda>m. Option.bind m f" for f]
      cong: if_cong)

fun f_flip :: "frame \<Rightarrow> frame" where
  "f_flip (L a r) = R (mirror r) a"
| "f_flip (R l a) = L a (mirror l)"

lemma mirror_plug: "mirror (plug c t) = plug (map f_flip c) (mirror t)"
proof (induction c arbitrary: t)
  case (Cons f c)
  then show ?case by (cases f) simp_all
qed simp

lemma rp_mirror [simp]: "rp (mirror t) = rp t"
  by (cases t) simp_all

lemma tree_at_flip: "tree_at (lk (flip t)) p (mirror T) = tree_at (lk t) p T"
  by (induction T arbitrary: p) (auto simp: lk_def flip_def)

lemma rb_holds_flip: "rb_holds (flip t) (mirror T) = rb_holds t T"
  by (simp add: rb_holds_def tree_at_flip inorder_mirror)

lemma flip_mem_eq: "rb_mem (flip t') a = rb_mem (flip t) a \<longleftrightarrow> rb_mem t' a = rb_mem t a"
proof -
  have "inj flip_node" by (rule inj_on_inverseI [where g = flip_node]) simp
  from inj_eq [OF option.inj_map [OF this]] show ?thesis by (simp add: flip_def)
qed

lemma keeps_flip: "keeps S (flip t) (flip t') = keeps S t t'"
  by (simp add: keeps_def flip_mem_eq)

lemma set_tree_mirror [simp]: "set_tree (mirror t) = set_tree t"
  by (induction t) auto

lemma c_nodes_flip [simp]: "c_nodes (map f_flip c) = c_nodes c"
proof (induction c)
  case (Cons f c)
  then show ?case by (cases f) auto
qed simp

lemma rotate_right_ok:
  assumes "rb_holds t (plug c (Node (Node A x B) y C))"
  shows "\<exists>t'. rbtree_rotate_right t (Some y) = Some t' \<and> rb_holds t' (plug c (Node A x (Node B y C))) \<and>
    cl t' = cl t \<and> keeps (c_nodes c \<union> {x, y} \<union> set_tree B) t t'"
proof -
  have "rb_holds (flip t) (plug (map f_flip c) (Node (mirror C) y (Node (mirror B) x (mirror A))))"
    using assms rb_holds_flip [of t "plug c (Node (Node A x B) y C)"] by (simp add: mirror_plug)
  from rotate_left_ok [OF this] obtain t' where
    1: "rbtree_rotate_left (flip t) (Some y) = Some t'"
    "rb_holds t' (plug (map f_flip c) (Node (Node (mirror C) y (mirror B)) x (mirror A)))" "cl t' = cl (flip t)"
    "keeps (c_nodes (map f_flip c) \<union> {y, x} \<union> set_tree (mirror B)) (flip t) t'" by blast
  have "rb_holds (flip t') (plug c (Node A x (Node B y C)))"
    using 1(2) rb_holds_flip [of "flip t'" "plug c (Node A x (Node B y C))"] by (simp add: mirror_plug)
  moreover have "keeps (c_nodes c \<union> {x, y} \<union> set_tree B) t (flip t')"
    using 1(4) keeps_flip [of _ t "flip t'"] by (simp add: insert_commute)
  ultimately show ?thesis using 1(1,3) by (simp add: rotate_right_flip)
qed

end
