(* ===== verification/Rbtree_Insert.thy ===== *)
theory Rbtree_Insert
  imports Rbtree_Links
begin

text \<open>
  The red-black invariant, and that insertion restores it: after the new node is linked in, at most one
  red node has a red parent, and each round of the fix-up moves that node up or repairs it.
\<close>

section \<open>Colours\<close>

fun rcol :: "(addr \<Rightarrow> rb_color) \<Rightarrow> addr tree \<Rightarrow> rb_color" where
  "rcol f Leaf = BLACK"
| "rcol f (Node l a r) = f a"

definition bump :: "rb_color \<Rightarrow> nat \<Rightarrow> nat" where
  "bump c n = (if c = BLACK then n + 1 else n)"

text \<open>Every path down has \<open>n\<close> black nodes; no red node has a red child.\<close>

fun bal :: "(addr \<Rightarrow> rb_color) \<Rightarrow> nat \<Rightarrow> addr tree \<Rightarrow> bool" where
  "bal f n Leaf \<longleftrightarrow> n = 0"
| "bal f n (Node l a r) \<longleftrightarrow> (\<exists>k. n = bump (f a) k \<and> bal f k l \<and> bal f k r)"

fun nored :: "(addr \<Rightarrow> rb_color) \<Rightarrow> addr tree \<Rightarrow> bool" where
  "nored f Leaf \<longleftrightarrow> True"
| "nored f (Node l a r) \<longleftrightarrow> (f a = RED \<longrightarrow> rcol f l = BLACK \<and> rcol f r = BLACK) \<and> nored f l \<and> nored f r"

fun cbal :: "(addr \<Rightarrow> rb_color) \<Rightarrow> nat \<Rightarrow> frame list \<Rightarrow> bool" where
  "cbal f n [] \<longleftrightarrow> True"
| "cbal f n (fr # c) \<longleftrightarrow> bal f n (f_tree fr) \<and> cbal f (bump (f (f_addr fr)) n) c"

fun cnored :: "(addr \<Rightarrow> rb_color) \<Rightarrow> rb_color \<Rightarrow> frame list \<Rightarrow> bool" where
  "cnored f h [] \<longleftrightarrow> True"
| "cnored f h (fr # c) \<longleftrightarrow> (f (f_addr fr) = RED \<longrightarrow> h = BLACK \<and> rcol f (f_tree fr) = BLACK) \<and>
     nored f (f_tree fr) \<and> cnored f (f (f_addr fr)) c"

definition rb_inv :: "(addr \<Rightarrow> rb_color) \<Rightarrow> addr tree \<Rightarrow> bool" where
  "rb_inv f T \<longleftrightarrow> nored f T \<and> (\<exists>n. bal f n T) \<and> rcol f T = BLACK"

lemma bump_simps [simp]: "bump BLACK n = n + 1" "bump RED n = n"
  by (simp_all add: bump_def)

lemma bump_inject [simp]: "bump c n = bump c m \<longleftrightarrow> n = m"
  by (cases c) simp_all

lemma bal_unique: "bal f n t \<Longrightarrow> bal f m t \<Longrightarrow> n = m"
  by (induction t arbitrary: n m) fastforce+

lemma bal_fill [simp]: "bal f n (fill fr t) \<longleftrightarrow> (\<exists>k. n = bump (f (f_addr fr)) k \<and> bal f k (f_tree fr) \<and> bal f k t)"
  by (cases fr) auto

lemma bal_plug: "(\<exists>N. bal f N (plug c t)) \<longleftrightarrow> (\<exists>n. bal f n t \<and> cbal f n c)"
  by (induction c arbitrary: t) auto

lemma nored_fill [simp]: "nored f (fill fr t) \<longleftrightarrow>
    (f (f_addr fr) = RED \<longrightarrow> rcol f t = BLACK \<and> rcol f (f_tree fr) = BLACK) \<and> nored f (f_tree fr) \<and> nored f t"
  by (cases fr) auto

lemma rcol_fill [simp]: "rcol f (fill fr t) = f (f_addr fr)"
  by (cases fr) simp_all

lemma nored_plug: "nored f (plug c t) \<longleftrightarrow> nored f t \<and> cnored f (rcol f t) c"
  by (induction c arbitrary: t) auto

lemma rcol_plug: "rcol f (plug c t) = (if c = [] then rcol f t else f (f_addr (last c)))"
  by (induction c arbitrary: t) auto

lemma rb_inv_plug: "rb_inv f (plug c t) \<longleftrightarrow> nored f t \<and> cnored f (rcol f t) c \<and> (\<exists>n. bal f n t \<and> cbal f n c) \<and>
    (if c = [] then rcol f t else f (f_addr (last c))) = BLACK"
  by (auto simp: rb_inv_def nored_plug bal_plug rcol_plug)

lemma rcol_cong: "(\<And>a. a \<in> set_tree t \<Longrightarrow> f' a = f a) \<Longrightarrow> rcol f' t = rcol f t"
  by (cases t) simp_all

lemma bal_cong: "(\<And>a. a \<in> set_tree t \<Longrightarrow> f' a = f a) \<Longrightarrow> bal f' n t = bal f n t"
  by (induction t arbitrary: n) auto

lemma nored_cong: "(\<And>a. a \<in> set_tree t \<Longrightarrow> f' a = f a) \<Longrightarrow> nored f' t = nored f t"
proof (induction t)
  case (Node l a r)
  then have "rcol f' l = rcol f l" "rcol f' r = rcol f r" by (intro rcol_cong; simp)+
  with Node show ?case by simp
qed simp

lemma cbal_cong: "(\<And>a. a \<in> c_nodes c \<Longrightarrow> f' a = f a) \<Longrightarrow> cbal f' n c = cbal f n c"
proof (induction c arbitrary: n)
  case (Cons fr c)
  then have "bal f' n (f_tree fr) = bal f n (f_tree fr)" by (intro bal_cong) (auto simp: f_nodes_def)
  with Cons show ?case by (auto simp: f_nodes_def)
qed simp

lemma cnored_cong: "(\<And>a. a \<in> c_nodes c \<Longrightarrow> f' a = f a) \<Longrightarrow> cnored f' h c = cnored f h c"
proof (induction c arbitrary: h)
  case (Cons fr c)
  then have "nored f' (f_tree fr) = nored f (f_tree fr)" "rcol f' (f_tree fr) = rcol f (f_tree fr)"
    by (intro nored_cong rcol_cong; auto simp: f_nodes_def)+
  with Cons show ?case by (auto simp: f_nodes_def)
qed simp

lemma color_upd [simp]:
  "a \<notin> set_tree t \<Longrightarrow> rcol (f(a := v)) t = rcol f t" "a \<notin> set_tree t \<Longrightarrow> bal (f(a := v)) n t = bal f n t"
  "a \<notin> set_tree t \<Longrightarrow> nored (f(a := v)) t = nored f t"
  "a \<notin> c_nodes c \<Longrightarrow> cbal (f(a := v)) n c = cbal f n c" "a \<notin> c_nodes c \<Longrightarrow> cnored (f(a := v)) h c = cnored f h c"
  by (rule rcol_cong bal_cong nored_cong cbal_cong cnored_cong; auto)+

lemma last_in_nodes: "c \<noteq> [] \<Longrightarrow> f_addr (last c) \<in> c_nodes c"
  by (auto simp: c_nodes_def f_nodes_def intro: last_in_set)

lemma cnored_black: "cnored f RED c \<Longrightarrow> cnored f BLACK c"
  by (cases c) auto

lemma get_color_rp: "tree_at (lk t) p T \<Longrightarrow> get_color t (rp T) = Some (rcol (cl t) T)"
  by (cases T) (auto simp: get_color_cl)

lemma rb_holds_cong: "lk t' = lk t \<Longrightarrow> rb_root t' = rb_root t \<Longrightarrow> rb_holds t' T = rb_holds t T"
  by (simp add: rb_holds_def)

section \<open>One round of the fix-up\<close>

text \<open>The node \<open>x\<close> is red, and all is well but for its parent perhaps being red too.\<close>

definition red_at :: "(addr \<Rightarrow> rb_color) \<Rightarrow> frame list \<Rightarrow> addr tree \<Rightarrow> bool" where
  "red_at f c T \<longleftrightarrow> rcol f T = RED \<and> nored f T \<and> cnored f BLACK c \<and> (\<exists>n. bal f n T \<and> cbal f n c) \<and>
     (c \<noteq> [] \<longrightarrow> f (f_addr (last c)) = BLACK)"

definition fixed :: "'k rbtree \<Rightarrow> addr tree \<Rightarrow> addr option \<Rightarrow> bool" where
  "fixed t T y \<longleftrightarrow> rb_holds t T \<and> rb_inv (cl t) T \<and> (\<exists>p. get_link rb_parent t y = Some p \<and> get_color t p = Some BLACK)"

text \<open>What a round gives for the node \<open>x\<close> with grandparent \<open>g\<close> on the path \<open>c\<close>.\<close>

definition round_ok :: "'k rbtree \<Rightarrow> addr tree \<Rightarrow> frame list \<Rightarrow> addr \<Rightarrow> ('k rbtree \<times> addr option) option \<Rightarrow> bool" where
  "round_ok t T c g res \<longleftrightarrow> (\<exists>t' y T'. res = Some (t', y) \<and> inorder T' = inorder T \<and> keeps (set_tree T) t t' \<and>
     (fixed t' T' y \<or>
      (\<exists>l r. y = Some g \<and> T' = plug c (Node l g r) \<and> rb_holds t' T' \<and> red_at (cl t') c (Node l g r))))"

lemma set_colors_ok:
  assumes "lk t a \<noteq> None" "lk t b \<noteq> None" "a \<in> S" "b \<in> S"
  shows "\<exists>t1 t2. set_color (Some a) v t = Some t1 \<and> set_color (Some b) w t1 = Some t2 \<and> lk t1 = lk t \<and> lk t2 = lk t \<and>
    cl t2 = (cl t)(a := v, b := w) \<and> keeps S t t2 \<and> rb_root t2 = rb_root t"
proof -
  from set_color_ok [OF assms(1), of v] obtain t1 where
    1: "set_color (Some a) v t = Some t1" "lk t1 = lk t" "cl t1 = (cl t)(a := v)" "keeps {a} t t1" "rb_root t1 = rb_root t"
    by blast
  with assms(2) have "lk t1 b \<noteq> None" by simp
  from set_color_ok [OF this, of w] obtain t2 where
    2: "set_color (Some b) w t1 = Some t2" "lk t2 = lk t1" "cl t2 = (cl t1)(b := w)" "keeps {b} t1 t2" "rb_root t2 = rb_root t1"
    by blast
  have "keeps S t t2"
    by (rule keeps_trans [OF keeps_mono [OF 1(4)] keeps_mono [OF 2(4)]]) (use assms in auto)
  with 1 2 show ?thesis by auto
qed

lemma red_parent_black_grandparent:
  assumes "red_at f (fr # c) X" "f (f_addr fr) = RED"
  obtains fr2 c' where "c = fr2 # c'" "f (f_addr fr2) = BLACK" "rcol f (f_tree fr) = BLACK"
proof (cases c)
  case Nil
  with assms show ?thesis by (simp add: red_at_def)
next
  case (Cons fr2 c')
  with assms show ?thesis by (intro that [OF Cons]) (cases "f (f_addr fr2)"; auto simp: red_at_def)+
qed

lemma recolor_ok:
  assumes h: "rb_holds t (plug (fr # fr2 # c) X)" and r: "red_at (cl t) (fr # fr2 # c) X"
    and p: "cl t (f_addr fr) = RED" and u: "f_tree fr2 = Node ul u ur" "cl t u = RED"
    and S: "S = set_tree (plug (fr # fr2 # c) X)"
  shows "\<exists>t1 t2 t3. set_color (Some (f_addr fr)) BLACK t = Some t1 \<and> set_color (Some u) BLACK t1 = Some t2 \<and>
    set_color (Some (f_addr fr2)) RED t2 = Some t3 \<and> rb_holds t3 (plug (fr # fr2 # c) X) \<and>
    red_at (cl t3) c (fill fr2 (fill fr X)) \<and> keeps S t t3"
proof -
  define pa where "pa = f_addr fr"
  define g where "g = f_addr fr2"
  have n: "lk t pa \<noteq> None" "lk t u \<noteq> None" "lk t g \<noteq> None"
    using h u(1) by (auto simp: rb_holds_plug pa_def g_def)
  have inS: "pa \<in> S" "u \<in> S" "g \<in> S" using u(1) by (auto simp: S pa_def g_def f_nodes_def)
  have d: "distinct (inorder X)" "distinct (c_left (fr # fr2 # c) @ c_right (fr # fr2 # c))"
    "c_nodes (fr # fr2 # c) \<inter> set_tree X = {}" using h [unfolded rb_holds_plug] by blast+
  have dd: "pa \<notin> set_tree X" "g \<notin> set_tree X" "u \<notin> set_tree X" "pa \<notin> set_tree (f_tree fr)" "g \<notin> set_tree (f_tree fr)"
    "u \<notin> set_tree (f_tree fr)" "pa \<notin> c_nodes c" "g \<notin> c_nodes c" "u \<notin> c_nodes c" "pa \<noteq> g" "pa \<noteq> u" "g \<noteq> u"
    "pa \<notin> set_tree ul" "pa \<notin> set_tree ur" "g \<notin> set_tree ul" "g \<notin> set_tree ur" "u \<notin> set_tree ul" "u \<notin> set_tree ur"
    using d(2,3) u(1) unfolding distinct_frame by (auto simp: pa_def g_def f_nodes_def)
  from set_colors_ok [OF n(1,2) inS(1,2), of BLACK BLACK] obtain t1 t2 where
    1: "set_color (Some pa) BLACK t = Some t1" "set_color (Some u) BLACK t1 = Some t2" "lk t2 = lk t"
    "cl t2 = (cl t)(pa := BLACK, u := BLACK)" "keeps S t t2" "rb_root t2 = rb_root t" by blast
  have "lk t2 g \<noteq> None" using n(3) 1(3) by simp
  from set_color_ok [OF this, of RED] obtain t3 where
    2: "set_color (Some g) RED t2 = Some t3" "lk t3 = lk t2" "cl t3 = (cl t2)(g := RED)" "keeps {g} t2 t3" "rb_root t3 = rb_root t2"
    by blast
  have hold: "rb_holds t3 (plug (fr # fr2 # c) X)" using h rb_holds_cong [of t3 t] 1 2 by simp
  have keep: "keeps S t t3" by (rule keeps_trans [OF 1(5) keeps_mono [OF 2(4)]]) (use inS in auto)
  let ?f = "(cl t)(pa := BLACK, u := BLACK, g := RED)"
  have f3: "cl t3 = ?f" using 1(4) 2(3) by simp
  from r obtain n where b: "bal (cl t) n X" "cbal (cl t) n (fr # fr2 # c)" by (auto simp: red_at_def)
  have gb: "cl t g = BLACK" "rcol (cl t) (f_tree fr) = BLACK"
    using r p by (cases "cl t g"; auto simp: red_at_def g_def)+
  have "bal ?f n (f_tree fr)" "bal ?f n X" using b dd by (simp_all add: pa_def [symmetric])
  moreover have "bal ?f (Suc n) (f_tree fr2)"
  proof -
    have "bal (cl t) n (Node ul u ur)" using b(2) p u by (simp add: pa_def [symmetric])
    then show ?thesis using dd u by (simp add: u(1))
  qed
  moreover have "cbal ?f (Suc n) c" using b(2) dd gb p by (simp add: g_def [symmetric] pa_def [symmetric])
  ultimately have bal: "\<exists>m. bal ?f m (fill fr2 (fill fr X)) \<and> cbal ?f m c"
    using dd by (intro exI [of _ "Suc n"]) (simp add: pa_def [symmetric] g_def [symmetric])
  have nr: "nored ?f (fill fr2 (fill fr X))"
    using r dd p u gb by (simp add: red_at_def pa_def [symmetric] g_def [symmetric])
  have cn: "cnored ?f BLACK c" using r dd gb by (simp add: red_at_def g_def [symmetric])
  have lst: "c \<noteq> [] \<longrightarrow> ?f (f_addr (last c)) = BLACK"
  proof
    assume c: "c \<noteq> []"
    with last_in_nodes [OF c] dd have "f_addr (last c) \<noteq> pa" "f_addr (last c) \<noteq> u" "f_addr (last c) \<noteq> g" by auto
    then show "?f (f_addr (last c)) = BLACK" using r c by (simp add: red_at_def)
  qed
  have "red_at (cl t3) c (fill fr2 (fill fr X))"
    unfolding red_at_def f3 using bal nr cn lst by (simp add: g_def)
  with 1 2 hold keep show ?thesis by (auto simp: pa_def g_def)
qed

text \<open>The rotation at the grandparent, when the node is a left child and its parent too.\<close>

lemma rotate_end_ok:
  assumes h: "rb_holds t (plug c (Node (Node X p s) g U))"
    and r: "nored (cl t) X" "nored (cl t) s" "nored (cl t) U" "rcol (cl t) s = BLACK" "rcol (cl t) U = BLACK"
      "bal (cl t) n X" "bal (cl t) n s" "bal (cl t) n U" "cbal (cl t) (Suc n) c" "cnored (cl t) BLACK c"
      "c \<noteq> [] \<longrightarrow> cl t (f_addr (last c)) = BLACK"
    and S: "S = set_tree (plug c (Node (Node X p s) g U))"
    and X: "rp X = Some x" 
  shows "\<exists>t1 t2 t3. set_color (Some p) BLACK t = Some t1 \<and> get_link rb_parent t1 (Some p) = Some (Some g) \<and>
    set_color (Some g) RED t1 = Some t2 \<and> rbtree_rotate_right t2 (Some g) = Some t3 \<and>
    fixed t3 (plug c (Node X p (Node s g U))) (Some x) \<and> keeps S t t3"
proof -
  have pg: "lk t p = Some (Some g, rp X, rp s)" "lk t g \<noteq> None" using h by (auto simp: rb_holds_plug)
  have inS: "p \<in> S" "g \<in> S" by (auto simp: S)
  have dd: "p \<noteq> g" "p \<notin> set_tree X" "g \<notin> set_tree X" "p \<notin> set_tree s" "g \<notin> set_tree s" "p \<notin> set_tree U"
    "g \<notin> set_tree U" "p \<notin> c_nodes c" "g \<notin> c_nodes c" using h by (auto simp: rb_holds_plug)
  have p: "lk t p \<noteq> None" using pg(1) by simp
  from set_colors_ok [OF p pg(2) inS, of BLACK RED] obtain t1 t2 where
    1: "set_color (Some p) BLACK t = Some t1" "set_color (Some g) RED t1 = Some t2" "lk t1 = lk t" "lk t2 = lk t"
    "cl t2 = (cl t)(p := BLACK, g := RED)" "keeps S t t2" "rb_root t2 = rb_root t" by blast
  have "rb_holds t2 (plug c (Node (Node X p s) g U))" using h rb_holds_cong [of t2 t] 1 by simp
  from rotate_right_ok [OF this] obtain t3 where
    2: "rbtree_rotate_right t2 (Some g) = Some t3" "rb_holds t3 (plug c (Node X p (Node s g U)))" "cl t3 = cl t2"
    "keeps (c_nodes c \<union> {p, g} \<union> set_tree s) t2 t3" by blast
  have "keeps S t t3" by (rule keeps_trans [OF 1(6) keeps_mono [OF 2(4)]]) (auto simp: S)
  moreover have "rb_inv (cl t3) (plug c (Node X p (Node s g U)))"
  proof -
    have "c \<noteq> [] \<longrightarrow> cl t3 (f_addr (last c)) = BLACK"
      using r(11) last_in_nodes [of c] dd by (auto simp: 2(3) 1(5))
    moreover have "bal (cl t3) (Suc n) (Node X p (Node s g U)) \<and> cbal (cl t3) (Suc n) c"
      using r dd by (simp add: 2(3) 1(5))
    moreover have "nored (cl t3) (Node X p (Node s g U)) \<and> cnored (cl t3) BLACK c" "cl t3 p = BLACK"
      using r dd by (simp_all add: 2(3) 1(5))
    ultimately show ?thesis unfolding rb_inv_plug by auto
  qed
  moreover have "get_link rb_parent t3 (Some x) = Some (Some p) \<and> get_color t3 (Some p) = Some BLACK"
  proof -
    obtain l r' where X': "X = Node l x r'" using X by (cases X) auto
    have "lk t3 x = Some (Some p, rp l, rp r')" "lk t3 p \<noteq> None" using 2(2) by (simp_all add: rb_holds_plug X')
    then show ?thesis using dd by (simp add: get_color_cl 2(3) 1(5))
  qed
  moreover have "get_link rb_parent t1 (Some p) = Some (Some g)" using pg(1) 1(3) by simp
  ultimately show ?thesis using 1(1,2) 2(1,2) by (auto simp: fixed_def)
qed

lemma fill_Node: "\<exists>l r. fill fr t = Node l (f_addr fr) r"
  by (cases fr) auto

lemma body_left_ok:
  assumes h: "rb_holds t (plug (fr # L g U # c) X)" and r: "red_at (cl t) (fr # L g U # c) X"
    and p: "cl t (f_addr fr) = RED" and X: "rp X = Some x"
  shows "round_ok t (plug (fr # L g U # c) X) c g (insert_fixup_body t (Some x))"
proof -
  let ?T = "plug (fr # L g U # c) X"
  define pa where "pa = f_addr fr"
  obtain xl xr where X': "X = Node xl x xr" using X by (cases X) auto
  obtain n where b: "bal (cl t) n X" "bal (cl t) n (f_tree fr)" "bal (cl t) n U" "cbal (cl t) (bump (cl t g) n) c"
    using r p by (auto simp: red_at_def)
  have gb: "cl t g = BLACK" "rcol (cl t) (f_tree fr) = BLACK"
    using r p by (cases "cl t g"; auto simp: red_at_def)+
  have nr: "nored (cl t) X" "nored (cl t) (f_tree fr)" "nored (cl t) U" "cnored (cl t) BLACK c"
    "c \<noteq> [] \<longrightarrow> cl t (f_addr (last c)) = BLACK" "rcol (cl t) X = RED" "cl t x = RED"
    using r gb by (auto simp: red_at_def X')
  have lks: "lk t x = Some (Some pa, rp xl, rp xr)" "lk t pa = Some (f_links (Some g) (Some x) fr)"
    "lk t g = Some (cp c, Some pa, rp U)" "tree_at (lk t) (Some g) U"
    using h by (simp_all add: rb_holds_plug X' pa_def)
  obtain pl pr where pa: "lk t pa = Some (Some g, pl, pr)" using lks(2) by (cases fr) auto
  note gets = get_links [OF lks(1)] get_links [OF pa] get_links [OF lks(3)] get_color_rp [OF lks(4)]
  show ?thesis
  proof (cases "rcol (cl t) U")
    case RED
    then obtain ul u ur where U: "U = Node ul u ur" "cl t u = RED" by (cases U) auto
    from recolor_ok [OF h r p, of ul u ur, OF _ U(2) refl] obtain t1 t2 t3 where
      1: "set_color (Some pa) BLACK t = Some t1" "set_color (Some u) BLACK t1 = Some t2"
      "set_color (Some g) RED t2 = Some t3" "rb_holds t3 ?T" "red_at (cl t3) c (fill (L g U) (fill fr X))"
      "keeps (set_tree ?T) t t3" by (auto simp: U(1) pa_def)
    have "get_color t (Some u) = Some RED" using get_color_rp [OF lks(4)] U by simp
    then have "insert_fixup_body t (Some x) = Some (t3, Some g)"
      unfolding insert_fixup_body_def using 1 U
      by (simp add: gets)
    moreover have "?T = plug c (Node (fill fr X) g U)" by simp
    ultimately show ?thesis using 1(4-6) unfolding round_ok_def
      by (intro exI [of _ t3] exI [of _ "Some g"] exI [of _ ?T]) auto
  next
    case BLACK
    show ?thesis
    proof (cases fr)
      case (L q s)
      have q: "q = pa" by (simp add: pa_def L)
      have pa': "lk t pa = Some (Some g, Some x, rp s)" using lks(2) by (simp add: L)
      have xs: "rp s \<noteq> Some x"
      proof
        assume "rp s = Some x"
        then have "x \<in> set_tree s" by (cases s) auto
        then show False using h by (auto simp: rb_holds_plug L X')
      qed
      have hold: "rb_holds t (plug c (Node (Node X pa s) g U))" using h by (simp add: L q)
      from rotate_end_ok [OF hold nr(1) _ nr(3) _ BLACK b(1) _ b(3) _ nr(4,5) refl X] nr(2) gb b(2,4)
      obtain t1 t2 t3 where
        1: "set_color (Some pa) BLACK t = Some t1" "get_link rb_parent t1 (Some pa) = Some (Some g)"
        "set_color (Some g) RED t1 = Some t2" "rbtree_rotate_right t2 (Some g) = Some t3"
        "fixed t3 (plug c (Node X pa (Node s g U))) (Some x)" "keeps (set_tree (plug c (Node (Node X pa s) g U))) t t3"
        by (auto simp: L)
      have "pr = rp s" using pa pa' by simp
      then have "insert_fixup_body t (Some x) = Some (t3, Some x)"
        unfolding insert_fixup_body_def using 1 BLACK xs [symmetric]
        by (simp add: gets)
      then show ?thesis using 1(5,6) unfolding round_ok_def
        by (intro exI [of _ t3] exI [of _ "Some x"] exI [of _ "plug c (Node X pa (Node s g U))"])
          (auto simp: inorder_plug L q)
    next
      case (R s q)
      have q: "q = pa" by (simp add: pa_def R)
      have pa': "lk t pa = Some (Some g, rp s, Some x)" using lks(2) by (simp add: R)
      have hold: "rb_holds t (plug (L g U # c) (Node s pa (Node xl x xr)))" using h by (simp add: R q X')
      from rotate_left_ok [OF hold] obtain t0 where
        0: "rbtree_rotate_left t (Some pa) = Some t0" "rb_holds t0 (plug (L g U # c) (Node (Node s pa xl) x xr))"
        "cl t0 = cl t" "keeps (c_nodes (L g U # c) \<union> {pa, x} \<union> set_tree xl) t t0" by blast
      let ?Y = "Node s pa xl"
      have hold0: "rb_holds t0 (plug c (Node (Node ?Y x xr) g U))" using 0(2) by simp
      have p': "cl t pa = RED" using p by (simp add: pa_def)
      have x0: "lk t0 pa = Some (Some x, rp s, rp xl)" using hold0 by (simp add: rb_holds_plug)
      have xs: "nored (cl t) xl" "nored (cl t) xr" "rcol (cl t) xl = BLACK" "rcol (cl t) xr = BLACK"
        "bal (cl t) n xl" "bal (cl t) n xr" using nr(1,7) b(1) by (auto simp: X')
      from rotate_end_ok [OF hold0, of n _ pa] nr gb b xs p' BLACK
      obtain t1 t2 t3 where
        1: "set_color (Some x) BLACK t0 = Some t1" "get_link rb_parent t1 (Some x) = Some (Some g)"
        "set_color (Some g) RED t1 = Some t2" "rbtree_rotate_right t2 (Some g) = Some t3"
        "fixed t3 (plug c (Node ?Y x (Node xr g U))) (Some pa)" "keeps (set_tree (plug c (Node (Node ?Y x xr) g U))) t0 t3"
        by (auto simp: R 0(3))
      have "pr = Some x" using pa pa' by simp
      then have "insert_fixup_body t (Some x) = Some (t3, Some pa)"
        unfolding insert_fixup_body_def using 1 BLACK 0(1)
        by (simp add: gets get_links [OF x0])
      moreover have "keeps (set_tree ?T) t t3"
      proof (rule keeps_trans)
        show "keeps (set_tree ?T) t t0" by (rule keeps_mono [OF 0(4)]) (auto simp: R q X')
        show "keeps (set_tree ?T) t0 t3" by (rule keeps_mono [OF 1(6)]) (auto simp: R q X')
      qed
      ultimately show ?thesis using 1(5) unfolding round_ok_def
        by (intro exI [of _ t3] exI [of _ "Some pa"] exI [of _ "plug c (Node ?Y x (Node xr g U))"])
          (auto simp: inorder_plug R q X')
    qed
  qed
qed

section \<open>The fix-up\<close>

lemma flip_body:
  assumes "get_link rb_parent t node = Some np" "get_link rb_parent t np = Some npp"
    "get_link rb_left t npp = Some q" "np \<noteq> q" "get_link rb_right t npp = Some np"
  shows "insert_fixup_body t node = map_option (map_prod flip id) (insert_fixup_body (flip t) node)"
proof -
  show ?thesis
    using assms unfolding insert_fixup_body_def
    by (simp add: map_flip_bind rotate_right_flip option.map_comp o_def option.map_id [unfolded id_def]
        if_distrib [of "map_option (map_prod flip id)"] if_distrib [of "\<lambda>m. Option.bind m f" for f] cong: if_cong)
qed

lemma bal_mirror [simp]: "bal f n (mirror t) = bal f n t"
  by (induction t arbitrary: n) auto

lemma rcol_mirror [simp]: "rcol f (mirror t) = rcol f t"
  by (cases t) simp_all

lemma nored_mirror [simp]: "nored f (mirror t) = nored f t"
  by (induction t) auto

lemma f_flip_simps [simp]:
  "f_addr (f_flip fr) = f_addr fr" "f_tree (f_flip fr) = mirror (f_tree fr)"
  by (cases fr; simp)+

lemma ctx_flip [simp]: "cbal f n (map f_flip c) = cbal f n c" "cnored f h (map f_flip c) = cnored f h c"
  by (induction c arbitrary: n h) simp_all

lemma rb_inv_mirror [simp]: "rb_inv f (mirror t) = rb_inv f t"
  by (simp add: rb_inv_def)

lemma red_at_flip: "red_at f (map f_flip c) (mirror T) = red_at f c T"
  by (simp add: red_at_def last_map)

lemma fixed_flip: "fixed (flip t) (mirror T) y = fixed t T y"
  by (simp add: fixed_def rb_holds_flip)

lemma round_ok_flip:
  assumes "round_ok (flip t) (mirror T) (map f_flip c) g res"
  shows "round_ok t T c g (map_option (map_prod flip id) res)"
proof -
  from assms obtain t' y T' where 1: "res = Some (t', y)" "inorder T' = inorder (mirror T)" "keeps (set_tree (mirror T)) (flip t) t'"
    "fixed t' T' y \<or> (\<exists>l r. y = Some g \<and> T' = plug (map f_flip c) (Node l g r) \<and> rb_holds t' T' \<and>
        red_at (cl t') (map f_flip c) (Node l g r))" unfolding round_ok_def by blast
  have i: "inorder (mirror T') = inorder T" using 1(2) by (simp add: inorder_mirror)
  have k: "keeps (set_tree T) t (flip t')" using 1(3) keeps_flip [of _ t "flip t'"] by simp
  have "fixed (flip t') (mirror T') y \<or> (\<exists>l r. y = Some g \<and> mirror T' = plug c (Node l g r) \<and> rb_holds (flip t') (mirror T') \<and>
        red_at (cl (flip t')) c (Node l g r))"
    using 1(4)
  proof (elim disjE exE conjE)
    assume "fixed t' T' y"
    then show ?thesis by (simp add: fixed_flip)
  next
    fix l r assume *: "y = Some g" "T' = plug (map f_flip c) (Node l g r)" "rb_holds t' T'"
      "red_at (cl t') (map f_flip c) (Node l g r)"
    have m: "map f_flip (map f_flip c) = c" 
    proof -
      have "f_flip (f_flip fr) = fr" for fr by (cases fr) simp_all
      then show ?thesis by (simp add: o_def)
    qed
    have "mirror T' = plug c (Node (mirror r) g (mirror l))" by (simp add: *(2) mirror_plug m [unfolded map_map])
    moreover have "red_at (cl t') c (Node (mirror r) g (mirror l))"
      using *(4) red_at_flip [of "cl t'" c "Node (mirror r) g (mirror l)"] by simp
    moreover have "rb_holds (flip t') (mirror T')" using *(3) by (simp add: rb_holds_flip)
    ultimately show ?thesis using *(1) by (intro disjI2 exI [of _ "mirror r"] exI [of _ "mirror l"]) simp
  qed
  then show ?thesis unfolding round_ok_def using 1(1) i k by auto
qed

lemma body_ok:
  assumes h: "rb_holds t (plug (fr # fr2 # c) X)" and r: "red_at (cl t) (fr # fr2 # c) X"
    and p: "cl t (f_addr fr) = RED" and X: "rp X = Some x"
  shows "round_ok t (plug (fr # fr2 # c) X) c (f_addr fr2) (insert_fixup_body t (Some x))"
proof (cases fr2)
  case (L g U)
  with body_left_ok [of t fr g U c X x] assms show ?thesis by simp
next
  case (R U g)
  define pa where "pa = f_addr fr"
  have h': "rb_holds (flip t) (plug (f_flip fr # L g (mirror U) # map f_flip c) (mirror X))"
    using h rb_holds_flip [of t "plug (fr # fr2 # c) X"] unfolding mirror_plug by (simp add: R)
  have r': "red_at (cl (flip t)) (f_flip fr # L g (mirror U) # map f_flip c) (mirror X)"
    using r red_at_flip [of "cl t" "fr # fr2 # c" X] by (simp add: R)
  have p': "cl (flip t) (f_addr (f_flip fr)) = RED" using p by simp
  have X': "rp (mirror X) = Some x" using X by simp
  have m: "mirror (plug (fr # fr2 # c) X) = plug (f_flip fr # L g (mirror U) # map f_flip c) (mirror X)"
    unfolding mirror_plug by (simp add: R)
  have 1: "round_ok t (plug (fr # fr2 # c) X) c g (map_option (map_prod flip id) (insert_fixup_body (flip t) (Some x)))"
    using body_left_ok [OF h' r' p' X'] unfolding m [symmetric] by (rule round_ok_flip)
  obtain xl xr where X2: "X = Node xl x xr" using X by (cases X) auto
  have lks: "lk t x = Some (Some pa, rp xl, rp xr)" "lk t pa = Some (f_links (Some g) (Some x) fr)"
    "lk t g = Some (cp c, rp U, Some pa)" "pa \<notin> set_tree U"
    using h by (auto simp: rb_holds_plug X2 pa_def R f_nodes_def distinct_plug distinct_frame)
  obtain pl pr where pa: "lk t pa = Some (Some g, pl, pr)" using lks(2) by (cases fr) auto
  have "rp U \<noteq> Some pa" using lks(4) by (cases U) auto
  then have "insert_fixup_body t (Some x) = map_option (map_prod flip id) (insert_fixup_body (flip t) (Some x))"
    by (intro flip_body [OF get_links(1) [OF lks(1)] get_links(1) [OF pa] get_links(2) [OF lks(3)] _ get_links(3) [OF lks(3)]])
      auto
  with 1 show ?thesis by (simp add: R)
qed

lemma insert_fixup_loop_ok:
  assumes "rb_holds t (plug c X)" "red_at (cl t) c X" "rp X = Some x"
  shows "\<exists>t' T'. insert_fixup_loop t (Some x) = Some t' \<and> rb_holds t' T' \<and> inorder T' = inorder (plug c X) \<and>
    keeps (set_tree (plug c X)) t t' \<and> nored (cl t') T' \<and> (\<exists>n. bal (cl t') n T')"
  using assms
proof (induction "length c" arbitrary: t c X x rule: less_induct)
  case less
  note h = less.prems(1) and r = less.prems(2) and X = less.prems(3)
  obtain xl xr where X2: "X = Node xl x xr" using X by (cases X) auto
  show ?case
  proof (cases c)
    case Nil
    then have "rb_root t = Some x" using h X by (simp add: rb_holds_def)
    then have "insert_fixup_loop t (Some x) = Some t" by (simp add: insert_fixup_loop.simps)
    with h r Nil show ?thesis by (intro exI [of _ t] exI [of _ X]) (auto simp: red_at_def)
  next
    case (Cons fr c1)
    define pa where "pa = f_addr fr"
    have lx: "lk t x = Some (Some pa, rp xl, rp xr)" and lp: "lk t pa \<noteq> None"
      using h by (simp_all add: rb_holds_plug Cons X2 pa_def)
    have root: "rb_root t \<noteq> Some x"
    proof -
      have "rb_root t = Some (f_addr (last c))" "f_addr (last c) \<in> c_nodes c" "x \<notin> c_nodes c"
      proof -
        have "croot q c = Some (f_addr (last c))" for q
          using Cons by (induction c arbitrary: q fr c1) (auto, case_tac c, auto)
        then show "rb_root t = Some (f_addr (last c))" using h by (simp add: rb_holds_plug)
        show "f_addr (last c) \<in> c_nodes c" using last_in_nodes [of c] Cons by simp
        show "x \<notin> c_nodes c" using h by (auto simp: rb_holds_plug X2)
      qed
      then show ?thesis by auto
    qed
    have unf: "insert_fixup_loop t (Some x) = (if cl t pa = RED then do {
          (t, node) \<leftarrow> insert_fixup_body t (Some x); insert_fixup_loop t node } else Some t)"
      using root [symmetric] lx lp by (subst insert_fixup_loop.simps) (simp add: get_color_cl)
    show ?thesis
    proof (cases "cl t pa")
      case BLACK
      then have "nored (cl t) (plug c X)" "\<exists>n. bal (cl t) n (plug c X)"
        using r by (auto simp: nored_plug bal_plug red_at_def Cons pa_def)
      with unf BLACK h show ?thesis by (intro exI [of _ t] exI [of _ "plug c X"]) simp
    next
      case RED
      obtain fr2 c2 where c1: "c1 = fr2 # c2"
        by (rule red_parent_black_grandparent [of "cl t" fr c1 X]) (use r RED in \<open>simp_all add: Cons pa_def\<close>)
      from body_ok [of t fr fr2 c2 X x] h r X RED have
        "round_ok t (plug c X) c2 (f_addr fr2) (insert_fixup_body t (Some x))" by (simp add: Cons c1 pa_def)
      then obtain t1 y T1 where 1: "insert_fixup_body t (Some x) = Some (t1, y)" "inorder T1 = inorder (plug c X)"
        "keeps (set_tree (plug c X)) t t1"
        "fixed t1 T1 y \<or> (\<exists>l r. y = Some (f_addr fr2) \<and> T1 = plug c2 (Node l (f_addr fr2) r) \<and> rb_holds t1 T1 \<and>
            red_at (cl t1) c2 (Node l (f_addr fr2) r))" unfolding round_ok_def by blast
      have st: "set_tree T1 = set_tree (plug c X)" using 1(2) by (metis set_inorder)
      from 1(4) show ?thesis
      proof (elim disjE exE conjE)
        assume f: "fixed t1 T1 y"
        then have "insert_fixup_loop t1 y = Some t1"
          by (subst insert_fixup_loop.simps) (auto simp: fixed_def)
        with unf RED 1(1) have "insert_fixup_loop t (Some x) = Some t1" by simp
        with f 1(2,3) show ?thesis by (intro exI [of _ t1] exI [of _ T1]) (auto simp: fixed_def rb_inv_def)
      next
        fix l r' assume 2: "y = Some (f_addr fr2)" "T1 = plug c2 (Node l (f_addr fr2) r')" "rb_holds t1 T1"
          "red_at (cl t1) c2 (Node l (f_addr fr2) r')"
        have "length c2 < length c" by (simp add: Cons c1)
        from less.hyps [OF this, of t1 "Node l (f_addr fr2) r'" "f_addr fr2"] 2 obtain t' T' where
          3: "insert_fixup_loop t1 y = Some t'" "rb_holds t' T'" "inorder T' = inorder T1"
          "keeps (set_tree T1) t1 t'" "nored (cl t') T'" "\<exists>n. bal (cl t') n T'" by auto
        from unf RED 1(1) 3(1) have "insert_fixup_loop t (Some x) = Some t'" by simp
        moreover have "keeps (set_tree (plug c X)) t t'" using 1(3) 3(4) unfolding st by (rule keeps_trans)
        ultimately show ?thesis using 3 1(2) by (intro exI [of _ t'] exI [of _ T']) auto
      qed
    qed
  qed
qed

lemma rbtree_insert_fixup_ok:
  assumes "rb_holds t (plug c X)" "red_at (cl t) c X" "rp X = Some x"
  shows "\<exists>t' T'. rbtree_insert_fixup t (Some x) = Some t' \<and> rb_holds t' T' \<and> inorder T' = inorder (plug c X) \<and>
    keeps (set_tree (plug c X)) t t' \<and> rb_inv (cl t') T'"
proof -
  from insert_fixup_loop_ok [OF assms] obtain t1 T where
    1: "insert_fixup_loop t (Some x) = Some t1" "rb_holds t1 T" "inorder T = inorder (plug c X)"
    "keeps (set_tree (plug c X)) t t1" "nored (cl t1) T" "\<exists>n. bal (cl t1) n T" by blast
  have "T \<noteq> Leaf" using 1(3) assms(3) by (cases X) (auto simp: inorder_plug)
  then obtain l a r where T: "T = Node l a r" by (cases T) auto
  have root: "rb_root t1 = Some a" "lk t1 a \<noteq> None" using 1(2) by (simp_all add: rb_holds_def T)
  from set_color_ok [OF root(2), of BLACK] obtain t2 where
    2: "set_color (Some a) BLACK t1 = Some t2" "lk t2 = lk t1" "cl t2 = (cl t1)(a := BLACK)" "keeps {a} t1 t2"
    "rb_root t2 = rb_root t1" by blast
  have d: "a \<notin> set_tree l" "a \<notin> set_tree r" using 1(2) by (auto simp: rb_holds_def T)
  have "rb_inv (cl t2) T"
    using 1(5,6) d by (auto simp: rb_inv_def T 2(3))
  moreover have "set_tree T = set_tree (plug c X)" using 1(3) by (metis set_inorder)
  then have "keeps (set_tree (plug c X)) t t2" by (intro keeps_trans [OF 1(4) keeps_mono [OF 2(4)]]) (auto simp: T)
  ultimately show ?thesis
    using 1 2 root rb_holds_cong [OF 2(2,5)] by (intro exI [of _ t2] exI [of _ T]) (simp add: rbtree_insert_fixup_def)
qed

end
