(* ===== verification/Rbtree_Search.thy ===== *)
theory Rbtree_Search
  imports Rbtree_Insert Comparators
begin

text \<open>
  A tree object as a sorted list of nodes: searching, insertion and walking in terms of the list.
\<close>

section \<open>The list of the nodes\<close>

definition kv :: "'k rbtree \<Rightarrow> addr \<Rightarrow> 'k" where
  "kv t a = the (ky t a)"

definition keys_sorted :: "'k set \<Rightarrow> 'k rbtree \<Rightarrow> addr list \<Rightarrow> bool" where
  "keys_sorted K t xs \<longleftrightarrow> comparator K (rb_cmp t) \<and> (\<forall>a \<in> set xs. kv t a \<in> K) \<and>
     sorted_wrt (\<lambda>a b. rb_cmp t (kv t a) (kv t b) < 0) xs"

text \<open>The object is a red-black tree with the nodes \<open>xs\<close>.\<close>

definition rb_table :: "'k set \<Rightarrow> 'k rbtree \<Rightarrow> addr list \<Rightarrow> bool" where
  "rb_table K t xs \<longleftrightarrow> keys_sorted K t xs \<and> rb_count t = of_nat (length xs) \<and>
     (\<exists>T. rb_holds t T \<and> rb_inv (cl t) T \<and> inorder T = xs)"

lemma rb_tableE:
  assumes "rb_table K t xs"
  obtains T where "rb_holds t T" "rb_inv (cl t) T" "inorder T = xs" "keys_sorted K t xs" "rb_count t = of_nat (length xs)"
  using assms by (auto simp: rb_table_def)

lemma keys_sorted_append:
  "keys_sorted K t (xs @ ys) \<longleftrightarrow> keys_sorted K t xs \<and> keys_sorted K t ys \<and>
     (\<forall>a \<in> set xs. \<forall>b \<in> set ys. rb_cmp t (kv t a) (kv t b) < 0)"
  by (auto simp: keys_sorted_def sorted_wrt_append)

lemma keys_sorted_Cons:
  "keys_sorted K t (a # ys) \<longleftrightarrow> comparator K (rb_cmp t) \<and> kv t a \<in> K \<and> keys_sorted K t ys \<and>
     (\<forall>b \<in> set ys. rb_cmp t (kv t a) (kv t b) < 0)"
  by (auto simp: keys_sorted_def)

lemma keys_sorted_Nil [simp]: "keys_sorted K t [] \<longleftrightarrow> comparator K (rb_cmp t)"
  by (simp add: keys_sorted_def)

lemma keys_sorted_cong:
  assumes "rb_cmp t' = rb_cmp t" "\<And>a. a \<in> set xs \<Longrightarrow> kv t' a = kv t a"
  shows "keys_sorted K t' xs = keys_sorted K t xs"
proof -
  have "sorted_wrt (\<lambda>a b. rb_cmp t (kv t' a) (kv t' b) < 0) xs \<longleftrightarrow> sorted_wrt (\<lambda>a b. rb_cmp t (kv t a) (kv t b) < 0) xs"
    using assms(2) by (intro iffI; elim sorted_wrt_mono_rel [rotated]; simp)
  then show ?thesis using assms by (simp add: keys_sorted_def)
qed

text \<open>A key that is below or above a node is so for the nodes beyond.\<close>

lemma key_below:
  assumes "keys_sorted K t (a # ys)" "key \<in> K" "rb_cmp t key (kv t a) \<le> 0" "b \<in> set ys"
  shows "rb_cmp t key (kv t b) < 0"
  using assms comparator.cmp_le_less_trans [of K "rb_cmp t" key "kv t a" "kv t b"]
  by (auto simp: keys_sorted_def)

lemma key_above:
  assumes s: "keys_sorted K t (xs @ [a])" and k: "key \<in> K" "0 \<le> rb_cmp t key (kv t a)" and b: "b \<in> set xs"
  shows "0 < rb_cmp t key (kv t b)"
proof -
  have c: "comparator K (rb_cmp t)" and K: "kv t a \<in> K" "kv t b \<in> K" and ba: "rb_cmp t (kv t b) (kv t a) < 0"
    using s b by (auto simp: keys_sorted_def sorted_wrt_append)
  have "rb_cmp t (kv t a) key \<le> 0" using comparator.cmp_le_ge [OF c K(1) k(1)] k(2) by simp
  with comparator.cmp_less_le_trans [OF c K(2,1) k(1) ba] have "rb_cmp t (kv t b) key < 0" .
  then show ?thesis using comparator.cmp_antisym [OF c K(2) k(1)] by simp
qed

section \<open>Searching\<close>

text \<open>The node with an equal key, or else the last node with a smaller key.\<close>

definition le_find :: "('a \<Rightarrow> int) \<Rightarrow> 'a list \<Rightarrow> 'a option \<Rightarrow> bool \<times> 'a option" where
  "le_find P xs res = (case find (\<lambda>a. P a = 0) xs of
     Some a \<Rightarrow> (True, Some a)
   | None \<Rightarrow> (False, if filter (\<lambda>a. 0 < P a) xs = [] then res else Some (last (filter (\<lambda>a. 0 < P a) xs))))"

lemma find_none: "find Q xs = None \<longleftrightarrow> (\<forall>a \<in> set xs. \<not> Q a)"
  by (auto simp: find_None_iff)

lemma find_append: "find Q (xs @ ys) = (case find Q xs of None \<Rightarrow> find Q ys | Some a \<Rightarrow> Some a)"
  by (induction xs) auto

lemma le_find_Nil [simp]: "le_find P [] res = (False, res)"
  by (simp add: le_find_def)

lemma le_find_hit: "\<forall>b \<in> set xs. 0 < P b \<Longrightarrow> P a = 0 \<Longrightarrow> le_find P (xs @ a # ys) res = (True, Some a)"
proof -
  assume "\<forall>b \<in> set xs. 0 < P b" "P a = 0"
  then have "find (\<lambda>a. P a = 0) xs = None" by (auto simp: find_none)
  with \<open>P a = 0\<close> show ?thesis by (simp add: le_find_def find_append)
qed

lemma le_find_left: "\<forall>b \<in> set ys. P b < 0 \<Longrightarrow> P a < 0 \<Longrightarrow> le_find P (xs @ a # ys) res = le_find P xs res"
proof -
  assume *: "\<forall>b \<in> set ys. P b < 0" "P a < 0"
  then have "find (\<lambda>a. P a = 0) ys = None" "filter (\<lambda>a. 0 < P a) ys = []"
    by (auto simp: find_none filter_empty_conv dest!: bspec)
  with * show ?thesis by (simp add: le_find_def find_append split: option.split)
qed

lemma le_find_right: "\<forall>b \<in> set xs. 0 < P b \<Longrightarrow> 0 < P a \<Longrightarrow> le_find P (xs @ a # ys) res = le_find P ys (Some a)"
proof -
  assume *: "\<forall>b \<in> set xs. 0 < P b" "0 < P a"
  then have "find (\<lambda>a. P a = 0) xs = None" by (auto simp: find_none)
  with * show ?thesis by (simp add: le_find_def find_append split: option.split)
qed

lemma get_key_kv: "lk t a \<noteq> None \<Longrightarrow> get_key t (Some a) = Some (kv t a)"
  by (auto simp: lk_def get_key_def kv_def ky_def)

lemma find_less_equal_loop_ok:
  assumes "tree_at (lk t) p T" "keys_sorted K t (inorder T)" "key \<in> K"
  shows "find_less_equal_loop t key (rp T) res = Some (le_find (\<lambda>a. rb_cmp t key (kv t a)) (inorder T) res)"
  using assms
proof (induction T arbitrary: p res)
  case Leaf
  then show ?case by (simp add: find_less_equal_loop.simps)
next
  case (Node l a r)
  have a: "lk t a = Some (p, rp l, rp r)" using Node.prems by simp
  have k: "get_key t (Some a) = Some (kv t a)" using a by (simp add: get_key_kv)
  let ?P = "\<lambda>a. rb_cmp t key (kv t a)"
  have s: "keys_sorted K t (inorder l @ [a])" "keys_sorted K t (a # inorder r)" "keys_sorted K t (inorder l)" "keys_sorted K t (inorder r)"
    using Node.prems(2) by (simp_all add: keys_sorted_append keys_sorted_Cons)
  have above: "0 \<le> ?P a \<Longrightarrow> \<forall>b \<in> set (inorder l). 0 < ?P b" using key_above [OF s(1) Node.prems(3)] by blast
  have below: "?P a \<le> 0 \<Longrightarrow> \<forall>b \<in> set (inorder r). ?P b < 0" using key_below [OF s(2) Node.prems(3)] by blast
  note IH = Node.IH(1) [of "Some a", OF _ s(3) Node.prems(3)] Node.IH(2) [of "Some a", OF _ s(4) Node.prems(3)]
  consider "?P a = 0" | "?P a < 0" | "0 < ?P a" by linarith
  then show ?case
  proof cases
    case 1
    have "le_find ?P (inorder l @ a # inorder r) res = (True, Some a)"
      using above 1 by (intro le_find_hit) simp_all
    then show ?thesis using 1 k by (simp add: find_less_equal_loop.simps)
  next
    case 2
    have "le_find ?P (inorder l @ a # inorder r) res = le_find ?P (inorder l) res"
      using below 2 by (intro le_find_left) simp_all
    then show ?thesis using 2 k a IH(1) Node.prems(1) by (subst find_less_equal_loop.simps) simp
  next
    case 3
    have "le_find ?P (inorder l @ a # inorder r) res = le_find ?P (inorder r) (Some a)"
      using above 3 by (intro le_find_right) simp_all
    then show ?thesis using 3 k a IH(2) Node.prems(1) by (subst find_less_equal_loop.simps) simp
  qed
qed

lemma sorted_wrt_cases: "a \<in> set xs \<Longrightarrow> b \<in> set xs \<Longrightarrow> sorted_wrt less_rel xs \<Longrightarrow> b = a \<or> less_rel b a \<or> less_rel a b"
  by (induction xs) auto

text \<open>The node that is found is the closest one that is not larger.\<close>

lemma le_find_closest:
  assumes "keys_sorted K t xs" "key \<in> K"
  shows "\<exists>exact res. le_find (\<lambda>a. rb_cmp t key (kv t a)) xs None = (exact, res) \<and>
    (exact \<longleftrightarrow> (\<exists>a \<in> set xs. rb_cmp t key (kv t a) = 0)) \<and>
    (case res of
       None \<Rightarrow> \<forall>a \<in> set xs. rb_cmp t key (kv t a) < 0
     | Some a \<Rightarrow> a \<in> set xs \<and> (if exact then rb_cmp t key (kv t a) = 0 else 0 < rb_cmp t key (kv t a)) \<and>
         (\<forall>b \<in> set xs. 0 \<le> rb_cmp t key (kv t b) \<longrightarrow> b = a \<or> rb_cmp t (kv t b) (kv t a) < 0))"
proof -
  let ?P = "\<lambda>a. rb_cmp t key (kv t a)"
  have c: "comparator K (rb_cmp t)" and K: "\<And>a. a \<in> set xs \<Longrightarrow> kv t a \<in> K"
    and srt: "sorted_wrt (\<lambda>a b. rb_cmp t (kv t a) (kv t b) < 0) xs"
    using assms(1) by (auto simp: keys_sorted_def)
  have tri: "b = a \<or> rb_cmp t (kv t b) (kv t a) < 0 \<or> rb_cmp t (kv t a) (kv t b) < 0" if "a \<in> set xs" "b \<in> set xs" for a b
    using that srt by (rule sorted_wrt_cases)
  show ?thesis
  proof (cases "find (\<lambda>a. ?P a = 0) xs")
    case (Some a)
    then have a: "a \<in> set xs" "?P a = 0" by (auto simp: find_Some_iff)
    have "b = a \<or> rb_cmp t (kv t b) (kv t a) < 0" if b: "b \<in> set xs" "0 \<le> ?P b" for b
    proof -
      have "\<not> rb_cmp t (kv t a) (kv t b) < 0"
        using comparator.cmp_le_less_trans [OF c assms(2) K [OF a(1)] K [OF b(1)]] a(2) b(2) by auto
      then show ?thesis using tri [OF a(1) b(1)] by blast
    qed
    with a Some show ?thesis by (auto simp: le_find_def)
  next
    case None
    then have n: "\<forall>a \<in> set xs. ?P a \<noteq> 0" by (simp add: find_none)
    show ?thesis
    proof (cases "filter (\<lambda>a. 0 < ?P a) xs" rule: rev_cases)
      case Nil
      then have "\<forall>a \<in> set xs. ?P a < 0" using n by (force simp: filter_empty_conv)
      with None n Nil show ?thesis by (auto simp: le_find_def)
    next
      case (snoc ys a)
      have a: "a \<in> set xs" "0 < ?P a" using arg_cong [OF snoc, of set] by auto
      have s2: "sorted_wrt (\<lambda>a b. rb_cmp t (kv t a) (kv t b) < 0) (ys @ [a])"
        using sorted_wrt_filter [OF srt, of "\<lambda>a. 0 < ?P a"] snoc by simp
      have "b = a \<or> rb_cmp t (kv t b) (kv t a) < 0" if b: "b \<in> set xs" "0 \<le> ?P b" for b
      proof -
        have "b \<in> set (ys @ [a])" using b n unfolding snoc [symmetric] by force
        then show ?thesis using s2 by (auto simp: sorted_wrt_append)
      qed
      with None n snoc a show ?thesis by (auto simp: le_find_def)
    qed
  qed
qed

lemma rbtree_find_less_equal_ok:
  assumes "rb_table K t xs" "key \<in> K"
  shows "rbtree_find_less_equal t key = Some (le_find (\<lambda>a. rb_cmp t key (kv t a)) xs None)"
proof -
  from assms(1) obtain T where T: "rb_holds t T" "inorder T = xs" "keys_sorted K t xs" by (rule rb_tableE)
  with find_less_equal_loop_ok [of t None T K key None] assms(2) show ?thesis
    by (simp add: rbtree_find_less_equal_def rb_holds_def)
qed

lemma rbtree_search_ok:
  assumes "rb_table K t xs" "key \<in> K"
  shows "rbtree_search t key = Some (find (\<lambda>a. rb_cmp t key (kv t a) = 0) xs)"
  using rbtree_find_less_equal_ok [OF assms]
  by (simp add: rbtree_search_def le_find_def split: option.split)

section \<open>Insertion\<close>

text \<open>The result is the end of a path where the new node belongs.\<close>

definition new_place :: "'k rbtree \<Rightarrow> 'k \<Rightarrow> frame list \<Rightarrow> int \<Rightarrow> bool" where
  "new_place t key c r \<longleftrightarrow> (\<forall>a \<in> set (c_left c). 0 < rb_cmp t key (kv t a)) \<and>
     (\<forall>a \<in> set (c_right c). rb_cmp t key (kv t a) < 0) \<and>
     (\<forall>fr c'. c = fr # c' \<longrightarrow> (r < 0 \<longleftrightarrow> (\<exists>a T. fr = L a T)))"

definition place_found :: "'k rbtree \<Rightarrow> 'k \<Rightarrow> addr tree \<Rightarrow> (addr option \<times> int) option option \<Rightarrow> bool" where
  "place_found t key T res \<longleftrightarrow>
     (\<exists>c r. res = Some (Some (cp c, r)) \<and> T = plug c Leaf \<and> new_place t key c r)"

lemma insert_find_loop_ok:
  assumes "tree_at (lk t) (cp c) S" "keys_sorted K t (inorder (plug c S))" "key \<in> K" "new_place t key c r"
  shows "(\<exists>a \<in> set_tree S. rb_cmp t key (kv t a) = 0) \<and> insert_find_loop t key (rp S) (cp c) r = Some None \<or>
    place_found t key (plug c S) (insert_find_loop t key (rp S) (cp c) r)"
  using assms
proof (induction S arbitrary: c r)
  case Leaf
  then show ?case by (auto simp: insert_find_loop.simps place_found_def)
next
  case (Node l a rt)
  have a: "lk t a = Some (cp c, rp l, rp rt)" and sub: "tree_at (lk t) (Some a) l" "tree_at (lk t) (Some a) rt"
    using Node.prems by simp_all
  have k: "get_key t (Some a) = Some (kv t a)" using a by (simp add: get_key_kv)
  let ?P = "\<lambda>a. rb_cmp t key (kv t a)"
  have s: "keys_sorted K t (inorder l @ [a])" "keys_sorted K t (a # inorder rt)"
    using Node.prems(2) by (simp_all add: inorder_plug keys_sorted_append keys_sorted_Cons)
  have above: "0 \<le> ?P a \<Longrightarrow> \<forall>b \<in> set (inorder l). 0 < ?P b" using key_above [OF s(1) Node.prems(3)] by blast
  have below: "?P a \<le> 0 \<Longrightarrow> \<forall>b \<in> set (inorder rt). ?P b < 0" using key_below [OF s(2) Node.prems(3)] by blast
  consider "?P a = 0" | "?P a < 0" | "0 < ?P a" by linarith
  then show ?case
  proof cases
    case 1
    then show ?thesis using k by (simp add: insert_find_loop.simps)
  next
    case 2
    have u: "insert_find_loop t key (rp (Node l a rt)) (cp c) r = insert_find_loop t key (rp l) (cp (L a rt # c)) (?P a)"
      using 2 k a by (subst insert_find_loop.simps) simp
    have n: "new_place t key (L a rt # c) (?P a)" using Node.prems(4) below 2 by (auto simp: new_place_def)
    have "tree_at (lk t) (cp (L a rt # c)) l" using sub by simp
    from Node.IH(1) [OF this _ Node.prems(3) n] Node.prems(2) show ?thesis unfolding u by auto
  next
    case 3
    have u: "insert_find_loop t key (rp (Node l a rt)) (cp c) r = insert_find_loop t key (rp rt) (cp (R l a # c)) (?P a)"
      using 3 k a by (subst insert_find_loop.simps) simp
    have n: "new_place t key (R l a # c) (?P a)" using Node.prems(4) above 3 by (auto simp: new_place_def)
    have "tree_at (lk t) (cp (R l a # c)) rt" using sub by simp
    from Node.IH(2) [OF this _ Node.prems(3) n] Node.prems(2) show ?thesis unfolding u by auto
  qed
qed

text \<open>Linking the new node in.\<close>

lemma link_new_ok:
  assumes h: "rb_holds t (plug c Leaf)" and d: "lk t d = Some (cp c, None, None)" "d \<notin> c_nodes c"
    and r: "new_place t0 key c r"
  shows "\<exists>t'. (if cp c \<noteq> RBTREE_NULL then (if r < 0 then set_left (cp c) (Some d) t else set_right (cp c) (Some d) t)
      else Some (t\<lparr>rb_root := Some d\<rparr>)) = Some t' \<and> rb_holds t' (plug c (Node Leaf d Leaf)) \<and> cl t' = cl t \<and>
    keeps (c_nodes c) t t'"
proof (cases c)
  case Nil
  have "lk (t\<lparr>rb_root := Some d\<rparr>) = lk t" by (simp add: lk_def fun_eq_iff)
  with Nil h d show ?thesis
    by (intro exI [of _ "t\<lparr>rb_root := Some d\<rparr>"]) (simp add: rb_holds_def cl_def keeps_def ky_def fun_eq_iff)
next
  case (Cons fr c')
  have c: "ctx_at (lk t) None c" "rb_root t = croot None c" "distinct (c_left c @ c_right c)"
    using h [unfolded rb_holds_plug] by auto
  have f: "f_nodes fr \<inter> c_nodes c' = {}" "f_addr fr \<notin> set_tree (f_tree fr)"
    using c(3) unfolding Cons distinct_frame by simp_all
  show ?thesis
  proof (cases fr)
    case (L a T)
    have a: "lk t a = Some (cp c', None, rp T)" using c(1) by (simp add: Cons L)
    from set_links(2) [OF a, of "Some d"] obtain t' where
      1: "set_left (Some a) (Some d) t = Some t'" "lk t' = (lk t)(a \<mapsto> (cp c', Some d, rp T))" "cl t' = cl t"
      "keeps {a} t t'" "rb_root t' = rb_root t" by blast
    have "r < 0" using r by (simp add: new_place_def Cons L)
    moreover have "rb_holds t' (plug c (Node Leaf d Leaf))"
      unfolding rb_holds_plug using c d f by (auto simp: Cons L 1(2,5))
    moreover have "keeps (c_nodes c) t t'" by (rule keeps_mono [OF 1(4)]) (simp add: Cons L)
    ultimately show ?thesis using 1 by (simp add: Cons L)
  next
    case (R T a)
    have a: "lk t a = Some (cp c', rp T, None)" using c(1) by (simp add: Cons R)
    from set_links(3) [OF a, of "Some d"] obtain t' where
      1: "set_right (Some a) (Some d) t = Some t'" "lk t' = (lk t)(a \<mapsto> (cp c', rp T, Some d))" "cl t' = cl t"
      "keeps {a} t t'" "rb_root t' = rb_root t" by blast
    have "\<not> r < 0" using r by (simp add: new_place_def Cons R)
    moreover have "rb_holds t' (plug c (Node Leaf d Leaf))"
      unfolding rb_holds_plug using c d f by (auto simp: Cons R 1(2,5))
    moreover have "keeps (c_nodes c) t t'" by (rule keeps_mono [OF 1(4)]) (simp add: Cons R)
    ultimately show ?thesis using 1 by (simp add: Cons R)
  qed
qed

lemma keeps_kv: "keeps S t t' \<Longrightarrow> kv t' = kv t"
  by (simp add: keeps_def kv_def fun_eq_iff)

lemma rbtree_insert_ok:
  assumes t: "rb_table K t xs" and d: "rb_mem t d \<noteq> None" "d \<notin> set xs" "kv t d \<in> K"
  shows "(\<exists>a \<in> set xs. rb_cmp t (kv t d) (kv t a) = 0) \<and> rbtree_insert t d = Some (None, t) \<or>
    (\<exists>t' ys zs. rbtree_insert t d = Some (Some d, t') \<and> xs = ys @ zs \<and> rb_table K t' (ys @ d # zs) \<and>
       kv t' = kv t \<and> rb_cmp t' = rb_cmp t \<and> (\<forall>a. a \<notin> insert d (set xs) \<longrightarrow> rb_mem t' a = rb_mem t a) \<and>
       (\<forall>a \<in> set ys. 0 < rb_cmp t (kv t d) (kv t a)) \<and> (\<forall>a \<in> set zs. rb_cmp t (kv t d) (kv t a) < 0))"
proof -
  from t obtain T where T: "rb_holds t T" "rb_inv (cl t) T" "inorder T = xs" "keys_sorted K t xs" "rb_count t = of_nat (length xs)"
    by (rule rb_tableE)
  obtain n where n: "rb_mem t d = Some n" using d(1) by auto
  have k: "get_key t (Some d) = Some (kv t d)" using n by (simp add: get_key_def kv_def ky_def)
  have st: "set_tree T = set xs" using T(3) by (metis set_inorder)
  have root: "rb_root t = rp T" using T(1) by (simp add: rb_holds_def)
  have "new_place t (kv t d) [] 0" by (simp add: new_place_def)
  from insert_find_loop_ok [OF _ _ d(3) this, of T] T(1,3,4) have
    "(\<exists>a \<in> set xs. rb_cmp t (kv t d) (kv t a) = 0) \<and> insert_find_loop t (kv t d) (rp T) None 0 = Some None \<or>
     place_found t (kv t d) T (insert_find_loop t (kv t d) (rp T) None 0)"
    by (simp add: rb_holds_def st)
  then show ?thesis
  proof (elim disjE conjE)
    assume "\<exists>a \<in> set xs. rb_cmp t (kv t d) (kv t a) = 0" "insert_find_loop t (kv t d) (rp T) None 0 = Some None"
    then show ?thesis by (simp add: rbtree_insert_def k root)
  next
    assume "place_found t (kv t d) T (insert_find_loop t (kv t d) (rp T) None 0)"
    then obtain c r where c: "insert_find_loop t (kv t d) (rp T) None 0 = Some (Some (cp c, r))" "T = plug c Leaf"
      "new_place t (kv t d) c r" by (auto simp: place_found_def)
    have dc: "d \<notin> c_nodes c" using d(2) st c(2) by simp
    define t1 where "t1 = t\<lparr>rb_mem := (rb_mem t)(d \<mapsto> n\<lparr>rb_parent := cp c, rb_left := RBTREE_NULL,
        rb_right := RBTREE_NULL, rb_color := RED\<rparr>), rb_count := rb_count t + 1\<rparr>"
    have l1: "lk t1 = (lk t)(d \<mapsto> (cp c, None, None))" "cl t1 = (cl t)(d := RED)" "rb_root t1 = rb_root t"
      "ky t1 = ky t" "rb_cmp t1 = rb_cmp t"
      using n by (simp_all add: t1_def lk_def cl_def ky_def fun_eq_iff)
    have h1: "rb_holds t1 (plug c Leaf)"
      using T(1) dc unfolding c(2) rb_holds_plug by (simp add: l1)
    have "lk t1 d = Some (cp c, None, None)" by (simp add: l1(1))
    from link_new_ok [OF h1 this dc c(3)] obtain t2 where
      2: "(if cp c \<noteq> RBTREE_NULL then (if r < 0 then set_left (cp c) (Some d) t1 else set_right (cp c) (Some d) t1)
        else Some (t1\<lparr>rb_root := Some d\<rparr>)) = Some t2" "rb_holds t2 (plug c (Node Leaf d Leaf))" "cl t2 = cl t1"
      "keeps (c_nodes c) t1 t2" by blast
    have "red_at (cl t2) c (Node Leaf d Leaf)"
    proof -
      have i: "cnored (cl t) BLACK c" "cbal (cl t) 0 c" "c \<noteq> [] \<longrightarrow> cl t (f_addr (last c)) = BLACK"
        using T(2) unfolding c(2) rb_inv_plug by auto
      have "c \<noteq> [] \<Longrightarrow> f_addr (last c) \<noteq> d" using last_in_nodes [of c] dc by auto
      with i dc show ?thesis by (auto simp: red_at_def 2(3) l1(2))
    qed
    from rbtree_insert_fixup_ok [OF 2(2) this, of d] obtain t3 T3 where
      3: "rbtree_insert_fixup t2 (Some d) = Some t3" "rb_holds t3 T3" "inorder T3 = inorder (plug c (Node Leaf d Leaf))"
      "keeps (set_tree (plug c (Node Leaf d Leaf))) t2 t3" "rb_inv (cl t3) T3" by auto
    have run: "rbtree_insert t d = Some (Some d, t3)"
      using 2(1) 3(1) n c(1) by (simp add: rbtree_insert_def k root upd_node_def t1_def [symmetric])
    have kv3: "kv t3 = kv t" "rb_cmp t3 = rb_cmp t" "rb_count t3 = rb_count t + 1"
      using keeps_kv [OF 2(4)] keeps_kv [OF 3(4)] 2(4) 3(4) l1 by (auto simp: kv_def keeps_def t1_def fun_eq_iff)
    have xs: "xs = c_left c @ c_right c" using T(3) by (simp add: c(2) inorder_plug)
    have ord: "\<forall>a \<in> set (c_left c). 0 < rb_cmp t (kv t d) (kv t a)" "\<forall>a \<in> set (c_right c). rb_cmp t (kv t d) (kv t a) < 0"
      using c(3) by (simp_all add: new_place_def)
    have cmpr: "comparator K (rb_cmp t)" using T(4) by (simp add: keys_sorted_def)
    have "\<forall>a \<in> set (c_left c). rb_cmp t (kv t a) (kv t d) < 0"
      using ord(1) T(4) d(3) comparator.cmp_antisym [OF cmpr] by (auto simp: keys_sorted_def xs)
    then have "keys_sorted K t (c_left c @ d # c_right c)"
      using T(4) ord(2) d(3) cmpr unfolding xs by (auto simp: keys_sorted_append keys_sorted_Cons)
    then have "keys_sorted K t3 (c_left c @ d # c_right c)"
      using keys_sorted_cong [of t3 t] kv3 by simp
    then have "rb_table K t3 (c_left c @ d # c_right c)"
      using 3(2,3,5) kv3(3) T(5) by (auto simp: rb_table_def inorder_plug xs)
    moreover have "rb_mem t3 a = rb_mem t a" if "a \<notin> insert d (set xs)" for a
    proof -
      have "a \<noteq> d" "a \<notin> c_nodes c" using that by (auto simp: xs c_nodes_set)
      then show ?thesis using 2(4) 3(4) by (simp add: keeps_def t1_def)
    qed
    ultimately show ?thesis using run kv3 ord xs by blast
  qed
qed

end
