(* ===== verification/Rbtree_Walk.thy ===== *)
theory Rbtree_Walk
  imports Rbtree_Search
begin

text \<open>
  Walking along the nodes in order and the traversal that calls back with the children first.
\<close>

section \<open>First, last, next and previous\<close>

lemma leftmost_loop_ok:
  "tree_at (lk t) p (Node l a r) \<Longrightarrow> leftmost_loop t (Some a) = Some (Some (hd (inorder (Node l a r))))"
proof (induction l arbitrary: p a r)
  case Leaf
  then show ?case by (simp add: leftmost_loop.simps)
next
  case (Node ll b lr)
  then have "lk t a = Some (p, Some b, rp r)" "tree_at (lk t) (Some a) (Node ll b lr)" by simp_all
  with Node.IH(1) [of "Some a" b lr] show ?case by (subst leftmost_loop.simps) (simp add: hd_append)
qed

lemma rightmost_loop_ok:
  "tree_at (lk t) p (Node l a r) \<Longrightarrow> rightmost_loop t (Some a) = Some (Some (last (inorder (Node l a r))))"
proof (induction r arbitrary: p a l)
  case Leaf
  then show ?case by (simp add: rightmost_loop.simps)
next
  case (Node rl b rr)
  then have "lk t a = Some (p, rp l, Some b)" "tree_at (lk t) (Some a) (Node rl b rr)" by simp_all
  with Node.IH(2) [of "Some a" rl b] show ?case by (subst rightmost_loop.simps) (simp add: last_append)
qed

definition hd_opt :: "'a list \<Rightarrow> 'a option" where
  "hd_opt xs = (case xs of [] \<Rightarrow> None | x # _ \<Rightarrow> Some x)"

lemma hd_opt_simps [simp]: "hd_opt [] = None" "hd_opt (x # xs) = Some x"
  by (simp_all add: hd_opt_def)

lemma hd_opt_append: "hd_opt (xs @ ys) = (if xs = [] then hd_opt ys else Some (hd xs))"
  by (cases xs) (simp_all add: hd_opt_def)

definition last_opt :: "'a list \<Rightarrow> 'a option" where
  "last_opt xs = (if xs = [] then None else Some (last xs))"

lemma rbtree_first_ok: "rb_table K t xs \<Longrightarrow> rbtree_first t = Some (hd_opt xs)"
proof (elim rb_tableE)
  fix T assume T: "rb_holds t T" "inorder T = xs"
  then have h: "tree_at (lk t) None T" "rb_root t = rp T" by (simp_all add: rb_holds_def)
  show "rbtree_first t = Some (hd_opt xs)"
  proof (cases T)
    case Leaf
    with T(2) h show ?thesis by (simp add: rbtree_first_def leftmost_loop.simps hd_opt_def)
  next
    case (Node l a r)
    with T(2) h leftmost_loop_ok [of t None l a r] show ?thesis
      by (auto simp: rbtree_first_def hd_opt_def hd_append split: list.split)
  qed
qed

lemma rbtree_last_ok: "rb_table K t xs \<Longrightarrow> rbtree_last t = Some (last_opt xs)"
proof (elim rb_tableE)
  fix T assume T: "rb_holds t T" "inorder T = xs"
  then have h: "tree_at (lk t) None T" "rb_root t = rp T" by (simp_all add: rb_holds_def)
  show "rbtree_last t = Some (last_opt xs)"
  proof (cases T)
    case Leaf
    with T(2) h show ?thesis by (simp add: rbtree_last_def rightmost_loop.simps last_opt_def)
  next
    case (Node l a r)
    with T(2) h rightmost_loop_ok [of t None l a r] show ?thesis
      by (auto simp: rbtree_last_def last_opt_def)
  qed
qed

text \<open>Going up ends at the first ancestor that is further right, or further left.\<close>

lemma rp_in_tree: "rp T = Some a \<Longrightarrow> a \<in> set_tree T"
  by (cases T) auto

lemma next_up_loop_ok:
  "ctx_at (lk t) (Some x) c \<Longrightarrow> x \<notin> c_nodes c \<Longrightarrow> distinct (c_left c @ c_right c) \<Longrightarrow>
   next_up_loop t (Some x) (cp c) = Some (hd_opt (c_right c))"
proof (induction c arbitrary: x)
  case Nil
  then show ?case by (simp add: next_up_loop.simps hd_opt_def)
next
  case (Cons fr c)
  have d: "distinct (c_left c @ c_right c)" "f_addr fr \<notin> c_nodes c"
    using Cons.prems(3) unfolding distinct_frame by (auto simp: f_nodes_def)
  show ?case
  proof (cases fr)
    case (L a r)
    have "lk t a = Some (cp c, Some x, rp r)" using Cons.prems(1) by (simp add: L)
    moreover have "rp r \<noteq> Some x" using Cons.prems(2) rp_in_tree [of r x] by (auto simp: L)
    then have "Some x \<noteq> rp r" by auto
    ultimately show ?thesis by (simp add: next_up_loop.simps L hd_opt_def)
  next
    case (R l a)
    have a: "lk t a = Some (cp c, rp l, Some x)" using Cons.prems(1) by (simp add: R)
    have "next_up_loop t (Some x) (cp (fr # c)) = next_up_loop t (Some a) (cp c)"
      using a by (subst next_up_loop.simps) (simp add: R)
    with Cons.IH [of a] Cons.prems(1) d show ?thesis by (simp add: R)
  qed
qed

lemma previous_up_loop_ok:
  "ctx_at (lk t) (Some x) c \<Longrightarrow> x \<notin> c_nodes c \<Longrightarrow> distinct (c_left c @ c_right c) \<Longrightarrow>
   previous_up_loop t (Some x) (cp c) = Some (last_opt (c_left c))"
proof (induction c arbitrary: x)
  case Nil
  then show ?case by (simp add: previous_up_loop.simps last_opt_def)
next
  case (Cons fr c)
  have d: "distinct (c_left c @ c_right c)" "f_addr fr \<notin> c_nodes c"
    using Cons.prems(3) unfolding distinct_frame by (auto simp: f_nodes_def)
  show ?case
  proof (cases fr)
    case (R l a)
    have "lk t a = Some (cp c, rp l, Some x)" using Cons.prems(1) by (simp add: R)
    moreover have "rp l \<noteq> Some x" using Cons.prems(2) rp_in_tree [of l x] by (auto simp: R)
    then have "Some x \<noteq> rp l" by auto
    ultimately show ?thesis by (simp add: previous_up_loop.simps R last_opt_def)
  next
    case (L a r)
    have a: "lk t a = Some (cp c, Some x, rp r)" using Cons.prems(1) by (simp add: L)
    have "previous_up_loop t (Some x) (cp (fr # c)) = previous_up_loop t (Some a) (cp c)"
      using a by (subst previous_up_loop.simps) (simp add: L)
    with Cons.IH [of a] Cons.prems(1) d show ?thesis by (simp add: L)
  qed
qed

lemma distinct_split:
  "xs @ x # ys = xs' @ x # ys' \<Longrightarrow> distinct (xs @ x # ys) \<Longrightarrow> xs = xs' \<and> ys = ys'"
  by (auto simp: append_eq_append_conv2 Cons_eq_append_conv append_eq_Cons_conv)

text \<open>A node in the middle of the list as a place in the tree.\<close>

lemma rb_table_place:
  assumes "rb_table K t (xs @ x # ys)"
  obtains c l r where "rb_holds t (plug c (Node l x r))" "xs = c_left c @ inorder l" "ys = inorder r @ c_right c"
proof -
  from assms obtain T where T: "rb_holds t T" "inorder T = xs @ x # ys" by (rule rb_tableE)
  then have "x \<in> set_tree T" by (metis in_set_conv_decomp set_inorder)
  then obtain c l r where p: "T = plug c (Node l x r)" using plug_ex by blast
  have "distinct (xs @ x # ys)" using T(1) unfolding rb_holds_def T(2) by blast
  moreover have "xs @ x # ys = (c_left c @ inorder l) @ x # (inorder r @ c_right c)"
    using T(2) by (simp add: p inorder_plug)
  ultimately have "xs = c_left c @ inorder l \<and> ys = inorder r @ c_right c"
    using distinct_split by metis
  with T(1) p that show thesis by auto
qed

lemma rbtree_next_ok:
  assumes "rb_table K t (xs @ x # ys)"
  shows "rbtree_next t (Some x) = Some (hd_opt ys)"
proof -
  from assms obtain c l r where h: "rb_holds t (plug c (Node l x r))" "ys = inorder r @ c_right c"
    by (rule rb_table_place)
  have x: "lk t x = Some (cp c, rp l, rp r)" "ctx_at (lk t) (Some x) c" "distinct (c_left c @ c_right c)" "x \<notin> c_nodes c"
    using h(1) [unfolded rb_holds_plug] by auto
  show ?thesis
  proof (cases r)
    case Leaf
    with x next_up_loop_ok [OF x(2,4,3)] h(2) show ?thesis by (simp add: rbtree_next_def)
  next
    case (Node rl b rr)
    have "tree_at (lk t) (Some x) (Node rl b rr)" using h(1) Node by (simp add: rb_holds_plug)
    from leftmost_loop_ok [OF this] x(1) Node h(2) show ?thesis
      by (auto simp: rbtree_next_def hd_opt_append hd_append)
  qed
qed

lemma rbtree_previous_ok:
  assumes "rb_table K t (xs @ x # ys)"
  shows "rbtree_previous t (Some x) = Some (last_opt xs)"
proof -
  from assms obtain c l r where h: "rb_holds t (plug c (Node l x r))" "xs = c_left c @ inorder l"
    by (rule rb_table_place)
  have x: "lk t x = Some (cp c, rp l, rp r)" "ctx_at (lk t) (Some x) c" "distinct (c_left c @ c_right c)" "x \<notin> c_nodes c"
    using h(1) [unfolded rb_holds_plug] by auto
  show ?thesis
  proof (cases l)
    case Leaf
    with x previous_up_loop_ok [OF x(2,4,3)] h(2) show ?thesis by (simp add: rbtree_previous_def)
  next
    case (Node ll b lr)
    have "tree_at (lk t) (Some x) (Node ll b lr)" using h(1) Node by (simp add: rb_holds_plug)
    from rightmost_loop_ok [OF this] x(1) Node h(2) show ?thesis
      by (auto simp: rbtree_previous_def last_opt_def last_append)
  qed
qed

section \<open>The traversal\<close>

text \<open>A callback may change or free its node and leaves the others alone.\<close>

definition local_callback :: "(addr \<Rightarrow> 'k rbtree \<times> 's \<Rightarrow> ('k rbtree \<times> 's) option) \<Rightarrow> (addr \<Rightarrow> 's \<Rightarrow> 's) \<Rightarrow> bool" where
  "local_callback func g \<longleftrightarrow> (\<forall>a t s. rb_mem t a \<noteq> None \<longrightarrow>
     (\<exists>t'. func a (t, s) = Some (t', g a s) \<and> (\<forall>b. b \<noteq> a \<longrightarrow> rb_mem t' b = rb_mem t b)))"

lemma traverse_post_ok:
  assumes "local_callback func g" "tree_at (lk t) p T" "distinct (inorder T)"
  shows "\<exists>t'. traverse_post func (rp T) (t, s) = Some (t', fold g (postorder T) s) \<and>
    (\<forall>b. b \<notin> set_tree T \<longrightarrow> rb_mem t' b = rb_mem t b)"
  using assms
proof (induction T arbitrary: p t s)
  case Leaf
  then show ?case by (simp add: traverse_post.simps)
next
  case (Node l a r)
  have a: "lk t a = Some (p, rp l, rp r)" "tree_at (lk t) (Some a) l" "tree_at (lk t) (Some a) r"
    using Node.prems(2) by simp_all
  from Node.IH(1) [OF Node.prems(1) a(2), of s] Node.prems(3) obtain t1 where
    1: "traverse_post func (rp l) (t, s) = Some (t1, fold g (postorder l) s)"
    "\<And>b. b \<notin> set_tree l \<Longrightarrow> rb_mem t1 b = rb_mem t b" by auto
  have a1: "lk t1 a = Some (p, rp l, rp r)" using a(1) 1(2) [of a] Node.prems(3) by (simp add: lk_def)
  have "tree_at (lk t1) (Some a) r = tree_at (lk t) (Some a) r"
  proof (rule tree_at_cong)
    fix b assume "b \<in> set_tree r"
    with Node.prems(3) have "b \<notin> set_tree l" by auto
    then show "lk t1 b = lk t b" using 1(2) by (simp add: lk_def)
  qed
  with a(3) have "tree_at (lk t1) (Some a) r" by simp
  from Node.IH(2) [OF Node.prems(1) this, of "fold g (postorder l) s"] Node.prems(3) obtain t2 where
    2: "traverse_post func (rp r) (t1, fold g (postorder l) s) = Some (t2, fold g (postorder r) (fold g (postorder l) s))"
    "\<And>b. b \<notin> set_tree r \<Longrightarrow> rb_mem t2 b = rb_mem t1 b" by auto
  have "rb_mem t2 a \<noteq> None" using 2(2) [of a] a1 Node.prems(3) by (auto simp: lk_def)
  with Node.prems(1) obtain t3 where
    3: "func a (t2, fold g (postorder r) (fold g (postorder l) s)) = Some (t3, g a (fold g (postorder r) (fold g (postorder l) s)))"
    "\<And>b. b \<noteq> a \<Longrightarrow> rb_mem t3 b = rb_mem t2 b" unfolding local_callback_def by blast
  have "traverse_post func (Some a) (t, s) = Some (t3, fold g (postorder (Node l a r)) s)"
    using a(1) 1(1) a1 2(1) 3(1) by (subst traverse_post.simps) simp
  moreover have "rb_mem t3 b = rb_mem t b" if "b \<notin> set_tree (Node l a r)" for b
    using that 1(2) [of b] 2(2) [of b] 3(2) [of b] by simp
  ultimately show ?case by (intro exI [of _ t3]) simp
qed

end
