(* ===== verification/Dnstree.thy ===== *)
theory Dnstree
  imports Rbtree_Walk Dname Sockaddr
begin

text \<open>
  The trees of domain names and of netblocks of \<open>util/storage/dnstree.c\<close>. The key of a tree node is
  the structure it is the first member of, so it is a record of the other members. A name is the
  bytes that the pointer points to, and an address the 128 bytes of its structure. Numbers of labels
  and of bits are natural numbers. Links to parents are addresses of nodes, \<open>None\<close> for \<open>NULL\<close>.
\<close>

section \<open>Nodes and their order\<close>

record name_tree_node =
  nt_parent :: "addr option"
  nt_name :: "byte list"
  nt_len :: nat
  nt_labs :: nat
  nt_dclass :: u16

record addr_tree_node =
  at_parent :: "addr option"
  at_addr :: sockaddr_storage
  at_addrlen :: nat
  at_net :: nat

text \<open>The comparison of names that do not have the stated number of labels is left open.\<close>

definition name_tree_compare :: "name_tree_node \<Rightarrow> name_tree_node \<Rightarrow> int" where
  "name_tree_compare x y =
     (if nt_dclass x \<noteq> nt_dclass y then (if nt_dclass x < nt_dclass y then -1 else 1)
      else fst (the (dname_lab_cmp (nt_name x) (nt_labs x) (nt_name y) (nt_labs y))))"

definition addr_tree_compare :: "addr_tree_node \<Rightarrow> addr_tree_node \<Rightarrow> int" where
  "addr_tree_compare n1 n2 =
     (let r = sockaddr_cmp_addr (at_addr n1) (at_addrlen n1) (at_addr n2) (at_addrlen n2)
      in if r \<noteq> 0 then r
         else if at_net n1 < at_net n2 then -1
         else if at_net n1 > at_net n2 then 1
         else 0)"

definition addr_tree_addrport_compare :: "addr_tree_node \<Rightarrow> addr_tree_node \<Rightarrow> int" where
  "addr_tree_addrport_compare n1 n2 = sockaddr_cmp (at_addr n1) (at_addrlen n1) (at_addr n2) (at_addrlen n2)"

definition name_tree_init :: "name_tree_node rbtree \<Rightarrow> name_tree_node rbtree" where
  "name_tree_init tree = rbtree_init name_tree_compare tree"

definition addr_tree_init :: "addr_tree_node rbtree \<Rightarrow> addr_tree_node rbtree" where
  "addr_tree_init tree = rbtree_init addr_tree_compare tree"

definition addr_tree_addrport_init :: "addr_tree_node rbtree \<Rightarrow> addr_tree_node rbtree" where
  "addr_tree_addrport_init tree = rbtree_init addr_tree_addrport_compare tree"

section \<open>Insertion\<close>

definition name_tree_insert ::
    "name_tree_node rbtree \<Rightarrow> addr \<Rightarrow> byte list \<Rightarrow> nat \<Rightarrow> nat \<Rightarrow> u16 \<Rightarrow> (bool \<times> name_tree_node rbtree) option" where
  "name_tree_insert tree node name len labs dclass = do {
     tree \<leftarrow> upd_node (Some node) (\<lambda>n. n\<lparr>rb_key :=
       \<lparr>nt_parent = None, nt_name = name, nt_len = len, nt_labs = labs, nt_dclass = dclass\<rparr>\<rparr>) tree;
     (r, tree) \<leftarrow> rbtree_insert tree node;
     Some (r \<noteq> None, tree) }"

text \<open>\<open>memcpy\<close> of the first \<open>n\<close> bytes of an address over another.\<close>

definition copy_addr :: "nat \<Rightarrow> sockaddr_storage \<Rightarrow> sockaddr_storage \<Rightarrow> sockaddr_storage" where
  "copy_addr n from to = take n from @ drop n to"

definition addr_tree_insert ::
    "addr_tree_node rbtree \<Rightarrow> addr \<Rightarrow> sockaddr_storage \<Rightarrow> nat \<Rightarrow> nat \<Rightarrow> (bool \<times> addr_tree_node rbtree) option" where
  "addr_tree_insert tree node address addrlen net = do {
     tree \<leftarrow> upd_node (Some node) (\<lambda>n. n\<lparr>rb_key :=
       \<lparr>at_parent = None, at_addr = copy_addr addrlen address (at_addr (rb_key n)), at_addrlen = addrlen, at_net = net\<rparr>\<rparr>) tree;
     (r, tree) \<leftarrow> rbtree_insert tree node;
     Some (r \<noteq> None, tree) }"

section \<open>Parents\<close>

text \<open>What the algorithms use of a node: its depth, the number of labels or bits, the link to the
  parent, whether two nodes are of the same kind, and how many labels or bits they have in common.\<close>

record 'k node_ops =
  depth :: "'k \<Rightarrow> nat"
  parent :: "'k \<Rightarrow> addr option"
  set_par :: "addr option \<Rightarrow> 'k \<Rightarrow> 'k"
  same_kind :: "'k \<Rightarrow> 'k \<Rightarrow> bool"
  in_common :: "'k \<Rightarrow> 'k \<Rightarrow> nat option"

definition name_ops :: "name_tree_node node_ops" where
  "name_ops = \<lparr>depth = nt_labs, parent = nt_parent, set_par = (\<lambda>p k. k\<lparr>nt_parent := p\<rparr>),
     same_kind = (\<lambda>x y. nt_dclass x = nt_dclass y),
     in_common = (\<lambda>x y. map_option snd (dname_lab_cmp (nt_name x) (nt_labs x) (nt_name y) (nt_labs y)))\<rparr>"

definition addr_ops :: "addr_tree_node node_ops" where
  "addr_ops = \<lparr>depth = at_net, parent = at_parent, set_par = (\<lambda>p k. k\<lparr>at_parent := p\<rparr>),
     same_kind = (\<lambda>x y. at_addrlen x = at_addrlen y),
     in_common = (\<lambda>x y. addr_in_common (at_addr x) (at_net x) (at_addr y) (at_net y) (at_addrlen y))\<rparr>"

text \<open>The first of \<open>p\<close>, its parent, and so on that is at most \<open>m\<close> deep.\<close>

partial_function (option) up_loop ::
    "'k node_ops \<Rightarrow> 'k rbtree \<Rightarrow> addr option \<Rightarrow> nat \<Rightarrow> addr option option" where
  "up_loop f t p m = (case p of None \<Rightarrow> Some None | Some a \<Rightarrow> do {
     k \<leftarrow> get_key t p;
     if depth f k \<le> m then Some p else up_loop f t (parent f k) m })"

definition set_node_parent :: "'k node_ops \<Rightarrow> addr \<Rightarrow> addr option \<Rightarrow> 'k rbtree \<Rightarrow> 'k rbtree option" where
  "set_node_parent f a p t = upd_node (Some a) (\<lambda>n. n\<lparr>rb_key := set_par f p (rb_key n)\<rparr>) t"

text \<open>The body of the loop, for the node \<open>a\<close> with the previous node \<open>prev\<close>.\<close>

definition init_parent :: "'k node_ops \<Rightarrow> addr option \<Rightarrow> addr \<Rightarrow> 'k rbtree \<Rightarrow> 'k rbtree option" where
  "init_parent f prev a t = do {
     t \<leftarrow> set_node_parent f a None t;
     (case prev of None \<Rightarrow> Some t | Some _ \<Rightarrow> do {
        kp \<leftarrow> get_key t prev;
        ka \<leftarrow> get_key t (Some a);
        if \<not> same_kind f kp ka then Some t
        else do {
          m \<leftarrow> in_common f kp ka;
          p \<leftarrow> up_loop f t prev m;
          (case p of None \<Rightarrow> Some t | Some _ \<Rightarrow> set_node_parent f a p t) } }) }"

partial_function (option) init_parents_loop ::
    "'k node_ops \<Rightarrow> addr option \<Rightarrow> addr option \<Rightarrow> 'k rbtree \<Rightarrow> 'k rbtree option" where
  "init_parents_loop f node prev t = (case node of None \<Rightarrow> Some t | Some a \<Rightarrow> do {
     t \<leftarrow> init_parent f prev a t;
     n \<leftarrow> rbtree_next t node;
     init_parents_loop f n node t })"

definition addr_tree_init_parents_node :: "addr option \<Rightarrow> addr_tree_node rbtree \<Rightarrow> addr_tree_node rbtree option" where
  "addr_tree_init_parents_node node t = init_parents_loop addr_ops node None t"

definition addr_tree_init_parents :: "addr_tree_node rbtree \<Rightarrow> addr_tree_node rbtree option" where
  "addr_tree_init_parents t = do { n \<leftarrow> rbtree_first t; addr_tree_init_parents_node n t }"

definition name_tree_init_parents :: "name_tree_node rbtree \<Rightarrow> name_tree_node rbtree option" where
  "name_tree_init_parents t = do { n \<leftarrow> rbtree_first t; init_parents_loop name_ops n None t }"

section \<open>Lookups\<close>

text \<open>The parent field of the key on the stack is not set and not read.\<close>

definition name_tree_key :: "byte list \<Rightarrow> nat \<Rightarrow> nat \<Rightarrow> u16 \<Rightarrow> name_tree_node" where
  "name_tree_key name len labs dclass =
     \<lparr>nt_parent = None, nt_name = name, nt_len = len, nt_labs = labs, nt_dclass = dclass\<rparr>"

definition name_tree_find ::
    "name_tree_node rbtree \<Rightarrow> byte list \<Rightarrow> nat \<Rightarrow> nat \<Rightarrow> u16 \<Rightarrow> addr option option" where
  "name_tree_find tree name len labs dclass = rbtree_search tree (name_tree_key name len labs dclass)"

definition name_tree_lookup ::
    "name_tree_node rbtree \<Rightarrow> byte list \<Rightarrow> nat \<Rightarrow> nat \<Rightarrow> u16 \<Rightarrow> addr option option" where
  "name_tree_lookup tree name len labs dclass = do {
     (exact, res) \<leftarrow> rbtree_find_less_equal tree (name_tree_key name len labs dclass);
     if exact then Some res
     else (case res of None \<Rightarrow> Some None | Some _ \<Rightarrow> do {
       result \<leftarrow> get_key tree res;
       if nt_dclass result \<noteq> dclass then Some None
       else do {
         (_, m) \<leftarrow> dname_lab_cmp (nt_name result) (nt_labs result) name labs;
         up_loop name_ops tree res m } }) }"

text \<open>The bytes of the key on the stack behind the address are \<open>raw\<close>.\<close>

definition addr_tree_key :: "sockaddr_storage \<Rightarrow> sockaddr_storage \<Rightarrow> nat \<Rightarrow> nat \<Rightarrow> addr_tree_node" where
  "addr_tree_key raw address addrlen net =
     \<lparr>at_parent = None, at_addr = copy_addr addrlen address raw, at_addrlen = addrlen, at_net = net\<rparr>"

definition addr_tree_lookup ::
    "sockaddr_storage \<Rightarrow> addr_tree_node rbtree \<Rightarrow> sockaddr_storage \<Rightarrow> nat \<Rightarrow> addr option option" where
  "addr_tree_lookup raw tree address addrlen = do {
     let net = (if addr_is_ip6 address addrlen then 128 else 32);
     (exact, res) \<leftarrow> rbtree_find_less_equal tree (addr_tree_key raw address addrlen net);
     if exact then Some res
     else (case res of None \<Rightarrow> Some None | Some _ \<Rightarrow> do {
       result \<leftarrow> get_key tree res;
       if at_addrlen result \<noteq> addrlen then Some None
       else do {
         m \<leftarrow> addr_in_common (at_addr result) (at_net result) address net addrlen;
         up_loop addr_ops tree res m } }) }"

definition addr_tree_find ::
    "sockaddr_storage \<Rightarrow> addr_tree_node rbtree \<Rightarrow> sockaddr_storage \<Rightarrow> nat \<Rightarrow> nat \<Rightarrow> addr option option" where
  "addr_tree_find raw tree address addrlen net = rbtree_search tree (addr_tree_key raw address addrlen net)"

text \<open>The class of the next root: whether there is one, and the class.\<close>

partial_function (option) name_tree_next_root :: "name_tree_node rbtree \<Rightarrow> u16 \<Rightarrow> (bool \<times> u16) option" where
  "name_tree_next_root tree dclass =
     (if dclass = 0 then do {
        n \<leftarrow> rbtree_first tree;
        (case n of None \<Rightarrow> Some (False, dclass) | Some _ \<Rightarrow> do {
           p \<leftarrow> get_key tree n;
           root \<leftarrow> dname_is_root (nt_name p);
           if root then Some (True, nt_dclass p)
           else name_tree_next_root tree (nt_dclass p + 1) }) }
      else do {
        (exact, n) \<leftarrow> rbtree_find_less_equal tree (name_tree_key [0] 1 0 dclass);
        if exact then Some (True, dclass)
        else (case n of None \<Rightarrow> Some (False, dclass) | Some _ \<Rightarrow> do {
          n \<leftarrow> rbtree_next tree n;
          (case n of None \<Rightarrow> Some (False, dclass) | Some _ \<Rightarrow> do {
             p \<leftarrow> get_key tree n;
             root \<leftarrow> dname_is_root (nt_name p);
             if root then Some (True, nt_dclass p)
             else name_tree_next_root tree (nt_dclass p + 1) }) }) })"

end
