(* ===== verification/Infra_Rate.thy ===== *)
theory Infra_Rate
  imports Infra_Host Dnstree Dname_Text Addr_Parse
begin

text \<open>
  The rest of the infrastructure cache of \<open>services/cache/infra.c\<close>: the limits on the rate of queries,
  per zone and per client address, and the creation, adjustment and deletion of the cache. The limits
  configured for domains are in a tree of names; the fields that \<open>struct domain_limit_data\<close> has besides the tree node
  are in a map from the addresses of the nodes. Messages to the log are left out. The results of the allocations
  are arguments. Times are integers.
\<close>

section \<open>State\<close>

definition RATE_WINDOW :: nat where "RATE_WINDOW = 2"

text \<open>The lists have the length \<open>RATE_WINDOW\<close>. The structure is also used for client addresses.\<close>

record rate_data =
  qps :: "int list"
  timestamp :: "int list"

record domain_limit_data =
  dl_lim :: int
  dl_below :: int

record infra_cache = host_cache +
  domain_rates :: "(rate_key, rate_data) slabhash option"
  domain_limits :: "name_tree_node rbtree"
  limit_data :: "addr \<Rightarrow> domain_limit_data option"
  client_ip_rates :: "(ip_rate_key, rate_data) slabhash option"

text \<open>The global variables.\<close>

record rate_globals =
  infra_dp_ratelimit :: int
  infra_ip_ratelimit :: int
  infra_ip_ratelimit_cookie :: int

definition LDNS_RR_CLASS_IN :: u16 where "LDNS_RR_CLASS_IN = 1"

section \<open>The limit for a domain\<close>

partial_function (option) below_loop ::
    "name_tree_node rbtree \<Rightarrow> (addr \<Rightarrow> domain_limit_data option) \<Rightarrow> int \<Rightarrow> addr option \<Rightarrow> int option" where
  "below_loop t dat dflt d = (case d of
     None \<Rightarrow> Some dflt
   | Some a \<Rightarrow> do {
       l \<leftarrow> dat a;
       if dl_below l \<noteq> -1 then Some (dl_below l)
       else do { k \<leftarrow> get_key t d; below_loop t dat dflt (nt_parent k) } })"

definition infra_find_ratelimit :: "rate_globals \<Rightarrow> 'z infra_cache_scheme \<Rightarrow> wire_name \<Rightarrow> nat \<Rightarrow> int option" where
  "infra_find_ratelimit g infra name namelen = do {
     labs \<leftarrow> dname_count_labels (name_bytes name);
     d \<leftarrow> name_tree_lookup (domain_limits infra) (name_bytes name) namelen labs LDNS_RR_CLASS_IN;
     (case d of
        None \<Rightarrow> Some (infra_dp_ratelimit g)
      | Some a \<Rightarrow> do {
          k \<leftarrow> get_key (domain_limits infra) d;
          l \<leftarrow> limit_data infra a;
          if nt_labs k = labs \<and> dl_lim l \<noteq> -1 then Some (dl_lim l)
          else below_loop (domain_limits infra) (limit_data infra) (infra_dp_ratelimit g)
            (if nt_labs k = labs then nt_parent k else d) }) }"

section \<open>Counting\<close>

definition RATE_SLOTS :: "nat list" where "RATE_SLOTS = [0..<RATE_WINDOW]"

text \<open>The index of the counter, \<open>None\<close> for \<open>NULL\<close>, and the data.\<close>

definition infra_rate_find_second_or_none :: "int \<Rightarrow> bool \<Rightarrow> rate_data \<Rightarrow> nat option \<times> rate_data" where
  "infra_rate_find_second_or_none t should_add d =
     (case find (\<lambda>i. timestamp d ! i = t) RATE_SLOTS of
        Some i \<Rightarrow> (Some i, d)
      | None \<Rightarrow>
          if \<not> should_add then (None, d)
          else let oldest = foldl (\<lambda>oldest i. if timestamp d ! i < timestamp d ! oldest then i else oldest) 0 RATE_SLOTS
               in (Some oldest, d\<lparr>timestamp := (timestamp d)[oldest := t], qps := (qps d)[oldest := 0]\<rparr>))"

definition infra_rate_give_second :: "int \<Rightarrow> rate_data \<Rightarrow> nat option \<times> rate_data" where
  "infra_rate_give_second t d = infra_rate_find_second_or_none t True d"

definition infra_rate_get_second :: "int \<Rightarrow> rate_data \<Rightarrow> nat option \<times> rate_data" where
  "infra_rate_get_second t d = infra_rate_find_second_or_none t False d"

fun rate_max_loop :: "int \<Rightarrow> bool \<Rightarrow> rate_data \<Rightarrow> nat list \<Rightarrow> int \<Rightarrow> int" where
  "rate_max_loop now backoff d [] m = m"
| "rate_max_loop now backoff d (i # is) m =
     (if backoff then
        rate_max_loop now backoff d is
          (if now - timestamp d ! i \<le> int RATE_WINDOW \<and> qps d ! i > m then qps d ! i else m)
      else if now = timestamp d ! i then qps d ! i
      else rate_max_loop now backoff d is m)"

definition infra_rate_max :: "rate_data \<Rightarrow> int \<Rightarrow> bool \<Rightarrow> int" where
  "infra_rate_max d now backoff = rate_max_loop now backoff d RATE_SLOTS 0"

text \<open>What the two functions that count a query do with the data of an entry: the highest rate before and after,
  and the new data.\<close>

definition rate_count :: "int \<Rightarrow> bool \<Rightarrow> rate_data \<Rightarrow> (int \<times> int \<times> rate_data) option" where
  "rate_count timenow backoff d =
     (let premax = infra_rate_max d timenow backoff;
          (cur, d) = infra_rate_give_second timenow d
      in case cur of
           None \<Rightarrow> None
         | Some i \<Rightarrow>
             let d = d\<lparr>qps := (qps d)[i := i32 (qps d ! i + 1)]\<rparr>
             in Some (premax, infra_rate_max d timenow backoff, d))"

text \<open>The data of a new entry, from \<open>calloc\<close>.\<close>

definition new_rate_data :: "int \<Rightarrow> rate_data" where
  "new_rate_data timenow =
     (let z = \<lparr>qps = replicate RATE_WINDOW 0, timestamp = replicate RATE_WINDOW 0\<rparr>
      in z\<lparr>qps := (qps z)[0 := 1], timestamp := (timestamp z)[0 := timenow]\<rparr>)"

text \<open>Insertion of a new entry into one of the tables.\<close>

definition rate_insert :: "bool \<Rightarrow> u32 \<Rightarrow> 'k \<Rightarrow> 'd \<Rightarrow> ('k, 'd) slabhash \<Rightarrow> ('k, 'd) slabhash option" where
  "rate_insert grow_ok h k d sl = do {
     t \<leftarrow> slab_table sl (slab_idx sl h);
     slab_insert_new grow_ok (next_addr (mem t)) h k d None sl }"

section \<open>Zones\<close>

definition rate_name_key :: "wire_name \<Rightarrow> nat \<Rightarrow> rate_key" where
  "rate_name_key name namelen = \<lparr>rk_name = name, rk_namelen = namelen\<rparr>"

definition infra_find_ratedata ::
    "infra_env \<Rightarrow> wire_name \<Rightarrow> nat \<Rightarrow> 'z infra_cache_scheme \<Rightarrow> (entry_ptr option \<times> 'z infra_cache_scheme) option" where
  "infra_find_ratedata env name namelen infra = do {
     h \<leftarrow> hash_rate (ie_hash env) name;
     sl \<leftarrow> domain_rates infra;
     (r, sl) \<leftarrow> slabhash_lookup h (rate_name_key name namelen) sl;
     Some (map_option (\<lambda>a. (h, a)) r, infra\<lparr>domain_rates := Some sl\<rparr>) }"

text \<open>The results of the allocations of the key, of the data and of the copy of the name, which fails for the length 0.\<close>

record rate_malloc =
  rm_key :: bool
  rm_data :: bool
  rm_name :: bool

definition infra_create_ratedata ::
    "infra_env \<Rightarrow> rate_malloc \<Rightarrow> wire_name \<Rightarrow> nat \<Rightarrow> int \<Rightarrow> 'z infra_cache_scheme \<Rightarrow> 'z infra_cache_scheme option" where
  "infra_create_ratedata env mk name namelen timenow infra = do {
     h \<leftarrow> hash_rate (ie_hash env) name;
     if \<not> rm_key mk \<or> \<not> rm_data mk then Some infra
     else if namelen = 0 \<or> \<not> rm_name mk then Some infra
     else do {
       sl \<leftarrow> domain_rates infra;
       sl \<leftarrow> rate_insert (ie_grow_ok env) h (rate_name_key name namelen) (new_rate_data timenow) sl;
       Some (infra\<lparr>domain_rates := Some sl\<rparr>) } }"

text \<open>Reading and writing the data of the entry that a lookup returned.\<close>

definition zone_data :: "'z infra_cache_scheme \<Rightarrow> entry_ptr \<Rightarrow> rate_data option" where
  "zone_data infra p = do { sl \<leftarrow> domain_rates infra; entry_data sl (fst p) (snd p) }"

definition set_zone_data :: "entry_ptr \<Rightarrow> rate_data \<Rightarrow> 'z infra_cache_scheme \<Rightarrow> 'z infra_cache_scheme option" where
  "set_zone_data p d infra = do {
     sl \<leftarrow> domain_rates infra;
     sl \<leftarrow> set_entry_data (fst p) (snd p) d sl;
     Some (infra\<lparr>domain_rates := Some sl\<rparr>) }"

definition infra_ratelimit_inc ::
    "rate_globals \<Rightarrow> infra_env \<Rightarrow> rate_malloc \<Rightarrow> wire_name \<Rightarrow> nat \<Rightarrow> int \<Rightarrow> bool \<Rightarrow> 'z infra_cache_scheme \<Rightarrow>
     (bool \<times> 'z infra_cache_scheme) option" where
  "infra_ratelimit_inc g env mk name namelen timenow backoff infra =
     (if infra_dp_ratelimit g = 0 then Some (True, infra)
      else do {
        l \<leftarrow> infra_find_ratelimit g infra name namelen;
        if l = 0 then Some (True, infra)
        else do {
          (entry, infra) \<leftarrow> infra_find_ratedata env name namelen infra;
          (case entry of
             Some p \<Rightarrow> do {
               d \<leftarrow> zone_data infra p;
               (premax, m, d) \<leftarrow> rate_count timenow backoff d;
               infra \<leftarrow> set_zone_data p d infra;
               Some (m \<le> l, infra) }
           | None \<Rightarrow> do {
               infra \<leftarrow> infra_create_ratedata env mk name namelen timenow infra;
               Some (1 \<le> l, infra) }) } })"

definition infra_ratelimit_dec ::
    "rate_globals \<Rightarrow> infra_env \<Rightarrow> wire_name \<Rightarrow> nat \<Rightarrow> int \<Rightarrow> 'z infra_cache_scheme \<Rightarrow> 'z infra_cache_scheme option" where
  "infra_ratelimit_dec g env name namelen timenow infra =
     (if infra_dp_ratelimit g = 0 then Some infra
      else do {
        (entry, infra) \<leftarrow> infra_find_ratedata env name namelen infra;
        (case entry of
           None \<Rightarrow> Some infra
         | Some p \<Rightarrow> do {
             d \<leftarrow> zone_data infra p;
             (case infra_rate_get_second timenow d of
                (None, _) \<Rightarrow> Some infra
              | (Some i, d) \<Rightarrow>
                  if qps d ! i > 0 then set_zone_data p (d\<lparr>qps := (qps d)[i := qps d ! i - 1]\<rparr>) infra
                  else Some infra) }) })"

definition infra_ratelimit_exceeded ::
    "rate_globals \<Rightarrow> infra_env \<Rightarrow> wire_name \<Rightarrow> nat \<Rightarrow> int \<Rightarrow> bool \<Rightarrow> 'z infra_cache_scheme \<Rightarrow>
     (bool \<times> 'z infra_cache_scheme) option" where
  "infra_ratelimit_exceeded g env name namelen timenow backoff infra =
     (if infra_dp_ratelimit g = 0 then Some (False, infra)
      else do {
        l \<leftarrow> infra_find_ratelimit g infra name namelen;
        if l = 0 then Some (False, infra)
        else do {
          (entry, infra) \<leftarrow> infra_find_ratedata env name namelen infra;
          (case entry of
             None \<Rightarrow> Some (False, infra)
           | Some p \<Rightarrow> do {
               d \<leftarrow> zone_data infra p;
               Some (infra_rate_max d timenow backoff > l, infra) }) } })"

section \<open>Client addresses\<close>

definition ip_key :: "sockaddr_storage \<Rightarrow> nat \<Rightarrow> ip_rate_key" where
  "ip_key addr addrlen = \<lparr>irk_addr = addr, irk_addrlen = addrlen\<rparr>"

definition infra_find_ip_ratedata ::
    "infra_env \<Rightarrow> sockaddr_storage \<Rightarrow> nat \<Rightarrow> 'z infra_cache_scheme \<Rightarrow> (entry_ptr option \<times> 'z infra_cache_scheme) option" where
  "infra_find_ip_ratedata env addr addrlen infra = do {
     h \<leftarrow> hash_addr (ie_hash env) addr addrlen False;
     sl \<leftarrow> client_ip_rates infra;
     (r, sl) \<leftarrow> slabhash_lookup h (ip_key addr addrlen) sl;
     Some (map_option (\<lambda>a. (h, a)) r, infra\<lparr>client_ip_rates := Some sl\<rparr>) }"

definition infra_ip_create_ratedata ::
    "infra_env \<Rightarrow> rate_malloc \<Rightarrow> sockaddr_storage \<Rightarrow> nat \<Rightarrow> int \<Rightarrow> 'z infra_cache_scheme \<Rightarrow> 'z infra_cache_scheme option" where
  "infra_ip_create_ratedata env mk addr addrlen timenow infra = do {
     h \<leftarrow> hash_addr (ie_hash env) addr addrlen False;
     if \<not> rm_key mk \<or> \<not> rm_data mk then Some infra
     else do {
       sl \<leftarrow> client_ip_rates infra;
       sl \<leftarrow> rate_insert (ie_grow_ok env) h (ip_key addr addrlen) (new_rate_data timenow) sl;
       Some (infra\<lparr>client_ip_rates := Some sl\<rparr>) } }"

definition ip_data :: "'z infra_cache_scheme \<Rightarrow> entry_ptr \<Rightarrow> rate_data option" where
  "ip_data infra p = do { sl \<leftarrow> client_ip_rates infra; entry_data sl (fst p) (snd p) }"

definition set_ip_data :: "entry_ptr \<Rightarrow> rate_data \<Rightarrow> 'z infra_cache_scheme \<Rightarrow> 'z infra_cache_scheme option" where
  "set_ip_data p d infra = do {
     sl \<leftarrow> client_ip_rates infra;
     sl \<leftarrow> set_entry_data (fst p) (snd p) d sl;
     Some (infra\<lparr>client_ip_rates := Some sl\<rparr>) }"

definition check_ip_ratelimit :: "rate_globals \<Rightarrow> int \<Rightarrow> int \<Rightarrow> bool \<Rightarrow> bool" where
  "check_ip_ratelimit g premax m has_cookie =
     (let limit = (if has_cookie then infra_ip_ratelimit_cookie g else infra_ip_ratelimit g)
      in if limit = 0 then True else m \<le> limit)"

definition infra_ip_ratelimit_inc ::
    "rate_globals \<Rightarrow> infra_env \<Rightarrow> rate_malloc \<Rightarrow> sockaddr_storage \<Rightarrow> nat \<Rightarrow> int \<Rightarrow> bool \<Rightarrow> bool \<Rightarrow> 'z infra_cache_scheme \<Rightarrow>
     (bool \<times> 'z infra_cache_scheme) option" where
  "infra_ip_ratelimit_inc g env mk addr addrlen timenow has_cookie backoff infra =
     (if infra_ip_ratelimit g = 0 then Some (True, infra)
      else do {
        (entry, infra) \<leftarrow> infra_find_ip_ratedata env addr addrlen infra;
        (case entry of
           Some p \<Rightarrow> do {
             d \<leftarrow> ip_data infra p;
             (premax, m, d) \<leftarrow> rate_count timenow backoff d;
             infra \<leftarrow> set_ip_data p d infra;
             Some (check_ip_ratelimit g premax m has_cookie, infra) }
         | None \<Rightarrow> do {
             infra \<leftarrow> infra_ip_create_ratedata env mk addr addrlen timenow infra;
             Some (True, infra) }) })"

section \<open>Limits from the configuration\<close>

record infra_config =
  cfg_infra_cache_numhosts :: u64
  cfg_infra_cache_slabs :: nat
  cfg_host_ttl :: int
  cfg_infra_keep_probing :: bool
  cfg_ratelimit :: int
  cfg_ratelimit_slabs :: nat
  cfg_ratelimit_size :: u64
  cfg_ip_ratelimit :: int
  cfg_ip_ratelimit_slabs :: nat
  cfg_ip_ratelimit_size :: u64
  cfg_ratelimit_for_domain :: "(byte list \<times> byte list) list"
  cfg_ratelimit_below_domain :: "(byte list \<times> byte list) list"

text \<open>For one entry of the configuration: the old contents of the array in \<open>sldns_str2wire_dname\<close> and the results of its
  \<open>malloc\<close> and of the \<open>calloc\<close> of the node.\<close>

record limit_malloc =
  lm_raw :: "byte list"
  lm_name :: bool
  lm_node :: bool

text \<open>A new node with zero bytes, at an address that is not in use.\<close>

definition new_node_addr :: "name_tree_node rbtree \<Rightarrow> addr" where
  "new_node_addr t = Suc (Max (insert 0 (dom (rb_mem t))))"

definition zero_node :: "name_tree_node rbnode" where
  "zero_node = \<lparr>rb_parent = None, rb_left = None, rb_right = None,
     rb_key = \<lparr>nt_parent = None, nt_name = [], nt_len = 0, nt_labs = 0, nt_dclass = 0\<rparr>, rb_color = BLACK\<rparr>"

definition domain_limit_findcreate ::
    "limit_malloc \<Rightarrow> byte list \<Rightarrow> 'z infra_cache_scheme \<Rightarrow> (addr option \<times> 'z infra_cache_scheme) option" where
  "domain_limit_findcreate mk name infra = do {
     (nm, nmlen) \<leftarrow> sldns_str2wire_dname (lm_raw mk) (lm_name mk) name;
     (case nm of
        None \<Rightarrow> Some (None, infra)
      | Some nm \<Rightarrow> do {
          labs \<leftarrow> dname_count_labels nm;
          d \<leftarrow> name_tree_find (domain_limits infra) nm nmlen labs LDNS_RR_CLASS_IN;
          (case d of
             Some a \<Rightarrow> Some (Some a, infra)
           | None \<Rightarrow>
               if \<not> lm_node mk then Some (None, infra)
               else do {
                 let t = domain_limits infra;
                 let a = new_node_addr t;
                 let node = zero_node\<lparr>rb_key := \<lparr>nt_parent = None, nt_name = nm, nt_len = nmlen, nt_labs = labs,
                   nt_dclass = LDNS_RR_CLASS_IN\<rparr>\<rparr>;
                 (ok, t') \<leftarrow> name_tree_insert (t\<lparr>rb_mem := (rb_mem t)(a \<mapsto> node)\<rparr>) a nm nmlen labs LDNS_RR_CLASS_IN;
                 if \<not> ok then Some (None, infra\<lparr>domain_limits := t'\<lparr>rb_mem := (rb_mem t')(a := None)\<rparr>\<rparr>)
                 else Some (Some a, infra\<lparr>domain_limits := t',
                   limit_data := (limit_data infra)(a \<mapsto> \<lparr>dl_lim = -1, dl_below = -1\<rparr>)\<rparr>) }) }) }"

text \<open>The two loops, which differ in the field they set; \<open>mk\<close> has the allocations of the entries that are left.\<close>

fun cfg_insert_loop ::
    "(int \<Rightarrow> domain_limit_data \<Rightarrow> domain_limit_data) \<Rightarrow> (nat \<Rightarrow> limit_malloc) \<Rightarrow> (byte list \<times> byte list) list \<Rightarrow>
     'z infra_cache_scheme \<Rightarrow> (bool \<times> 'z infra_cache_scheme) option" where
  "cfg_insert_loop set_field mk [] infra = Some (True, infra)"
| "cfg_insert_loop set_field mk ((str, str2) # ps) infra = do {
     (d, infra) \<leftarrow> domain_limit_findcreate (mk 0) str infra;
     (case d of
        None \<Rightarrow> Some (False, infra)
      | Some a \<Rightarrow> do {
          l \<leftarrow> limit_data infra a;
          cfg_insert_loop set_field (\<lambda>i. mk (Suc i)) ps
            (infra\<lparr>limit_data := (limit_data infra)(a \<mapsto> set_field (c_atoi str2) l)\<rparr>) }) }"

definition infra_ratelimit_cfg_insert ::
    "(nat \<Rightarrow> limit_malloc) \<Rightarrow> (nat \<Rightarrow> limit_malloc) \<Rightarrow> infra_config \<Rightarrow> 'z infra_cache_scheme \<Rightarrow> (bool \<times> 'z infra_cache_scheme) option" where
  "infra_ratelimit_cfg_insert mk1 mk2 cfg infra = do {
     (ok, infra) \<leftarrow> cfg_insert_loop (\<lambda>v l. l\<lparr>dl_lim := v\<rparr>) mk1 (cfg_ratelimit_for_domain cfg) infra;
     if \<not> ok then Some (False, infra)
     else cfg_insert_loop (\<lambda>v l. l\<lparr>dl_below := v\<rparr>) mk2 (cfg_ratelimit_below_domain cfg) infra }"

definition setup_domain_limits ::
    "(nat \<Rightarrow> limit_malloc) \<Rightarrow> (nat \<Rightarrow> limit_malloc) \<Rightarrow> infra_config \<Rightarrow> 'z infra_cache_scheme \<Rightarrow> (bool \<times> 'z infra_cache_scheme) option" where
  "setup_domain_limits mk1 mk2 cfg infra = do {
     let infra = infra\<lparr>domain_limits := name_tree_init (domain_limits infra)\<rparr>;
     (ok, infra) \<leftarrow> infra_ratelimit_cfg_insert mk1 mk2 cfg infra;
     if \<not> ok then Some (False, infra)
     else do {
       t \<leftarrow> name_tree_init_parents (domain_limits infra);
       Some (True, infra\<lparr>domain_limits := t\<rparr>) } }"

section \<open>Creation, deletion and adjustment\<close>

definition domain_limit_free ::
    "addr \<Rightarrow> name_tree_node rbtree \<times> (addr \<Rightarrow> domain_limit_data option) \<Rightarrow>
     (name_tree_node rbtree \<times> (addr \<Rightarrow> domain_limit_data option)) option" where
  "domain_limit_free a = (\<lambda>(t, dat). if rb_mem t a = None then None
     else Some (t\<lparr>rb_mem := (rb_mem t)(a := None)\<rparr>, dat(a := None)))"

text \<open>The result is what is left of the nodes and of the entries of the three tables, and the callbacks of the tables.\<close>

record infra_rest =
  rest_hosts :: "(infra_key, infra_data) deleted"
  rest_domain_rates :: "(rate_key, rate_data) deleted"
  rest_domain_limits :: "name_tree_node rbtree"
  rest_limit_data :: "addr \<Rightarrow> domain_limit_data option"
  rest_client_ip_rates :: "(ip_rate_key, rate_data) deleted"

definition infra_delete :: "infra_cache option \<Rightarrow> infra_rest option option" where
  "infra_delete infra = (case infra of
     None \<Rightarrow> Some None
   | Some infra \<Rightarrow> do {
       h \<leftarrow> slabhash_delete (Some (hosts infra));
       r \<leftarrow> slabhash_delete (domain_rates infra);
       (t, dat) \<leftarrow> traverse_postorder domain_limit_free (domain_limits infra) (limit_data infra);
       c \<leftarrow> slabhash_delete (client_ip_rates infra);
       Some (Some \<lparr>rest_hosts = h, rest_domain_rates = r, rest_domain_limits = t, rest_limit_data = dat, rest_client_ip_rates = c\<rparr>) })"

text \<open>The sizes of the structures and the results of the allocations: of the cache, of each table as in \<open>slabhash_create\<close>,
  and those for the limits.\<close>

record infra_sizes =
  is_hosts :: struct_sizes
  is_rates :: struct_sizes
  is_ip_rates :: struct_sizes

type_synonym slab_allocs = "bool \<times> bool \<times> (nat \<Rightarrow> bool \<times> bool)"

record infra_allocs =
  al_infra :: bool
  al_hosts :: slab_allocs
  al_rates :: slab_allocs
  al_ip_rates :: slab_allocs
  al_for :: "nat \<Rightarrow> limit_malloc"
  al_below :: "nat \<Rightarrow> limit_malloc"

definition INFRA_HOST_STARTSIZE :: nat where "INFRA_HOST_STARTSIZE = 32"
definition INFRA_BYTES_NAME :: u64 where "INFRA_BYTES_NAME = 14"

definition create_table ::
    "nat \<Rightarrow> u64 \<Rightarrow> ('k \<Rightarrow> 'd \<Rightarrow> u64) \<Rightarrow> ('k \<Rightarrow> 'k \<Rightarrow> int) \<Rightarrow> slab_allocs \<Rightarrow> ('k, 'd) slabhash option option" where
  "create_table slabs maxmem szf cmpf al =
     map_option fst (slabhash_create slabs INFRA_HOST_STARTSIZE maxmem szf cmpf None (fst al) (fst (snd al)) (snd (snd al)))"

definition hosts_maxmem :: "infra_sizes \<Rightarrow> infra_config \<Rightarrow> u64" where
  "hosts_maxmem sz cfg = cfg_infra_cache_numhosts cfg * (sz_key (is_hosts sz) + sz_data (is_hosts sz) + INFRA_BYTES_NAME)"

text \<open>The empty tree that \<open>calloc\<close> gives. Its root is a null pointer, which a traversal treats like the sentinel; its comparison is
  set by \<open>name_tree_init\<close> before it is used.\<close>

definition zero_limits :: "name_tree_node rbtree" where
  "zero_limits = \<lparr>rb_root = None, rb_count = 0, rb_cmp = name_tree_compare, rb_mem = Map.empty\<rparr>"

definition infra_create ::
    "infra_sizes \<Rightarrow> infra_allocs \<Rightarrow> infra_config \<Rightarrow> rate_globals \<Rightarrow> (infra_cache option \<times> rate_globals) option" where
  "infra_create sz al cfg g =
     (if \<not> al_infra al then Some (None, g)
      else do {
        hs \<leftarrow> create_table (cfg_infra_cache_slabs cfg) (hosts_maxmem sz cfg) (infra_sizefunc (is_hosts sz)) infra_compfunc (al_hosts al);
        (case hs of
           None \<Rightarrow> Some (None, g)
         | Some hs \<Rightarrow> do {
             let g = g\<lparr>infra_dp_ratelimit := cfg_ratelimit cfg\<rparr>;
             dr \<leftarrow> create_table (cfg_ratelimit_slabs cfg) (cfg_ratelimit_size cfg) (rate_sizefunc (is_rates sz)) rate_compfunc (al_rates al);
             let infra = \<lparr>hosts = hs, host_ttl = cfg_host_ttl cfg, infra_keep_probing = cfg_infra_keep_probing cfg,
               domain_rates = dr, domain_limits = zero_limits, limit_data = Map.empty, client_ip_rates = None\<rparr>;
             if dr = None then do { _ \<leftarrow> infra_delete (Some infra); Some (None, g) }
             else do {
               (ok, infra) \<leftarrow> setup_domain_limits (al_for al) (al_below al) cfg infra;
               if \<not> ok then do { _ \<leftarrow> infra_delete (Some infra); Some (None, g) }
               else do {
                 let g = g\<lparr>infra_ip_ratelimit := cfg_ip_ratelimit cfg\<rparr>;
                 ip \<leftarrow> create_table (cfg_ip_ratelimit_slabs cfg) (cfg_ip_ratelimit_size cfg) (ip_rate_sizefunc (is_ip_rates sz)) ip_rate_compfunc (al_ip_rates al);
                 let infra = infra\<lparr>client_ip_rates := ip\<rparr>;
                 if ip = None then do { _ \<leftarrow> infra_delete (Some infra); Some (None, g) }
                 else Some (Some infra, g) } } }) })"

definition infra_adjust ::
    "infra_sizes \<Rightarrow> infra_allocs \<Rightarrow> infra_config \<Rightarrow> infra_cache option \<Rightarrow> rate_globals \<Rightarrow> (infra_cache option \<times> rate_globals) option" where
  "infra_adjust sz al cfg infra g = (case infra of
     None \<Rightarrow> infra_create sz al cfg g
   | Some infra \<Rightarrow> do {
       let infra = infra\<lparr>host_ttl := cfg_host_ttl cfg, infra_keep_probing := cfg_infra_keep_probing cfg\<rparr>;
       let g = g\<lparr>infra_dp_ratelimit := cfg_ratelimit cfg, infra_ip_ratelimit := cfg_ip_ratelimit cfg\<rparr>;
       s1 \<leftarrow> slabhash_is_size (Some (hosts infra)) (hosts_maxmem sz cfg) (cfg_infra_cache_slabs cfg);
       s2 \<leftarrow> (if s1 then slabhash_is_size (domain_rates infra) (cfg_ratelimit_size cfg) (cfg_ratelimit_slabs cfg) else Some False);
       s3 \<leftarrow> (if s2 then slabhash_is_size (client_ip_rates infra) (cfg_ip_ratelimit_size cfg) (cfg_ip_ratelimit_slabs cfg) else Some False);
       if \<not> s3 then do { _ \<leftarrow> infra_delete (Some infra); infra_create sz al cfg g }
       else do {
         (t, dat) \<leftarrow> traverse_postorder domain_limit_free (domain_limits infra) (limit_data infra);
         (ok, infra) \<leftarrow> setup_domain_limits (al_for al) (al_below al) cfg (infra\<lparr>domain_limits := t, limit_data := dat\<rparr>);
         if \<not> ok then do { _ \<leftarrow> infra_delete (Some infra); Some (None, g) }
         else Some (Some infra, g) } })"

text \<open>The sizes of the cache, of the table structures, of a bin and of a lock.\<close>

record mem_sizes =
  ms_infra :: u64
  ms_slabhash :: u64
  ms_lruhash :: u64
  ms_bin :: u64
  ms_lock :: u64

definition table_mem :: "mem_sizes \<Rightarrow> ('k, 'd) slabhash \<Rightarrow> u64 option" where
  "table_mem ms sl = slabhash_get_mem (ms_slabhash ms) (ms_lruhash ms) (ms_bin ms) (ms_lock ms) sl"

definition infra_get_mem :: "mem_sizes \<Rightarrow> 'z infra_cache_scheme \<Rightarrow> u64 option" where
  "infra_get_mem ms infra = do {
     a \<leftarrow> table_mem ms (hosts infra);
     b \<leftarrow> (case domain_rates infra of None \<Rightarrow> Some 0 | Some sl \<Rightarrow> table_mem ms sl);
     c \<leftarrow> (case client_ip_rates infra of None \<Rightarrow> Some 0 | Some sl \<Rightarrow> table_mem ms sl);
     Some (ms_infra ms + a + b + c) }"

end
