(* ===== verification/Keyed_Table.thy ===== *)
theory Keyed_Table
  imports Infra_Rate
begin

text \<open>
  A partitioned hash table that is always used with keys made from queries: the zones and the client addresses whose
  queries are counted. From the contract of the table and of the hash function it follows that the table is a map
  from queries to data, which a lookup reads, a write through the pointer changes and an insertion extends.
\<close>

definition table_view :: "('q \<Rightarrow> 'k) \<Rightarrow> ('q \<Rightarrow> u32 option) \<Rightarrow> ('k, 'd) slabhash \<Rightarrow> 'q \<Rightarrow> 'd option" where
  "table_view key hash sl q = do { h \<leftarrow> hash q; slab_get sl h (key q) }"

locale keyed_table = fixed_size_table cmp szf next_addr
  for cmp :: "'k \<Rightarrow> 'k \<Rightarrow> int" and szf :: "'k \<Rightarrow> 'd \<Rightarrow> u64" +
  fixes key :: "'q \<Rightarrow> 'k" and hash :: "'q \<Rightarrow> u32 option" and ok :: "'q \<Rightarrow> bool"
  assumes hash_total: "ok q \<Longrightarrow> \<exists>h. hash q = Some h"
    and hash_same: "ok q \<Longrightarrow> ok q' \<Longrightarrow> cmp (key q) (key q') = 0 \<Longrightarrow> hash q' = hash q"
begin

lemma view_lookup:
  assumes inv: "slab_cache cmp szf sl" and q: "ok q" "hash q = Some h"
  shows "\<exists>r sl1. slabhash_lookup h (key q) sl = Some (r, sl1) \<and> slab_cache cmp szf sl1 \<and>
    table_view key hash sl1 = table_view key hash sl \<and>
    (case r of None \<Rightarrow> table_view key hash sl q = None
     | Some a \<Rightarrow> entry_data sl1 h a = table_view key hash sl q \<and> table_view key hash sl q \<noteq> None \<and>
         (\<forall>d. \<exists>sl2. set_entry_data h a d sl1 = Some sl2 \<and> slab_cache cmp szf sl2 \<and>
            (\<forall>q'. ok q' \<longrightarrow> table_view key hash sl2 q' = (if cmp (key q) (key q') = 0 then Some d else table_view key hash sl q'))))"
proof -
  from slab_lookup_set [OF inv, of h "key q"] obtain r sl1 where
    1: "slabhash_lookup h (key q) sl = Some (r, sl1)" "slab_cache cmp szf sl1" "slab_get sl1 = slab_get sl"
    "case r of None \<Rightarrow> slab_get sl h (key q) = None
     | Some a \<Rightarrow> entry_data sl1 h a = slab_get sl h (key q) \<and> slab_get sl h (key q) \<noteq> None \<and>
         (\<forall>d. \<exists>s2. set_entry_data h a d sl1 = Some s2 \<and> slab_cache cmp szf s2 \<and> slab_idx s2 = slab_idx sl \<and>
            (\<forall>h' k'. slab_get s2 h' k' = (if h = h' \<and> cmp (key q) k' = 0 then Some d else slab_get sl h' k')))" by blast
  have v: "table_view key hash sl q = slab_get sl h (key q)" by (simp add: table_view_def q(2))
  have v1: "table_view key hash sl1 = table_view key hash sl" by (simp add: table_view_def 1(3) fun_eq_iff)
  show ?thesis
  proof (cases r)
    case None
    with 1 v v1 show ?thesis by simp
  next
    case (Some a)
    have set: "\<exists>sl2. set_entry_data h a d sl1 = Some sl2 \<and> slab_cache cmp szf sl2 \<and>
        (\<forall>q'. ok q' \<longrightarrow> table_view key hash sl2 q' = (if cmp (key q) (key q') = 0 then Some d else table_view key hash sl q'))" for d
    proof -
      from 1(4) Some obtain s2 where s2: "set_entry_data h a d sl1 = Some s2" "slab_cache cmp szf s2"
        "\<And>h' k'. slab_get s2 h' k' = (if h = h' \<and> cmp (key q) k' = 0 then Some d else slab_get sl h' k')" by auto blast
      have "table_view key hash s2 q' = (if cmp (key q) (key q') = 0 then Some d else table_view key hash sl q')" if q': "ok q'" for q'
      proof -
        obtain h' where h': "hash q' = Some h'" using hash_total [OF q'] by blast
        have "h = h'" if "cmp (key q) (key q') = 0" using hash_same [OF q(1) q' that] q(2) h' by simp
        with h' s2(3) [of h' "key q'"] show ?thesis by (auto simp: table_view_def)
      qed
      with s2(1,2) show ?thesis by blast
    qed
    from Some 1(4) have "entry_data sl1 h a = table_view key hash sl q" "table_view key hash sl q \<noteq> None" by (simp_all add: v)
    with 1(1,2) v1 set Some show ?thesis by simp
  qed
qed

lemma view_insert:
  assumes inv: "slab_cache cmp szf sl" and q: "ok q" "hash q = Some h"
  shows "\<exists>sl2. rate_insert grow h (key q) d sl = Some sl2 \<and> slab_cache cmp szf sl2 \<and> table_view key hash sl2 q = Some d \<and>
    (\<forall>q'. ok q' \<longrightarrow> table_view key hash sl2 q' = None \<or>
       table_view key hash sl2 q' = (if cmp (key q) (key q') = 0 then Some d else table_view key hash sl q'))"
proof -
  let ?op = "OpInsert grow h (key q) d None"
  from slab.step_law [OF inv, of ?op] obtain s2 where
    1: "slab_step next_addr ?op sl = Some s2" "slab_cache cmp szf s2"
    "\<And>h' k'. slab_get s2 h' k' = None \<or> slab_get s2 h' k' = expect_step cmp h' k' ?op (slab_get sl h' k')" by blast
  have g: "slab_get s2 h (key q) = Some d" using slab.insert_law [OF inv 1(1)] .
  have "rate_insert grow h (key q) d sl = Some s2" using 1(1) by (simp add: rate_insert_def)
  moreover have "table_view key hash s2 q' = None \<or>
      table_view key hash s2 q' = (if cmp (key q) (key q') = 0 then Some d else table_view key hash sl q')" if q': "ok q'" for q'
  proof -
    obtain h' where h': "hash q' = Some h'" using hash_total [OF q'] by blast
    have "h = h'" if "cmp (key q) (key q') = 0" using hash_same [OF q(1) q' that] q(2) h' by simp
    with h' 1(3) [of h' "key q'"] show ?thesis by (auto simp: table_view_def)
  qed
  ultimately show ?thesis using 1(2) g q(2) by (auto simp: table_view_def)
qed

end

text \<open>A zone is a name with its length, and a client an address with its length.\<close>

type_synonym zone = "wire_name \<times> nat"
type_synonym client = "sockaddr_storage \<times> nat"

definition zone_key :: "zone \<Rightarrow> rate_key" where "zone_key z = rate_name_key (fst z) (snd z)"
definition zone_hash :: "infra_env \<Rightarrow> zone \<Rightarrow> u32 option" where "zone_hash env z = hash_rate (ie_hash env) (fst z)"
definition client_key :: "client \<Rightarrow> ip_rate_key" where "client_key c = ip_key (fst c) (snd c)"
definition client_hash :: "infra_env \<Rightarrow> client \<Rightarrow> u32 option" where "client_hash env c = hash_addr (ie_hash env) (fst c) (snd c) False"
definition client_ok :: "client \<Rightarrow> bool" where "client_ok c \<longleftrightarrow> sockaddr_ok (fst c) (snd c)"

interpretation zones: keyed_table rate_compfunc "rate_sizefunc sz :: rate_key \<Rightarrow> 'd \<Rightarrow> u64" zone_key "zone_hash env" "\<lambda>_. True" for sz env
proof
  fix q q' :: zone
  show "\<exists>h. zone_hash env q = Some h"
    using name_hash_key [of "he_little (ie_hash env)" "he_labuf (ie_hash env)" "he_raninit (ie_hash env)" "fst q" "0xab"]
    by (auto simp: zone_hash_def hash_rate_def)
  assume "rate_compfunc (zone_key q) (zone_key q') = 0"
  then have "name_key (fst q') = name_key (fst q)" by (simp add: rate_compfunc_eq_0 zone_key_def rate_name_key_def)
  then show "zone_hash env q' = zone_hash env q"
    using name_hash_key [of "he_little (ie_hash env)" "he_labuf (ie_hash env)" "he_raninit (ie_hash env)" "fst q" "0xab"]
    by (auto simp: zone_hash_def hash_rate_def)
qed

interpretation clients: keyed_table ip_rate_compfunc "ip_rate_sizefunc sz :: ip_rate_key \<Rightarrow> 'd \<Rightarrow> u64" client_key "client_hash env" client_ok for sz env
proof
  fix q q' :: client
  assume q: "client_ok q"
  then show "\<exists>h. client_hash env q = Some h" using hash_addr_total by (simp add: client_hash_def client_ok_def)
  assume "client_ok q'" "ip_rate_compfunc (client_key q) (client_key q') = 0"
  with q show "client_hash env q' = client_hash env q"
    using hash_addr_key(2) [of "fst q" "snd q" "fst q'" "snd q'" "ie_hash env"]
    by (simp add: client_ok_def client_hash_def ip_rate_compfunc_eq_0 client_key_def ip_key_def)
qed

end
