(* ===== verification/Rbtree_Fixup.thy ===== *)
theory Rbtree_Fixup
  imports Rbtree_Walk
begin

text \<open>
  The fix-up after a deletion. A subtree lacks one black node on every path; each round moves this
  deficit up, or changes the place so that the last step can repair it. Left and right are treated
  alike: the inner child of the sibling is the one nearer to the subtree, the other is the outer one.
\<close>

section \<open>Both sides at once\<close>

fun is_R :: "frame \<Rightarrow> bool" where
  "is_R (L a r) = False"
| "is_R (R l a) = True"

fun mkt :: "frame \<Rightarrow> addr tree \<Rightarrow> addr \<Rightarrow> addr tree \<Rightarrow> addr tree" where
  "mkt (L a r) i s out = Node i s out"
| "mkt (R l a) i s out = Node out s i"

fun mkf :: "frame \<Rightarrow> addr \<Rightarrow> addr tree \<Rightarrow> frame" where
  "mkf (L a r) b T = L b T"
| "mkf (R l a) b T = R T b"

lemma mkt_simps [simp]:
  "rp (mkt fr i s out) = Some s" "set_tree (mkt fr i s out) = insert s (set_tree i \<union> set_tree out)"
  "bal f n (mkt fr i s out) \<longleftrightarrow> (\<exists>k. n = bump (f s) k \<and> bal f k i \<and> bal f k out)"
  "nored f (mkt fr i s out) \<longleftrightarrow> (f s = RED \<longrightarrow> rcol f i = BLACK \<and> rcol f out = BLACK) \<and> nored f i \<and> nored f out"
  "rcol f (mkt fr i s out) = f s"
  by (cases fr; auto)+

lemma mkf_simps [simp]:
  "f_addr (mkf fr b T) = b" "f_tree (mkf fr b T) = T" "mkt (mkf fr b T) = mkt fr" "mkf (mkf fr b T) = mkf fr"
  "is_R (mkf fr b T) = is_R fr" "f_nodes (mkf fr b T) = insert b (set_tree T)"
  by (cases fr; auto simp: fun_eq_iff f_nodes_def)+

lemma mkt_ex: "T \<noteq> Leaf \<Longrightarrow> \<exists>i s out. T = mkt fr i s out"
  by (cases T; cases fr) auto

lemma bal_Suc_ex: "bal f (Suc n) T \<Longrightarrow> \<exists>i s out. T = mkt fr i s out"
  by (rule mkt_ex) auto

text \<open>The links around the parent of the subtree.\<close>

lemma side_links:
  assumes h: "rb_holds t (plug (fr # c) X)" and s: "f_tree fr = mkt fr i s out"
  shows "get_sibling t (rp X) (Some (f_addr fr)) = Some (Some s)"
    "\<exists>r. get_link rb_right t (Some (f_addr fr)) = Some r \<and> (r = rp X \<longleftrightarrow> is_R fr)"
    "\<exists>l. get_link rb_left t (Some (f_addr fr)) = Some l \<and> (l = rp X \<longleftrightarrow> \<not> is_R fr)"
    "get_link rb_parent t (Some (f_addr fr)) = Some (cp c)"
    "get_link rb_left t (Some s) = Some (rp (if is_R fr then out else i))"
    "get_link rb_right t (Some s) = Some (rp (if is_R fr then i else out))"
    "lk t s \<noteq> None" "lk t (f_addr fr) \<noteq> None"
    "get_color t (rp i) = Some (rcol (cl t) i)" "get_color t (rp out) = Some (rcol (cl t) out)"
proof -
  have p: "lk t (f_addr fr) = Some (f_links (cp c) (rp X) fr)" "tree_at (lk t) (Some (f_addr fr)) (f_tree fr)"
    using h unfolding rb_holds_plug by simp_all
  have sx: "s \<notin> set_tree X" using h unfolding rb_holds_plug by (auto simp: f_nodes_def s)
  then have ne: "rp X \<noteq> Some s" using rp_in_tree [of X s] by auto
  have ls: "lk t s = Some (Some (f_addr fr), rp (if is_R fr then out else i), rp (if is_R fr then i else out))"
    and sub: "tree_at (lk t) (Some s) i" "tree_at (lk t) (Some s) out"
    using p(2) unfolding s by (cases fr; auto)+
  show "get_sibling t (rp X) (Some (f_addr fr)) = Some (Some s)"
    "\<exists>r. get_link rb_right t (Some (f_addr fr)) = Some r \<and> (r = rp X \<longleftrightarrow> is_R fr)"
    "\<exists>l. get_link rb_left t (Some (f_addr fr)) = Some l \<and> (l = rp X \<longleftrightarrow> \<not> is_R fr)"
    "get_link rb_parent t (Some (f_addr fr)) = Some (cp c)"
    using p(1) s ne by (cases fr; auto simp: get_sibling_def)+
  show "get_link rb_left t (Some s) = Some (rp (if is_R fr then out else i))"
    "get_link rb_right t (Some s) = Some (rp (if is_R fr then i else out))" using get_links [OF ls] by simp_all
  show "lk t s \<noteq> None" "lk t (f_addr fr) \<noteq> None" using ls p(1) by simp_all
  show "get_color t (rp i) = Some (rcol (cl t) i)" "get_color t (rp out) = Some (rcol (cl t) out)"
    using get_color_rp sub by blast+
qed

lemma all_black_ok:
  assumes "rb_holds t (plug (fr # c) X)" "f_tree fr = mkt fr i s out"
  shows "all_black t (Some s) = Some (cl t s = BLACK \<and> rcol (cl t) i = BLACK \<and> rcol (cl t) out = BLACK)"
  using side_links [OF assms] by (cases fr) (auto simp: all_black_def get_color_cl)

text \<open>The rotation at the parent that brings the sibling up, and the one at the sibling.\<close>

lemma rotate_parent_ok:
  assumes h: "rb_holds t (plug (fr # c) X)" and s: "f_tree fr = mkt fr i s out"
  shows "\<exists>t'. (if is_R fr then rbtree_rotate_right t (Some (f_addr fr)) else rbtree_rotate_left t (Some (f_addr fr))) = Some t' \<and>
    rb_holds t' (plug (mkf fr (f_addr fr) i # mkf fr s out # c) X) \<and> cl t' = cl t \<and>
    keeps (set_tree (plug (fr # c) X)) t t' \<and>
    inorder (plug (mkf fr (f_addr fr) i # mkf fr s out # c) X) = inorder (plug (fr # c) X)"
proof (cases fr)
  case (L p S)
  have "rb_holds t (plug c (Node X p (Node i s out)))" using h s by (simp add: L)
  from rotate_left_ok [OF this] obtain t' where
    1: "rbtree_rotate_left t (Some p) = Some t'" "rb_holds t' (plug c (Node (Node X p i) s out))" "cl t' = cl t"
    "keeps (c_nodes c \<union> {p, s} \<union> set_tree i) t t'" by blast
  moreover have "keeps (set_tree (plug (fr # c) X)) t t'" by (rule keeps_mono [OF 1(4)]) (use s in \<open>auto simp: L\<close>)
  ultimately show ?thesis using s by (simp add: L inorder_plug insert_commute)
next
  case (R S p)
  have "rb_holds t (plug c (Node (Node out s i) p X))" using h s by (simp add: R)
  from rotate_right_ok [OF this] obtain t' where
    1: "rbtree_rotate_right t (Some p) = Some t'" "rb_holds t' (plug c (Node out s (Node i p X)))" "cl t' = cl t"
    "keeps (c_nodes c \<union> {s, p} \<union> set_tree i) t t'" by blast
  moreover have "keeps (set_tree (plug (fr # c) X)) t t'" by (rule keeps_mono [OF 1(4)]) (use s in \<open>auto simp: R\<close>)
  ultimately show ?thesis using s by (simp add: R inorder_plug insert_commute)
qed

lemma rotate_sibling_ok:
  assumes h: "rb_holds t (plug (fr # c) X)" and s: "f_tree fr = mkt fr (mkt fr a j b) s out"
  shows "\<exists>t'. (if is_R fr then rbtree_rotate_left t (Some s) else rbtree_rotate_right t (Some s)) = Some t' \<and>
    rb_holds t' (plug (mkf fr (f_addr fr) (mkt fr a j (mkt fr b s out)) # c) X) \<and> cl t' = cl t \<and>
    keeps (set_tree (plug (fr # c) X)) t t' \<and>
    inorder (plug (mkf fr (f_addr fr) (mkt fr a j (mkt fr b s out)) # c) X) = inorder (plug (fr # c) X)"
proof (cases fr)
  case (L p S)
  have "rb_holds t (plug (R X p # c) (Node (Node a j b) s out))" using h s by (simp add: L)
  from rotate_right_ok [OF this] obtain t' where
    1: "rbtree_rotate_right t (Some s) = Some t'" "rb_holds t' (plug (R X p # c) (Node a j (Node b s out)))" "cl t' = cl t"
    "keeps (c_nodes (R X p # c) \<union> {j, s} \<union> set_tree b) t t'" by blast
  moreover have "keeps (set_tree (plug (fr # c) X)) t t'" by (rule keeps_mono [OF 1(4)]) (use s in \<open>auto simp: L\<close>)
  ultimately show ?thesis using s by (simp add: L inorder_plug insert_commute)
next
  case (R S p)
  have "rb_holds t (plug (L p X # c) (Node out s (Node b j a)))" using h s by (simp add: R)
  from rotate_left_ok [OF this] obtain t' where
    1: "rbtree_rotate_left t (Some s) = Some t'" "rb_holds t' (plug (L p X # c) (Node (Node out s b) j a))" "cl t' = cl t"
    "keeps (c_nodes (L p X # c) \<union> {s, j} \<union> set_tree b) t t'" by blast
  moreover have "keeps (set_tree (plug (fr # c) X)) t t'" by (rule keeps_mono [OF 1(4)]) (use s in \<open>auto simp: R\<close>)
  ultimately show ?thesis using s by (simp add: R inorder_plug insert_commute)
qed

section \<open>One round\<close>

text \<open>The subtree \<open>X\<close> lacks one black node.\<close>

definition short :: "(addr \<Rightarrow> rb_color) \<Rightarrow> nat \<Rightarrow> frame list \<Rightarrow> addr tree \<Rightarrow> bool" where
  "short f n c X \<longleftrightarrow> nored f X \<and> rcol f X = BLACK \<and> bal f n X \<and> cbal f (Suc n) c \<and> cnored f BLACK c \<and>
     (c \<noteq> [] \<longrightarrow> f (f_addr (last c)) = BLACK)"

text \<open>The place is ready for the last step: the sibling is black, and the parent or one of the
  sibling's children is red.\<close>

definition ready :: "(addr \<Rightarrow> rb_color) \<Rightarrow> frame \<Rightarrow> bool" where
  "ready f fr \<longleftrightarrow> (\<exists>i s out. f_tree fr = mkt fr i s out \<and> f s = BLACK \<and>
     (f (f_addr fr) = RED \<or> rcol f i = RED \<or> rcol f out = RED))"

lemma frame_disjoint:
  assumes "rb_holds t (plug (fr # c) X)" "f_tree fr = mkt fr i s out"
  shows "f_addr fr \<noteq> s" "f_addr fr \<notin> set_tree X" "s \<notin> set_tree X" "f_addr fr \<notin> c_nodes c" "s \<notin> c_nodes c"
    "f_addr fr \<notin> set_tree i" "f_addr fr \<notin> set_tree out" "s \<notin> set_tree i" "s \<notin> set_tree out"
    "set_tree i \<inter> set_tree out = {}" "set_tree i \<inter> set_tree X = {}" "set_tree out \<inter> set_tree X = {}"
    "set_tree i \<inter> c_nodes c = {}" "set_tree out \<inter> c_nodes c = {}"
proof -
  have d: "distinct (c_left (fr # c) @ c_right (fr # c))" "c_nodes (fr # c) \<inter> set_tree X = {}"
    using assms(1) unfolding rb_holds_plug by blast+
  have e: "f_addr fr \<notin> insert s (set_tree i \<union> set_tree out)" "distinct (inorder (mkt fr i s out))"
    "insert (f_addr fr) (insert s (set_tree i \<union> set_tree out)) \<inter> c_nodes c = {}"
    using d(1) unfolding distinct_frame by (simp_all add: assms(2) f_nodes_def)
  have g: "s \<notin> set_tree i" "s \<notin> set_tree out" "set_tree i \<inter> set_tree out = {}"
    using e(2) by (cases fr; auto)+
  show "f_addr fr \<noteq> s" "f_addr fr \<notin> set_tree X" "s \<notin> set_tree X" "f_addr fr \<notin> c_nodes c" "s \<notin> c_nodes c"
    "f_addr fr \<notin> set_tree i" "f_addr fr \<notin> set_tree out" "s \<notin> set_tree i" "s \<notin> set_tree out"
    "set_tree i \<inter> set_tree out = {}" "set_tree i \<inter> set_tree X = {}" "set_tree out \<inter> set_tree X = {}"
    "set_tree i \<inter> c_nodes c = {}" "set_tree out \<inter> c_nodes c = {}"
    using d(2) e g by (auto simp: f_nodes_def assms(2))
qed

text \<open>A red sibling is brought up.\<close>

lemma red_sibling_ok:
  assumes h: "rb_holds t (plug (fr # c) X)" and sh: "short (cl t) n (fr # c) X"
    and s: "f_tree fr = mkt fr i s out" "cl t s = RED"
  shows "\<exists>t1 t2 t3 j. set_color (Some (f_addr fr)) RED t = Some t1 \<and> set_color (Some s) BLACK t1 = Some t2 \<and>
    (if is_R fr then rbtree_rotate_right t2 (Some (f_addr fr)) else rbtree_rotate_left t2 (Some (f_addr fr))) = Some t3 \<and>
    get_link rb_right t2 (Some (f_addr fr)) = get_link rb_right t (Some (f_addr fr)) \<and>
    get_sibling t3 (rp X) (Some (f_addr fr)) = Some (Some j) \<and> rp i = Some j \<and>
    rb_holds t3 (plug (mkf fr (f_addr fr) i # mkf fr s out # c) X) \<and>
    short (cl t3) n (mkf fr (f_addr fr) i # mkf fr s out # c) X \<and> cl t3 (f_addr fr) = RED \<and> cl t3 j = BLACK \<and>
    keeps (set_tree (plug (fr # c) X)) t t3 \<and>
    inorder (plug (mkf fr (f_addr fr) i # mkf fr s out # c) X) = inorder (plug (fr # c) X)"
proof -
  define p where "p = f_addr fr"
  note d = frame_disjoint [OF h s(1), folded p_def]
  have inS: "p \<in> set_tree (plug (fr # c) X)" "s \<in> set_tree (plug (fr # c) X)" by (auto simp: p_def f_nodes_def s(1))
  have l: "lk t p \<noteq> None" "lk t s \<noteq> None" using side_links(7,8) [OF h s(1)] by (simp_all add: p_def)
  from set_colors_ok [OF l inS, of RED BLACK] obtain t1 t2 where
    1: "set_color (Some p) RED t = Some t1" "set_color (Some s) BLACK t1 = Some t2" "lk t2 = lk t"
    "cl t2 = (cl t)(p := RED, s := BLACK)" "keeps (set_tree (plug (fr # c) X)) t t2" "rb_root t2 = rb_root t" by blast
  have h2: "rb_holds t2 (plug (fr # c) X)" using h rb_holds_cong [OF 1(3,6)] by simp
  from rotate_parent_ok [OF h2 s(1)] obtain t3 where
    2: "(if is_R fr then rbtree_rotate_right t2 (Some p) else rbtree_rotate_left t2 (Some p)) = Some t3"
    "rb_holds t3 (plug (mkf fr p i # mkf fr s out # c) X)" "cl t3 = cl t2" "keeps (set_tree (plug (fr # c) X)) t2 t3"
    "inorder (plug (mkf fr p i # mkf fr s out # c) X) = inorder (plug (fr # c) X)" unfolding p_def by blast
  have pb: "cl t p = BLACK" using sh s by (cases "cl t p") (auto simp: short_def p_def)
  have b: "bal (cl t) (Suc n) i" "bal (cl t) (Suc n) out" "rcol (cl t) i = BLACK" "nored (cl t) i" "nored (cl t) out"
    "cbal (cl t) (Suc (Suc n)) c" "cnored (cl t) BLACK c" "nored (cl t) X" "rcol (cl t) X = BLACK" "bal (cl t) n X"
    using sh s pb by (auto simp: short_def p_def)
  from bal_Suc_ex [OF b(1), of fr] obtain i2 j o2 where i: "i = mkt fr i2 j o2" by blast
  have lst: "c \<noteq> [] \<longrightarrow> f_addr (last c) \<noteq> p \<and> f_addr (last c) \<noteq> s \<and> cl t (f_addr (last c)) = BLACK"
    using sh last_in_nodes [of c] d(4,5) by (auto simp: short_def)
  have short3: "short (cl t3) n (mkf fr p i # mkf fr s out # c) X"
    unfolding short_def using b d lst by (simp add: 2(3) 1(4))
  have sib: "get_sibling t3 (rp X) (Some p) = Some (Some j)"
    using side_links(1) [OF 2(2), of i2 j o2] i by simp
  have j: "cl t3 j = BLACK" using b(3) d i by (simp add: 2(3) 1(4))
  have "get_link rb_right t2 (Some p) = get_link rb_right t (Some p)"
  proof -
    obtain v where "lk t p = Some v" using l(1) by blast
    then show ?thesis using 1(3) by (cases v) simp
  qed
  moreover have "keeps (set_tree (plug (fr # c) X)) t t3" by (rule keeps_trans [OF 1(5) 2(4)])
  moreover have "cl t3 p = RED" using d(1) by (simp add: 2(3) 1(4))
  ultimately show ?thesis using 1(1,2) 2(1,2,5) short3 sib j i by (auto simp: p_def)
qed

definition body_ok :: "'k rbtree \<Rightarrow> nat \<Rightarrow> frame \<Rightarrow> frame list \<Rightarrow> addr tree \<Rightarrow>
    ('k rbtree \<times> addr option \<times> addr option \<times> addr option \<times> bool) option \<Rightarrow> bool" where
  "body_ok t n fr c X res \<longleftrightarrow> (\<exists>t' child par sib up. res = Some (t', child, par, sib, up) \<and>
     keeps (set_tree (plug (fr # c) X)) t t' \<and>
     (if up then child = Some (f_addr fr) \<and> par = cp c \<and> get_sibling t' child par = Some sib \<and>
        rb_holds t' (plug (fr # c) X) \<and> short (cl t') (Suc n) c (fill fr X)
      else child = rp X \<and> (\<exists>fr' c'. par = Some (f_addr fr') \<and> sib = rp (f_tree fr') \<and> rb_holds t' (plug (fr' # c') X) \<and>
        short (cl t') n (fr' # c') X \<and> ready (cl t') fr' \<and> inorder (plug (fr' # c') X) = inorder (plug (fr # c) X))))"

lemma get_sibling_total:
  assumes "rb_holds t (plug c X)"
  shows "\<exists>s. get_sibling t (rp X) (cp c) = Some s"
proof (cases c)
  case Nil
  then show ?thesis by (simp add: get_sibling_def)
next
  case (Cons fr c')
  with assms have "lk t (f_addr fr) = Some (f_links (cp c') (rp X) fr)" unfolding rb_holds_plug by simp
  then show ?thesis by (cases fr) (auto simp: get_sibling_def Cons)
qed

lemma delete_fixup_body_ok:
  assumes h: "rb_holds t (plug (fr # c) X)" and sh: "short (cl t) n (fr # c) X" and s: "f_tree fr = mkt fr i s out"
  shows "body_ok t n fr c X (delete_fixup_body t (rp X) (Some (f_addr fr)) (Some s))"
proof -
  define p where "p = f_addr fr"
  note d = frame_disjoint [OF h s, folded p_def]
  note sl = side_links [OF h s, folded p_def]
  have cs: "get_color t (Some s) = Some (cl t s)" "get_color t (Some p) = Some (cl t p)" using sl(7,8) by (simp_all add: get_color_cl)
  obtain r where r: "get_link rb_right t (Some p) = Some r" "r = rp X \<longleftrightarrow> is_R fr" using sl(2) by blast
  show ?thesis
  proof (cases "cl t s")
    case RED
    from red_sibling_ok [OF h sh s RED] obtain t1 t2 t3 j where
      1: "set_color (Some p) RED t = Some t1" "set_color (Some s) BLACK t1 = Some t2"
      "(if is_R fr then rbtree_rotate_right t2 (Some p) else rbtree_rotate_left t2 (Some p)) = Some t3"
      "get_link rb_right t2 (Some p) = get_link rb_right t (Some p)"
      "get_sibling t3 (rp X) (Some p) = Some (Some j)" "rp i = Some j"
      "rb_holds t3 (plug (mkf fr p i # mkf fr s out # c) X)" "short (cl t3) n (mkf fr p i # mkf fr s out # c) X"
      "cl t3 p = RED" "cl t3 j = BLACK" "keeps (set_tree (plug (fr # c) X)) t t3"
      "inorder (plug (mkf fr p i # mkf fr s out # c) X) = inorder (plug (fr # c) X)" unfolding p_def by blast
    have "i \<noteq> Leaf" using 1(6) by auto
    from mkt_ex [OF this, of fr] obtain i2 j' o2 where i: "i = mkt fr i2 j' o2" by blast
    then have j: "j' = j" using 1(6) by simp
    have s3: "f_tree (mkf fr p i) = mkt (mkf fr p i) i2 j o2" using i j by simp
    have a3: "\<exists>b. all_black t3 (Some j) = Some b" using all_black_ok [OF 1(7) s3] by blast
    have c3: "get_color t3 (Some p) = Some RED" using side_links(8) [OF 1(7) s3] 1(9) by (simp add: get_color_cl)
    have "delete_fixup_body t (rp X) (Some p) (Some s) = Some (t3, rp X, Some p, Some j, False)"
      unfolding delete_fixup_body_def using 1(1-5) cs RED r c3 a3
      by (cases "is_R fr") auto
    moreover have "ready (cl t3) (mkf fr p i)" unfolding ready_def using s3 1(9,10) by auto
    ultimately show ?thesis using 1 s3 unfolding body_ok_def p_def
      by (intro exI [of _ t3] exI [of _ "rp X"] exI [of _ "Some (f_addr fr)"] exI [of _ "Some j"] exI [of _ False])
        (auto intro!: exI [of _ "mkf fr (f_addr fr) i"] exI [of _ "mkf fr s out # c"])
  next
    case BLACK
    show ?thesis
    proof (cases "cl t p = BLACK \<and> rcol (cl t) i = BLACK \<and> rcol (cl t) out = BLACK")
      case True
      from set_color_ok [OF sl(7), of RED] obtain t1 where
        1: "set_color (Some s) RED t = Some t1" "lk t1 = lk t" "cl t1 = (cl t)(s := RED)" "keeps {s} t t1" "rb_root t1 = rb_root t"
        by blast
      have h1: "rb_holds t1 (plug (fr # c) X)" using h rb_holds_cong [OF 1(2,5)] by simp
      then have "rb_holds t1 (plug c (fill fr X))" by simp
      from get_sibling_total [OF this] obtain sib where sib: "get_sibling t1 (Some p) (cp c) = Some sib" by (auto simp: p_def)
      have pp: "get_link rb_parent t1 (Some p) = Some (cp c)" using side_links(4) [OF h1 s] by (simp add: p_def)
      have "delete_fixup_body t (rp X) (Some p) (Some s) = Some (t1, Some p, cp c, sib, True)"
        unfolding delete_fixup_body_def using cs BLACK True all_black_ok [OF h s] 1(1) sib pp by simp
      moreover have "short (cl t1) (Suc n) c (fill fr X)"
      proof -
        have b: "bal (cl t) n i" "bal (cl t) n out" "nored (cl t) i" "nored (cl t) out" "nored (cl t) X" "bal (cl t) n X"
          "cbal (cl t) (Suc (Suc n)) c" "cnored (cl t) BLACK c"
          using sh s BLACK True by (auto simp: short_def p_def)
        moreover have "c \<noteq> [] \<longrightarrow> f_addr (last c) \<noteq> s \<and> cl t (f_addr (last c)) = BLACK"
          using sh last_in_nodes [of c] d(5) by (auto simp: short_def)
        ultimately show ?thesis unfolding short_def using d True by (auto simp: 1(3) s p_def)
      qed
      moreover have "keeps (set_tree (plug (fr # c) X)) t t1"
        by (rule keeps_mono [OF 1(4)]) (simp add: f_nodes_def s)
      ultimately show ?thesis using h1 sib unfolding body_ok_def p_def by (auto intro!: exI [of _ True])
    next
      case False
      then have "delete_fixup_body t (rp X) (Some p) (Some s) = Some (t, rp X, Some p, Some s, False)"
        unfolding delete_fixup_body_def using cs BLACK all_black_ok [OF h s] by auto
      moreover have "ready (cl t) fr" unfolding ready_def using s BLACK False
        by (intro exI [of _ i] exI [of _ s] exI [of _ out]) (cases "cl t p"; cases "rcol (cl t) i"; cases "rcol (cl t) out"; auto simp: p_def)
      ultimately show ?thesis using h sh s unfolding body_ok_def p_def
        by (intro exI [of _ t] exI [of _ "rp X"] exI [of _ "Some (f_addr fr)"] exI [of _ "Some s"] exI [of _ False])
          (auto intro!: exI [of _ fr] exI [of _ c])
    qed
  qed
qed

section \<open>The loop\<close>

definition loop_ok :: "'k rbtree \<Rightarrow> addr tree \<Rightarrow> ('k rbtree \<times> (addr option \<times> addr option \<times> addr option) option) option \<Rightarrow> bool" where
  "loop_ok t T res \<longleftrightarrow> (\<exists>t' r. res = Some (t', r) \<and> keeps (set_tree T) t t' \<and>
     (case r of None \<Rightarrow> (\<exists>T'. rb_holds t' T' \<and> rb_inv (cl t') T' \<and> inorder T' = inorder T)
      | Some (child, par, sib) \<Rightarrow> (\<exists>X fr c n. child = rp X \<and> par = Some (f_addr fr) \<and> sib = rp (f_tree fr) \<and>
          rb_holds t' (plug (fr # c) X) \<and> short (cl t') n (fr # c) X \<and> ready (cl t') fr \<and>
          inorder (plug (fr # c) X) = inorder T)))"

lemma delete_fixup_loop_ok:
  assumes "rb_holds t (plug c X)" "short (cl t) n c X" "get_sibling t (rp X) (cp c) = Some sib"
  shows "loop_ok t (plug c X) (delete_fixup_loop t (rp X) (cp c) sib)"
  using assms
proof (induction c arbitrary: t X n sib)
  case Nil
  then have "rb_inv (cl t) X" by (auto simp: short_def rb_inv_def)
  then show ?case using Nil.prems(1)
    by (auto simp: loop_ok_def delete_fixup_loop.simps)
next
  case (Cons fr c)
  have "bal (cl t) (Suc n) (f_tree fr)" using Cons.prems(2) by (simp add: short_def)
  from bal_Suc_ex [OF this, of fr] obtain i s out where s: "f_tree fr = mkt fr i s out" by blast
  have sib: "sib = Some s" using side_links(1) [OF Cons.prems(1) s] Cons.prems(3) by simp
  from delete_fixup_body_ok [OF Cons.prems(1,2) s] obtain t' child par sib' up where
    1: "delete_fixup_body t (rp X) (Some (f_addr fr)) (Some s) = Some (t', child, par, sib', up)"
    "keeps (set_tree (plug (fr # c) X)) t t'"
    "if up then child = Some (f_addr fr) \<and> par = cp c \<and> get_sibling t' child par = Some sib' \<and>
        rb_holds t' (plug (fr # c) X) \<and> short (cl t') (Suc n) c (fill fr X)
      else child = rp X \<and> (\<exists>fr' c'. par = Some (f_addr fr') \<and> sib' = rp (f_tree fr') \<and> rb_holds t' (plug (fr' # c') X) \<and>
        short (cl t') n (fr' # c') X \<and> ready (cl t') fr' \<and> inorder (plug (fr' # c') X) = inorder (plug (fr # c) X))"
    unfolding body_ok_def by blast
  have unf: "delete_fixup_loop t (rp X) (cp (fr # c)) sib =
      (if up then delete_fixup_loop t' child par sib' else Some (t', Some (child, par, sib')))"
    using 1(1) by (subst delete_fixup_loop.simps) (simp add: sib)
  show ?case
  proof (cases up)
    case True
    with 1(3) have 2: "child = rp (fill fr X)" "par = cp c" "get_sibling t' (rp (fill fr X)) (cp c) = Some sib'"
      "rb_holds t' (plug c (fill fr X))" "short (cl t') (Suc n) c (fill fr X)" by auto
    have "loop_ok t' (plug (fr # c) X) (delete_fixup_loop t' child par sib')"
      using Cons.IH [OF 2(4,5,3)] 2(1,2) by simp
    then obtain t2 r where 3: "delete_fixup_loop t' child par sib' = Some (t2, r)" "keeps (set_tree (plug (fr # c) X)) t' t2"
      "case r of None \<Rightarrow> (\<exists>T'. rb_holds t2 T' \<and> rb_inv (cl t2) T' \<and> inorder T' = inorder (plug (fr # c) X))
      | Some (child, par, sib) \<Rightarrow> (\<exists>X' fr' c' n. child = rp X' \<and> par = Some (f_addr fr') \<and> sib = rp (f_tree fr') \<and>
          rb_holds t2 (plug (fr' # c') X') \<and> short (cl t2) n (fr' # c') X' \<and> ready (cl t2) fr' \<and>
          inorder (plug (fr' # c') X') = inorder (plug (fr # c) X))" unfolding loop_ok_def by blast
    have "keeps (set_tree (plug (fr # c) X)) t t2" using 1(2) 3(2) by (rule keeps_trans)
    with unf True 3(1,3) show ?thesis unfolding loop_ok_def by auto
  next
    case False
    with 1(3) obtain fr' c' where 2: "child = rp X" "par = Some (f_addr fr')" "sib' = rp (f_tree fr')" "rb_holds t' (plug (fr' # c') X)"
      "short (cl t') n (fr' # c') X" "ready (cl t') fr'" "inorder (plug (fr' # c') X) = inorder (plug (fr # c) X)" by auto
    then show ?thesis using unf False 1(2) unfolding loop_ok_def
      by (intro exI [of _ t'] exI [of _ "Some (child, par, sib')"]) auto
  qed
qed

section \<open>The end\<close>

lemma delete_fixup_rotate_ok:
  assumes h: "rb_holds t (plug (fr # c) X)" and sh: "short (cl t) n (fr # c) X"
    and s: "f_tree fr = mkt fr i s out" "cl t s = BLACK" "rcol (cl t) out = RED"
  shows "\<exists>t' T'. delete_fixup_rotate t (rp X) (Some (f_addr fr)) (Some s) = Some t' \<and> rb_holds t' T' \<and>
    rb_inv (cl t') T' \<and> inorder T' = inorder (plug (fr # c) X) \<and> keeps (set_tree (plug (fr # c) X)) t t'"
proof -
  define p where "p = f_addr fr"
  let ?S = "set_tree (plug (fr # c) X)"
  have "out \<noteq> Leaf" using s(3) by auto
  from mkt_ex [OF this, of fr] obtain o1 v o2 where out: "out = mkt fr o1 v o2" by blast
  note d = frame_disjoint [OF h s(1), folded p_def]
  note sl = side_links [OF h s(1), folded p_def]
  have inS: "p \<in> ?S" "s \<in> ?S" "v \<in> ?S" by (auto simp: p_def f_nodes_def s(1) out)
  have v: "v \<noteq> p" "v \<noteq> s" "v \<notin> set_tree i" "v \<notin> set_tree X" "v \<notin> c_nodes c" using d by (auto simp: out)
  have vo: "v \<notin> set_tree o1" "v \<notin> set_tree o2"
  proof -
    have "distinct (c_left (fr # c) @ c_right (fr # c))" using h unfolding rb_holds_plug by blast
    then have "distinct (inorder (mkt fr i s (mkt fr o1 v o2)))" unfolding distinct_frame s(1) out by blast
    then show "v \<notin> set_tree o1" "v \<notin> set_tree o2" by (cases fr; auto)+
  qed
  from set_colors_ok [OF sl(7,8) inS(2,1), of "cl t p" BLACK] obtain t1 t2 where
    1: "set_color (Some s) (cl t p) t = Some t1" "set_color (Some p) BLACK t1 = Some t2" "lk t2 = lk t"
    "cl t2 = (cl t)(s := cl t p, p := BLACK)" "keeps ?S t t2" "rb_root t2 = rb_root t" by blast
  have h2: "rb_holds t2 (plug (fr # c) X)" using h rb_holds_cong [OF 1(3,6)] by simp
  note sl2 = side_links [OF h2 s(1), folded p_def]
  have "tree_at (lk t) (Some p) (mkt fr i s (mkt fr o1 v o2))"
    using h unfolding rb_holds_plug by (simp add: s(1) [symmetric] out [symmetric] p_def)
  then have "lk t2 v \<noteq> None" using tree_at_Some [of "lk t" _ _ v] by (simp add: 1(3))
  from set_color_ok [OF this, of BLACK] obtain t3 where
    3: "set_color (Some v) BLACK t2 = Some t3" "lk t3 = lk t2" "cl t3 = (cl t2)(v := BLACK)" "keeps {v} t2 t3" "rb_root t3 = rb_root t2"
    by blast
  have h3: "rb_holds t3 (plug (fr # c) X)" using h2 rb_holds_cong [OF 3(2,5)] by simp
  from rotate_parent_ok [OF h3 s(1), folded p_def] obtain t4 where
    4: "(if is_R fr then rbtree_rotate_right t3 (Some p) else rbtree_rotate_left t3 (Some p)) = Some t4"
    "rb_holds t4 (plug (mkf fr p i # mkf fr s out # c) X)" "cl t4 = cl t3" "keeps ?S t3 t4"
    "inorder (plug (mkf fr p i # mkf fr s out # c) X) = inorder (plug (fr # c) X)" by blast
  obtain r where r: "get_link rb_right t2 (Some p) = Some r" "r = rp X \<longleftrightarrow> is_R fr" using sl2(2) by blast
  have vr: "cl t v = RED" using s(3) by (simp add: out)
  have "get_color t2 (Some v) = Some RED" using sl2(10) v vr by (simp add: out 1(4))
  then have run: "delete_fixup_rotate t (rp X) (Some p) (Some s) = Some t4"
    unfolding delete_fixup_rotate_def using 1(1,2) r 3(1) 4(1) sl2(5,6) sl(8)
    by (cases "is_R fr") (simp_all add: get_color_cl out)
  have f4: "cl t4 = (cl t)(s := cl t p, p := BLACK, v := BLACK)" by (simp add: 4(3) 3(3) 1(4))
  have b: "bal (cl t) n i" "bal (cl t) n o1" "bal (cl t) n o2" "nored (cl t) i" "nored (cl t) o1" "nored (cl t) o2"
    "nored (cl t) X" "bal (cl t) n X" "cbal (cl t) (bump (cl t p) (Suc n)) c" "cnored (cl t) (cl t p) c"
    using sh s vr by (auto simp: short_def p_def out)
  have do: "p \<notin> set_tree o1" "p \<notin> set_tree o2" "s \<notin> set_tree o1" "s \<notin> set_tree o2" using d by (auto simp: out)
  have lst: "c \<noteq> [] \<longrightarrow> f_addr (last c) \<noteq> p \<and> f_addr (last c) \<noteq> s \<and> f_addr (last c) \<noteq> v \<and> cl t (f_addr (last c)) = BLACK"
    using sh last_in_nodes [of c] d(4,5) v(5) by (auto simp: short_def)
  have rootc: "c = [] \<longrightarrow> cl t p = BLACK" using sh by (auto simp: short_def p_def)
  have "rb_inv (cl t4) (plug (mkf fr p i # mkf fr s out # c) X)"
    unfolding rb_inv_plug f4 out using b d v vo do lst rootc by (auto intro!: exI [of _ n])
  moreover have "keeps ?S t t4"
    by (rule keeps_trans [OF keeps_trans [OF 1(5) keeps_mono [OF 3(4)]] 4(4)]) (use inS in auto)
  ultimately show ?thesis using run 4(2,5) by (auto simp: p_def)
qed

lemma delete_fixup_end_ok:
  assumes h: "rb_holds t (plug (fr # c) X)" and sh: "short (cl t) n (fr # c) X" and rd: "ready (cl t) fr"
  shows "\<exists>t' T'. delete_fixup_end t (rp X) (Some (f_addr fr)) (rp (f_tree fr)) = Some t' \<and> rb_holds t' T' \<and>
    rb_inv (cl t') T' \<and> inorder T' = inorder (plug (fr # c) X) \<and> keeps (set_tree (plug (fr # c) X)) t t'"
proof -
  define p where "p = f_addr fr"
  let ?S = "set_tree (plug (fr # c) X)"
  from rd obtain i s out where s: "f_tree fr = mkt fr i s out" "cl t s = BLACK"
    "cl t p = RED \<or> rcol (cl t) i = RED \<or> rcol (cl t) out = RED" unfolding ready_def p_def by blast
  note d = frame_disjoint [OF h s(1), folded p_def]
  note sl = side_links [OF h s(1), folded p_def]
  have inS: "p \<in> ?S" "s \<in> ?S" by (auto simp: p_def f_nodes_def s(1))
  have cs: "get_color t (Some s) = Some BLACK" "get_color t (Some p) = Some (cl t p)" using sl(7,8) s(2) by (simp_all add: get_color_cl)
  have ab: "all_black t (Some s) = Some (rcol (cl t) i = BLACK \<and> rcol (cl t) out = BLACK)"
    using all_black_ok [OF h s(1)] s(2) by simp
  have lst: "c \<noteq> [] \<longrightarrow> f_addr (last c) \<noteq> p \<and> f_addr (last c) \<noteq> s \<and> cl t (f_addr (last c)) = BLACK"
    using sh last_in_nodes [of c] d(4,5) by (auto simp: short_def)
  have b: "bal (cl t) n i" "bal (cl t) n out" "nored (cl t) i" "nored (cl t) out" "nored (cl t) X" "bal (cl t) n X" "rcol (cl t) X = BLACK"
    "cbal (cl t) (bump (cl t p) (Suc n)) c" "cnored (cl t) (cl t p) c"
    using sh s(1,2) by (auto simp: short_def p_def)
  show ?thesis
  proof (cases "rcol (cl t) i = BLACK \<and> rcol (cl t) out = BLACK")
    case True
    then have pr: "cl t p = RED" using s(3) by auto
    from set_colors_ok [OF sl(7,8) inS(2,1), of RED BLACK] obtain t1 t2 where
      1: "set_color (Some s) RED t = Some t1" "set_color (Some p) BLACK t1 = Some t2" "lk t2 = lk t"
      "cl t2 = (cl t)(s := RED, p := BLACK)" "keeps ?S t t2" "rb_root t2 = rb_root t" by blast
    have "delete_fixup_end t (rp X) (Some p) (Some s) = Some t2"
      unfolding delete_fixup_end_def using cs ab True pr 1(1,2) by simp
    moreover have "rb_holds t2 (plug (fr # c) X)" using h rb_holds_cong [OF 1(3,6)] by simp
    moreover have "rb_inv (cl t2) (plug (fr # c) X)"
    proof -
      have "cnored (cl t) BLACK c" using b(9) pr by (simp add: cnored_black)
      then show ?thesis unfolding rb_inv_plug 1(4) using b d lst pr True s(1)
        by (auto simp: p_def intro!: exI [of _ n])
    qed
    ultimately show ?thesis using 1(5) s(1) by (auto simp: p_def)
  next
    case False
    obtain r where r: "get_link rb_right t (Some p) = Some r" "r = rp X \<longleftrightarrow> is_R fr" using sl(2) by blast
    obtain l where l: "get_link rb_left t (Some p) = Some l" "l = rp X \<longleftrightarrow> \<not> is_R fr" using sl(3) by blast
    show ?thesis
    proof (cases "rcol (cl t) out")
      case RED
      have "delete_fixup_end t (rp X) (Some p) (Some s) = delete_fixup_rotate t (rp X) (Some p) (Some s)"
        unfolding delete_fixup_end_def using cs ab False RED r l sl(5,6,9,10) by (cases "is_R fr") auto
      with delete_fixup_rotate_ok [OF h sh s(1,2) RED] s(1) show ?thesis by (simp add: p_def)
    next
      case BLACK
      with False have ir: "rcol (cl t) i = RED" by (cases "rcol (cl t) i") auto
      then have "i \<noteq> Leaf" by auto
      from mkt_ex [OF this, of fr] obtain a j b' where i: "i = mkt fr a j b'" by blast
      have jr: "cl t j = RED" using ir by (simp add: i)
      have jS: "j \<in> ?S" by (simp add: f_nodes_def s(1) i)
      have dj: "j \<noteq> s" "j \<noteq> p" "j \<notin> set_tree X" "j \<notin> set_tree out" "j \<notin> c_nodes c" using d by (auto simp: i)
      have dab: "j \<notin> set_tree a" "j \<notin> set_tree b'" "s \<notin> set_tree a" "s \<notin> set_tree b'" "p \<notin> set_tree a" "p \<notin> set_tree b'"
      proof -
        have "distinct (c_left (fr # c) @ c_right (fr # c))" using h unfolding rb_holds_plug by blast
        then have "distinct (inorder (mkt fr (mkt fr a j b') s out))" unfolding distinct_frame s(1) i by blast
        then show "j \<notin> set_tree a" "j \<notin> set_tree b'" by (cases fr; auto)+
        show "s \<notin> set_tree a" "s \<notin> set_tree b'" "p \<notin> set_tree a" "p \<notin> set_tree b'" using d by (auto simp: i)
      qed
      have "tree_at (lk t) (Some p) (mkt fr (mkt fr a j b') s out)"
        using h unfolding rb_holds_plug by (simp add: s(1) [symmetric] i [symmetric] p_def)
      then have lj: "lk t j \<noteq> None" using tree_at_Some [of "lk t" _ _ j] by simp
      from set_colors_ok [OF sl(7) lj inS(2) jS, of RED BLACK] obtain t1 t2 where
        1: "set_color (Some s) RED t = Some t1" "set_color (Some j) BLACK t1 = Some t2" "lk t2 = lk t"
        "cl t2 = (cl t)(s := RED, j := BLACK)" "keeps ?S t t2" "rb_root t2 = rb_root t" by blast
      have h2: "rb_holds t2 (plug (fr # c) X)" using h rb_holds_cong [OF 1(3,6)] by simp
      let ?fr = "mkf fr p (mkt fr a j (mkt fr b' s out))"
      from rotate_sibling_ok [OF h2 s(1) [unfolded i], folded p_def] obtain t3 where
        3: "(if is_R fr then rbtree_rotate_left t2 (Some s) else rbtree_rotate_right t2 (Some s)) = Some t3"
        "rb_holds t3 (plug (?fr # c) X)" "cl t3 = cl t2" "keeps ?S t2 t3"
        "inorder (plug (?fr # c) X) = inorder (plug (fr # c) X)" by blast
      have s3: "f_tree ?fr = mkt ?fr a j (mkt fr b' s out)" by simp
      have f3: "cl t3 = (cl t)(s := RED, j := BLACK)" using 3(3) 1(4) by simp
      have cj: "get_color t (Some j) = Some RED" using lj jr by (simp add: get_color_cl)
      have sib: "get_sibling t3 (rp X) (Some p) = Some (Some j)" using side_links(1) [OF 3(2) s3] by simp
      have e: "delete_fixup_end t (rp X) (Some p) (Some s) = delete_fixup_rotate t3 (rp X) (Some p) (Some j)"
        unfolding delete_fixup_end_def using cs ab False BLACK r l sl(5,6,10) cj 1(1,2) 3(1) sib
        by (cases "is_R fr") (auto simp: i)
      have ab': "bal (cl t) n a" "bal (cl t) n b'" "nored (cl t) a" "nored (cl t) b'" "rcol (cl t) a = BLACK" "rcol (cl t) b' = BLACK"
        using b(1,3) jr by (auto simp: i)
      have pp: "cl t3 p = cl t p" using d(1) dj(2) by (simp add: f3)
      have sh3: "short (cl t3) n (?fr # c) X"
        unfolding short_def using sh b ab' d dj dab lst BLACK pp by (auto simp: f3 short_def p_def)
      have "rcol (cl t3) (mkt fr b' s out) = RED" "cl t3 j = BLACK" using dj(1) by (simp_all add: f3)
      from delete_fixup_rotate_ok [OF 3(2) sh3 s3 this(2) this(1)] obtain t4 T4 where
        4: "delete_fixup_rotate t3 (rp X) (Some p) (Some j) = Some t4" "rb_holds t4 T4" "rb_inv (cl t4) T4"
        "inorder T4 = inorder (plug (?fr # c) X)" "keeps (set_tree (plug (?fr # c) X)) t3 t4" by auto
      have "set_tree (plug (?fr # c) X) = ?S" using 3(5) by (metis set_inorder)
      with 4(5) have "keeps ?S t t4" using keeps_trans [OF 1(5) keeps_trans [OF 3(4)]] by auto
      then show ?thesis using 4 e 3(5) s(1) by (auto simp: p_def)
    qed
  qed
qed

lemma rbtree_delete_fixup_ok:
  assumes h: "rb_holds t (plug c X)" and sh: "short (cl t) n c X"
  shows "\<exists>t' T'. rbtree_delete_fixup t (rp X) (cp c) = Some t' \<and> rb_holds t' T' \<and>
    rb_inv (cl t') T' \<and> inorder T' = inorder (plug c X) \<and> keeps (set_tree (plug c X)) t t'"
proof -
  from get_sibling_total [OF h] obtain sib where sib: "get_sibling t (rp X) (cp c) = Some sib" by blast
  from delete_fixup_loop_ok [OF h sh sib] obtain t1 r where
    1: "delete_fixup_loop t (rp X) (cp c) sib = Some (t1, r)" "keeps (set_tree (plug c X)) t t1"
    "case r of None \<Rightarrow> (\<exists>T'. rb_holds t1 T' \<and> rb_inv (cl t1) T' \<and> inorder T' = inorder (plug c X))
      | Some (child, par, sib) \<Rightarrow> (\<exists>X' fr c' n. child = rp X' \<and> par = Some (f_addr fr) \<and> sib = rp (f_tree fr) \<and>
          rb_holds t1 (plug (fr # c') X') \<and> short (cl t1) n (fr # c') X' \<and> ready (cl t1) fr \<and>
          inorder (plug (fr # c') X') = inorder (plug c X))" unfolding loop_ok_def by blast
  show ?thesis
  proof (cases r)
    case None
    with 1 sib show ?thesis by (auto simp: rbtree_delete_fixup_def)
  next
    case (Some q)
    with 1(3) obtain X' fr c' m where 2: "r = Some (rp X', Some (f_addr fr), rp (f_tree fr))"
      "rb_holds t1 (plug (fr # c') X')" "short (cl t1) m (fr # c') X'" "ready (cl t1) fr"
      "inorder (plug (fr # c') X') = inorder (plug c X)" by (cases q) auto
    from delete_fixup_end_ok [OF 2(2-4)] obtain t2 T2 where
      3: "delete_fixup_end t1 (rp X') (Some (f_addr fr)) (rp (f_tree fr)) = Some t2" "rb_holds t2 T2" "rb_inv (cl t2) T2"
      "inorder T2 = inorder (plug (fr # c') X')" "keeps (set_tree (plug (fr # c') X')) t1 t2" by blast
    have "set_tree (plug (fr # c') X') = set_tree (plug c X)" using 2(5) by (metis set_inorder)
    then have "keeps (set_tree (plug c X)) t t2" using 1(2) 3(5) keeps_trans by metis
    then show ?thesis using 1(1) 2 3 sib by (auto simp: rbtree_delete_fixup_def)
  qed
qed

end
