(* ===== verification/Rbtree_Delete.thy ===== *)
theory Rbtree_Delete
  imports Rbtree_Fixup
begin

text \<open>
  Deletion: a node with two children changes places with the next node, and then a node with at most
  one child is taken out.
\<close>

section \<open>Changing links of neighbours\<close>

lemma change_parent_frame:
  assumes a: "lk t (f_addr fr) = Some (f_links p (Some x) fr)" and x: "x \<notin> set_tree (f_tree fr)"
  shows "\<exists>t'. change_parent_ptr (Some (f_addr fr)) (Some x) q t = Some t' \<and>
    lk t' = (lk t)(f_addr fr \<mapsto> f_links p q fr) \<and> cl t' = cl t \<and> keeps {f_addr fr} t t' \<and> rb_root t' = rb_root t"
proof (cases fr)
  case (L b T)
  have b: "lk t b = Some (p, Some x, rp T)" and ne: "rp T \<noteq> Some x" using a x rp_in_tree [of T x] by (auto simp: L)
  from set_links(2) [OF b, of q] obtain t' where
    1: "set_left (Some b) q t = Some t'" "lk t' = (lk t)(b \<mapsto> (p, q, rp T))" "cl t' = cl t" "keeps {b} t t'" "rb_root t' = rb_root t"
    by blast
  have "lk t' b = Some (p, q, rp T)" by (simp add: 1(2))
  then show ?thesis using 1 b ne by (auto simp: L change_parent_ptr_def)
next
  case (R T b)
  have b: "lk t b = Some (p, rp T, Some x)" and ne: "rp T \<noteq> Some x" using a x rp_in_tree [of T x] by (auto simp: R)
  from set_links(3) [OF b, of q] obtain t' where
    1: "set_right (Some b) q t = Some t'" "lk t' = (lk t)(b \<mapsto> (p, rp T, q))" "cl t' = cl t" "keeps {b} t t'" "rb_root t' = rb_root t"
    by blast
  then show ?thesis using b ne by (auto simp: R change_parent_ptr_def)
qed

lemma change_parent_ok:
  assumes c: "ctx_at (lk t) (Some x) c" "rb_root t = croot (Some x) c" "distinct (c_left c @ c_right c)" "x \<notin> c_nodes c"
  shows "\<exists>t'. change_parent_ptr (cp c) (Some x) q t = Some t' \<and>
    ctx_at (lk t') q c \<and> rb_root t' = croot q c \<and> (\<forall>a. a \<notin> c_nodes c \<longrightarrow> lk t' a = lk t a) \<and>
    cl t' = cl t \<and> keeps (c_nodes c) t t'"
proof (cases c)
  case Nil
  then show ?thesis using c(2) by (simp add: change_parent_ptr_def lk_def cl_def fun_eq_iff keeps_def ky_def)
next
  case (Cons fr c')
  have f: "f_nodes fr \<inter> c_nodes c' = {}" "f_addr fr \<notin> set_tree (f_tree fr)"
    using c(3) unfolding Cons distinct_frame by simp_all
  have a: "lk t (f_addr fr) = Some (f_links (cp c') (Some x) fr)" "x \<notin> set_tree (f_tree fr)"
    using c(1,4) by (auto simp: Cons f_nodes_def)
  from change_parent_frame [OF a, of q] obtain t' where
    1: "change_parent_ptr (Some (f_addr fr)) (Some x) q t = Some t'" "lk t' = (lk t)(f_addr fr \<mapsto> f_links (cp c') q fr)"
    "cl t' = cl t" "keeps {f_addr fr} t t'" "rb_root t' = rb_root t" by blast
  have "f_addr fr \<notin> c_nodes c'" using f(1) by (auto simp: f_nodes_def)
  then have "ctx_at (lk t') q c" using c(1) f(2) by (simp add: Cons 1(2))
  moreover have "keeps (c_nodes c) t t'" by (rule keeps_mono [OF 1(4)]) (simp add: Cons f_nodes_def)
  moreover have "rb_root t' = croot q c" using c(2) by (simp add: Cons 1(5))
  ultimately show ?thesis using 1(1,3) by (auto simp: Cons 1(2) f_nodes_def)
qed

lemma change_child_node:
  assumes "lk t a = Some (Some old, l, r)"
  shows "\<exists>t'. change_child_ptr (Some a) (Some old) q t = Some t' \<and> lk t' = (lk t)(a \<mapsto> (q, l, r)) \<and> cl t' = cl t \<and>
    keeps {a} t t' \<and> rb_root t' = rb_root t"
  using set_links(1) [OF assms, of q] assms by (auto simp: change_child_ptr_def)

lemma change_child_ok:
  assumes "tree_at (lk t) (Some old) B" "distinct (inorder B)"
  shows "\<exists>t'. change_child_ptr (rp B) (Some old) q t = Some t' \<and> tree_at (lk t') q B \<and>
    (\<forall>a. a \<notin> set_tree B \<longrightarrow> lk t' a = lk t a) \<and> cl t' = cl t \<and> keeps (set_tree B) t t' \<and> rb_root t' = rb_root t"
proof (cases B)
  case Leaf
  then show ?thesis by (simp add: change_child_ptr_def)
next
  case (Node l a r)
  have a: "lk t a = Some (Some old, rp l, rp r)" using assms(1) by (simp add: Node)
  from change_child_node [OF a, of q] obtain t' where
    1: "change_child_ptr (Some a) (Some old) q t = Some t'" "lk t' = (lk t)(a \<mapsto> (q, rp l, rp r))" "cl t' = cl t"
    "keeps {a} t t'" "rb_root t' = rb_root t" by blast
  moreover have "keeps (set_tree B) t t'" by (rule keeps_mono [OF 1(4)]) (simp add: Node)
  ultimately show ?thesis using assms by (auto simp: Node)
qed

lemma change_child_same:
  assumes "tree_at (lk t) (Some new) B" "old \<noteq> new"
  shows "change_child_ptr (rp B) (Some old) (Some new) t = Some t"
  using assms by (cases B) (auto simp: change_child_ptr_def)

section \<open>Taking a node out\<close>

lemma unlink_ok:
  assumes h: "rb_holds t (plug c (Node A x B))" and AB: "A = Leaf \<or> B = Leaf" and X: "X = (if A \<noteq> Leaf then A else B)"
  shows "\<exists>t1 t2. change_parent_ptr (cp c) (Some x) (rp X) t = Some t1 \<and> get_link rb_parent t1 (Some x) = Some (cp c) \<and>
    change_child_ptr (rp X) (Some x) (cp c) t1 = Some t2 \<and> rb_holds t2 (plug c X) \<and> cl t2 = cl t \<and>
    lk t2 x = lk t x \<and> keeps (set_tree (plug c (Node A x B))) t t2"
proof -
  have c: "ctx_at (lk t) (Some x) c" "rb_root t = croot (Some x) c" "distinct (c_left c @ c_right c)" "x \<notin> c_nodes c"
    and x: "lk t x = Some (cp c, rp A, rp B)" and sub: "tree_at (lk t) (Some x) A" "tree_at (lk t) (Some x) B"
    and d: "distinct (inorder A)" "distinct (inorder B)" "x \<notin> set_tree A" "x \<notin> set_tree B"
      "c_nodes c \<inter> set_tree A = {}" "c_nodes c \<inter> set_tree B = {}"
    using h [unfolded rb_holds_plug] by auto
  from change_parent_ok [OF c, of "rp X"] obtain t1 where
    1: "change_parent_ptr (cp c) (Some x) (rp X) t = Some t1" "ctx_at (lk t1) (rp X) c" "rb_root t1 = croot (rp X) c"
    "\<And>a. a \<notin> c_nodes c \<Longrightarrow> lk t1 a = lk t a" "cl t1 = cl t" "keeps (c_nodes c) t t1" by blast
  have XX: "tree_at (lk t) (Some x) X" "distinct (inorder X)" "x \<notin> set_tree X" "c_nodes c \<inter> set_tree X = {}"
    using sub d X by auto
  have "tree_at (lk t1) (Some x) X = tree_at (lk t) (Some x) X"
    by (rule tree_at_cong, rule 1(4)) (use XX(4) in blast)
  with XX(1) have "tree_at (lk t1) (Some x) X" by simp
  from change_child_ok [OF this XX(2), of "cp c"] obtain t2 where
    2: "change_child_ptr (rp X) (Some x) (cp c) t1 = Some t2" "tree_at (lk t2) (cp c) X"
    "\<And>a. a \<notin> set_tree X \<Longrightarrow> lk t2 a = lk t1 a" "cl t2 = cl t1" "keeps (set_tree X) t1 t2" "rb_root t2 = rb_root t1" by blast
  have "ctx_at (lk t2) (rp X) c = ctx_at (lk t1) (rp X) c"
    by (rule ctx_at_cong, rule 2(3)) (use XX(4) in blast)
  then have "rb_holds t2 (plug c X)" unfolding rb_holds_plug using 1(2,3) 2(2,6) c(3) XX by simp
  moreover have "lk t2 x = lk t x" using 2(3) [OF XX(3)] 1(4) [OF c(4)] by simp
  moreover have "get_link rb_parent t1 (Some x) = Some (cp c)" using 1(4) [OF c(4)] x by simp
  moreover have "keeps (set_tree (plug c (Node A x B))) t t2"
    by (rule keeps_trans [OF keeps_mono [OF 1(6)] keeps_mono [OF 2(5)]]) (auto simp: X)
  ultimately show ?thesis using 1(1,5) 2(1,4) by simp
qed

section \<open>Changing places\<close>

text \<open>Paths that end at a given parent.\<close>

fun cpp :: "addr option \<Rightarrow> frame list \<Rightarrow> addr option" where
  "cpp p [] = p"
| "cpp p (f # d) = Some (f_addr f)"

fun seg_at :: "links \<Rightarrow> addr option \<Rightarrow> addr option \<Rightarrow> frame list \<Rightarrow> bool" where
  "seg_at m p q [] \<longleftrightarrow> True"
| "seg_at m p q (f # d) \<longleftrightarrow> m (f_addr f) = Some (f_links (cpp p d) q f) \<and>
     tree_at m (Some (f_addr f)) (f_tree f) \<and> seg_at m p (Some (f_addr f)) d"

lemma tree_at_seg: "tree_at m p (plug d t) \<longleftrightarrow> seg_at m p (rp t) d \<and> tree_at m (cpp p d) t"
  by (induction d arbitrary: t) auto

lemma seg_at_cong: "(\<And>a. a \<in> c_nodes d \<Longrightarrow> m' a = m a) \<Longrightarrow> seg_at m' p q d = seg_at m p q d"
proof (induction d arbitrary: q)
  case (Cons f d)
  then have "tree_at m' (Some (f_addr f)) (f_tree f) = tree_at m (Some (f_addr f)) (f_tree f)"
    by (intro tree_at_cong) (auto simp: f_nodes_def)
  with Cons show ?case by (auto simp: f_nodes_def)
qed simp

lemma tree_at_top:
  assumes "tree_at m p (Node a z b)" "distinct (inorder (Node a z b))"
  shows "tree_at (m(z \<mapsto> (p', rp a, rp b))) p' (Node a z b)"
  using assms by simp

lemma set_two_links:
  assumes f: "\<And>(t :: 'k rbtree) z v q. lk t z = Some v \<Longrightarrow> \<exists>t'. f (Some z) q t = Some t' \<and> lk t' = (lk t)(z \<mapsto> g q v) \<and>
      cl t' = cl t \<and> keeps {z} t t' \<and> rb_root t' = rb_root t"
    and u: "lk t x = Some u" and w: "lk t y = Some w" and xy: "x \<noteq> y"
  shows "\<exists>t'. Option.bind (f (Some x) q t) (f (Some y) q') = Some t' \<and> lk t' = (lk t)(x \<mapsto> g q u, y \<mapsto> g q' w) \<and> cl t' = cl t \<and>
    keeps {x, y} t t' \<and> rb_root t' = rb_root t"
proof -
  from f [OF u, of q] obtain t1 where 1: "f (Some x) q t = Some t1" "lk t1 = (lk t)(x \<mapsto> g q u)" "cl t1 = cl t"
    "keeps {x} t t1" "rb_root t1 = rb_root t" by blast
  have "lk t1 y = Some w" using w xy by (simp add: 1(2))
  from f [OF this, of q'] obtain t2 where 2: "f (Some y) q' t1 = Some t2" "lk t2 = (lk t1)(y \<mapsto> g q' w)" "cl t2 = cl t1"
    "keeps {y} t1 t2" "rb_root t2 = rb_root t1" by blast
  have "keeps {x, y} t t2" by (rule keeps_trans [OF keeps_mono [OF 1(4)] keeps_mono [OF 2(4)]]) auto
  with 1 2 show ?thesis by simp
qed

lemma swap_links_ok:
  assumes x: "lk t x = Some (xp, xl, xr)" and y: "lk t y = Some (yp, yl, yr)" and xy: "x \<noteq> y"
  shows "\<exists>t'. swap_links (Some x) (Some y) t = Some t' \<and>
    lk t' = (lk t)(x \<mapsto> (yp, yl, yr), y \<mapsto> (xp, xl, xr)) \<and> cl t' = cl t \<and> keeps {x, y} t t' \<and> rb_root t' = rb_root t"
proof -
  have fp: "\<And>(t :: 'a rbtree) z v q. lk t z = Some v \<Longrightarrow> \<exists>t'. set_parent (Some z) q t = Some t' \<and>
      lk t' = (lk t)(z \<mapsto> (\<lambda>q (p, l, r). (q, l, r)) q v) \<and> cl t' = cl t \<and> keeps {z} t t' \<and> rb_root t' = rb_root t"
    using set_links(1) by auto
  have fl: "\<And>(t :: 'a rbtree) z v q. lk t z = Some v \<Longrightarrow> \<exists>t'. set_left (Some z) q t = Some t' \<and>
      lk t' = (lk t)(z \<mapsto> (\<lambda>q (p, l, r). (p, q, r)) q v) \<and> cl t' = cl t \<and> keeps {z} t t' \<and> rb_root t' = rb_root t"
    using set_links(2) by auto
  have fr: "\<And>(t :: 'a rbtree) z v q. lk t z = Some v \<Longrightarrow> \<exists>t'. set_right (Some z) q t = Some t' \<and>
      lk t' = (lk t)(z \<mapsto> (\<lambda>q (p, l, r). (p, l, q)) q v) \<and> cl t' = cl t \<and> keeps {z} t t' \<and> rb_root t' = rb_root t"
    using set_links(3) by auto
  from set_two_links [where f = set_parent and g = "\<lambda>q (p, l, r). (q, l, r)" and q = yp and q' = xp, OF fp x y xy] obtain t1 where
    1: "Option.bind (set_parent (Some x) yp t) (set_parent (Some y) xp) = Some t1"
    "lk t1 = (lk t)(x \<mapsto> (yp, xl, xr), y \<mapsto> (xp, yl, yr))" "cl t1 = cl t" "keeps {x, y} t t1" "rb_root t1 = rb_root t" by auto
  have x1: "lk t1 x = Some (yp, xl, xr)" "lk t1 y = Some (xp, yl, yr)" using xy by (simp_all add: 1(2))
  from set_two_links [where f = set_left and g = "\<lambda>q (p, l, r). (p, q, r)" and q = yl and q' = xl, OF fl x1 xy] obtain t2 where
    2: "Option.bind (set_left (Some x) yl t1) (set_left (Some y) xl) = Some t2"
    "lk t2 = (lk t1)(x \<mapsto> (yp, yl, xr), y \<mapsto> (xp, xl, yr))" "cl t2 = cl t1" "keeps {x, y} t1 t2" "rb_root t2 = rb_root t1" by auto
  have x2: "lk t2 x = Some (yp, yl, xr)" "lk t2 y = Some (xp, xl, yr)" using xy by (simp_all add: 2(2))
  from set_two_links [where f = set_right and g = "\<lambda>q (p, l, r). (p, l, q)" and q = yr and q' = xr, OF fr x2 xy] obtain t3 where
    3: "Option.bind (set_right (Some x) yr t2) (set_right (Some y) xr) = Some t3"
    "lk t3 = (lk t2)(x \<mapsto> (yp, yl, yr), y \<mapsto> (xp, xl, xr))" "cl t3 = cl t2" "keeps {x, y} t2 t3" "rb_root t3 = rb_root t2" by auto
  have "swap_np rb_parent set_parent (Some x) (Some y) t = Some t1" "swap_np rb_left set_left (Some x) (Some y) t1 = Some t2"
    "swap_np rb_right set_right (Some x) (Some y) t2 = Some t3"
    using x y x1 x2 1(1) 2(1) 3(1) by (simp_all add: swap_np_def)
  moreover have "lk t3 = (lk t)(x \<mapsto> (yp, yl, yr), y \<mapsto> (xp, xl, xr))"
    using xy by (simp add: 3(2) 2(2) 1(2) fun_eq_iff)
  moreover have "keeps {x, y} t t3" by (rule keeps_trans [OF 1(4) keeps_trans [OF 2(4) 3(4)]])
  ultimately show ?thesis using 1(3,5) 2(3,5) 3(3,5) by (simp add: swap_links_def)
qed

lemma swap_int8_ok:
  assumes "lk t x \<noteq> None" "lk t y \<noteq> None"
  shows "\<exists>t'. swap_int8 (Some x) (Some y) t = Some t' \<and> lk t' = lk t \<and> cl t' = (cl t)(x := cl t y, y := cl t x) \<and>
    keeps {x, y} t t' \<and> rb_root t' = rb_root t"
  using set_colors_ok [OF assms, of "{x, y}" "cl t y" "cl t x"] assms by (auto simp: swap_int8_def get_color_cl)

text \<open>The children of the two nodes that are not on the way from one to the other.\<close>

lemma swap_children_ok:
  assumes x: "lk t x = Some (xp, rp l, xr)" and y: "lk t y = Some (yp, None, rp ys)"
    and sub: "tree_at (lk t) (Some x) l" "tree_at (lk t) (Some y) ys" and d: "distinct (inorder l)" "distinct (inorder ys)"
      "x \<notin> set_tree l" "x \<notin> set_tree ys" "y \<notin> set_tree l" "y \<notin> set_tree ys" "set_tree l \<inter> set_tree ys = {}" "x \<noteq> y"
  shows "\<exists>t'. swap_children (Some x) (Some y) t = Some t' \<and>
    tree_at (lk t') (Some y) l \<and> tree_at (lk t') (Some x) ys \<and>
    (\<forall>a. a \<notin> set_tree l \<union> set_tree ys \<longrightarrow> lk t' a = lk t a) \<and> cl t' = cl t \<and> keeps (set_tree l \<union> set_tree ys) t t' \<and>
    rb_root t' = rb_root t"
proof -
  from change_child_ok [OF sub(2) d(2), of "Some x"] obtain t1 where
    1: "change_child_ptr (rp ys) (Some y) (Some x) t = Some t1" "tree_at (lk t1) (Some x) ys"
    "\<And>a. a \<notin> set_tree ys \<Longrightarrow> lk t1 a = lk t a" "cl t1 = cl t" "keeps (set_tree ys) t t1" "rb_root t1 = rb_root t" by blast
  have "tree_at (lk t1) (Some x) l = tree_at (lk t) (Some x) l"
    by (rule tree_at_cong, rule 1(3)) (use d(7) in blast)
  with sub(1) have "tree_at (lk t1) (Some x) l" by simp
  from change_child_ok [OF this d(1), of "Some y"] obtain t2 where
    2: "change_child_ptr (rp l) (Some x) (Some y) t1 = Some t2" "tree_at (lk t2) (Some y) l"
    "\<And>a. a \<notin> set_tree l \<Longrightarrow> lk t2 a = lk t1 a" "cl t2 = cl t1" "keeps (set_tree l) t1 t2" "rb_root t2 = rb_root t1" by blast
  have xy1: "lk t1 x = Some (xp, rp l, xr)" "lk t1 y = Some (yp, None, rp ys)" using 1(3) x y d by simp_all
  have same: "change_child_ptr (rp ys) (Some y) (Some x) t1 = Some t1"
    using change_child_same [OF 1(2), of y] d(8) by simp
  have none: "change_child_ptr None (Some y) (Some x) t = Some t" by (simp add: change_child_ptr_def)
  have "tree_at (lk t2) (Some x) ys = tree_at (lk t1) (Some x) ys"
    by (rule tree_at_cong, rule 2(3)) (use d(7) in blast)
  with 1(2) have "tree_at (lk t2) (Some x) ys" by simp
  moreover have "keeps (set_tree l \<union> set_tree ys) t t2"
    by (rule keeps_trans [OF keeps_mono [OF 1(5)] keeps_mono [OF 2(5)]]) auto
  moreover note get_links [OF x] get_links [OF y] get_links [OF xy1(1)] get_links [OF xy1(2)]
  ultimately show ?thesis using 1(1,3,4,6) 2 same none by (simp add: swap_children_def)
qed

lemma swap_near_ok:
  assumes h: "rb_holds t (plug c (Node l x (Node Leaf y ys)))"
  shows "\<exists>t'. swap_nodes (Some x) (Some y) t = Some t' \<and> rb_holds t' (plug c (Node l y (Node Leaf x ys))) \<and>
    cl t' = (cl t)(x := cl t y, y := cl t x) \<and> keeps (set_tree (plug c (Node l x (Node Leaf y ys)))) t t'"
proof -
  let ?S = "set_tree (plug c (Node l x (Node Leaf y ys)))"
  have c: "ctx_at (lk t) (Some x) c" "rb_root t = croot (Some x) c" "distinct (c_left c @ c_right c)" "x \<notin> c_nodes c"
    and x: "lk t x = Some (cp c, rp l, Some y)" and y: "lk t y = Some (Some x, None, rp ys)"
    and sub: "tree_at (lk t) (Some x) l" "tree_at (lk t) (Some y) ys"
    and d: "distinct (inorder l)" "distinct (inorder ys)" "x \<notin> set_tree l" "x \<notin> set_tree ys" "y \<notin> set_tree l" "y \<notin> set_tree ys"
      "set_tree l \<inter> set_tree ys = {}" "x \<noteq> y" "y \<notin> c_nodes c" "c_nodes c \<inter> set_tree l = {}" "c_nodes c \<inter> set_tree ys = {}"
    using h [unfolded rb_holds_plug] by auto
  have n: "lk t x \<noteq> None" "lk t y \<noteq> None" using x y by simp_all
  from swap_int8_ok [OF n] obtain t1 where
    1: "swap_int8 (Some x) (Some y) t = Some t1" "lk t1 = lk t" "cl t1 = (cl t)(x := cl t y, y := cl t x)"
    "keeps {x, y} t t1" "rb_root t1 = rb_root t" by blast
  from change_parent_ok [OF c(1,2) [folded 1(2,5)] c(3,4), of "Some y"] obtain t2 where
    2: "change_parent_ptr (cp c) (Some x) (Some y) t1 = Some t2" "ctx_at (lk t2) (Some y) c" "rb_root t2 = croot (Some y) c"
    "\<And>a. a \<notin> c_nodes c \<Longrightarrow> lk t2 a = lk t1 a" "cl t2 = cl t1" "keeps (c_nodes c) t1 t2" by blast
  have x2: "lk t2 x = Some (cp c, rp l, Some y)" "lk t2 y = Some (Some x, None, rp ys)"
    using 2(4) 1(2) x y c(4) d(9) by simp_all
  have "tree_at (lk t2) (Some x) l = tree_at (lk t) (Some x) l" "tree_at (lk t2) (Some y) ys = tree_at (lk t) (Some y) ys"
    by (rule tree_at_cong, subst 2(4), use d(10,11) in blast, simp add: 1(2))+
  with sub have sub2: "tree_at (lk t2) (Some x) l" "tree_at (lk t2) (Some y) ys" by simp_all
  from swap_children_ok [OF x2 sub2 d(1-8)] obtain t3 where
    3: "swap_children (Some x) (Some y) t2 = Some t3" "tree_at (lk t3) (Some y) l" "tree_at (lk t3) (Some x) ys"
    "\<And>a. a \<notin> set_tree l \<union> set_tree ys \<Longrightarrow> lk t3 a = lk t2 a" "cl t3 = cl t2" "keeps (set_tree l \<union> set_tree ys) t2 t3"
    "rb_root t3 = rb_root t2" by blast
  have x3: "lk t3 x = Some (cp c, rp l, Some y)" using 3(4) x2 d by simp
  from set_links(3) [OF x3, of "Some x"] obtain t4 where
    4: "set_right (Some x) (Some x) t3 = Some t4" "lk t4 = (lk t3)(x \<mapsto> (cp c, rp l, Some x))" "cl t4 = cl t3" "keeps {x} t3 t4"
    "rb_root t4 = rb_root t3" by blast
  have y4: "lk t4 y = Some (Some x, None, rp ys)" using 3(4) x2 d by (simp add: 4(2))
  from set_links(1) [OF y4, of "Some y"] obtain t5 where
    5: "set_parent (Some y) (Some y) t4 = Some t5" "lk t5 = (lk t4)(y \<mapsto> (Some y, None, rp ys))" "cl t5 = cl t4" "keeps {y} t4 t5"
    "rb_root t5 = rb_root t4" by blast
  have x5: "lk t5 x = Some (cp c, rp l, Some x)" "lk t5 y = Some (Some y, None, rp ys)" using d(8) by (simp_all add: 5(2) 4(2))
  from swap_links_ok [OF x5 d(8)] obtain t6 where
    6: "swap_links (Some x) (Some y) t5 = Some t6" "lk t6 = (lk t5)(x \<mapsto> (Some y, None, rp ys), y \<mapsto> (cp c, rp l, Some x))"
    "cl t6 = cl t5" "keeps {x, y} t5 t6" "rb_root t6 = rb_root t5" by blast
  have x1: "lk t1 x = Some (cp c, rp l, Some y)" using x 1(2) by simp
  have run: "swap_nodes (Some x) (Some y) t = Some t6"
    unfolding swap_nodes_def using 1(1) 2(1) 3(1) 4(1) 5(1) 6(1) get_links [OF x1] get_links [OF x2(1)] get_links [OF x3] by simp
  have l6: "lk t6 = (lk t3)(x \<mapsto> (Some y, None, rp ys), y \<mapsto> (cp c, rp l, Some x))"
    using d(8) by (simp add: 6(2) 5(2) 4(2) fun_eq_iff)
  have "ctx_at (lk t3) (Some y) c = ctx_at (lk t2) (Some y) c"
    by (rule ctx_at_cong, rule 3(4)) (use d(10,11) in blast)
  with 2(2) have "ctx_at (lk t3) (Some y) c" by simp
  then have "rb_holds t6 (plug c (Node l y (Node Leaf x ys)))"
    unfolding rb_holds_plug using c(3,4) d 3(2,3) 2(3) by (auto simp: l6 6(5) 5(5) 4(5) 3(7))
  moreover have "keeps ?S t t6"
  proof -
    have "x \<in> ?S" "y \<in> ?S" "c_nodes c \<subseteq> ?S" "set_tree l \<union> set_tree ys \<subseteq> ?S" by auto
    then show ?thesis
      using keeps_mono [OF 1(4), of ?S] keeps_mono [OF 2(6), of ?S] keeps_mono [OF 3(6), of ?S] keeps_mono [OF 4(4), of ?S]
        keeps_mono [OF 5(4), of ?S] keeps_mono [OF 6(4), of ?S] by (meson empty_subsetI insert_subset keeps_trans)
  qed
  ultimately show ?thesis using run by (auto simp: 6(3) 5(3) 4(3) 3(5) 2(5) 1(3))
qed

lemma swap_far_ok:
  assumes h: "rb_holds t (plug c (Node l x (plug (L q Q # e) (Node Leaf y ys))))"
  shows "\<exists>t'. swap_nodes (Some x) (Some y) t = Some t' \<and> rb_holds t' (plug c (Node l y (plug (L q Q # e) (Node Leaf x ys)))) \<and>
    cl t' = (cl t)(x := cl t y, y := cl t x) \<and>
    keeps (set_tree (plug c (Node l x (plug (L q Q # e) (Node Leaf y ys))))) t t'"
proof -
  let ?R = "plug (L q Q # e) (Node Leaf y ys)"
  let ?S = "set_tree (plug c (Node l x ?R))"
  define D where "D = c_nodes (L q Q # e)"
  have SR: "set_tree ?R = D \<union> insert y (set_tree ys)" by (auto simp: D_def)
  have c: "ctx_at (lk t) (Some x) c" "rb_root t = croot (Some x) c" "distinct (c_left c @ c_right c)" "x \<notin> c_nodes c"
    and x: "lk t x = Some (cp c, rp l, rp ?R)" and R: "tree_at (lk t) (Some x) ?R"
    and subl: "tree_at (lk t) (Some x) l" and d0: "distinct (inorder l)" "distinct (inorder ?R)" "x \<notin> set_tree l" "x \<notin> set_tree ?R"
      "set_tree l \<inter> set_tree ?R = {}" "c_nodes c \<inter> set_tree l = {}" "c_nodes c \<inter> set_tree ?R = {}"
    using h [unfolded rb_holds_plug] by auto
  have seg: "seg_at (lk t) (Some x) (Some y) (L q Q # e)" and y: "lk t y = Some (Some q, None, rp ys)"
    and subys: "tree_at (lk t) (Some y) ys"
    using R unfolding tree_at_seg by simp_all
  have dR: "distinct (inorder (Node Leaf y ys))" "distinct (c_left (L q Q # e) @ c_right (L q Q # e))" "D \<inter> set_tree (Node Leaf y ys) = {}"
    using d0(2) unfolding distinct_plug D_def by blast+
  have dq: "q \<notin> set_tree Q" "q \<notin> c_nodes e" "q \<in> D" "set_tree Q \<subseteq> D" "c_nodes e \<subseteq> D"
    using dR(2) unfolding distinct_frame by (auto simp: D_def)
  have d: "distinct (inorder l)" "distinct (inorder ys)" "x \<notin> set_tree l" "x \<notin> set_tree ys" "y \<notin> set_tree l" "y \<notin> set_tree ys"
      "set_tree l \<inter> set_tree ys = {}" "x \<noteq> y"
    and dD: "x \<notin> D" "y \<notin> D" "D \<inter> set_tree l = {}" "D \<inter> set_tree ys = {}" "c_nodes c \<inter> D = {}" "y \<notin> c_nodes c" "c_nodes c \<inter> set_tree ys = {}"
    using d0 dR SR by auto
  have n: "lk t x \<noteq> None" "lk t y \<noteq> None" using x y by simp_all
  from swap_int8_ok [OF n] obtain t1 where
    1: "swap_int8 (Some x) (Some y) t = Some t1" "lk t1 = lk t" "cl t1 = (cl t)(x := cl t y, y := cl t x)"
    "keeps {x, y} t t1" "rb_root t1 = rb_root t" by blast
  from change_parent_ok [OF c(1,2) [folded 1(2,5)] c(3,4), of "Some y"] obtain t2 where
    2: "change_parent_ptr (cp c) (Some x) (Some y) t1 = Some t2" "ctx_at (lk t2) (Some y) c" "rb_root t2 = croot (Some y) c"
    "\<And>a. a \<notin> c_nodes c \<Longrightarrow> lk t2 a = lk t1 a" "cl t2 = cl t1" "keeps (c_nodes c) t1 t2" by blast
  have q: "lk t q = Some (cpp (Some x) e, Some y, rp Q)" using seg by simp
  have "lk t2 q = Some (cpp (Some x) e, Some y, rp Q)" using 2(4) [of q] 1(2) q dq(3) dD(5) by auto
  then have q2: "lk t2 (f_addr (L q Q)) = Some (f_links (cpp (Some x) e) (Some y) (L q Q))" by simp
  have "y \<notin> set_tree (f_tree (L q Q))" using dD(2) dq(4) by auto
  from change_parent_frame [OF q2 this, of "Some x"] obtain t3 where
    3: "change_parent_ptr (Some q) (Some y) (Some x) t2 = Some t3" "lk t3 = (lk t2)(q \<mapsto> (cpp (Some x) e, Some x, rp Q))"
    "cl t3 = cl t2" "keeps {q} t2 t3" "rb_root t3 = rb_root t2" by auto
  have qne: "q \<noteq> x" "q \<noteq> y" "q \<notin> set_tree l" "q \<notin> set_tree ys" "q \<notin> c_nodes c" using dq(3) dD by auto
  have l3: "lk t3 a = lk t a" if "a \<notin> c_nodes c" "a \<noteq> q" for a using that 2(4) 1(2) by (simp add: 3(2))
  have x3: "lk t3 x = Some (cp c, rp l, rp ?R)" "lk t3 y = Some (Some q, None, rp ys)" using l3 x y c(4) dD(6) qne by simp_all
  have "tree_at (lk t3) (Some x) l = tree_at (lk t) (Some x) l" "tree_at (lk t3) (Some y) ys = tree_at (lk t) (Some y) ys"
    by (rule tree_at_cong, rule l3; use d0(6) dD(7) qne in blast)+
  with subl subys have sub3: "tree_at (lk t3) (Some x) l" "tree_at (lk t3) (Some y) ys" by simp_all
  from swap_children_ok [OF x3 sub3 d] obtain t4 where
    4: "swap_children (Some x) (Some y) t3 = Some t4" "tree_at (lk t4) (Some y) l" "tree_at (lk t4) (Some x) ys"
    "\<And>a. a \<notin> set_tree l \<union> set_tree ys \<Longrightarrow> lk t4 a = lk t3 a" "cl t4 = cl t3" "keeps (set_tree l \<union> set_tree ys) t3 t4"
    "rb_root t4 = rb_root t3" by blast
  have x4: "lk t4 x = Some (cp c, rp l, rp ?R)" "lk t4 y = Some (Some q, None, rp ys)" using 4(4) x3 d by simp_all
  let ?T = "plug (L q Q # e) (Node Leaf x ys)"
  define M where "M = (lk t4)(x \<mapsto> (Some q, None, rp ys))"
  have M: "tree_at M (Some x) ?T"
  proof -
    have e: "M a = lk t a" if "a \<in> c_nodes e \<union> set_tree Q" for a
    proof -
      have "a \<in> D" "a \<noteq> q" using that dq by auto
      then have "a \<notin> set_tree l \<union> set_tree ys" "a \<notin> c_nodes c" "a \<noteq> x" using dD by auto
      then show ?thesis using 4(4) l3 \<open>a \<noteq> q\<close> by (simp add: M_def)
    qed
    have "seg_at M (Some x) (Some q) e = seg_at (lk t) (Some x) (Some q) e" by (rule seg_at_cong) (use e in blast)
    moreover have "tree_at M (Some q) Q = tree_at (lk t) (Some q) Q" by (rule tree_at_cong) (use e in blast)
    moreover have "M q = Some (cpp (Some x) e, Some x, rp Q)" using 4(4) qne by (simp add: M_def 3(2))
    moreover have "tree_at M (Some x) ys" using 4(3) d(4) by (simp add: M_def)
    ultimately show ?thesis unfolding tree_at_seg using seg by (simp add: M_def)
  qed
  have dT: "distinct (inorder ?T)" "set_tree ?T = D \<union> insert x (set_tree ys)"
    using dR dD(1) d(2,4) unfolding distinct_plug D_def by auto
  have rpT: "rp ?T = rp ?R" unfolding rp_plug by simp
  have "x \<in> set_tree ?T" unfolding dT(2) by blast
  then have "?T \<noteq> Leaf" by (metis empty_iff tree.set(1))
  then obtain a z b where T: "?T = Node a z b" by (cases ?T) auto
  have z: "rp ?R = Some z" using T rpT by simp
  then have "z \<in> set_tree ?R" using rp_in_tree by blast
  have "z \<in> set_tree ?T" by (simp only: T) simp
  with \<open>z \<in> set_tree ?R\<close> dT(2) SR dD(1,2) d(4,6,8) have zD: "z \<in> D \<or> z \<in> set_tree ys" by auto
  then have zn: "z \<noteq> x" "z \<noteq> y" "z \<notin> set_tree l" "z \<notin> c_nodes c" using dD d by auto
  have "M z = Some (Some x, rp a, rp b)" using M unfolding T by simp
  then have z4: "lk t4 z = Some (Some x, rp a, rp b)" using zn by (simp add: M_def)
  from change_child_node [OF z4, of "Some y"] obtain t5 where
    5: "change_child_ptr (Some z) (Some x) (Some y) t4 = Some t5" "lk t5 = (lk t4)(z \<mapsto> (Some y, rp a, rp b))" "cl t5 = cl t4"
    "keeps {z} t4 t5" "rb_root t5 = rb_root t4" by blast
  have x5: "lk t5 x = Some (cp c, rp l, rp ?R)" "lk t5 y = Some (Some q, None, rp ys)" using x4 zn by (simp_all add: 5(2))
  from swap_links_ok [OF x5 d(8)] obtain t6 where
    6: "swap_links (Some x) (Some y) t5 = Some t6" "lk t6 = (lk t5)(x \<mapsto> (Some q, None, rp ys), y \<mapsto> (cp c, rp l, rp ?R))"
    "cl t6 = cl t5" "keeps {x, y} t5 t6" "rb_root t6 = rb_root t5" by blast
  have x1: "lk t1 x = Some (cp c, rp l, rp ?R)" using x 1(2) by simp
  have x2: "lk t2 x = Some (cp c, rp l, rp ?R)" "lk t2 y = Some (Some q, None, rp ys)"
    using 2(4) 1(2) x y c(4) dD(6) by simp_all
  have run: "swap_nodes (Some x) (Some y) t = Some t6"
    unfolding swap_nodes_def using 1(1) 2(1) 3(1) 4(1) 5(1) 6(1) get_links [OF x1] get_links [OF x2(1)] get_links [OF x2(2)]
      get_links [OF x4(1)] get_links [OF x5(1)] z zn by simp
  have l6: "lk t6 = (M(z \<mapsto> (Some y, rp a, rp b)))(y \<mapsto> (cp c, rp l, rp ?T))"
    using zn d(8) rpT by (auto simp: 6(2) 5(2) M_def fun_eq_iff)
  have "tree_at (M(z \<mapsto> (Some y, rp a, rp b))) (Some y) ?T"
    using tree_at_top [of M "Some x" a z b "Some y"] M dT(1) unfolding T by blast
  moreover have "y \<notin> set_tree ?T" using dT(2) dD(2) d(6,8) by auto
  ultimately have "tree_at (lk t6) (Some y) ?T" unfolding l6 by (rule iffD2 [OF tree_at_upd, rotated])
  moreover have "tree_at (lk t6) (Some y) l"
    using 4(2) d(3,5) zn by (simp add: l6 M_def)
  moreover have "ctx_at (lk t6) (Some y) c"
  proof -
    have "ctx_at (lk t4) (Some y) c = ctx_at (lk t2) (Some y) c"
    proof (rule ctx_at_cong)
      fix a assume "a \<in> c_nodes c"
      then have "a \<notin> set_tree l \<union> set_tree ys" "a \<noteq> q" using qne d0(6) dD(7) by auto
      then show "lk t4 a = lk t2 a" using 4(4) by (simp add: 3(2))
    qed
    with 2(2) show ?thesis using c(4) dD(6) zn by (simp add: l6 M_def)
  qed
  moreover have "lk t6 y = Some (cp c, rp l, rp ?T)" by (simp add: l6)
  moreover have "rb_root t6 = croot (Some y) c" using 2(3) by (simp add: 6(5) 5(5) 4(7) 3(5))
  moreover have "distinct (inorder (Node l y ?T))" using dT d0 d dD SR by auto
  moreover have "c_nodes c \<inter> set_tree (Node l y ?T) = {}" using dT d0 dD c(4) by auto
  ultimately have "rb_holds t6 (plug c (Node l y ?T))"
    unfolding rb_holds_plug using c(3) by simp
  moreover have "keeps ?S t t6"
  proof -
    have "x \<in> ?S" "y \<in> ?S" "q \<in> ?S" "z \<in> ?S" "c_nodes c \<subseteq> ?S" "set_tree l \<union> set_tree ys \<subseteq> ?S"
      using \<open>z \<in> set_tree ?R\<close> SR dq(3) by auto
    then show ?thesis
      using keeps_mono [OF 1(4), of ?S] keeps_mono [OF 2(6), of ?S] keeps_mono [OF 3(4), of ?S] keeps_mono [OF 4(6), of ?S]
        keeps_mono [OF 5(4), of ?S] keeps_mono [OF 6(4), of ?S] by (meson empty_subsetI insert_subset keeps_trans)
  qed
  ultimately show ?thesis using run by (auto simp: 6(3) 5(3) 4(5) 3(3) 2(5) 1(3))
qed

section \<open>Deletion\<close>

text \<open>The smallest node of a subtree is at the end of a path of left turns.\<close>

lemma leftmost_path:
  "\<exists>d ys. Node l a r = plug d (Node Leaf (hd (inorder (Node l a r))) ys) \<and> (\<forall>f \<in> set d. \<not> is_R f)"
proof (induction l arbitrary: a r)
  case Leaf
  then show ?case by (intro exI [of _ "[]"]) simp
next
  case (Node ll b lr)
  from Node.IH(1) [of b lr] obtain d ys where
    d: "Node ll b lr = plug d (Node Leaf (hd (inorder (Node ll b lr))) ys)" "\<forall>f \<in> set d. \<not> is_R f" by blast
  define v where "v = hd (inorder (Node ll b lr))"
  have "plug (d @ [L a r]) (Node Leaf v ys) = Node (plug d (Node Leaf v ys)) a r" by (simp add: plug_append)
  also have "\<dots> = Node (Node ll b lr) a r" using d(1) unfolding v_def [symmetric] by metis
  finally have "Node (Node ll b lr) a r = plug (d @ [L a r]) (Node Leaf v ys)" by (rule sym)
  moreover have "hd (inorder (Node (Node ll b lr) a r)) = v" by (simp add: hd_append v_def)
  ultimately show ?case using d(2) by (intro exI [of _ "d @ [L a r]"] exI [of _ ys]) (simp del: plug.simps)
qed

lemma c_append: "c_left (d @ e) = c_left e @ c_left d" "c_right (d @ e) = c_right d @ c_right e"
proof -
  show "c_left (d @ e) = c_left e @ c_left d"
  proof (induction d)
    case (Cons f d)
    then show ?case by (cases f) simp_all
  qed simp
  show "c_right (d @ e) = c_right d @ c_right e"
  proof (induction d)
    case (Cons f d)
    then show ?case by (cases f) simp_all
  qed simp
qed

lemma swap_nodes_ok:
  assumes h: "rb_holds t (plug c (Node l x (plug d (Node Leaf y ys))))" and d: "\<forall>f \<in> set d. \<not> is_R f"
  shows "\<exists>t'. swap_nodes (Some x) (Some y) t = Some t' \<and> rb_holds t' (plug c (Node l y (plug d (Node Leaf x ys)))) \<and>
    cl t' = (cl t)(x := cl t y, y := cl t x) \<and> keeps (set_tree (plug c (Node l x (plug d (Node Leaf y ys))))) t t'"
proof (cases d)
  case Nil
  with swap_near_ok [of t c l x y ys] h show ?thesis by simp
next
  case (Cons fr e)
  obtain q Q where "fr = L q Q" using d by (cases fr) (auto simp: Cons)
  with swap_far_ok [of t c l x q Q e y ys] h show ?thesis by (simp add: Cons)
qed

text \<open>The colours stay with the places.\<close>

lemma map_tree_colors:
  "rcol f (map_tree g T) = rcol (\<lambda>a. f (g a)) T" "bal f n (map_tree g T) = bal (\<lambda>a. f (g a)) n T"
  "nored f (map_tree g T) = nored (\<lambda>a. f (g a)) T"
proof -
  show 1: "rcol f (map_tree g T) = rcol (\<lambda>a. f (g a)) T" for T by (cases T) simp_all
  show "bal f n (map_tree g T) = bal (\<lambda>a. f (g a)) n T" by (induction T arbitrary: n) simp_all
  show "nored f (map_tree g T) = nored (\<lambda>a. f (g a)) T" by (induction T) (simp_all add: 1)
qed

definition swap_addr :: "addr \<Rightarrow> addr \<Rightarrow> addr \<Rightarrow> addr" where
  "swap_addr x y a = (if a = x then y else if a = y then x else a)"

lemma swap_addr_simps [simp]:
  "swap_addr x y x = y" "swap_addr x y y = x" "a \<noteq> x \<Longrightarrow> a \<noteq> y \<Longrightarrow> swap_addr x y a = a"
  by (auto simp: swap_addr_def)

lemma map_tree_outside: "x \<notin> set_tree T \<Longrightarrow> y \<notin> set_tree T \<Longrightarrow> map_tree (swap_addr x y) T = T"
  by (induction T) auto

lemma map_tree_plug:
  "x \<notin> c_nodes c \<Longrightarrow> y \<notin> c_nodes c \<Longrightarrow> map_tree (swap_addr x y) (plug c T) = plug c (map_tree (swap_addr x y) T)"
proof (induction c arbitrary: T)
  case (Cons fr c)
  then show ?case by (cases fr) (auto simp: map_tree_outside)
qed simp

lemma swap_inv:
  assumes h: "distinct (inorder (plug c (Node l x (plug d (Node Leaf y ys)))))"
    and inv: "rb_inv f (plug c (Node l x (plug d (Node Leaf y ys))))"
  shows "rb_inv (f(x := f y, y := f x)) (plug c (Node l y (plug d (Node Leaf x ys))))"
proof -
  let ?T = "plug c (Node l x (plug d (Node Leaf y ys)))"
  have "x \<notin> c_nodes c" "y \<notin> c_nodes c" "x \<notin> set_tree l" "y \<notin> set_tree l" "x \<notin> c_nodes d" "y \<notin> c_nodes d"
    "x \<notin> set_tree ys" "y \<notin> set_tree ys" "x \<noteq> y"
    using h unfolding distinct_plug by (auto simp: distinct_plug)
  then have m: "map_tree (swap_addr x y) ?T = plug c (Node l y (plug d (Node Leaf x ys)))"
    by (simp add: map_tree_plug map_tree_outside)
  have "(\<lambda>a. (f(x := f y, y := f x)) (swap_addr x y a)) = f" using \<open>x \<noteq> y\<close> by (auto simp: fun_eq_iff swap_addr_def)
  then show ?thesis using inv unfolding m [symmetric] rb_inv_def map_tree_colors by simp
qed

text \<open>Taking out a node with at most one child, with the colours put right.\<close>

lemma delete_unlink_ok:
  assumes h: "rb_holds t (plug c (Node A x B))" and inv: "rb_inv (cl t) (plug c (Node A x B))" and AB: "A = Leaf \<or> B = Leaf"
  shows "\<exists>t' T'. delete_unlink t (Some x) = Some (Some x, t') \<and> rb_holds t' T' \<and> rb_inv (cl t') T' \<and>
    inorder T' = c_left c @ inorder A @ inorder B @ c_right c \<and> keeps (set_tree (plug c (Node A x B))) t t'"
proof -
  define X where "X = (if A \<noteq> Leaf then A else B)"
  let ?S = "set_tree (plug c (Node A x B))"
  from unlink_ok [OF h AB X_def] obtain t1 t2 where
    2: "change_parent_ptr (cp c) (Some x) (rp X) t = Some t1" "get_link rb_parent t1 (Some x) = Some (cp c)"
    "change_child_ptr (rp X) (Some x) (cp c) t1 = Some t2" "rb_holds t2 (plug c X)" "cl t2 = cl t" "lk t2 x = lk t x"
    "keeps ?S t t2" by blast
  have x: "lk t x = Some (cp c, rp A, rp B)" and xn: "x \<notin> c_nodes c" "x \<notin> set_tree A" "x \<notin> set_tree B"
    using h [unfolded rb_holds_plug] by auto
  have xX: "x \<notin> set_tree (plug c X)" using xn by (simp add: X_def)
  have ord: "inorder (plug c X) = c_left c @ inorder A @ inorder B @ c_right c" using AB by (auto simp: X_def inorder_plug)
  have sub: "set_tree (plug c X) \<subseteq> ?S" by (auto simp: X_def)
  have tX: "tree_at (lk t2) (cp c) X" using 2(4) unfolding rb_holds_plug by blast
  have cX: "get_color t2 (rp X) = Some (rcol (cl t) X)" using get_color_rp [OF tX] 2(5) by simp
  have cx: "get_color t2 (Some x) = Some (cl t x)" using 2(5,6) x by (simp add: get_color_cl)
  have ch: "(if rp A \<noteq> RBTREE_NULL then rp A else rp B) = rp X" by (cases A) (auto simp: X_def)
  have as: "rp A = None \<or> rp B = None" using AB by auto
  have x2: "lk t2 x = Some (cp c, rp A, rp B)" using 2(6) x by simp
  have i: "nored (cl t) X" "cnored (cl t) (cl t x) c" "cl t x = RED \<longrightarrow> rcol (cl t) X = BLACK"
    "c \<noteq> [] \<longrightarrow> cl t (f_addr (last c)) = BLACK" "c = [] \<longrightarrow> cl t x = BLACK"
    using inv unfolding rb_inv_plug by (auto simp: X_def split: if_splits)
  obtain n where "bal (cl t) n A" "bal (cl t) n B" "cbal (cl t) (bump (cl t x) n) c"
    using inv unfolding rb_inv_plug by auto
  then have n: "bal (cl t) n X" "cbal (cl t) (bump (cl t x) n) c" by (simp_all add: X_def)
  have mid: "\<exists>t3 T3. (if cl t x = RED then Some t2
             else if rcol (cl t) X = RED then (if rp X \<noteq> RBTREE_NULL then set_color (rp X) BLACK t2 else Some t2)
             else rbtree_delete_fixup t2 (rp X) (cp c)) = Some t3 \<and>
      rb_holds t3 T3 \<and> rb_inv (cl t3) T3 \<and> inorder T3 = inorder (plug c X) \<and> keeps (set_tree (plug c X)) t2 t3"
  proof (cases "cl t x")
    case RED
    then have "rb_inv (cl t2) (plug c X)"
      unfolding rb_inv_plug using i n cnored_black by (auto simp: 2(5))
    then show ?thesis using RED 2(4) by auto
  next
    case BLACK
    show ?thesis
    proof (cases "rcol (cl t) X")
      case RED
      then obtain xl v xr where X: "X = Node xl v xr" "cl t v = RED" by (cases X) auto
      have "lk t2 v \<noteq> None" using tX X by simp
      from set_color_ok [OF this, of BLACK] obtain t3 where
        3: "set_color (Some v) BLACK t2 = Some t3" "lk t3 = lk t2" "cl t3 = (cl t2)(v := BLACK)" "keeps {v} t2 t3" "rb_root t3 = rb_root t2"
        by blast
      have dv: "v \<notin> set_tree xl" "v \<notin> set_tree xr" "v \<notin> c_nodes c" using 2(4) [unfolded rb_holds_plug] by (auto simp: X)
      have "c \<noteq> [] \<longrightarrow> f_addr (last c) \<noteq> v" using last_in_nodes [of c] dv(3) by auto
      then have "rb_inv (cl t3) (plug c X)"
        unfolding rb_inv_plug using i n dv BLACK X by (auto simp: 2(5) 3(3))
      moreover have "rb_holds t3 (plug c X)" using 2(4) rb_holds_cong [OF 3(2,5)] by simp
      moreover have "keeps (set_tree (plug c X)) t2 t3" by (rule keeps_mono [OF 3(4)]) (simp add: X)
      ultimately show ?thesis using 3(1) BLACK RED X by auto
    next
      case black: BLACK
      have "short (cl t2) n c X" unfolding short_def using i n BLACK black by (simp add: 2(5))
      from rbtree_delete_fixup_ok [OF 2(4) this] show ?thesis using BLACK black by auto
    qed
  qed
  then obtain t3 T3 where 3: "(if cl t x = RED then Some t2
             else if rcol (cl t) X = RED then (if rp X \<noteq> RBTREE_NULL then set_color (rp X) BLACK t2 else Some t2)
             else rbtree_delete_fixup t2 (rp X) (cp c)) = Some t3"
      "rb_holds t3 T3" "rb_inv (cl t3) T3" "inorder T3 = inorder (plug c X)" "keeps (set_tree (plug c X)) t2 t3" by blast
  obtain nd where nd: "rb_mem t3 x = Some nd"
    using 3(5) xX x2 by (auto simp: keeps_def lk_def)
  define t4 where "t4 = t3\<lparr>rb_mem := (rb_mem t3)(x \<mapsto> nd\<lparr>rb_parent := RBTREE_NULL, rb_left := RBTREE_NULL,
              rb_right := RBTREE_NULL, rb_color := BLACK\<rparr>)\<rparr>"
  have sT: "x \<notin> set_tree T3" using xX 3(4) by (metis set_inorder)
  have l4: "lk t4 = (lk t3)(x \<mapsto> (None, None, None))" "cl t4 = (cl t3)(x := BLACK)" "rb_root t4 = rb_root t3"
    by (simp_all add: t4_def lk_def cl_def fun_eq_iff)
  have "rb_holds t4 T3" using 3(2) sT by (simp add: rb_holds_def l4)
  moreover have "rb_inv (cl t4) T3" using 3(3) sT by (simp add: rb_inv_def l4)
  moreover have "keeps ?S t t4"
  proof (rule keeps_trans [OF 2(7)], rule keeps_trans [OF keeps_mono [OF 3(5) sub]])
    show "keeps ?S t3 t4" using nd by (auto simp: keeps_def t4_def ky_def fun_eq_iff)
  qed
  moreover have "delete_unlink t (Some x) = Some (Some x, t4)"
    unfolding delete_unlink_def Let_def
    by (simp only: get_links [OF x] get_links [OF x2] bind.bind_lunit bind_c_assert as if_True ch 2(1-3) cx cX 3(1))
      (simp add: upd_node_def nd t4_def)
  ultimately show ?thesis using 3(4) ord by auto
qed

lemma rbtree_delete_ok:
  assumes t: "rb_table K t xs" and key: "key \<in> K"
  shows "(case find (\<lambda>a. rb_cmp t key (kv t a) = 0) xs of
      None \<Rightarrow> rbtree_delete t key = Some (None, t)
    | Some x \<Rightarrow> \<exists>t'. rbtree_delete t key = Some (Some x, t') \<and> rb_table K t' (remove1 x xs) \<and>
        kv t' = kv t \<and> rb_cmp t' = rb_cmp t \<and> dom (rb_mem t') = dom (rb_mem t) \<and>
        (\<forall>a. a \<notin> set xs \<longrightarrow> rb_mem t' a = rb_mem t a))"
proof (cases "find (\<lambda>a. rb_cmp t key (kv t a) = 0) xs")
  case None
  with rbtree_search_ok [OF t key] show ?thesis by (simp add: rbtree_delete_def)
next
  case (Some x)
  have s: "rbtree_search t key = Some (Some x)" using rbtree_search_ok [OF t key] Some by simp
  have "x \<in> set xs" using Some by (auto simp: find_Some_iff)
  from t obtain T where T: "rb_holds t T" "rb_inv (cl t) T" "inorder T = xs" "keys_sorted K t xs" "rb_count t = of_nat (length xs)"
    by (rule rb_tableE)
  have "x \<in> set_tree T" using \<open>x \<in> set xs\<close> T(3) by (metis set_inorder)
  then obtain c l r where p: "T = plug c (Node l x r)" using plug_ex by blast
  define t0 where "t0 = t\<lparr>rb_count := rb_count t - 1\<rparr>"
  have t0: "lk t0 = lk t" "cl t0 = cl t" "ky t0 = ky t" "rb_root t0 = rb_root t" "rb_cmp t0 = rb_cmp t" "rb_mem t0 = rb_mem t"
    "rb_count t0 = rb_count t - 1"
    by (simp_all add: t0_def lk_def cl_def ky_def fun_eq_iff)
  have h0: "rb_holds t0 (plug c (Node l x r))" using T(1) rb_holds_cong [OF t0(1,4)] p by simp
  have x0: "lk t0 x = Some (cp c, rp l, rp r)" using h0 unfolding rb_holds_plug by simp
  have dist: "distinct xs" using T(1,3) by (simp add: rb_holds_def)
  have xs: "xs = c_left c @ inorder l @ x # inorder r @ c_right c" using T(3) by (simp add: p inorder_plug)
  have rem: "remove1 x xs = c_left c @ inorder l @ inorder r @ c_right c"
    using dist unfolding xs by (simp add: remove1_append)
  have "\<exists>t1 A B c1. (if rp l \<noteq> RBTREE_NULL \<and> rp r \<noteq> RBTREE_NULL then do {
           smright \<leftarrow> leftmost_loop t0 (rp r); swap_nodes (Some x) smright t0 } else Some t0) = Some t1 \<and>
      rb_holds t1 (plug c1 (Node A x B)) \<and> rb_inv (cl t1) (plug c1 (Node A x B)) \<and> (A = Leaf \<or> B = Leaf) \<and>
      c_left c1 @ inorder A @ inorder B @ c_right c1 = remove1 x xs \<and> keeps (set xs) t0 t1 \<and>
      set_tree (plug c1 (Node A x B)) = set xs"
  proof (cases "rp l \<noteq> RBTREE_NULL \<and> rp r \<noteq> RBTREE_NULL")
    case False
    then have "l = Leaf \<or> r = Leaf" by (cases l; cases r) auto
    moreover have "set_tree (plug c (Node l x r)) = set xs" using T(3) unfolding p by (metis set_inorder)
    ultimately show ?thesis using False h0 T(2) t0(2) rem p
      by (intro exI [of _ t0] exI [of _ l] exI [of _ r] exI [of _ c]) auto
  next
    case True
    then obtain rl b rr where r: "r = Node rl b rr" by (cases r) auto
    define y where "y = hd (inorder (Node rl b rr))"
    from leftmost_path [of rl b rr] obtain d ys where d: "Node rl b rr = plug d (Node Leaf y ys)" "\<forall>f \<in> set d. \<not> is_R f"
      unfolding y_def by blast
    have "tree_at (lk t0) (Some x) (Node rl b rr)" using h0 unfolding rb_holds_plug r by simp
    from leftmost_loop_ok [OF this] have lm: "leftmost_loop t0 (rp r) = Some (Some y)" by (simp add: r y_def)
    have h1: "rb_holds t0 (plug c (Node l x (plug d (Node Leaf y ys))))" using h0 unfolding r d(1) .
    from swap_nodes_ok [OF h1 d(2)] obtain t1 where
      1: "swap_nodes (Some x) (Some y) t0 = Some t1" "rb_holds t1 (plug c (Node l y (plug d (Node Leaf x ys))))"
      "cl t1 = (cl t0)(x := cl t0 y, y := cl t0 x)" "keeps (set_tree (plug c (Node l x (plug d (Node Leaf y ys))))) t0 t1" by blast
    let ?c = "d @ R l y # c"
    have pc: "plug ?c (Node Leaf x ys) = plug c (Node l y (plug d (Node Leaf x ys)))" by (simp add: plug_append)
    have T1: "T = plug c (Node l x (plug d (Node Leaf y ys)))" using p unfolding r d(1) .
    have "rb_inv (cl t1) (plug ?c (Node Leaf x ys))"
      unfolding pc 1(3) t0(2) using T(1,2) unfolding T1 rb_holds_def by (intro swap_inv) simp_all
    moreover have "rb_holds t1 (plug ?c (Node Leaf x ys))" unfolding pc by (rule 1(2))
    moreover have dl: "c_left d = []" using d(2)
    proof (induction d)
      case (Cons f d)
      then show ?case by (cases f) auto
    qed simp
    moreover have sx: "set_tree (plug ?c (Node Leaf x ys)) = set xs"
    proof -
      have "set_tree (plug ?c (Node Leaf x ys)) = set_tree T" unfolding pc T1 by auto
      then show ?thesis using T(3) by (metis set_inorder)
    qed
    moreover have "keeps (set xs) t0 t1" using 1(4) T(3) unfolding T1 [symmetric] by (metis set_inorder)
    moreover have "c_left ?c @ inorder Leaf @ inorder ys @ c_right ?c = remove1 x xs"
    proof -
      have "inorder r = y # inorder ys @ c_right d" using dl unfolding r d(1) by (simp add: inorder_plug)
      then show ?thesis by (simp add: rem c_append dl)
    qed
    ultimately show ?thesis using True lm 1(1)
      by (intro exI [of _ t1] exI [of _ "Leaf"] exI [of _ ys] exI [of _ ?c]) auto
  qed
  then obtain t1 A B c1 where
    1: "(if rp l \<noteq> RBTREE_NULL \<and> rp r \<noteq> RBTREE_NULL then do {
           smright \<leftarrow> leftmost_loop t0 (rp r); swap_nodes (Some x) smright t0 } else Some t0) = Some t1"
    "rb_holds t1 (plug c1 (Node A x B))" "rb_inv (cl t1) (plug c1 (Node A x B))" "A = Leaf \<or> B = Leaf"
    "c_left c1 @ inorder A @ inorder B @ c_right c1 = remove1 x xs" "keeps (set xs) t0 t1"
    "set_tree (plug c1 (Node A x B)) = set xs" by blast
  from delete_unlink_ok [OF 1(2-4)] obtain t2 T2 where
    2: "delete_unlink t1 (Some x) = Some (Some x, t2)" "rb_holds t2 T2" "rb_inv (cl t2) T2" "inorder T2 = remove1 x xs"
    "keeps (set xs) t1 t2" unfolding 1(5,7) by blast
  have run: "rbtree_delete t key = Some (Some x, t2)"
    unfolding rbtree_delete_def Let_def t0_def [symmetric] using s get_links [OF x0] 1(1) 2(1) by simp
  have k: "keeps (set xs) t0 t2" by (rule keeps_trans [OF 1(6) 2(5)])
  then have kv2: "kv t2 = kv t" "rb_cmp t2 = rb_cmp t" "rb_count t2 = rb_count t - 1"
    using t0 by (simp_all add: keeps_def kv_def fun_eq_iff)
  have "keys_sorted K t (remove1 x xs)"
    unfolding rem using T(4) [unfolded xs] by (auto simp: keys_sorted_append keys_sorted_Cons)
  then have "keys_sorted K t2 (remove1 x xs)" using keys_sorted_cong [of t2 t] kv2 by simp
  moreover have "length xs = Suc (length (remove1 x xs))" unfolding rem by (simp add: xs)
  with kv2(3) T(5) have "rb_count t2 = of_nat (length (remove1 x xs))" by simp
  ultimately have "rb_table K t2 (remove1 x xs)" using 2(2-4) by (auto simp: rb_table_def)
  moreover have "\<forall>a. a \<notin> set xs \<longrightarrow> rb_mem t2 a = rb_mem t a" using k t0(6) by (simp add: keeps_def)
  moreover have "dom (rb_mem t2) = dom (rb_mem t)"
  proof (rule set_eqI)
    fix a
    have "ky t2 a = ky t a" using k t0(3) by (simp add: keeps_def)
    then show "a \<in> dom (rb_mem t2) \<longleftrightarrow> a \<in> dom (rb_mem t)" by (cases "rb_mem t a") (auto simp: ky_def)
  qed
  ultimately show ?thesis using Some run kv2 by simp
qed

end
