(* ===== verification/Rbtree_Props.thy ===== *)
theory Rbtree_Props
  imports Rbtree_Delete Lruhash_Props Complex_Main "HOL-Library.Multiset"
begin

text \<open>
  What users of the red-black tree rely on: it is a sorted list of nodes, for every sequence of
  insertions and deletions; its height is logarithmic; loops over it visit the nodes in order; and a
  traversal may free the nodes it visits.
\<close>

section \<open>Loops over the nodes\<close>

text \<open>The loop of \<open>RBTREE_FOR\<close>, with the function that gives the next node; the result is the nodes visited.\<close>

partial_function (option) for_nodes ::
    "('s \<Rightarrow> addr option \<Rightarrow> addr option option) \<Rightarrow> 's \<Rightarrow> addr option \<Rightarrow> addr list \<Rightarrow> addr list option" where
  "for_nodes nxt s node acc = (case node of None \<Rightarrow> Some acc | Some a \<Rightarrow> do {
     n \<leftarrow> nxt s node;
     for_nodes nxt s n (acc @ [a]) })"

definition rbtree_for :: "'k rbtree \<Rightarrow> addr list option" where
  "rbtree_for t = do { n \<leftarrow> rbtree_first t; for_nodes rbtree_next t n [] }"

text \<open>A container of nodes in a fixed order that can be walked.\<close>

locale ordered_nodes =
  fixes holds :: "'s \<Rightarrow> addr list \<Rightarrow> bool"
    and first :: "'s \<Rightarrow> addr option option"
    and nxt :: "'s \<Rightarrow> addr option \<Rightarrow> addr option option"
  assumes first_law: "holds s xs \<Longrightarrow> first s = Some (hd_opt xs)"
    and next_law: "holds s (xs @ x # ys) \<Longrightarrow> nxt s (Some x) = Some (hd_opt ys)"
begin

lemma for_nodes_from: "holds s (xs @ ys) \<Longrightarrow> for_nodes nxt s (hd_opt ys) acc = Some (acc @ ys)"
proof (induction ys arbitrary: xs acc)
  case Nil
  then show ?case by (simp add: for_nodes.simps)
next
  case (Cons y ys)
  have "nxt s (Some y) = Some (hd_opt ys)" using next_law Cons.prems .
  moreover have "for_nodes nxt s (hd_opt ys) (acc @ [y]) = Some ((acc @ [y]) @ ys)"
    using Cons.IH [of "xs @ [y]"] Cons.prems by simp
  ultimately show ?case by (subst for_nodes.simps) simp
qed

lemma for_all: "holds s xs \<Longrightarrow> Option.bind (first s) (\<lambda>n. for_nodes nxt s n []) = Some xs"
  using first_law [of s xs] for_nodes_from [of s "[]" xs "[]"] by simp

end

interpretation forward: ordered_nodes "rb_table K" rbtree_first rbtree_next for K
  by unfold_locales (rule rbtree_first_ok rbtree_next_ok, assumption)+

interpretation backward: ordered_nodes "\<lambda>t xs. rb_table K t (rev xs)" rbtree_last rbtree_previous for K
proof
  fix t :: "'a rbtree" and xs
  assume "rb_table K t (rev xs)"
  from rbtree_last_ok [OF this] show "rbtree_last t = Some (hd_opt xs)"
    by (cases xs) (simp_all add: last_opt_def)
next
  fix t :: "'a rbtree" and xs x ys
  assume "rb_table K t (rev (xs @ x # ys))"
  then have "rb_table K t (rev ys @ x # rev xs)" by simp
  from rbtree_previous_ok [OF this] show "rbtree_previous t (Some x) = Some (hd_opt ys)"
    by (cases ys) (simp_all add: last_opt_def)
qed

section \<open>Sequences of insertions and deletions\<close>

datatype 'k rb_op = RbInsert addr | RbDelete 'k

fun rb_step :: "'k rb_op \<Rightarrow> 'k rbtree \<Rightarrow> 'k rbtree option" where
  "rb_step (RbInsert d) t = map_option snd (rbtree_insert t d)"
| "rb_step (RbDelete key) t = map_option snd (rbtree_delete t key)"

text \<open>The same on a sorted list: \<open>k\<close> gives the key of a node.\<close>

fun rb_spec :: "('k \<Rightarrow> 'k \<Rightarrow> int) \<Rightarrow> (addr \<Rightarrow> 'k) \<Rightarrow> 'k rb_op \<Rightarrow> addr list \<Rightarrow> addr list" where
  "rb_spec cmp k (RbInsert d) xs =
     (if \<exists>a \<in> set xs. cmp (k d) (k a) = 0 then xs
      else filter (\<lambda>a. 0 < cmp (k d) (k a)) xs @ d # filter (\<lambda>a. cmp (k d) (k a) < 0) xs)"
| "rb_spec cmp k (RbDelete key) xs =
     (case find (\<lambda>a. cmp key (k a) = 0) xs of None \<Rightarrow> xs | Some a \<Rightarrow> remove1 a xs)"

text \<open>Nodes that are inserted exist and have a valid key, and keys of deletions are valid.\<close>

fun rb_op_ok :: "'k set \<Rightarrow> 'k rbtree \<Rightarrow> 'k rb_op \<Rightarrow> bool" where
  "rb_op_ok K t (RbInsert d) \<longleftrightarrow> rb_mem t d \<noteq> None \<and> kv t d \<in> K"
| "rb_op_ok K t (RbDelete key) \<longleftrightarrow> key \<in> K"

lemma rb_holds_mem: "rb_table K t xs \<Longrightarrow> a \<in> set xs \<Longrightarrow> rb_mem t a \<noteq> None"
proof (elim rb_tableE)
  fix T assume "rb_holds t T" "inorder T = xs" "a \<in> set xs"
  then have "tree_at (lk t) None T" "a \<in> set_tree T" by (auto simp: rb_holds_def)
  from tree_at_Some [OF this] show ?thesis by (auto simp: lk_def)
qed

lemma filter_split:
  fixes P :: "'a \<Rightarrow> int"
  assumes "\<forall>a \<in> set ys. 0 < P a" "\<forall>a \<in> set zs. P a < 0"
  shows "filter (\<lambda>a. 0 < P a) (ys @ zs) = ys" "filter (\<lambda>a. P a < 0) (ys @ zs) = zs"
proof -
  have "filter (\<lambda>a. 0 < P a) zs = []" "filter (\<lambda>a. P a < 0) ys = []"
    using assms by (auto simp: filter_empty_conv dest!: bspec)
  then show "filter (\<lambda>a. 0 < P a) (ys @ zs) = ys" "filter (\<lambda>a. P a < 0) (ys @ zs) = zs" using assms by auto
qed

definition rb_kept :: "'k rbtree \<Rightarrow> 'k rbtree \<Rightarrow> bool" where
  "rb_kept t t' \<longleftrightarrow> kv t' = kv t \<and> rb_cmp t' = rb_cmp t \<and> dom (rb_mem t') = dom (rb_mem t)"

lemma rb_step_ok:
  assumes t: "rb_table K t xs" and op: "rb_op_ok K t op"
  shows "\<exists>t'. rb_step op t = Some t' \<and> rb_table K t' (rb_spec (rb_cmp t) (kv t) op xs) \<and> rb_kept t t'"
proof (cases op)
  case (RbInsert d)
  show ?thesis
  proof (cases "\<exists>a \<in> set xs. rb_cmp t (kv t d) (kv t a) = 0")
    case True
    have "rbtree_insert t d = Some (None, t)"
    proof (cases "d \<in> set xs")
      case False
      with rbtree_insert_ok [OF t _ False] op True show ?thesis by (fastforce simp: RbInsert)
    next
      case d: True
      from t obtain T where T: "rb_holds t T" "inorder T = xs" "keys_sorted K t xs" by (rule rb_tableE)
      have "tree_at (lk t) (cp []) T" "rb_root t = rp T" using T(1) by (simp_all add: rb_holds_def)
      moreover have "new_place t (kv t d) [] 0" by (simp add: new_place_def)
      ultimately have f: "insert_find_loop t (kv t d) (rb_root t) None 0 = Some None \<or>
          place_found t (kv t d) T (insert_find_loop t (kv t d) (rb_root t) None 0)"
        using insert_find_loop_ok [of t "[]" T K "kv t d" 0] T(2,3) op by (auto simp: RbInsert)
      moreover have "\<not> place_found t (kv t d) T r" for r
      proof
        assume "place_found t (kv t d) T r"
        then obtain c q where c: "T = plug c Leaf" "new_place t (kv t d) c q" by (auto simp: place_found_def)
        then have "xs = c_left c @ c_right c" using T(2) by (simp add: inorder_plug)
        with True c(2) show False by (auto simp: new_place_def)
      qed
      ultimately have "insert_find_loop t (kv t d) (rb_root t) None 0 = Some None" by blast
      moreover have "get_key t (Some d) = Some (kv t d)" using op by (auto simp: RbInsert get_key_def kv_def ky_def)
      ultimately show ?thesis by (simp add: rbtree_insert_def)
    qed
    then show ?thesis using True t by (simp add: RbInsert rb_kept_def)
  next
    case False
    have "comparator K (rb_cmp t)" using t by (auto simp: rb_table_def keys_sorted_def)
    then have "d \<notin> set xs" using False op comparator.cmp_refl by (fastforce simp: RbInsert)
    with rbtree_insert_ok [OF t _ this] op False obtain t' ys zs where
      1: "rbtree_insert t d = Some (Some d, t')" "xs = ys @ zs" "rb_table K t' (ys @ d # zs)" "kv t' = kv t" "rb_cmp t' = rb_cmp t"
      "\<And>a. a \<notin> insert d (set xs) \<Longrightarrow> rb_mem t' a = rb_mem t a"
      "\<forall>a \<in> set ys. 0 < rb_cmp t (kv t d) (kv t a)" "\<forall>a \<in> set zs. rb_cmp t (kv t d) (kv t a) < 0"
      by (auto simp: RbInsert)
    have "dom (rb_mem t') = dom (rb_mem t)"
    proof (rule set_eqI)
      fix a
      show "a \<in> dom (rb_mem t') \<longleftrightarrow> a \<in> dom (rb_mem t)"
        using 1(6) [of a] rb_holds_mem [OF t, of a] rb_holds_mem [OF 1(3), of a] op 1(2)
        by (cases "a \<in> insert d (set xs)") (auto simp: RbInsert domIff)
    qed
    with 1 filter_split [OF 1(7,8)] False show ?thesis by (simp add: RbInsert rb_kept_def)
  qed
next
  case (RbDelete key)
  have k: "key \<in> K" using op by (simp add: RbDelete)
  show ?thesis
  proof (cases "find (\<lambda>a. rb_cmp t key (kv t a) = 0) xs")
    case None
    with rbtree_delete_ok [OF t k] t show ?thesis by (simp add: RbDelete rb_kept_def)
  next
    case (Some x)
    with rbtree_delete_ok [OF t k] obtain t' where
      "rbtree_delete t key = Some (Some x, t')" "rb_table K t' (remove1 x xs)" "kv t' = kv t" "rb_cmp t' = rb_cmp t"
      "dom (rb_mem t') = dom (rb_mem t)" by auto
    with Some show ?thesis by (simp add: RbDelete rb_kept_def)
  qed
qed

lemma rb_kept_trans: "rb_kept t u \<Longrightarrow> rb_kept u v \<Longrightarrow> rb_kept t v"
  by (simp add: rb_kept_def)

lemma rb_op_ok_kept: "rb_kept t t' \<Longrightarrow> rb_op_ok K t' op \<longleftrightarrow> rb_op_ok K t op"
  by (cases op) (auto simp: rb_kept_def domIff)

lemma rb_run_ok:
  assumes "rb_table K t xs" "list_all (rb_op_ok K t) ops"
  shows "\<exists>t'. run_ops rb_step ops t = Some t' \<and> rb_table K t' (fold (rb_spec (rb_cmp t) (kv t)) ops xs) \<and> rb_kept t t'"
  using assms
proof (induction ops arbitrary: t xs)
  case Nil
  then show ?case by (simp add: rb_kept_def)
next
  case (Cons op ops)
  have "rb_op_ok K t op" using Cons.prems(2) by simp
  from rb_step_ok [OF Cons.prems(1) this] obtain t1 where
    1: "rb_step op t = Some t1" "rb_table K t1 (rb_spec (rb_cmp t) (kv t) op xs)" "rb_kept t t1" by blast
  have k: "kv t1 = kv t" "rb_cmp t1 = rb_cmp t" using 1(3) by (simp_all add: rb_kept_def)
  have "list_all (rb_op_ok K t1) ops" using Cons.prems(2) by (simp add: rb_op_ok_kept [OF 1(3)] list_all_iff)
  from Cons.IH [OF 1(2) this] obtain t2 where
    2: "run_ops rb_step ops t1 = Some t2" "rb_table K t2 (fold (rb_spec (rb_cmp t) (kv t)) ops (rb_spec (rb_cmp t) (kv t) op xs))"
    "rb_kept t1 t2" unfolding k by blast
  with 1(1) rb_kept_trans [OF 1(3) 2(3)] show ?case by simp
qed

section \<open>Height\<close>

lemma bal_size: "bal f n T \<Longrightarrow> 2 ^ n \<le> Suc (size T)"
proof (induction T arbitrary: n)
  case (Node l a r)
  then obtain k where k: "n = bump (f a) k" "bal f k l" "bal f k r" by auto
  have "2 ^ k \<le> Suc (size l)" "2 ^ k \<le> Suc (size r)" using Node.IH k(2,3) by blast+
  then show ?case using k(1) by (cases "f a") simp_all
qed simp

lemma nored_height: "bal f n T \<Longrightarrow> nored f T \<Longrightarrow> height T \<le> 2 * n + (if rcol f T = RED then 1 else 0)"
proof (induction T arbitrary: n)
  case (Node l a r)
  then obtain k where k: "n = bump (f a) k" "bal f k l" "bal f k r" by auto
  have "height l \<le> 2 * k + (if rcol f l = RED then 1 else 0)" "height r \<le> 2 * k + (if rcol f r = RED then 1 else 0)"
    using Node.IH k(2,3) Node.prems(2) by simp_all
  then show ?case using k(1) Node.prems(2) by (cases "f a") (auto split: if_splits)
qed simp

lemma rb_inv_height:
  assumes "rb_inv f T"
  shows "2 ^ height T \<le> (Suc (size T))\<^sup>2"
proof -
  obtain n where n: "bal f n T" "nored f T" "rcol f T = BLACK" using assms by (auto simp: rb_inv_def)
  have "(2 :: nat) ^ height T \<le> 2 ^ (2 * n)" using nored_height [OF n(1,2)] n(3) by simp
  also have "\<dots> = (2 ^ n)\<^sup>2" by (simp add: power_mult mult.commute)
  also have "\<dots> \<le> (Suc (size T))\<^sup>2" using bal_size [OF n(1)] by (rule power_mono) simp
  finally show ?thesis .
qed

section \<open>Properties\<close>

lemma rb_init_table: "comparator K cmp \<Longrightarrow> rb_table K (rbtree_init cmp raw) []"
  by (auto simp: rb_table_def keys_sorted_def rbtree_init_def rb_holds_def rb_inv_def)

lemma rb_init_view: "kv (rbtree_init cmp raw) = kv raw" "rb_cmp (rbtree_init cmp raw) = cmp"
    "rb_mem (rbtree_init cmp raw) = rb_mem raw"
  by (simp_all add: kv_def ky_def rbtree_init_def fun_eq_iff)

lemma rb_op_ok_init: "rb_op_ok K (rbtree_init cmp raw) op = rb_op_ok K raw op"
  by (cases op) (simp_all add: rb_init_view)

lemma rb_run_from_init:
  assumes "comparator K cmp" "list_all (rb_op_ok K raw) ops"
  shows "\<exists>t. run_ops rb_step ops (rbtree_init cmp raw) = Some t \<and> rb_table K t (fold (rb_spec cmp (kv raw)) ops []) \<and>
    kv t = kv raw \<and> rb_cmp t = cmp"
proof -
  have "rb_op_ok K (rbtree_init cmp raw) = rb_op_ok K raw" by (rule ext) (rule rb_op_ok_init)
  then show ?thesis
    using rb_run_ok [OF rb_init_table [OF assms(1), of raw], of ops] assms(2) by (auto simp: rb_init_view rb_kept_def)
qed

text \<open>A memory with four nodes, to show the properties at work.\<close>

definition int_cmp :: "int \<Rightarrow> int \<Rightarrow> int" where
  "int_cmp a b = (if a < b then - 1 else if a > b then 1 else 0)"

definition four_nodes :: "int rbtree" where
  "four_nodes = \<lparr>rb_root = None, rb_count = 0, rb_cmp = int_cmp, rb_mem =
     map_of (map (\<lambda>(a, k). (a, \<lparr>rb_parent = None, rb_left = None, rb_right = None, rb_key = k, rb_color = BLACK\<rparr>))
       [(1, 30), (2, 10), (3, 20), (4, 10)])\<rparr>"

definition four_ops :: "int rb_op list" where
  "four_ops = [RbInsert 1, RbInsert 2, RbInsert 3, RbInsert 4, RbDelete 30, RbDelete 5, RbInsert 1]"

lemma int_cmp_comparator: "comparator UNIV int_cmp"
  by unfold_locales (auto simp: int_cmp_def split: if_splits)

lemma four_ops_ok: "list_all (rb_op_ok UNIV four_nodes) four_ops"
  by (simp add: four_ops_def four_nodes_def)

lemma four_kv: "kv four_nodes (Suc 0) = 30" "kv four_nodes 2 = 10" "kv four_nodes 3 = 20" "kv four_nodes 4 = 10"
  by (simp_all add: kv_def ky_def four_nodes_def)

lemma four_run: "fold (rb_spec int_cmp (kv four_nodes)) four_ops [] = [2, 3, 1]"
  by (simp add: four_ops_def four_kv int_cmp_def)

lemma mset_postorder: "mset (postorder T) = mset (inorder T)"
  by (induction T) simp_all

text \<open>
  C8. The tree is a sorted list: after any sequence of insertions and deletions on a new tree, none of
  which fails, loops or writes to the sentinel node that all trees share, it is a red-black tree
  (links consistent in both directions, no red node with a red child, equally many black nodes on
  every path) whose nodes in order are those of the sorted list with the same insertions and
  deletions, where an insertion of a key that is present does nothing; the node count is its length, and
  \<open>rbtree_search\<close> finds exactly the nodes of the list.
\<close>

theorem rbtree_refines_sorted_list:
  assumes "comparator K cmp" "list_all (rb_op_ok K raw) ops"
  shows "\<exists>t. run_ops rb_step ops (rbtree_init cmp raw) = Some t \<and>
    rb_table K t (fold (rb_spec cmp (kv raw)) ops []) \<and>
    rb_count t = of_nat (length (fold (rb_spec cmp (kv raw)) ops [])) \<and>
    (\<forall>key \<in> K. rbtree_search t key = Some (find (\<lambda>a. cmp key (kv raw a) = 0) (fold (rb_spec cmp (kv raw)) ops [])))"
proof -
  from rb_run_from_init [OF assms] obtain t where
    1: "run_ops rb_step ops (rbtree_init cmp raw) = Some t" "rb_table K t (fold (rb_spec cmp (kv raw)) ops [])"
      "kv t = kv raw" "rb_cmp t = cmp" by blast
  show ?thesis using 1 rbtree_search_ok [OF 1(2)] by (auto simp: rb_table_def)
qed

theorem rbtree_refines_sorted_list_witness:
  "\<exists>t. run_ops rb_step four_ops (rbtree_init int_cmp four_nodes) = Some t \<and> rb_table UNIV t [2, 3, 1] \<and>
    rb_count t = 3 \<and> rbtree_search t 20 = Some (Some 3) \<and> rbtree_search t 15 = Some None"
  using rbtree_refines_sorted_list [OF int_cmp_comparator four_ops_ok] unfolding four_run
  by (auto simp: four_kv int_cmp_def)

text \<open>
  C25. Searches are logarithmic: after any sequence of insertions and deletions on a new tree, the tree with
  \<open>n\<close> nodes has a height of at most \<open>2 * log 2 (n + 1)\<close>, so every path that a search or the loops of an
  insertion or a deletion follow is that short.
\<close>

theorem rbtree_height_bound:
  assumes "comparator K cmp" "list_all (rb_op_ok K raw) ops"
  shows "\<exists>t T. run_ops rb_step ops (rbtree_init cmp raw) = Some t \<and> rb_holds t T \<and>
    inorder T = fold (rb_spec cmp (kv raw)) ops [] \<and> real (height T) \<le> 2 * log 2 (real (size T + 1))"
proof -
  from rb_run_from_init [OF assms] obtain t where
    1: "run_ops rb_step ops (rbtree_init cmp raw) = Some t" "rb_table K t (fold (rb_spec cmp (kv raw)) ops [])" by blast
  from 1(2) obtain T where T: "rb_holds t T" "rb_inv (cl t) T" "inorder T = fold (rb_spec cmp (kv raw)) ops []"
    by (rule rb_tableE)
  have "real (2 ^ height T) \<le> real ((Suc (size T))\<^sup>2)" using rb_inv_height [OF T(2)] by (simp only: of_nat_le_iff)
  then have "log 2 (2 ^ height T) \<le> log 2 ((real (size T + 1))\<^sup>2)" by (subst log_le_cancel_iff) simp_all
  then have "real (height T) \<le> 2 * log 2 (real (size T + 1))" by (simp add: log_nat_power)
  with 1(1) T show ?thesis by blast
qed

theorem rbtree_height_bound_witness:
  "\<exists>t T. run_ops rb_step four_ops (rbtree_init int_cmp four_nodes) = Some t \<and> rb_holds t T \<and>
    inorder T = [2, 3, 1] \<and> real (height T) \<le> 2 * log 2 (real (size T + 1))"
  using rbtree_height_bound [OF int_cmp_comparator four_ops_ok] unfolding four_run .

text \<open>
  C26. Loops over the tree end and visit every node once, in order: \<open>RBTREE_FOR\<close> visits the nodes by
  increasing key, and the loop from \<open>rbtree_last\<close> by \<open>rbtree_previous\<close> visits them by decreasing key.
\<close>

theorem rbtree_loops_visit_all:
  assumes "comparator K cmp" "list_all (rb_op_ok K raw) ops" "run_ops rb_step ops (rbtree_init cmp raw) = Some t"
  shows "rbtree_for t = Some (fold (rb_spec cmp (kv raw)) ops []) \<and>
    Option.bind (rbtree_last t) (\<lambda>n. for_nodes rbtree_previous t n []) = Some (rev (fold (rb_spec cmp (kv raw)) ops [])) \<and>
    sorted_wrt (\<lambda>a b. cmp (kv raw a) (kv raw b) < 0) (fold (rb_spec cmp (kv raw)) ops [])"
proof -
  let ?xs = "fold (rb_spec cmp (kv raw)) ops []"
  from rb_run_from_init [OF assms(1,2)] assms(3) have 1: "rb_table K t ?xs" "kv t = kv raw" "rb_cmp t = cmp" by auto
  have "rb_table K t (rev (rev ?xs))" using 1(1) by simp
  from backward.for_all [OF this] forward.for_all [OF 1(1)] 1 show ?thesis
    by (simp add: rbtree_for_def rb_table_def keys_sorted_def)
qed

theorem rbtree_loops_visit_all_witness:
  "\<exists>t. run_ops rb_step four_ops (rbtree_init int_cmp four_nodes) = Some t \<and> rbtree_for t = Some [2, 3, 1]"
  using rb_run_from_init [OF int_cmp_comparator four_ops_ok]
    rbtree_loops_visit_all [OF int_cmp_comparator four_ops_ok] unfolding four_run by blast

text \<open>
  C27. \<open>rbtree_find_less_equal\<close> finds the closest key that is not larger: it reports an exact match if and
  only if the key is present, its result is then the node with that key, otherwise the node with the
  largest smaller key, and no result only if all keys of the tree are larger.
\<close>

theorem rbtree_find_less_equal_closest:
  assumes "rb_table K t xs" "key \<in> K"
  shows "\<exists>exact res. rbtree_find_less_equal t key = Some (exact, res) \<and>
    (exact \<longleftrightarrow> (\<exists>a \<in> set xs. rb_cmp t key (kv t a) = 0)) \<and>
    (case res of
       None \<Rightarrow> \<forall>a \<in> set xs. rb_cmp t key (kv t a) < 0
     | Some a \<Rightarrow> a \<in> set xs \<and> (if exact then rb_cmp t key (kv t a) = 0 else 0 < rb_cmp t key (kv t a)) \<and>
         (\<forall>b \<in> set xs. 0 \<le> rb_cmp t key (kv t b) \<longrightarrow> b = a \<or> rb_cmp t (kv t b) (kv t a) < 0))"
  using rbtree_find_less_equal_ok [OF assms] le_find_closest [of K t xs key] assms by (auto simp: rb_table_def)

theorem rbtree_find_less_equal_closest_witness:
  "\<exists>t. run_ops rb_step four_ops (rbtree_init int_cmp four_nodes) = Some t \<and>
    rbtree_find_less_equal t 29 = Some (False, Some 3)"
proof -
  from rb_run_from_init [OF int_cmp_comparator four_ops_ok] obtain t where
    1: "run_ops rb_step four_ops (rbtree_init int_cmp four_nodes) = Some t" "rb_table UNIV t [2, 3, 1]"
      "kv t = kv four_nodes" "rb_cmp t = int_cmp" unfolding four_run by blast
  from rbtree_find_less_equal_closest [OF 1(2) UNIV_I, of 29] obtain e r where
    2: "rbtree_find_less_equal t 29 = Some (e, r)" "e \<longleftrightarrow> (\<exists>a \<in> set [2, 3, 1]. int_cmp 29 (kv four_nodes a) = 0)"
      "case r of None \<Rightarrow> \<forall>a \<in> set [2, 3, 1]. int_cmp 29 (kv four_nodes a) < 0
       | Some a \<Rightarrow> a \<in> set [2, 3, 1] \<and>
           (if e then int_cmp 29 (kv four_nodes a) = 0 else 0 < int_cmp 29 (kv four_nodes a)) \<and>
           (\<forall>b \<in> set [2, 3, 1]. 0 \<le> int_cmp 29 (kv four_nodes b) \<longrightarrow>
              b = a \<or> int_cmp (kv four_nodes b) (kv four_nodes a) < 0)"
    unfolding 1(3,4) by blast
  have "\<not> e" using 2(2) by (simp add: four_kv int_cmp_def)
  moreover have "r = Some 3" using 2(3) \<open>\<not> e\<close> by (cases r) (auto simp: four_kv int_cmp_def)
  ultimately show ?thesis using 1(1) 2(1) by simp
qed

text \<open>
  C28. A traversal in postorder may free the nodes: \<open>traverse_postorder\<close> calls the function once for every
  node of the tree, after its children, and does not fail for a function that may do anything with the
  node it is called for, such as freeing it, and leaves the other nodes alone.
\<close>

theorem traverse_postorder_frees_all:
  assumes "rb_table K t xs" "local_callback func g"
  shows "\<exists>T t'. rb_holds t T \<and> inorder T = xs \<and> mset (postorder T) = mset xs \<and>
    traverse_postorder func t s = Some (t', fold g (postorder T) s) \<and>
    (\<forall>b. b \<notin> set xs \<longrightarrow> rb_mem t' b = rb_mem t b)"
proof -
  from assms(1) obtain T where T: "rb_holds t T" "inorder T = xs" by (rule rb_tableE)
  then have "tree_at (lk t) None T" "distinct (inorder T)" "rb_root t = rp T" by (simp_all add: rb_holds_def)
  from traverse_post_ok [OF assms(2) this(1,2), of s] this(3) obtain t' where
    "traverse_postorder func t s = Some (t', fold g (postorder T) s)" "\<forall>b. b \<notin> set_tree T \<longrightarrow> rb_mem t' b = rb_mem t b"
    by (auto simp: traverse_postorder_def)
  moreover have "mset (postorder T) = mset xs"
    using mset_postorder [of T] T(2) by simp
  ultimately show ?thesis using T by (metis set_inorder)
qed

definition free_node :: "addr \<Rightarrow> 'k rbtree \<times> addr list \<Rightarrow> ('k rbtree \<times> addr list) option" where
  "free_node a = (\<lambda>(t, freed). if rb_mem t a = None then None
     else Some (t\<lparr>rb_mem := (rb_mem t)(a := None)\<rparr>, freed @ [a]))"

theorem traverse_postorder_frees_all_witness:
  "\<exists>t ys t'. run_ops rb_step four_ops (rbtree_init int_cmp four_nodes) = Some t \<and>
    traverse_postorder free_node t [] = Some (t', ys) \<and> mset ys = {#1, 2, 3#}"
proof -
  from rb_run_from_init [OF int_cmp_comparator four_ops_ok] obtain t where
    1: "run_ops rb_step four_ops (rbtree_init int_cmp four_nodes) = Some t" "rb_table UNIV t [2, 3, 1]"
    unfolding four_run by blast
  have l: "local_callback free_node (\<lambda>a s. s @ [a])" by (simp add: local_callback_def free_node_def)
  have f: "fold (\<lambda>a s. s @ [a]) ys s = s @ ys" for ys s :: "addr list" by (induction ys arbitrary: s) simp_all
  from traverse_postorder_frees_all [OF 1(2) l, of "[]"] obtain T t' where
    "mset (postorder T) = mset [2, 3, 1]" "traverse_postorder free_node t [] = Some (t', postorder T)"
    unfolding f by auto
  with 1(1) show ?thesis by (auto simp: add_mset_commute)
qed

end
