(* ===== verification/Dnstree_Encl.thy ===== *)
theory Dnstree_Encl
  imports Dnstree Rbtree_Props "HOL-Library.Sublist"
begin

text \<open>
  Trees whose nodes may contain each other, as a domain contains its subdomains and a netblock the
  smaller netblocks inside of it. A node stands for a path, a list; it contains the nodes whose paths
  continue its own. The tree is sorted by the lexicographic order of the paths. The locale has the
  laws that the two kinds of trees provide; from them follows that the links to the parents lead
  to the closest node around, and that a lookup finds the closest node around a key.
\<close>

section \<open>Lexicographic order and prefixes\<close>

lemma lexcmp_prefix_between:
  assumes "prefix p a" "prefix p c" "lexcmp e a b \<le> 0" "lexcmp e b c \<le> 0"
    and e: "comparator UNIV e" "\<And>x y. e x y = 0 \<longleftrightarrow> x = y"
  shows "prefix p b"
  using assms(1-4)
proof (induction p arbitrary: a b c)
  case Nil
  then show ?case by simp
next
  case (Cons x p)
  obtain a' where a: "a = x # a'" "prefix p a'" using Cons.prems(1) by (cases a) simp_all
  obtain c' where c: "c = x # c'" "prefix p c'" using Cons.prems(2) by (cases c) simp_all
  obtain y b' where b: "b = y # b'" using Cons.prems(3) by (cases b) (simp_all add: a)
  have "e x y \<le> 0" "e y x \<le> 0" using Cons.prems(3,4) by (simp_all add: a c b split: if_splits)
  then have "e x y = 0" using comparator.cmp_le_ge [OF e(1), of y x] by auto
  then have "x = y" using e(2) by simp
  moreover have "prefix p b'"
    using Cons.IH [of a' c' b'] Cons.prems(3,4) a c \<open>x = y\<close> e(2) [of x x] by (simp add: b)
  ultimately show ?case by (simp add: b)
qed

lemma lexcmp_strict_prefix:
  assumes "\<And>x. e x x = 0" "strict_prefix p q"
  shows "lexcmp e p q < 0"
proof -
  obtain r where "q = p @ r" "r \<noteq> []" using assms(2) by (auto simp: strict_prefix_def prefix_def)
  moreover have "lexcmp e p (p @ r) < 0" if "r \<noteq> []" for r
    using that assms(1) by (induction p) (cases r; simp)+
  ultimately show ?thesis by simp
qed

lemma prefix_lcp_iff:
  "prefix p a \<Longrightarrow> prefix p b \<longleftrightarrow> length p \<le> length (longest_common_prefix a b)"
proof (induction p arbitrary: a b)
  case (Cons x p)
  then obtain a' where "a = x # a'" "prefix p a'" by (auto simp: prefix_def)
  with Cons.IH [of a'] show ?case by (cases b) auto
qed simp

lemma lexcmp_zero_iff:
  assumes "\<And>x y. e x y = 0 \<longleftrightarrow> x = y"
  shows "lexcmp e a b = 0 \<longleftrightarrow> a = b"
  by (induction a b rule: list_induct2') (simp_all add: assms)

text \<open>The last element with a property.\<close>

lemma last_opt_filter_Some:
  assumes "sorted_wrt less_rel xs" "last_opt (filter Q xs) = Some b"
  shows "b \<in> set xs" "Q b" "\<And>a. a \<in> set xs \<Longrightarrow> Q a \<Longrightarrow> a = b \<or> less_rel a b"
proof -
  obtain ys where ys: "filter Q xs = ys @ [b]"
    using assms(2) by (cases "filter Q xs" rule: rev_cases) (auto simp: last_opt_def)
  then have "b \<in> set (filter Q xs)" by simp
  then show "b \<in> set xs" "Q b" by auto
  fix a assume "a \<in> set xs" "Q a"
  then have "a \<in> set (ys @ [b])" unfolding ys [symmetric] by simp
  moreover have "sorted_wrt less_rel (ys @ [b])" using sorted_wrt_filter [OF assms(1), of Q] ys by simp
  ultimately show "a = b \<or> less_rel a b" by (auto simp: sorted_wrt_append)
qed

lemma last_opt_filter_None: "last_opt (filter Q xs) = None \<longleftrightarrow> (\<forall>a \<in> set xs. \<not> Q a)"
  by (auto simp: last_opt_def filter_empty_conv)

lemma last_opt_filter_eqI:
  assumes "sorted_wrt less_rel xs" "b \<in> set xs" "Q b" "\<And>a. a \<in> set xs \<Longrightarrow> Q a \<Longrightarrow> \<not> less_rel b a"
  shows "last_opt (filter Q xs) = Some b"
proof (cases "last_opt (filter Q xs)")
  case None
  with assms(2,3) show ?thesis by (auto simp: last_opt_filter_None)
next
  case (Some c)
  from last_opt_filter_Some [OF assms(1) Some] assms(2-4) show ?thesis using Some by blast
qed

text \<open>Writing the key of a node that is not in the tree.\<close>

lemma key_write_ok:
  assumes t: "rb_table K t xs" and a: "a \<notin> set xs" "rb_mem t a \<noteq> None"
  shows "\<exists>t'. upd_node (Some a) (\<lambda>n. n\<lparr>rb_key := g n\<rparr>) t = Some t' \<and> rb_table K t' xs \<and> rb_cmp t' = rb_cmp t \<and>
    kv t' = (kv t)(a := g (the (rb_mem t a))) \<and> dom (rb_mem t') = dom (rb_mem t)"
proof -
  obtain n where n: "rb_mem t a = Some n" using a(2) by blast
  define t' where "t' = t\<lparr>rb_mem := (rb_mem t)(a \<mapsto> n\<lparr>rb_key := g n\<rparr>)\<rparr>"
  have v: "kv t' = (kv t)(a := g n)" "lk t' = lk t" "cl t' = cl t" "rb_root t' = rb_root t" "rb_cmp t' = rb_cmp t"
    "rb_count t' = rb_count t" "dom (rb_mem t') = dom (rb_mem t)"
    using n by (auto simp: t'_def kv_def ky_def lk_def cl_def fun_eq_iff)
  from t obtain T where T: "rb_holds t T" "rb_inv (cl t) T" "inorder T = xs" "keys_sorted K t xs" "rb_count t = of_nat (length xs)"
    by (rule rb_tableE)
  have "kv t' b = kv t b" if "b \<in> set xs" for b using that a(1) by (auto simp: v(1))
  from keys_sorted_cong [OF v(5) this] T(4) have "keys_sorted K t' xs" by simp
  moreover have "rb_holds t' T" using T(1) rb_holds_cong [OF v(2,4)] by simp
  ultimately have "rb_table K t' xs" using T by (auto simp: rb_table_def v)
  moreover have "upd_node (Some a) (\<lambda>n. n\<lparr>rb_key := g n\<rparr>) t = Some t'" using n by (simp add: upd_node_def t'_def)
  ultimately show ?thesis using v n by auto
qed

section \<open>The laws\<close>

locale encl_tree =
  fixes K :: "'k set" and cmp :: "'k \<Rightarrow> 'k \<Rightarrow> int" and f :: "'k node_ops"
    and path :: "'k \<Rightarrow> 'e list" and e :: "'e \<Rightarrow> 'e \<Rightarrow> int" and c :: nat
  assumes e_comparator: "comparator UNIV e"
    and e_eq: "e x y = 0 \<longleftrightarrow> x = y"
    and cmp_comparator: "comparator K cmp"
    and cmp_path: "k1 \<in> K \<Longrightarrow> k2 \<in> K \<Longrightarrow> cmp k1 k2 < 0 \<longleftrightarrow> lexcmp e (path k1) (path k2) < 0"
    and depth_path: "k1 \<in> K \<Longrightarrow> length (path k1) = depth f k1 + c"
    and same_path: "k1 \<in> K \<Longrightarrow> k2 \<in> K \<Longrightarrow> same_kind f k1 k2 \<longleftrightarrow> take c (path k1) = take c (path k2)"
    and common_path: "k1 \<in> K \<Longrightarrow> k2 \<in> K \<Longrightarrow> same_kind f k1 k2 \<Longrightarrow>
      \<exists>m. in_common f k1 k2 = Some m \<and> m + c = length (longest_common_prefix (path k1) (path k2))"
    and set_par_laws: "parent f (set_par f p k1) = p" "path (set_par f p k1) = path k1"
      "set_par f p k1 \<in> K \<longleftrightarrow> k1 \<in> K" "set_par f (parent f k1) k1 = k1"
      "set_par f p (set_par f q k1) = set_par f p k1"
begin

lemma lex_refl [simp]: "lexcmp e p p = 0"
  by (induction p) (simp_all add: e_eq)

lemma lex_comparator: "comparator UNIV (lexcmp e)"
  using comparator_lexcmp [OF e_comparator] by simp

lemma cmp_zero: "k1 \<in> K \<Longrightarrow> k2 \<in> K \<Longrightarrow> cmp k1 k2 = 0 \<longleftrightarrow> path k1 = path k2"
proof -
  assume K: "k1 \<in> K" "k2 \<in> K"
  have "cmp k1 k2 = 0 \<longleftrightarrow> \<not> cmp k1 k2 < 0 \<and> \<not> cmp k2 k1 < 0"
    using comparator.cmp_antisym [OF cmp_comparator K(2,1)] by auto
  also have "\<dots> \<longleftrightarrow> lexcmp e (path k1) (path k2) = 0"
    using cmp_path K comparator.cmp_antisym [OF lex_comparator, of "path k2" "path k1"] by auto
  finally show ?thesis by (simp add: lexcmp_zero_iff e_eq)
qed

lemma strict_prefix_less: "k1 \<in> K \<Longrightarrow> k2 \<in> K \<Longrightarrow> strict_prefix (path k1) (path k2) \<Longrightarrow> cmp k1 k2 < 0"
  using cmp_path lexcmp_strict_prefix [of e] e_eq by simp

lemma prefix_between:
  assumes "k1 \<in> K" "k2 \<in> K" "k3 \<in> K" "cmp k1 k2 < 0" "cmp k2 k3 < 0" "prefix p (path k1)" "prefix p (path k3)"
  shows "prefix p (path k2)"
proof (rule lexcmp_prefix_between [OF assms(6,7) _ _ e_comparator])
  show "lexcmp e (path k1) (path k2) \<le> 0" "lexcmp e (path k2) (path k3) \<le> 0"
    using assms(1-5) cmp_path [of k1 k2] cmp_path [of k2 k3] by simp_all
qed (rule e_eq)

lemma depth_le_iff: "k1 \<in> K \<Longrightarrow> depth f k1 \<le> m \<longleftrightarrow> length (path k1) \<le> m + c"
  by (simp add: depth_path)

section \<open>Parents\<close>

lemma table_sorted:
  assumes "rb_table K t xs" "rb_cmp t = cmp"
  shows "sorted_wrt (\<lambda>a b. cmp (kv t a) (kv t b) < 0) xs" "\<And>a. a \<in> set xs \<Longrightarrow> kv t a \<in> K"
  using assms by (auto simp: rb_table_def keys_sorted_def)

lemma table_key: "rb_table K t xs \<Longrightarrow> a \<in> set xs \<Longrightarrow> get_key t (Some a) = Some (kv t a)"
proof (elim rb_tableE)
  fix T assume "rb_holds t T" "inorder T = xs" "a \<in> set xs"
  then have "tree_at (lk t) None T" "a \<in> set_tree T" by (auto simp: rb_holds_def)
  from tree_at_Some [OF this] show ?thesis by (auto simp: lk_def get_key_def kv_def ky_def)
qed

text \<open>The last node around a path is inside of all others around it.\<close>

lemma last_around:
  assumes "rb_table K t xs" "rb_cmp t = cmp" "last_opt (filter (\<lambda>a. prefix (path (kv t a)) q) xs) = Some a"
  shows "a \<in> set xs" "prefix (path (kv t a)) q"
    "\<And>b. b \<in> set xs \<Longrightarrow> prefix (path (kv t b)) q \<Longrightarrow> prefix (path (kv t b)) (path (kv t a))"
proof -
  note srt = table_sorted [OF assms(1,2)]
  note l = last_opt_filter_Some [OF srt(1) assms(3)]
  show "a \<in> set xs" "prefix (path (kv t a)) q" by (rule l(1), rule l(2))
  fix b assume b: "b \<in> set xs" "prefix (path (kv t b)) q"
  note K = srt(2) [OF l(1)] srt(2) [OF b(1)]
  have "\<not> strict_prefix (path (kv t a)) (path (kv t b))"
    using l(3) [OF b] strict_prefix_less [OF K] comparator.cmp_antisym [OF cmp_comparator K] by auto
  then show "prefix (path (kv t b)) (path (kv t a))"
    using prefix_same_cases [OF b(2) l(2)] by (auto simp: strict_prefix_def)
qed

text \<open>The loop over the parents of a node, when the links of the nodes around it are right.\<close>

lemma up_loop_ok:
  assumes t: "rb_table K t xs" "rb_cmp t = cmp" and a: "a \<in> set xs"
    and par: "\<And>b. b \<in> set xs \<Longrightarrow> prefix (path (kv t b)) (path (kv t a)) \<Longrightarrow>
      parent f (kv t b) = last_opt (filter (\<lambda>q. strict_prefix (path (kv t q)) (path (kv t b))) xs)"
  shows "up_loop f t (Some a) m =
    Some (last_opt (filter (\<lambda>q. prefix (path (kv t q)) (path (kv t a)) \<and> depth f (kv t q) \<le> m) xs))"
  using a par
proof (induction "length (path (kv t a))" arbitrary: a rule: less_induct)
  case less
  let ?P = "\<lambda>q. path (kv t q)"
  note srt = table_sorted [OF t]
  have K: "kv t a \<in> K" using srt(2) less.prems(1) .
  have key: "get_key t (Some a) = Some (kv t a)" using table_key [OF t(1) less.prems(1)] .
  show ?case
  proof (cases "depth f (kv t a) \<le> m")
    case True
    have "last_opt (filter (\<lambda>q. prefix (?P q) (?P a) \<and> depth f (kv t q) \<le> m) xs) = Some a"
    proof (rule last_opt_filter_eqI [OF srt(1) less.prems(1)])
      fix q assume q: "q \<in> set xs" "prefix (?P q) (?P a) \<and> depth f (kv t q) \<le> m"
      show "\<not> cmp (kv t a) (kv t q) < 0"
        using q strict_prefix_less [OF srt(2) [OF q(1)] K] cmp_zero [OF K srt(2) [OF q(1)]]
          comparator.cmp_antisym [OF cmp_comparator K srt(2) [OF q(1)]] by (auto simp: strict_prefix_def)
    qed (use True in simp)
    with True key show ?thesis by (subst up_loop.simps) simp
  next
    case False
    have p: "parent f (kv t a) = last_opt (filter (\<lambda>q. strict_prefix (?P q) (?P a)) xs)"
      using less.prems by simp
    have step: "up_loop f t (Some a) m = up_loop f t (parent f (kv t a)) m"
      using False key by (subst up_loop.simps) simp
    have str: "strict_prefix (?P q) (?P a)" if "q \<in> set xs" "prefix (?P q) (?P a)" "depth f (kv t q) \<le> m" for q
      using that False depth_le_iff [OF srt(2) [OF that(1)], of m] depth_le_iff [OF K, of m] by (auto simp: strict_prefix_def)
    show ?thesis
    proof (cases "parent f (kv t a)")
      case None
      then have "\<forall>q \<in> set xs. \<not> strict_prefix (?P q) (?P a)" unfolding p last_opt_filter_None .
      then have "last_opt (filter (\<lambda>q. prefix (?P q) (?P a) \<and> depth f (kv t q) \<le> m) xs) = None"
        unfolding last_opt_filter_None using str by blast
      then show ?thesis unfolding step None by (simp add: up_loop.simps)
    next
      case (Some b)
      note b = last_opt_filter_Some [OF srt(1) Some [unfolded p]]
      have Kb: "kv t b \<in> K" using srt(2) b(1) .
      have "length (?P b) < length (?P a)" using b(2) by (rule prefix_length_less)
      moreover have "parent f (kv t q) = last_opt (filter (\<lambda>r. strict_prefix (?P r) (?P q)) xs)"
        if "q \<in> set xs" "prefix (?P q) (?P b)" for q
        using less.prems(2) [OF that(1)] that(2) b(2) by (meson prefix_order.order_trans strict_prefix_def)
      ultimately have IH: "up_loop f t (Some b) m =
          Some (last_opt (filter (\<lambda>q. prefix (?P q) (?P b) \<and> depth f (kv t q) \<le> m) xs))"
        using less.hyps b(1) by blast
      have "prefix (?P q) (?P a) \<longleftrightarrow> prefix (?P q) (?P b)" if q: "q \<in> set xs" "depth f (kv t q) \<le> m" for q
      proof
        assume "prefix (?P q) (?P b)"
        then show "prefix (?P q) (?P a)" using b(2) by (meson prefix_order.order_trans strict_prefix_def)
      next
        assume qa: "prefix (?P q) (?P a)"
        have "q = b \<or> cmp (kv t q) (kv t b) < 0" using b(3) [OF q(1)] str [OF q(1) qa q(2)] .
        moreover have "\<not> strict_prefix (?P b) (?P q)" if "cmp (kv t q) (kv t b) < 0"
          using that strict_prefix_less [OF Kb srt(2) [OF q(1)]]
            comparator.cmp_antisym [OF cmp_comparator Kb srt(2) [OF q(1)]] by auto
        ultimately show "prefix (?P q) (?P b)"
          using prefix_same_cases [OF qa, of "?P b"] b(2) by (auto simp: strict_prefix_def)
      qed
      then have "filter (\<lambda>q. prefix (?P q) (?P a) \<and> depth f (kv t q) \<le> m) xs =
          filter (\<lambda>q. prefix (?P q) (?P b) \<and> depth f (kv t q) \<le> m) xs"
        by (intro filter_cong) auto
      then show ?thesis unfolding step Some IH by simp
    qed
  qed
qed

text \<open>The closest node around a key, from the last node before the key.\<close>

lemma closest_from:
  assumes t: "rb_table K t xs" "rb_cmp t = cmp" and a: "a \<in> set xs"
    and par: "\<And>b. b \<in> set xs \<Longrightarrow> prefix (path (kv t b)) (path (kv t a)) \<Longrightarrow>
      parent f (kv t b) = last_opt (filter (\<lambda>q. strict_prefix (path (kv t q)) (path (kv t b))) xs)"
    and k: "k \<in> K" "cmp (kv t a) k < 0" "\<And>q. q \<in> set xs \<Longrightarrow> cmp (kv t q) k < 0 \<Longrightarrow> q = a \<or> cmp (kv t q) (kv t a) < 0"
  shows "if same_kind f (kv t a) k
    then \<exists>m. in_common f (kv t a) k = Some m \<and>
      up_loop f t (Some a) m = Some (last_opt (filter (\<lambda>q. strict_prefix (path (kv t q)) (path k)) xs))
    else last_opt (filter (\<lambda>q. strict_prefix (path (kv t q)) (path k)) xs) = None"
proof -
  let ?P = "\<lambda>q. path (kv t q)"
  note srt = table_sorted [OF t]
  have Ka: "kv t a \<in> K" using srt(2) a .
  have up: "prefix (?P q) (?P a)" if q: "q \<in> set xs" "strict_prefix (?P q) (path k)" for q
  proof -
    have Kq: "kv t q \<in> K" using srt(2) q(1) .
    have "q = a \<or> cmp (kv t q) (kv t a) < 0" using k(3) [OF q(1) strict_prefix_less [OF Kq k(1) q(2)]] .
    then show ?thesis using prefix_between [OF Kq Ka k(1) _ k(2), of "?P q"] q(2) by (auto simp: strict_prefix_def)
  qed
  show ?thesis
  proof (cases "same_kind f (kv t a) k")
    case True
    then obtain m where m: "in_common f (kv t a) k = Some m" "m + c = length (longest_common_prefix (?P a) (path k))"
      using common_path [OF Ka k(1)] by blast
    have ne: "?P a \<noteq> path k" using cmp_zero [OF Ka k(1)] k(2) by simp
    have "prefix (?P q) (?P a) \<and> depth f (kv t q) \<le> m \<longleftrightarrow> strict_prefix (?P q) (path k)" if q: "q \<in> set xs" for q
    proof -
      have Kq: "kv t q \<in> K" using srt(2) q .
      have "\<not> (prefix (?P q) (?P a) \<and> ?P q = path k)"
        using ne strict_prefix_less [OF k(1) Ka] comparator.cmp_antisym [OF cmp_comparator Ka k(1)] k(2)
        by (auto simp: strict_prefix_def)
      moreover have "depth f (kv t q) \<le> m \<longleftrightarrow> prefix (?P q) (path k)" if "prefix (?P q) (?P a)"
        using prefix_lcp_iff [OF that, of "path k"] depth_le_iff [OF Kq, of m] m(2) by simp
      ultimately show ?thesis using up [OF q] unfolding strict_prefix_def by blast
    qed
    then have "filter (\<lambda>q. prefix (?P q) (?P a) \<and> depth f (kv t q) \<le> m) xs = filter (\<lambda>q. strict_prefix (?P q) (path k)) xs"
      by (intro filter_cong) auto
    with True m(1) up_loop_ok [OF t a par, of m] show ?thesis by simp
  next
    case False
    have "\<not> strict_prefix (?P q) (path k)" if q: "q \<in> set xs" for q
    proof
      assume s: "strict_prefix (?P q) (path k)"
      have "c \<le> length (?P q)" using depth_path [OF srt(2) [OF q]] by simp
      moreover have "prefix (?P q) (path k)" "prefix (?P q) (?P a)" using s up [OF q s] by (simp_all add: strict_prefix_def)
      ultimately have "take c (?P a) = take c (path k)" by (auto simp: prefix_def)
      with False same_path [OF Ka k(1)] show False by simp
    qed
    then show ?thesis unfolding last_opt_filter_None using False by simp
  qed
qed

lemma set_node_parent_ok:
  assumes t: "rb_table K t xs" "rb_cmp t = cmp" and a: "a \<in> set xs"
  shows "\<exists>t'. set_node_parent f a p t = Some t' \<and> rb_table K t' xs \<and> rb_cmp t' = cmp \<and>
    kv t' = (kv t)(a := set_par f p (kv t a)) \<and> dom (rb_mem t') = dom (rb_mem t)"
proof -
  from table_key [OF t(1) a] obtain n where n: "rb_mem t a = Some n" "kv t a = rb_key n"
    by (auto simp: get_key_def)
  define t' where "t' = t\<lparr>rb_mem := (rb_mem t)(a \<mapsto> n\<lparr>rb_key := set_par f p (rb_key n)\<rparr>)\<rparr>"
  have run: "set_node_parent f a p t = Some t'" using n by (simp add: set_node_parent_def upd_node_def t'_def)
  have v: "kv t' = (kv t)(a := set_par f p (kv t a))" "lk t' = lk t" "cl t' = cl t" "rb_root t' = rb_root t"
    "rb_cmp t' = cmp" "rb_count t' = rb_count t" "dom (rb_mem t') = dom (rb_mem t)"
    using n t(2) by (auto simp: t'_def kv_def ky_def lk_def cl_def fun_eq_iff)
  have pk: "path (kv t' b) = path (kv t b)" "kv t' b \<in> K \<longleftrightarrow> kv t b \<in> K" for b
    using set_par_laws by (simp_all add: v(1))
  note srt = table_sorted [OF t]
  have "sorted_wrt (\<lambda>x y. cmp (kv t' x) (kv t' y) < 0) xs"
  proof (rule sorted_wrt_mono_rel [OF _ srt(1)])
    fix x y assume "x \<in> set xs" "y \<in> set xs" "cmp (kv t x) (kv t y) < 0"
    then show "cmp (kv t' x) (kv t' y) < 0" using srt(2) cmp_path pk by metis
  qed
  then have "keys_sorted K t' xs" using srt(2) pk by (auto simp: keys_sorted_def v cmp_comparator)
  moreover from t(1) obtain T where T: "rb_holds t T" "rb_inv (cl t) T" "inorder T = xs" "rb_count t = of_nat (length xs)"
    by (rule rb_tableE)
  have "rb_holds t' T" using T(1) rb_holds_cong [OF v(2,4)] by simp
  ultimately have "rb_table K t' xs" using T(2-4) by (auto simp: rb_table_def v)
  with run v show ?thesis by blast
qed

text \<open>Two trees that differ in the links to parents only.\<close>

definition same_but_parents :: "'k rbtree \<Rightarrow> 'k rbtree \<Rightarrow> bool" where
  "same_but_parents t t' \<longleftrightarrow> (\<forall>b. kv t' b = set_par f (parent f (kv t' b)) (kv t b)) \<and> dom (rb_mem t') = dom (rb_mem t)"

lemma same_but_parents_refl [simp]: "same_but_parents t t"
  by (simp add: same_but_parents_def set_par_laws)

lemma same_but_parents_trans: "same_but_parents t u \<Longrightarrow> same_but_parents u v \<Longrightarrow> same_but_parents t v"
  unfolding same_but_parents_def by (metis set_par_laws(5))

lemma same_but_parents_path: "same_but_parents t t' \<Longrightarrow> path (kv t' b) = path (kv t b)"
  unfolding same_but_parents_def by (metis set_par_laws(2))

definition parents_right :: "'k rbtree \<Rightarrow> addr list \<Rightarrow> addr set \<Rightarrow> bool" where
  "parents_right t xs S \<longleftrightarrow>
     (\<forall>b \<in> S. parent f (kv t b) = last_opt (filter (\<lambda>q. strict_prefix (path (kv t q)) (path (kv t b))) xs))"

lemma set_node_parent_right:
  assumes t: "rb_table K t xs" "rb_cmp t = cmp" and a: "a \<in> set xs" "a \<notin> S" and S: "parents_right t xs S"
  obtains t' where "set_node_parent f a p t = Some t'" "rb_table K t' xs" "rb_cmp t' = cmp" "same_but_parents t t'"
    "parents_right t' xs S" "parent f (kv t' a) = p"
proof -
  from set_node_parent_ok [OF t a(1), of p] obtain t' where
    1: "set_node_parent f a p t = Some t'" "rb_table K t' xs" "rb_cmp t' = cmp"
    "kv t' = (kv t)(a := set_par f p (kv t a))" "dom (rb_mem t') = dom (rb_mem t)" by blast
  have 2: "same_but_parents t t'" unfolding same_but_parents_def 1(4) using 1(5) by (simp add: set_par_laws)
  have "kv t' b = kv t b" if "b \<in> S" for b using that a(2) by (auto simp: 1(4))
  then have "parents_right t' xs S" using S by (simp add: parents_right_def same_but_parents_path [OF 2])
  moreover have "parent f (kv t' a) = p" by (simp add: 1(4) set_par_laws)
  ultimately show ?thesis using that 1(1-3) 2 by blast
qed

lemma init_parent_ok:
  assumes t: "rb_table K t (ys @ a # zs)" "rb_cmp t = cmp" and S: "parents_right t (ys @ a # zs) (set ys)"
  obtains t' where "init_parent f (last_opt ys) a t = Some t'" "rb_table K t' (ys @ a # zs)" "rb_cmp t' = cmp"
    "same_but_parents t t'" "parents_right t' (ys @ a # zs) (set (ys @ [a]))"
proof -
  let ?xs = "ys @ a # zs"
  have d: "distinct ?xs" using t(1) by (auto simp: rb_table_def rb_holds_def)
  then have a: "a \<in> set ?xs" "a \<notin> set ys" by auto
  obtain t1 where 1: "set_node_parent f a None t = Some t1" "rb_table K t1 ?xs" "rb_cmp t1 = cmp" "same_but_parents t t1"
    "parents_right t1 ?xs (set ys)" "parent f (kv t1 a) = None" by (rule set_node_parent_right [OF t a S])
  note srt = table_sorted [OF 1(2,3)]
  define up where "up = last_opt (filter (\<lambda>q. strict_prefix (path (kv t1 q)) (path (kv t1 a))) ?xs)"
  note goal = that
  have fin: thesis if "init_parent f (last_opt ys) a t = Some t'" "rb_table K t' ?xs" "rb_cmp t' = cmp" "same_but_parents t1 t'"
      "parents_right t' ?xs (set ys)" "parent f (kv t' a) = up" for t'
  proof (rule goal [OF that(1-3)])
    show "same_but_parents t t'" using same_but_parents_trans [OF 1(4) that(4)] .
    show "parents_right t' ?xs (set (ys @ [a]))"
      using that(5,6) unfolding parents_right_def up_def same_but_parents_path [OF that(4)] by simp
  qed
  have Kb: "kv t1 b \<in> K" if "b \<in> set ?xs" for b using srt(2) that .
  have later: "\<not> strict_prefix (path (kv t1 q)) (path (kv t1 a))" if "q \<in> set zs" for q
  proof
    assume "strict_prefix (path (kv t1 q)) (path (kv t1 a))"
    then have "cmp (kv t1 q) (kv t1 a) < 0" using strict_prefix_less Kb that by simp
    moreover have "cmp (kv t1 a) (kv t1 q) < 0" using srt(1) that by (auto simp: sorted_wrt_append)
    ultimately show False using comparator.cmp_antisym [OF cmp_comparator Kb Kb, of q a] that by auto
  qed
  show thesis
  proof (cases ys rule: rev_cases)
    case Nil
    then have "up = None" unfolding up_def last_opt_filter_None using later by auto
    moreover have "init_parent f (last_opt ys) a t = Some t1" using 1(1) by (simp add: init_parent_def Nil last_opt_def)
    ultimately show ?thesis using fin 1 by simp
  next
    case (snoc ys' b)
    have b: "b \<in> set ?xs" "last_opt ys = Some b" using snoc by (simp_all add: last_opt_def)
    have "cmp (kv t1 b) (kv t1 a) < 0" using srt(1) by (auto simp: snoc sorted_wrt_append)
    moreover have "q = b \<or> cmp (kv t1 q) (kv t1 b) < 0" if "q \<in> set ?xs" "cmp (kv t1 q) (kv t1 a) < 0" for q
    proof -
      have "q \<noteq> a" using that comparator.cmp_refl [OF cmp_comparator Kb [OF a(1)]] by auto
      moreover have "q \<notin> set zs"
        using that(2) srt(1) comparator.cmp_antisym [OF cmp_comparator Kb [OF that(1)] Kb [OF a(1)]] by (auto simp: sorted_wrt_append)
      ultimately show ?thesis using that(1) srt(1) by (auto simp: snoc sorted_wrt_append)
    qed
    moreover have "parent f (kv t1 q) = last_opt (filter (\<lambda>r. strict_prefix (path (kv t1 r)) (path (kv t1 q))) ?xs)"
      if q: "q \<in> set ?xs" "prefix (path (kv t1 q)) (path (kv t1 b))" for q
    proof -
      have "q \<in> set ys"
      proof (rule ccontr)
        assume "q \<notin> set ys"
        then have "cmp (kv t1 b) (kv t1 q) < 0" using q(1) srt(1) by (auto simp: snoc sorted_wrt_append)
        then show False using q(2) strict_prefix_less [OF Kb [OF q(1)] Kb [OF b(1)]] cmp_zero [OF Kb [OF b(1)] Kb [OF q(1)]]
            comparator.cmp_antisym [OF cmp_comparator Kb [OF q(1)] Kb [OF b(1)]] by (auto simp: strict_prefix_def)
      qed
      then show ?thesis using 1(5) by (simp add: parents_right_def)
    qed
    ultimately have cf: "if same_kind f (kv t1 b) (kv t1 a)
        then \<exists>m. in_common f (kv t1 b) (kv t1 a) = Some m \<and> up_loop f t1 (Some b) m = Some up else up = None"
      unfolding up_def using closest_from [OF 1(2,3) b(1) _ Kb [OF a(1)]] by blast
    have keys: "get_key t1 (Some b) = Some (kv t1 b)" "get_key t1 (Some a) = Some (kv t1 a)"
      using table_key [OF 1(2)] a(1) b(1) by blast+
    show ?thesis
    proof (cases up)
      case None
      then have "init_parent f (last_opt ys) a t = Some t1"
        using 1(1) cf keys b(2) by (auto simp: init_parent_def split: if_splits)
      then show ?thesis using fin 1 None by simp
    next
      case (Some p)
      obtain t2 where 2: "set_node_parent f a (Some p) t1 = Some t2" "rb_table K t2 ?xs" "rb_cmp t2 = cmp" "same_but_parents t1 t2"
        "parents_right t2 ?xs (set ys)" "parent f (kv t2 a) = Some p" by (rule set_node_parent_right [OF 1(2,3) a 1(5)])
      have "init_parent f (last_opt ys) a t = Some t2"
        using 1(1) cf keys b(2) Some 2(1) by (auto simp: init_parent_def split: if_splits)
      then show ?thesis using fin 2 Some by simp
    qed
  qed
qed

lemma init_parents_loop_ok:
  assumes "rb_table K t (ys @ zs)" "rb_cmp t = cmp" "parents_right t (ys @ zs) (set ys)"
  shows "\<exists>t'. init_parents_loop f (hd_opt zs) (last_opt ys) t = Some t' \<and> rb_table K t' (ys @ zs) \<and> rb_cmp t' = cmp \<and>
    same_but_parents t t' \<and> parents_right t' (ys @ zs) (set (ys @ zs))"
  using assms
proof (induction zs arbitrary: ys t)
  case Nil
  then show ?case by (auto simp: init_parents_loop.simps)
next
  case (Cons a zs)
  from init_parent_ok [OF Cons.prems] obtain t1 where
    1: "init_parent f (last_opt ys) a t = Some t1" "rb_table K t1 (ys @ a # zs)" "rb_cmp t1 = cmp"
    "same_but_parents t t1" "parents_right t1 (ys @ a # zs) (set (ys @ [a]))" by blast
  have 2: "rbtree_next t1 (Some a) = Some (hd_opt zs)" using rbtree_next_ok [OF 1(2)] .
  from Cons.IH [of t1 "ys @ [a]"] 1 obtain t2 where
    3: "init_parents_loop f (hd_opt zs) (last_opt (ys @ [a])) t1 = Some t2" "rb_table K t2 (ys @ a # zs)" "rb_cmp t2 = cmp"
    "same_but_parents t1 t2" "parents_right t2 (ys @ a # zs) (set (ys @ a # zs))" by auto
  have "init_parents_loop f (hd_opt (a # zs)) (last_opt ys) t = Some t2"
    using 1(1) 2 3(1) by (subst init_parents_loop.simps) (simp add: last_opt_def)
  with 3 same_but_parents_trans [OF 1(4) 3(4)] show ?case by blast
qed

text \<open>The result of the search for the last node that is not after the key, and what follows it.\<close>

lemma closest_search:
  assumes t: "rb_table K t xs" "rb_cmp t = cmp" and par: "parents_right t xs (set xs)" and k: "k \<in> K"
  shows "\<exists>exact res. rbtree_find_less_equal t k = Some (exact, res) \<and>
    (if exact then last_opt (filter (\<lambda>q. prefix (path (kv t q)) (path k)) xs) = res
     else case res of
       None \<Rightarrow> last_opt (filter (\<lambda>q. prefix (path (kv t q)) (path k)) xs) = None
     | Some a \<Rightarrow> get_key t res = Some (kv t a) \<and> kv t a \<in> K \<and>
         (if same_kind f (kv t a) k
          then \<exists>m. in_common f (kv t a) k = Some m \<and>
            up_loop f t res m = Some (last_opt (filter (\<lambda>q. prefix (path (kv t q)) (path k)) xs))
          else last_opt (filter (\<lambda>q. prefix (path (kv t q)) (path k)) xs) = None))"
proof -
  let ?P = "\<lambda>q. path (kv t q)"
  note srt = table_sorted [OF t]
  have ord: "0 < cmp k (kv t b) \<longleftrightarrow> cmp (kv t b) k < 0" if "b \<in> set xs" for b
    using comparator.cmp_pos_neg [OF cmp_comparator k srt(2) [OF that]] .
  from le_find_closest [of K t xs k] t k obtain exact res where
    1: "le_find (\<lambda>a. cmp k (kv t a)) xs None = (exact, res)"
      "exact \<longleftrightarrow> (\<exists>a \<in> set xs. cmp k (kv t a) = 0)"
      "case res of None \<Rightarrow> \<forall>a \<in> set xs. cmp k (kv t a) < 0
       | Some a \<Rightarrow> a \<in> set xs \<and> (if exact then cmp k (kv t a) = 0 else 0 < cmp k (kv t a)) \<and>
         (\<forall>b \<in> set xs. 0 \<le> cmp k (kv t b) \<longrightarrow> b = a \<or> cmp (kv t b) (kv t a) < 0)"
    by (auto simp: rb_table_def)
  have run: "rbtree_find_less_equal t k = Some (exact, res)"
    using rbtree_find_less_equal_ok [OF t(1) k] 1(1) t(2) by simp
  have le: "cmp (kv t q) k \<le> 0" if "q \<in> set xs" "prefix (?P q) (path k)" for q
    using that(2) strict_prefix_less [OF srt(2) [OF that(1)] k] cmp_zero [OF srt(2) [OF that(1)] k]
    by (auto simp: strict_prefix_def)
  show ?thesis
  proof (cases res)
    case None
    have "\<not> prefix (?P q) (path k)" if "q \<in> set xs" for q
      using le [OF that] 1(3) None that comparator.cmp_antisym [OF cmp_comparator k srt(2) [OF that]] by auto
    then have "last_opt (filter (\<lambda>q. prefix (?P q) (path k)) xs) = None" unfolding last_opt_filter_None by blast
    then show ?thesis using run None by (cases exact) auto
  next
    case (Some a)
    have a: "a \<in> set xs" using 1(3) Some by simp
    have Ka: "kv t a \<in> K" using srt(2) a .
    show ?thesis
    proof (cases exact)
      case True
      have z: "?P a = path k" using 1(3) Some True cmp_zero [OF k Ka] by simp
      have "last_opt (filter (\<lambda>q. prefix (?P q) (path k)) xs) = Some a"
      proof (rule last_opt_filter_eqI [OF srt(1) a])
        fix q assume q: "q \<in> set xs" "prefix (?P q) (path k)"
        then show "\<not> cmp (kv t a) (kv t q) < 0"
          using strict_prefix_less [OF srt(2) [OF q(1)] Ka] cmp_zero [OF Ka srt(2) [OF q(1)]]
            comparator.cmp_antisym [OF cmp_comparator Ka srt(2) [OF q(1)]] by (auto simp: strict_prefix_def z)
      qed (simp add: z)
      then show ?thesis using run True Some by auto
    next
      case False
      have lt: "cmp (kv t a) k < 0" using 1(3) Some False ord [OF a] by simp
      have mx: "q = a \<or> cmp (kv t q) (kv t a) < 0" if "q \<in> set xs" "cmp (kv t q) k < 0" for q
        using 1(3) Some that ord [OF that(1)] by auto
      have pr: "parent f (kv t b) = last_opt (filter (\<lambda>q. strict_prefix (?P q) (?P b)) xs)" if "b \<in> set xs" for b
        using par that by (simp add: parents_right_def)
      have "?P q \<noteq> path k" if "q \<in> set xs" for q
        using 1(2) False that cmp_zero [OF k srt(2) [OF that]] by auto
      then have "filter (\<lambda>q. strict_prefix (?P q) (path k)) xs = filter (\<lambda>q. prefix (?P q) (path k)) xs"
        by (intro filter_cong) (auto simp: strict_prefix_def)
      moreover have "if same_kind f (kv t a) k
          then \<exists>m. in_common f (kv t a) k = Some m \<and>
            up_loop f t (Some a) m = Some (last_opt (filter (\<lambda>q. strict_prefix (?P q) (path k)) xs))
          else last_opt (filter (\<lambda>q. strict_prefix (?P q) (path k)) xs) = None"
        by (rule closest_from [OF t a]) (use pr k lt mx in blast)+
      ultimately have "if same_kind f (kv t a) k
          then \<exists>m. in_common f (kv t a) k = Some m \<and>
            up_loop f t (Some a) m = Some (last_opt (filter (\<lambda>q. prefix (?P q) (path k)) xs))
          else last_opt (filter (\<lambda>q. prefix (?P q) (path k)) xs) = None" by (simp only:)
      then show ?thesis
        using run Some False table_key [OF t(1) a] Ka by (intro exI [of _ False] exI [of _ res]) simp
    qed
  qed
qed

section \<open>Operations\<close>

text \<open>An insertion first writes the key of the node, whether or not a node with the key is present.\<close>

lemma write_insert_ok:
  assumes t: "rb_table K t xs" "rb_cmp t = cmp" and a: "a \<notin> set xs" "rb_mem t a \<noteq> None"
    and key: "g (the (rb_mem t a)) = key" "key \<in> K"
  shows "\<exists>r t'. do { t \<leftarrow> upd_node (Some a) (\<lambda>n. n\<lparr>rb_key := g n\<rparr>) t; (r, t) \<leftarrow> rbtree_insert t a; Some (r \<noteq> None, t) } = Some (r, t') \<and>
    rb_cmp t' = cmp \<and> kv t' = (kv t)(a := key) \<and> dom (rb_mem t') = dom (rb_mem t) \<and>
    (if \<exists>b \<in> set xs. path (kv t b) = path key then \<not> r \<and> rb_table K t' xs
     else r \<and> (\<exists>ys. rb_table K t' ys \<and> set ys = insert a (set xs)))"
proof -
  from key_write_ok [OF t(1) a, of g] obtain t1 where
    1: "upd_node (Some a) (\<lambda>n. n\<lparr>rb_key := g n\<rparr>) t = Some t1" "rb_table K t1 xs" "rb_cmp t1 = cmp"
    "kv t1 = (kv t)(a := key)" "dom (rb_mem t1) = dom (rb_mem t)" using t(2) key(1) by auto
  have m: "rb_mem t1 a \<noteq> None" using a(2) 1(5) by (auto simp: domIff)
  have ka: "kv t1 a = key" "kv t1 a \<in> K" using key(2) by (simp_all add: 1(4))
  have z: "cmp (kv t1 a) (kv t1 b) = 0 \<longleftrightarrow> path (kv t b) = path key" if "b \<in> set xs" for b
    using cmp_zero [OF ka(2) table_sorted(2) [OF 1(2,3) that]] that a(1) by (auto simp: 1(4))
  have op: "rb_op_ok K t1 (RbInsert a)" using m ka(2) by simp
  from rb_step_ok [OF 1(2) op] have kept: "rb_kept t1 t2" if "rbtree_insert t1 a = Some (r, t2)" for r t2
    using that by simp
  from rbtree_insert_ok [OF 1(2) m a(1) ka(2)] show ?thesis
  proof (elim disjE conjE exE)
    assume e: "\<exists>b \<in> set xs. rb_cmp t1 (kv t1 a) (kv t1 b) = 0" "rbtree_insert t1 a = Some (None, t1)"
    have "\<exists>b \<in> set xs. path (kv t b) = path key" using e(1) z by (auto simp: 1(3))
    with e(2) 1 show ?thesis by (intro exI [of _ False] exI [of _ t1]) simp
  next
    fix t2 ys zs
    assume i: "rbtree_insert t1 a = Some (Some a, t2)" "xs = ys @ zs" "rb_table K t2 (ys @ a # zs)" "kv t2 = kv t1"
      "rb_cmp t2 = rb_cmp t1" and l: "\<forall>b \<in> set ys. 0 < rb_cmp t1 (kv t1 a) (kv t1 b)" "\<forall>b \<in> set zs. rb_cmp t1 (kv t1 a) (kv t1 b) < 0"
    have n: "\<not> (\<exists>b \<in> set xs. path (kv t b) = path key)" using z l i(2) 1(3) by fastforce
    have "set (ys @ a # zs) = insert a (set xs)" using i(2) by auto
    with i 1 kept [OF i(1)] n show ?thesis
      by (intro exI [of _ True] exI [of _ t2] conjI) (auto simp: rb_kept_def)
  qed
qed

lemma search_ok:
  assumes t: "rb_table K t xs" "rb_cmp t = cmp" and k: "k \<in> K"
  shows "rbtree_search t k = Some (find (\<lambda>a. path (kv t a) = path k) xs)"
proof -
  have "find (\<lambda>a. cmp k (kv t a) = 0) xs = find (\<lambda>a. path (kv t a) = path k) xs"
    using cmp_zero [OF k table_sorted(2) [OF t]] by (intro find_cong) auto
  then show ?thesis using rbtree_search_ok [OF t(1) k] t(2) by simp
qed

lemma init_parents_ok:
  assumes t: "rb_table K t xs" "rb_cmp t = cmp"
  shows "\<exists>t'. do { n \<leftarrow> rbtree_first t; init_parents_loop f n None t } = Some t' \<and> rb_table K t' xs \<and> rb_cmp t' = cmp \<and>
    same_but_parents t t' \<and> parents_right t' xs (set xs)"
  using init_parents_loop_ok [of t "[]" xs] t rbtree_first_ok [OF t(1)] by (auto simp: last_opt_def parents_right_def)

end

end
