(* ===== verification/Dnstree_Names.thy ===== *)
theory Dnstree_Names
  imports Dnstree_Encl Dname_Labels
begin

text \<open>
  The tree of names is a tree of paths: the class, the root label, and the labels from the top down in
  lower case.
\<close>

section \<open>Paths of names\<close>

definition label_key :: "label \<Rightarrow> nat list" where
  "label_key l = map unat (lower l)"

definition len_cmp :: "nat list \<Rightarrow> nat list \<Rightarrow> int" where
  "len_cmp = then_cmp (\<lambda>x y. lin_cmp (length x) (length y)) (lexcmp lin_cmp)"

definition labels_path :: "nat \<Rightarrow> label list \<Rightarrow> nat list list" where
  "labels_path labs ls = (if labs = 0 then [] else [] # map label_key (rev ls))"

definition name_path :: "name_tree_node \<Rightarrow> nat list list" where
  "name_path k = [unat (nt_dclass k)] # labels_path (nt_labs k) (the (labels_of (nt_name k)))"

text \<open>A key has the labels of its name, or none as the key that \<open>name_tree_next_root\<close> searches for.\<close>

definition name_keys :: "name_tree_node set" where
  "name_keys = {k. \<exists>ls. labels_of (nt_name k) = Some ls \<and> (nt_labs k = 0 \<or> nt_labs k = length ls + 1)}"

lemma len_cmp_comparator: "comparator UNIV len_cmp"
proof -
  have "comparator UNIV (\<lambda>x y. lin_cmp (length x) (length (y :: nat list)))"
    using comparator_key [OF lin.comparator_axioms, of length] by simp
  moreover have "comparator UNIV (lexcmp (lin_cmp :: nat \<Rightarrow> nat \<Rightarrow> int))"
    using comparator_lexcmp [OF lin.comparator_axioms] by simp
  ultimately show ?thesis unfolding len_cmp_def by (rule comparator_then)
qed

lemma len_cmp_eq: "len_cmp x y = 0 \<longleftrightarrow> x = y"
  by (auto simp: len_cmp_def then_cmp_def lexcmp_zero_iff)

lemma len_cmp_label: "len_cmp (label_key x) (label_key y) = len_label_cmp x y"
  using lexcmp_map_unat [of "lower x" "lower y"]
  by (simp add: len_cmp_def len_label_cmp_def then_cmp_def label_key_def canon_label_cmp_def)

lemma lexcmp_map:
  assumes "\<And>x y. e (g x) (g y) = e' x y"
  shows "lexcmp e (map g xs) (map g ys) = lexcmp e' xs ys"
  by (induction xs ys rule: list_induct2') (simp_all add: assms)

lemma lcp_map_common:
  assumes "\<And>x y. g x = g y \<longleftrightarrow> e' x y = 0"
  shows "length (longest_common_prefix (map g xs) (map g ys)) = common_prefix e' xs ys"
  by (induction xs ys rule: list_induct2') (auto simp: assms)

lemma label_key_eq: "label_key x = label_key y \<longleftrightarrow> len_label_cmp x y = 0"
  using len_cmp_eq [of "label_key x" "label_key y"] by (simp add: len_cmp_label)

text \<open>The comparison and the number of labels in common, in terms of paths.\<close>

lemma skip_all_labels: "labels_ok a \<Longrightarrow> skip_labels (Suc (length a)) (wire a @ r) = Some r"
  by (induction a) (simp_all add: label_ok_def)

lemma lab_cmp_path:
  assumes "labels_of d1 = Some a" "labels_of d2 = Some b" "m = 0 \<or> m = length a + 1" "n = 0 \<or> n = length b + 1"
  shows "dname_lab_cmp d1 m d2 n =
    Some (lexcmp len_cmp (labels_path m a) (labels_path n b), length (longest_common_prefix (labels_path m a) (labels_path n b)))"
proof -
  obtain r where d1: "d1 = wire a @ r" "labels_ok a" by (rule labels_ofE [OF assms(1)])
  obtain s where d2: "d2 = wire b @ s" "labels_ok b" by (rule labels_ofE [OF assms(2)])
  consider "m = 0" "n = 0" | "m = 0" "n = length b + 1" | "m = length a + 1" "n = 0" | "m = length a + 1" "n = length b + 1"
    using assms(3,4) by blast
  then show ?thesis
  proof cases
    case 4
    have "lexcmp len_cmp (map label_key (rev a)) (map label_key (rev b)) = lexcmp len_label_cmp (rev a) (rev b)"
      by (rule lexcmp_map) (rule len_cmp_label)
    moreover have "length (longest_common_prefix (map label_key (rev a)) (map label_key (rev b))) =
        common_prefix len_label_cmp (rev a) (rev b)"
      by (rule lcp_map_common) (rule label_key_eq)
    moreover have "len_cmp [] [] = 0" using len_cmp_eq by blast
    ultimately show ?thesis
      using labels_of_lab_cmp [OF assms(1,2)] 4 by (simp add: labels_path_def top_cmp_def top_match_def)
  qed (use skip_all_labels [OF d1(2), of r] skip_all_labels [OF d2(2), of s] in
      \<open>simp_all add: dname_lab_cmp_def lab_cmp_frame_def labels_path_def d1(1) d2(1)\<close>)
qed

lemma name_compare_path:
  assumes "x \<in> name_keys" "y \<in> name_keys"
  shows "name_tree_compare x y = lexcmp len_cmp (name_path x) (name_path y)"
proof -
  obtain a where a: "labels_of (nt_name x) = Some a" "nt_labs x = 0 \<or> nt_labs x = length a + 1"
    using assms(1) by (auto simp: name_keys_def)
  obtain b where b: "labels_of (nt_name y) = Some b" "nt_labs y = 0 \<or> nt_labs y = length b + 1"
    using assms(2) by (auto simp: name_keys_def)
  have "len_cmp [unat (nt_dclass x)] [unat (nt_dclass y)] =
      (if nt_dclass x \<noteq> nt_dclass y then if nt_dclass x < nt_dclass y then -1 else 1 else 0)"
    by (simp add: len_cmp_def then_cmp_def lin_cmp_def word_less_nat_alt word_unat_eq_iff)
  then show ?thesis
    using lab_cmp_path [OF a(1) b(1) a(2) b(2)] a(1) b(1) by (simp add: name_tree_compare_def name_path_def)
qed

lemma name_keysE:
  assumes "k \<in> name_keys"
  obtains ls where "labels_of (nt_name k) = Some ls" "nt_labs k = 0 \<or> nt_labs k = length ls + 1"
    "name_path k = [unat (nt_dclass k)] # labels_path (nt_labs k) ls"
  using assms by (auto simp: name_keys_def name_path_def)

lemma name_tree_comparator: "comparator name_keys name_tree_compare"
proof -
  have "comparator UNIV (\<lambda>x y. lexcmp len_cmp (name_path x) (name_path y))"
    using comparator_key [OF comparator_lexcmp [OF len_cmp_comparator], of name_path] by simp
  then show ?thesis by (rule comparator_cong) (simp_all add: name_compare_path)
qed

interpretation names: encl_tree name_keys name_tree_compare name_ops name_path len_cmp 1
proof (rule encl_tree.intro [OF len_cmp_comparator len_cmp_eq name_tree_comparator])
  fix x y assume K: "x \<in> name_keys" "y \<in> name_keys"
  show "name_tree_compare x y < 0 \<longleftrightarrow> lexcmp len_cmp (name_path x) (name_path y) < 0"
    by (simp add: name_compare_path [OF K])
  show same: "same_kind name_ops x y \<longleftrightarrow> take 1 (name_path x) = take 1 (name_path y)"
    by (simp add: name_ops_def name_path_def word_unat_eq_iff)
  obtain a where a: "labels_of (nt_name x) = Some a" "nt_labs x = 0 \<or> nt_labs x = length a + 1"
    "name_path x = [unat (nt_dclass x)] # labels_path (nt_labs x) a" by (rule name_keysE [OF K(1)])
  obtain b where b: "labels_of (nt_name y) = Some b" "nt_labs y = 0 \<or> nt_labs y = length b + 1"
    "name_path y = [unat (nt_dclass y)] # labels_path (nt_labs y) b" by (rule name_keysE [OF K(2)])
  show "length (name_path x) = depth name_ops x + 1" using a(2,3) by (auto simp: name_ops_def labels_path_def)
  assume "same_kind name_ops x y"
  then show "\<exists>m. in_common name_ops x y = Some m \<and> m + 1 = length (longest_common_prefix (name_path x) (name_path y))"
    using lab_cmp_path [OF a(1) b(1) a(2) b(2)] a(3) b(3) by (simp add: name_ops_def)
qed (auto simp: name_ops_def name_path_def name_keys_def)

section \<open>Operations\<close>

definition name_tree_ok :: "name_tree_node rbtree \<Rightarrow> addr list \<Rightarrow> bool" where
  "name_tree_ok t xs \<longleftrightarrow> rb_table name_keys t xs \<and> rb_cmp t = name_tree_compare"

lemma name_tree_init_ok: "name_tree_ok (name_tree_init raw) []"
  using rb_init_table [OF name_tree_comparator] by (simp add: name_tree_ok_def name_tree_init_def rb_init_view)

text \<open>An insertion writes the key of the node, whether or not a node with the name is present.\<close>

lemma name_tree_insert_ok:
  assumes t: "name_tree_ok t xs" and a: "a \<notin> set xs" "rb_mem t a \<noteq> None"
    and name: "labels_of name = Some ls" "labs = length ls + 1"
    and key_def: "key = name_tree_key name len labs dclass"
  shows "\<exists>r t'. name_tree_insert t a name len labs dclass = Some (r, t') \<and>
    kv t' = (kv t)(a := key) \<and> dom (rb_mem t') = dom (rb_mem t) \<and>
    (if \<exists>b \<in> set xs. name_path (kv t b) = name_path key then \<not> r \<and> name_tree_ok t' xs
     else r \<and> (\<exists>ys. name_tree_ok t' ys \<and> set ys = insert a (set xs)))"
proof -
  have "key \<in> name_keys" using name by (auto simp: key_def name_tree_key_def name_keys_def)
  from names.write_insert_ok [OF _ _ a, of "\<lambda>_. key", OF _ _ refl this] t obtain r t' where
    1: "do { t \<leftarrow> upd_node (Some a) (\<lambda>n. n\<lparr>rb_key := key\<rparr>) t; (r, t) \<leftarrow> rbtree_insert t a; Some (r \<noteq> None, t) } = Some (r, t')"
    "rb_cmp t' = name_tree_compare" "kv t' = (kv t)(a := key)" "dom (rb_mem t') = dom (rb_mem t)"
    "if \<exists>b \<in> set xs. name_path (kv t b) = name_path key then \<not> r \<and> rb_table name_keys t' xs
     else r \<and> (\<exists>ys. rb_table name_keys t' ys \<and> set ys = insert a (set xs))"
    unfolding name_tree_ok_def by blast
  have "name_tree_insert t a name len labs dclass = Some (r, t')"
    using 1(1) by (simp add: name_tree_insert_def key_def name_tree_key_def)
  with 1(2-5) show ?thesis by (intro exI [of _ r] exI [of _ t'] conjI) (auto simp: name_tree_ok_def split: if_splits)
qed

lemma name_tree_find_ok:
  assumes "name_tree_ok t xs" "labels_of name = Some ls" "labs = length ls + 1"
  shows "name_tree_find t name len labs dclass =
    Some (find (\<lambda>a. name_path (kv t a) = name_path (name_tree_key name len labs dclass)) xs)"
  using names.search_ok assms by (auto simp: name_tree_ok_def name_tree_find_def name_tree_key_def name_keys_def)

lemma name_tree_init_parents_ok:
  assumes "name_tree_ok t xs"
  shows "\<exists>t'. name_tree_init_parents t = Some t' \<and> name_tree_ok t' xs \<and> names.same_but_parents t t' \<and>
    names.parents_right t' xs (set xs)"
  using names.init_parents_ok assms by (simp add: name_tree_ok_def name_tree_init_parents_def)

lemma name_tree_lookup_ok:
  assumes t: "name_tree_ok t xs" and par: "names.parents_right t xs (set xs)"
    and name: "labels_of name = Some ls" "labs = length ls + 1"
  shows "name_tree_lookup t name len labs dclass =
    Some (last_opt (filter (\<lambda>q. prefix (name_path (kv t q)) (name_path (name_tree_key name len labs dclass))) xs))"
proof -
  let ?k = "name_tree_key name len labs dclass"
  have T: "rb_table name_keys t xs" "rb_cmp t = name_tree_compare" using t by (simp_all add: name_tree_ok_def)
  have K: "?k \<in> name_keys" using name by (auto simp: name_tree_key_def name_keys_def)
  from names.closest_search [OF T par K] show ?thesis
    by (auto simp: name_tree_lookup_def name_ops_def name_tree_key_def split: if_splits option.splits)
qed

end
