(* ===== verification/Dnstree_Addrs.thy ===== *)
theory Dnstree_Addrs
  imports Dnstree_Names Addr_Props
begin

text \<open>
  The tree of netblocks is a tree of paths: the length and the family of the address, and the bits of the
  netblock. The nodes are sorted by the bytes of the whole address and then the number of bits, which is
  the order of the paths if the bits behind the netblock are zero.
\<close>

section \<open>Order of bytes and of bits\<close>

fun bits_val :: "bool list \<Rightarrow> nat" where
  "bits_val [] = 0"
| "bits_val (b # bs) = of_bool b * 2 ^ length bs + bits_val bs"

lemma bits_val_less: "bits_val bs < 2 ^ length bs"
  by (induction bs) auto

lemma bits_val_append: "bits_val (xs @ ys) = bits_val xs * 2 ^ length ys + bits_val ys"
  by (induction xs) (simp_all add: algebra_simps power_add)

lemma bits_val_rev: "bits_val (rev bs) = horner_sum of_bool 2 bs"
  by (induction bs) (simp_all add: bits_val_append)

lemma bits_val_byte: "bits_val (byte_bits b) = unat b"
proof -
  have m: "map (bit b) [0..<8] = map (bit (unat b)) [0..<8]" by (simp add: bit_unsigned_iff)
  have "byte_bits b = rev (map (bit (unat b)) [0..<8])" unfolding byte_bits_def rev_map [symmetric] m ..
  then show ?thesis
    by (simp only: bits_val_rev horner_sum_bit_eq_take_bit) (simp add: take_bit_nat_eq_self)
qed

lemma lexcmp_bits: "length xs = length ys \<Longrightarrow> lexcmp lin_cmp xs ys = lin_cmp (bits_val xs) (bits_val ys)"
proof (induction xs ys rule: list_induct2)
  case (Cons x xs y ys)
  then show ?case using bits_val_less [of xs] bits_val_less [of ys] by (auto simp: lin_cmp_def)
qed (simp add: lin_cmp_def)

lemma lexcmp_append_same_length:
  "length a = length b \<Longrightarrow> lexcmp e (a @ c) (b @ d) = (if lexcmp e a b \<noteq> 0 then lexcmp e a b else lexcmp e c d)"
  by (induction a b rule: list_induct2) simp_all

lemma lexcmp_bytes: "length xs = length ys \<Longrightarrow> lexcmp lin_cmp xs ys = lexcmp lin_cmp (bits_of xs) (bits_of ys)"
proof (induction xs ys rule: list_induct2)
  case (Cons x xs y ys)
  have "lin_cmp x y = lexcmp lin_cmp (byte_bits x) (byte_bits y)"
    by (simp add: lexcmp_bits bits_val_byte lin_cmp_def word_less_nat_alt)
  with Cons show ?case by (simp add: lexcmp_append_same_length)
qed simp

text \<open>With zeros behind the prefixes, the whole lists and then the lengths compare as the prefixes.\<close>

lemma zeros_first:
  fixes xs ys :: "bool list"
  shows "length xs = length ys \<Longrightarrow> True \<notin> set xs \<Longrightarrow> lexcmp lin_cmp xs ys \<in> {0, -1}"
  by (induction xs ys rule: list_induct2) (auto simp: lin_cmp_def)

lemma zeros_second:
  fixes xs ys :: "bool list"
  shows "length xs = length ys \<Longrightarrow> True \<notin> set ys \<Longrightarrow> lexcmp lin_cmp xs ys \<in> {0, 1}"
  by (induction xs ys rule: list_induct2) (auto simp: lin_cmp_def)

lemma lexcmp_zero_tails:
  fixes xs ys :: "bool list"
  assumes "length xs = length ys" "n \<le> length xs" "m \<le> length ys" "True \<notin> set (drop n xs)" "True \<notin> set (drop m ys)"
  shows "(if lexcmp lin_cmp xs ys \<noteq> 0 then lexcmp lin_cmp xs ys else lin_cmp n m) = lexcmp lin_cmp (take n xs) (take m ys)"
  using assms
proof (induction xs ys arbitrary: n m rule: list_induct2)
  case Nil
  then show ?case by (simp add: lin_cmp_def)
next
  case (Cons x xs y ys)
  have l: "length (x # xs) = length (y # ys)" using Cons.hyps by simp
  show ?case
  proof (cases n; cases m)
    assume nm: "n = 0" "m = 0"
    then have "lexcmp lin_cmp (x # xs) (y # ys) = 0"
      using zeros_first [OF l] zeros_second [OF l] Cons.prems(3,4) by fastforce
    then show ?thesis using nm by simp
  next
    fix m' assume nm: "n = 0" "m = Suc m'"
    have "lin_cmp 0 (Suc m') = -1" by (simp add: lin_cmp_def)
    moreover have "lexcmp lin_cmp (x # xs) (y # ys) \<in> {0, -1}" using zeros_first [OF l] Cons.prems(3) nm by simp
    moreover have "lexcmp lin_cmp (take n (x # xs)) (take m (y # ys)) = -1" using nm by simp
    ultimately show ?thesis using nm(1,2) by force
  next
    fix n' assume nm: "n = Suc n'" "m = 0"
    have "lin_cmp (Suc n') 0 = 1" by (simp add: lin_cmp_def)
    moreover have "lexcmp lin_cmp (x # xs) (y # ys) \<in> {0, 1}" using zeros_second [OF l] Cons.prems(4) nm by simp
    moreover have "lexcmp lin_cmp (take n (x # xs)) (take m (y # ys)) = 1" using nm by simp
    ultimately show ?thesis using nm(1,2) by force
  next
    fix n' m' assume nm: "n = Suc n'" "m = Suc m'"
    have "lin_cmp (Suc n') (Suc m') = lin_cmp n' m'" by (simp add: lin_cmp_def)
    then show ?thesis using Cons.IH [of n' m'] Cons.prems nm by (auto split: if_splits)
  qed
qed

section \<open>Paths of netblocks\<close>

definition addr_path :: "addr_tree_node \<Rightarrow> nat list" where
  "addr_path k = [at_addrlen k, sin_family (at_addr k)] @ map of_bool (take (at_net k) (addr_bits (at_addr k) (at_addrlen k)))"

text \<open>Addresses of one of the two families.\<close>

definition inet_addr :: "sockaddr_storage \<Rightarrow> nat \<Rightarrow> bool" where
  "inet_addr a len \<longleftrightarrow> length a = 128 \<and>
     (len = sizeof_sockaddr_in \<and> sin_family a = AF_INET \<or> len = sizeof_sockaddr_in6 \<and> sin_family a = AF_INET6)"

definition addr_keys :: "addr_tree_node set" where
  "addr_keys = {k. inet_addr (at_addr k) (at_addrlen k) \<and> at_net k \<le> addr_width (at_addr k) (at_addrlen k) \<and>
     True \<notin> set (drop (at_net k) (addr_bits (at_addr k) (at_addrlen k)))}"

lemma inet_addr_cases:
  assumes "inet_addr a len"
  obtains "addr_field a len = (4, 4)" "len = sizeof_sockaddr_in" "sin_family a = AF_INET" "length (sin_addr a) = 4"
      "addr_bits a len = bits_of (sin_addr a)" "addr_width a len = 32"
    | "addr_field a len = (8, 16)" "len = sizeof_sockaddr_in6" "sin_family a = AF_INET6" "length (sin6_addr a) = 16"
      "addr_bits a len = bits_of (sin6_addr a)" "addr_width a len = 128"
  using assms
  by (auto simp: inet_addr_def addr_field_def addr_is_ip6_def inet_consts sin_addr_def sin6_addr_def field_bytes_def
      addr_bits_def addr_width_def)

lemma addr_compare_path:
  assumes "x \<in> addr_keys" "y \<in> addr_keys"
  shows "addr_tree_compare x y = lexcmp lin_cmp (addr_path x) (addr_path y)"
proof -
  have x: "inet_addr (at_addr x) (at_addrlen x)" "at_net x \<le> addr_width (at_addr x) (at_addrlen x)"
    "True \<notin> set (drop (at_net x) (addr_bits (at_addr x) (at_addrlen x)))" using assms(1) by (simp_all add: addr_keys_def)
  have y: "inet_addr (at_addr y) (at_addrlen y)" "at_net y \<le> addr_width (at_addr y) (at_addrlen y)"
    "True \<notin> set (drop (at_net y) (addr_bits (at_addr y) (at_addrlen y)))" using assms(2) by (simp_all add: addr_keys_def)
  let ?b = "\<lambda>k. addr_bits (at_addr k) (at_addrlen k)"
  have ob: "lexcmp lin_cmp (map of_bool xs) (map of_bool ys :: nat list) = lexcmp lin_cmp xs ys" for xs ys
    by (rule lexcmp_map) (simp add: lin_cmp_def)
  have kinds: "at_addrlen x = at_addrlen y \<longleftrightarrow> sin_family (at_addr x) = sin_family (at_addr y)"
    "lin_cmp (at_addrlen x) (at_addrlen y) = lin_cmp (sin_family (at_addr x)) (sin_family (at_addr y))"
    using x(1) y(1) by (auto simp: inet_addr_def inet_consts lin_cmp_def)
  show ?thesis
  proof (cases "at_addrlen x = at_addrlen y")
    case False
    then have "sockaddr_cmp_addr (at_addr x) (at_addrlen x) (at_addr y) (at_addrlen y) = lin_cmp (at_addrlen x) (at_addrlen y)"
      by (auto simp: sockaddr_cmp_addr_def lin_cmp_def)
    then show ?thesis using False by (simp add: addr_tree_compare_def addr_path_def)
  next
    case True
    then have f: "sin_family (at_addr x) = sin_family (at_addr y)" using kinds by simp
    have len: "length (?b x) = length (?b y)" "length (?b x) = addr_width (at_addr x) (at_addrlen x)"
      "length (?b y) = addr_width (at_addr y) (at_addrlen y)"
      by (rule inet_addr_cases [OF x(1)]; rule inet_addr_cases [OF y(1)]; use True in \<open>simp add: inet_consts\<close>)+
    have "sockaddr_cmp_addr (at_addr x) (at_addrlen x) (at_addr y) (at_addrlen y) = lexcmp lin_cmp (?b x) (?b y)"
      by (rule inet_addr_cases [OF x(1)]; rule inet_addr_cases [OF y(1)])
        (use True lexcmp_bytes [of "sin_addr (at_addr x)" "sin_addr (at_addr y)"]
           lexcmp_bytes [of "sin6_addr (at_addr x)" "sin6_addr (at_addr y)"] in
         \<open>simp_all add: inet_consts sockaddr_cmp_addr_def c_memcmp_def\<close>)
    then have "addr_tree_compare x y =
        (if lexcmp lin_cmp (?b x) (?b y) \<noteq> 0 then lexcmp lin_cmp (?b x) (?b y) else lin_cmp (at_net x) (at_net y))"
      by (simp add: addr_tree_compare_def lin_cmp_def)
    also have "\<dots> = lexcmp lin_cmp (take (at_net x) (?b x)) (take (at_net y) (?b y))"
      using x(2,3) y(2,3) len by (intro lexcmp_zero_tails) simp_all
    finally show ?thesis using True f by (simp add: addr_path_def ob)
  qed
qed

lemma addr_tree_comparator: "comparator addr_keys addr_tree_compare"
proof -
  have "comparator UNIV (\<lambda>x y. lexcmp lin_cmp (addr_path x) (addr_path y))"
    using comparator_key [OF comparator_lexcmp [OF lin.comparator_axioms], of addr_path] by simp
  then show ?thesis by (rule comparator_cong) (simp_all add: addr_compare_path)
qed

lemma lcp_take_min:
  "length (longest_common_prefix (take n xs) (take m ys)) = min (min n m) (length (longest_common_prefix xs ys))"
proof (induction xs arbitrary: n m ys)
  case (Cons x xs)
  show ?case by (cases n; cases m; cases ys) (simp_all add: Cons.IH)
qed simp

lemma lcp_of_bool:
  "length (longest_common_prefix (map of_bool xs) (map of_bool ys :: nat list)) = length (longest_common_prefix xs ys)"
  by (induction xs ys rule: list_induct2') auto

interpretation netblocks: encl_tree addr_keys addr_tree_compare addr_ops addr_path lin_cmp 2
proof (rule encl_tree.intro [OF lin.comparator_axioms lin_cmp_simps(1) addr_tree_comparator])
  fix x y assume K: "x \<in> addr_keys" "y \<in> addr_keys"
  show "addr_tree_compare x y < 0 \<longleftrightarrow> lexcmp lin_cmp (addr_path x) (addr_path y) < 0"
    by (simp add: addr_compare_path [OF K])
  have x: "inet_addr (at_addr x) (at_addrlen x)" "at_net x \<le> addr_width (at_addr x) (at_addrlen x)"
    and y: "inet_addr (at_addr y) (at_addrlen y)" "at_net y \<le> addr_width (at_addr y) (at_addrlen y)"
    using K by (simp_all add: addr_keys_def)
  show "same_kind addr_ops x y \<longleftrightarrow> take 2 (addr_path x) = take 2 (addr_path y)"
    using x(1) y(1) by (auto simp: addr_ops_def addr_path_def inet_addr_def inet_consts)
  have "length (addr_bits (at_addr x) (at_addrlen x)) = addr_width (at_addr x) (at_addrlen x)"
    using x(1) by (intro length_addr_bits) (simp add: inet_addr_def)
  then show "length (addr_path x) = depth addr_ops x + 2" using x(2) by (simp add: addr_path_def addr_ops_def)
  assume "same_kind addr_ops x y"
  then have same: "at_addrlen x = at_addrlen y" by (simp add: addr_ops_def)
  then have f: "sin_family (at_addr x) = sin_family (at_addr y)"
      "addr_field (at_addr x) (at_addrlen y) = addr_field (at_addr y) (at_addrlen y)"
    using x(1) y(1) by (auto simp: inet_addr_def inet_consts addr_field_def addr_is_ip6_def)
  have "length (at_addr x) = 128" "length (at_addr y) = 128" using x(1) y(1) by (simp_all add: inet_addr_def)
  from addr_in_common_ok [OF this f(2), of "at_net x" "at_net y"] same f(1)
  show "\<exists>m. in_common addr_ops x y = Some m \<and> m + 2 = length (longest_common_prefix (addr_path x) (addr_path y))"
    by (simp add: addr_ops_def addr_path_def lcp_of_bool lcp_take_min)
qed (auto simp: addr_ops_def addr_path_def addr_keys_def)

section \<open>Operations\<close>

definition addr_tree_ok :: "addr_tree_node rbtree \<Rightarrow> addr list \<Rightarrow> bool" where
  "addr_tree_ok t xs \<longleftrightarrow> rb_table addr_keys t xs \<and> rb_cmp t = addr_tree_compare"

lemma addr_tree_init_ok: "addr_tree_ok (addr_tree_init raw) []"
  using rb_init_table [OF addr_tree_comparator] by (simp add: addr_tree_ok_def addr_tree_init_def rb_init_view)

text \<open>What is read of a copied address is what was copied.\<close>

lemma copy_addr_same:
  assumes "inet_addr a len" "length raw = 128"
  shows "inet_addr (copy_addr len a raw) len" "sin_family (copy_addr len a raw) = sin_family a"
    "addr_bits (copy_addr len a raw) len = addr_bits a len" "addr_is_ip6 (copy_addr len a raw) len = addr_is_ip6 a len"
    "addr_width (copy_addr len a raw) len = addr_width a len"
proof -
  have f: "field_bytes i n (copy_addr len a raw) = field_bytes i n a" if "i + n \<le> len" for i n
    using that assms by (auto simp: copy_addr_def field_bytes_def inet_addr_def inet_consts drop_take min_def)
  have l: "16 \<le> len" "length (copy_addr len a raw) = 128"
    using assms by (auto simp: inet_addr_def inet_consts copy_addr_def)
  show 1: "sin_family (copy_addr len a raw) = sin_family a" using f [of 0 2] l(1) by (simp add: sin_family_def)
  show 2: "addr_is_ip6 (copy_addr len a raw) len = addr_is_ip6 a len" by (simp add: addr_is_ip6_def 1)
  then have 3: "addr_field (copy_addr len a raw) len = addr_field a len" by (simp add: addr_field_def)
  then show "addr_width (copy_addr len a raw) len = addr_width a len" by (simp add: addr_width_def)
  show "inet_addr (copy_addr len a raw) len" using assms(1) l(2) by (simp add: inet_addr_def 1)
  show "addr_bits (copy_addr len a raw) len = addr_bits a len"
    unfolding addr_bits_def 3 using f [of 4 4] f [of 8 16] l(1)
    by (auto simp: addr_field_def addr_is_ip6_def field_bytes_def inet_consts)
qed

definition net_ok :: "sockaddr_storage \<Rightarrow> nat \<Rightarrow> nat \<Rightarrow> bool" where
  "net_ok a len net \<longleftrightarrow> inet_addr a len \<and> net \<le> addr_width a len \<and> True \<notin> set (drop net (addr_bits a len))"

lemma addr_tree_key_ok:
  assumes "net_ok a len net" "length raw = 128"
  shows "addr_tree_key raw a len net \<in> addr_keys"
    "addr_path (addr_tree_key raw a len net) = [len, sin_family a] @ map of_bool (take net (addr_bits a len))"
  using assms copy_addr_same [of a len raw]
  by (simp_all add: net_ok_def addr_keys_def addr_tree_key_def addr_path_def)

lemma addr_tree_insert_ok:
  assumes t: "addr_tree_ok t xs" and a: "a \<notin> set xs" "rb_mem t a \<noteq> None" "length (at_addr (kv t a)) = 128"
    and net: "net_ok address len net" and key_def: "key = addr_tree_key (at_addr (kv t a)) address len net"
  shows "\<exists>r t'. addr_tree_insert t a address len net = Some (r, t') \<and>
    kv t' = (kv t)(a := key) \<and> dom (rb_mem t') = dom (rb_mem t) \<and>
    (if \<exists>b \<in> set xs. addr_path (kv t b) = addr_path key then \<not> r \<and> addr_tree_ok t' xs
     else r \<and> (\<exists>ys. addr_tree_ok t' ys \<and> set ys = insert a (set xs)))"
proof -
  let ?g = "\<lambda>n. \<lparr>at_parent = None, at_addr = copy_addr len address (at_addr (rb_key n)), at_addrlen = len, at_net = net\<rparr>"
  have K: "key \<in> addr_keys" using addr_tree_key_ok [OF net a(3)] by (simp add: key_def)
  have g: "?g (the (rb_mem t a)) = key" using a(2) by (auto simp: key_def addr_tree_key_def kv_def ky_def)
  from netblocks.write_insert_ok [where g = ?g, OF _ _ a(1,2) g K] t obtain r t' where
    1: "do { t \<leftarrow> upd_node (Some a) (\<lambda>n. n\<lparr>rb_key := ?g n\<rparr>) t; (r, t) \<leftarrow> rbtree_insert t a; Some (r \<noteq> None, t) } = Some (r, t')"
    "rb_cmp t' = addr_tree_compare" "kv t' = (kv t)(a := key)" "dom (rb_mem t') = dom (rb_mem t)"
    "if \<exists>b \<in> set xs. addr_path (kv t b) = addr_path key then \<not> r \<and> rb_table addr_keys t' xs
     else r \<and> (\<exists>ys. rb_table addr_keys t' ys \<and> set ys = insert a (set xs))"
    unfolding addr_tree_ok_def by blast
  have "addr_tree_insert t a address len net = Some (r, t')"
    using 1(1) by (simp add: addr_tree_insert_def)
  with 1(2-5) show ?thesis by (intro exI [of _ r] exI [of _ t'] conjI) (auto simp: addr_tree_ok_def split: if_splits)
qed

lemma addr_tree_find_ok:
  assumes "addr_tree_ok t xs" "net_ok a len net" "length raw = 128"
  shows "addr_tree_find raw t a len net =
    Some (find (\<lambda>b. addr_path (kv t b) = [len, sin_family a] @ map of_bool (take net (addr_bits a len))) xs)"
  using netblocks.search_ok [of t xs "addr_tree_key raw a len net"] addr_tree_key_ok [OF assms(2,3)] assms(1)
  by (simp add: addr_tree_ok_def addr_tree_find_def)

lemma addr_tree_init_parents_ok:
  assumes "addr_tree_ok t xs"
  shows "\<exists>t'. addr_tree_init_parents t = Some t' \<and> addr_tree_ok t' xs \<and> netblocks.same_but_parents t t' \<and>
    netblocks.parents_right t' xs (set xs)"
  using netblocks.init_parents_ok assms
  by (simp add: addr_tree_ok_def addr_tree_init_parents_def addr_tree_init_parents_node_def)

lemma addr_tree_lookup_ok:
  assumes t: "addr_tree_ok t xs" and par: "netblocks.parents_right t xs (set xs)"
    and a: "inet_addr a len" "length raw = 128"
  shows "addr_tree_lookup raw t a len =
    Some (last_opt (filter (\<lambda>q. prefix (addr_path (kv t q)) ([len, sin_family a] @ map of_bool (addr_bits a len))) xs))"
proof -
  define net :: nat where "net = (if addr_is_ip6 a len then 128 else 32)"
  let ?k = "addr_tree_key raw a len net"
  have T: "rb_table addr_keys t xs" "rb_cmp t = addr_tree_compare" using t by (simp_all add: addr_tree_ok_def)
  have w: "net = addr_width a len" by (simp add: net_def addr_width_def addr_field_def)
  have lb: "length (addr_bits a len) = addr_width a len" using a(1) by (intro length_addr_bits) (simp add: inet_addr_def)
  have n: "net_ok a len net" using a(1) w lb by (simp add: net_ok_def)
  note K = addr_tree_key_ok [OF n a(2)]
  have p: "addr_path ?k = [len, sin_family a] @ map of_bool (addr_bits a len)" using K(2) lb w by simp
  have common: "addr_in_common (at_addr r) (at_net r) a net len = in_common addr_ops r ?k"
    if "r \<in> addr_keys" "at_addrlen r = len" for r
  proof -
    have r: "inet_addr (at_addr r) len" using that by (simp add: addr_keys_def)
    have f: "addr_field (at_addr r) len = addr_field a len" "addr_field (at_addr ?k) len = addr_field a len"
      using r a(1) copy_addr_same(4) [OF a]
      by (auto simp: inet_addr_def inet_consts addr_field_def addr_is_ip6_def addr_tree_key_def)
    have "length (at_addr r) = 128" "length a = 128" "length (at_addr ?k) = 128"
      using r a(1) K(1) by (simp_all add: inet_addr_def addr_keys_def)
    then show ?thesis
      using addr_in_common_ok [of "at_addr r" a len "at_net r" net] addr_in_common_ok [of "at_addr r" "at_addr ?k" len "at_net r" net] f
        copy_addr_same(3) [OF a]
      by (simp add: addr_ops_def addr_tree_key_def)
  qed
  have same: "same_kind addr_ops r ?k \<longleftrightarrow> at_addrlen r = len" for r by (simp add: addr_ops_def addr_tree_key_def)
  define up where "up = last_opt (filter (\<lambda>q. prefix (addr_path (kv t q)) ([len, sin_family a] @ map of_bool (addr_bits a len))) xs)"
  from netblocks.closest_search [OF T par K(1)] obtain exact res where
    1: "rbtree_find_less_equal t ?k = Some (exact, res)"
    "if exact then up = res
     else case res of None \<Rightarrow> up = None
       | Some b \<Rightarrow> get_key t res = Some (kv t b) \<and> kv t b \<in> addr_keys \<and>
           (if at_addrlen (kv t b) = len then \<exists>m. in_common addr_ops (kv t b) ?k = Some m \<and> up_loop addr_ops t res m = Some up
            else up = None)"
    unfolding p same up_def by blast
  have "addr_tree_lookup raw t a len = Some up"
  proof (cases "exact \<or> res = None")
    case True
    then show ?thesis unfolding addr_tree_lookup_def Let_def net_def [symmetric] using 1 by (cases exact) simp_all
  next
    case False
    then obtain b where b: "res = Some b" "get_key t (Some b) = Some (kv t b)" "kv t b \<in> addr_keys"
      "if at_addrlen (kv t b) = len then \<exists>m. in_common addr_ops (kv t b) ?k = Some m \<and> up_loop addr_ops t res m = Some up
            else up = None" using 1(2) by auto
    show ?thesis
    proof (cases "at_addrlen (kv t b) = len")
      case True
      with b obtain m where "in_common addr_ops (kv t b) ?k = Some m" "up_loop addr_ops t (Some b) m = Some up" by auto
      with True b(1,2) 1(1) False common [OF b(3) True] show ?thesis
        by (simp add: addr_tree_lookup_def Let_def net_def [symmetric])
    qed (use b 1(1) False in \<open>simp add: addr_tree_lookup_def Let_def net_def [symmetric]\<close>)
  qed
  then show ?thesis by (simp add: up_def)
qed

end
