(* ===== verification/Dnstree_Props.thy ===== *)
theory Dnstree_Props
  imports Dnstree_Addrs
begin

text \<open>
  What users of the trees of names and netblocks rely on: after all entries are inserted and the links to
  the parents are set, a lookup finds the closest entry around the name or the address.
\<close>

section \<open>Names and paths\<close>

lemma prefix_map_inj:
  assumes "\<And>x y. g x = g y \<longleftrightarrow> h x = h y"
  shows "prefix (map g xs) (map g ys) \<longleftrightarrow> prefix (map h xs) (map h ys)"
proof (induction xs arbitrary: ys)
  case (Cons x xs)
  then show ?case by (cases ys) (simp_all add: assms)
qed simp

lemma prefix_labels_path:
  "prefix (labels_path (Suc n) ks) (labels_path (Suc m) qs) \<longleftrightarrow> suffix (lowers ks) (lowers qs)"
proof -
  have "label_key x = label_key y \<longleftrightarrow> lower x = lower y" for x y by (simp add: label_key_eq)
  from prefix_map_inj [of label_key lower, OF this, of "rev ks" "rev qs"] show ?thesis
    by (simp add: labels_path_def suffix_to_prefix rev_map)
qed

text \<open>The name of an entry is the name or a parent domain of it, up to case, and the class is the same.\<close>

definition name_around :: "label list \<Rightarrow> u16 \<Rightarrow> byte list \<Rightarrow> u16 \<Rightarrow> bool" where
  "name_around qs qclass name dclass \<longleftrightarrow> dclass = qclass \<and> suffix (lowers (the (labels_of name))) (lowers qs)"

lemma name_around_path:
  assumes "labels_of (nt_name k) = Some ks" "nt_labs k = length ks + 1" "labels_of name = Some qs" "labs = length qs + 1"
  shows "prefix (name_path k) (name_path (name_tree_key name len labs dclass)) \<longleftrightarrow> name_around qs dclass (nt_name k) (nt_dclass k)"
  using assms prefix_labels_path
  by (simp add: name_path_def name_tree_key_def name_around_def word_unat_eq_iff)

lemma suffix_lowers_length: "suffix (lowers a) (lowers b) \<Longrightarrow> length a \<le> length b"
  by (metis length_map suffix_length_le)

section \<open>Building a tree of names\<close>

text \<open>An entry: the node, the name, its length and number of labels, and the class.\<close>

type_synonym name_entry = "addr \<times> byte list \<times> nat \<times> nat \<times> u16"

fun insert_names :: "name_entry list \<Rightarrow> name_tree_node rbtree \<Rightarrow> name_tree_node rbtree option" where
  "insert_names [] t = Some t"
| "insert_names ((a, name, len, labs, dclass) # ns) t = do {
     (_, t) \<leftarrow> name_tree_insert t a name len labs dclass;
     insert_names ns t }"

fun entry_key :: "name_entry \<Rightarrow> name_tree_node" where
  "entry_key (a, name, len, labs, dclass) = name_tree_key name len labs dclass"

fun entry_ok :: "name_tree_node rbtree \<Rightarrow> name_entry \<Rightarrow> bool" where
  "entry_ok t (a, name, len, labs, dclass) \<longleftrightarrow> rb_mem t a \<noteq> None \<and>
     (case labels_of name of None \<Rightarrow> False | Some ls \<Rightarrow> labs = length ls + 1)"

lemma entry_ok_dom: "dom (rb_mem t') = dom (rb_mem t) \<Longrightarrow> entry_ok t' e = entry_ok t e"
  by (cases e) (auto simp: domIff)

lemma insert_names_ok:
  assumes "name_tree_ok t xs" "distinct (map fst ns)" "set xs \<inter> fst ` set ns = {}" "list_all (entry_ok t) ns"
  shows "\<exists>t' ys. insert_names ns t = Some t' \<and> name_tree_ok t' ys \<and> set xs \<subseteq> set ys \<and> set ys \<subseteq> set xs \<union> fst ` set ns \<and>
    (\<forall>e \<in> set ns. kv t' (fst e) = entry_key e) \<and> (\<forall>a. a \<notin> fst ` set ns \<longrightarrow> kv t' a = kv t a) \<and>
    (\<forall>e \<in> set ns. \<exists>b \<in> set ys. name_path (kv t' b) = name_path (entry_key e))"
  using assms
proof (induction ns arbitrary: t xs)
  case Nil
  then show ?case by (intro exI [of _ t] exI [of _ xs]) simp
next
  case (Cons e ns)
  obtain a name len labs dclass where e: "e = (a, name, len, labs, dclass)" by (rule prod_cases5)
  obtain ls where ls: "labels_of name = Some ls" "labs = length ls + 1" "rb_mem t a \<noteq> None"
    using Cons.prems(4) by (auto simp: e split: option.splits)
  have a: "a \<notin> set xs" "a \<notin> fst ` set ns" using Cons.prems(2,3) by (auto simp: e)
  from name_tree_insert_ok [OF Cons.prems(1) a(1) ls(3,1,2) refl, of len dclass] obtain r t1 where
    1: "name_tree_insert t a name len labs dclass = Some (r, t1)" "kv t1 = (kv t)(a := entry_key e)"
    "dom (rb_mem t1) = dom (rb_mem t)"
    "if \<exists>b \<in> set xs. name_path (kv t b) = name_path (entry_key e) then \<not> r \<and> name_tree_ok t1 xs
     else r \<and> (\<exists>ys. name_tree_ok t1 ys \<and> set ys = insert a (set xs))" unfolding e entry_key.simps by blast
  obtain xs1 where 2: "name_tree_ok t1 xs1" "set xs \<subseteq> set xs1" "set xs1 \<subseteq> insert a (set xs)"
    "\<exists>b \<in> set xs1. name_path (kv t1 b) = name_path (entry_key e)"
  proof (cases "\<exists>b \<in> set xs. name_path (kv t b) = name_path (entry_key e)")
    case True
    then obtain b where b: "b \<in> set xs" "name_path (kv t b) = name_path (entry_key e)" by blast
    then have "kv t1 b = kv t b" using a(1) by (auto simp: 1(2))
    then have "\<exists>b \<in> set xs. name_path (kv t1 b) = name_path (entry_key e)" using b by (intro bexI [of _ b]) simp_all
    moreover have "name_tree_ok t1 xs" using 1(4) True by simp
    ultimately show thesis by (intro that [of xs]) auto
  next
    case False
    with 1(4) obtain ys where "name_tree_ok t1 ys" "set ys = insert a (set xs)" by auto
    then show thesis by (intro that [of ys]) (auto simp: 1(2))
  qed
  have "set xs1 \<inter> fst ` set ns = {}" using 2(3) Cons.prems(3) a(2) by auto
  moreover have "list_all (entry_ok t1) ns" using Cons.prems(4) by (simp add: entry_ok_dom [OF 1(3)] list_all_iff)
  ultimately obtain t2 ys where
    3: "insert_names ns t1 = Some t2" "name_tree_ok t2 ys" "set xs1 \<subseteq> set ys" "set ys \<subseteq> set xs1 \<union> fst ` set ns"
    "\<forall>e \<in> set ns. kv t2 (fst e) = entry_key e" "\<forall>a. a \<notin> fst ` set ns \<longrightarrow> kv t2 a = kv t1 a"
    "\<forall>e \<in> set ns. \<exists>b \<in> set ys. name_path (kv t2 b) = name_path (entry_key e)"
    using Cons.IH [OF 2(1)] Cons.prems(2) by auto
  have 4: "kv t2 a = entry_key e" using 3(6) a(2) by (simp add: 1(2))
  obtain b where b: "b \<in> set xs1" "name_path (kv t1 b) = name_path (entry_key e)" using 2(4) by blast
  have "b \<notin> fst ` set ns" using b(1) 2(3) Cons.prems(3) a(2) by auto
  then have "\<exists>b \<in> set ys. name_path (kv t2 b) = name_path (entry_key e)" using b 3(3,6) by (intro bexI [of _ b]) auto
  with 1(1) 2 3 4 a show ?case
    by (intro exI [of _ t2] exI [of _ ys]) (auto simp: e 1(2))
qed

section \<open>The closest name\<close>

lemma names_built:
  assumes "distinct (map fst ns)" "list_all (entry_ok raw) ns"
  obtains t t' xs where "insert_names ns (name_tree_init raw) = Some t" "name_tree_init_parents t = Some t'"
    "name_tree_ok t' xs" "names.parents_right t' xs (set xs)" "set xs \<subseteq> fst ` set ns"
    "\<And>e. e \<in> set ns \<Longrightarrow> \<exists>p. kv t' (fst e) = (entry_key e)\<lparr>nt_parent := p\<rparr>"
    "\<And>e. e \<in> set ns \<Longrightarrow> \<exists>b \<in> set xs. name_path (kv t' b) = name_path (entry_key e)"
proof -
  have "entry_ok (name_tree_init raw) = entry_ok raw"
    by (rule ext) (rule entry_ok_dom, simp add: name_tree_init_def rb_init_view)
  with insert_names_ok [OF name_tree_init_ok, of ns raw] assms obtain t xs where
    1: "insert_names ns (name_tree_init raw) = Some t" "name_tree_ok t xs" "set xs \<subseteq> fst ` set ns"
    "\<forall>e \<in> set ns. kv t (fst e) = entry_key e" "\<forall>e \<in> set ns. \<exists>b \<in> set xs. name_path (kv t b) = name_path (entry_key e)"
    by auto
  from name_tree_init_parents_ok [OF 1(2)] obtain t' where
    2: "name_tree_init_parents t = Some t'" "name_tree_ok t' xs" "names.same_but_parents t t'" "names.parents_right t' xs (set xs)"
    by blast
  have "kv t' b = (kv t b)\<lparr>nt_parent := nt_parent (kv t' b)\<rparr>" for b
    using 2(3) unfolding names.same_but_parents_def by (simp add: name_ops_def)
  then have "\<exists>p. kv t' (fst e) = (entry_key e)\<lparr>nt_parent := p\<rparr>" if "e \<in> set ns" for e
    using 1(4) that by metis
  moreover have "\<exists>b \<in> set xs. name_path (kv t' b) = name_path (entry_key e)" if "e \<in> set ns" for e
    using 1(5) that names.same_but_parents_path [OF 2(3)] by simp
  ultimately show thesis using that 1(1,3) 2(1,2,4) by blast
qed

fun entry_around :: "label list \<Rightarrow> u16 \<Rightarrow> name_entry \<Rightarrow> bool" where
  "entry_around qs qclass (a, name, len, labs, dclass) \<longleftrightarrow> name_around qs qclass name dclass"

fun entry_labs :: "name_entry \<Rightarrow> nat" where
  "entry_labs (a, name, len, labs, dclass) = labs"

lemma entry_around_path:
  assumes "entry_ok raw e" "labels_of qname = Some qs"
  shows "prefix (name_path (entry_key e)) (name_path (name_tree_key qname qlen (length qs + 1) qclass)) \<longleftrightarrow> entry_around qs qclass e"
    "length (name_path (entry_key e)) = entry_labs e + 1"
proof -
  obtain a name len labs dclass where e: "e = (a, name, len, labs, dclass)" by (rule prod_cases5)
  obtain ls where ls: "labels_of name = Some ls" "labs = length ls + 1" using assms(1) by (auto simp: e split: option.splits)
  show "prefix (name_path (entry_key e)) (name_path (name_tree_key qname qlen (length qs + 1) qclass)) \<longleftrightarrow> entry_around qs qclass e"
    using name_around_path [of "entry_key e" ls qname qs] ls assms(2) by (simp add: e name_tree_key_def)
  show "length (name_path (entry_key e)) = entry_labs e + 1"
    using ls by (simp add: e name_path_def name_tree_key_def labels_path_def)
qed

text \<open>
  C9. The lookup in a tree of names finds the closest enclosing entry: after any entries with different
  nodes are inserted into a new tree and \<open>name_tree_init_parents\<close> has set the links, none of which
  fails, \<open>name_tree_lookup\<close> finds, for every name and class, an entry of the class whose name is the name
  itself or a parent domain of it, up to case, with the largest number of labels among all such
  entries, and reports none only if there is no such entry.
\<close>

theorem name_tree_lookup_closest:
  assumes "distinct (map fst ns)" "list_all (entry_ok raw) ns" "labels_of qname = Some qs"
  shows "\<exists>t t' r. insert_names ns (name_tree_init raw) = Some t \<and> name_tree_init_parents t = Some t' \<and>
    name_tree_lookup t' qname qlen (length qs + 1) qclass = Some r \<and>
    (case r of
       None \<Rightarrow> \<forall>e \<in> set ns. \<not> entry_around qs qclass e
     | Some a \<Rightarrow> \<exists>e \<in> set ns. fst e = a \<and> entry_around qs qclass e \<and>
         (\<forall>e' \<in> set ns. entry_around qs qclass e' \<longrightarrow> entry_labs e' \<le> entry_labs e))"
proof -
  obtain t t' xs where b: "insert_names ns (name_tree_init raw) = Some t" "name_tree_init_parents t = Some t'"
    "name_tree_ok t' xs" "names.parents_right t' xs (set xs)" "set xs \<subseteq> fst ` set ns"
    "\<And>e. e \<in> set ns \<Longrightarrow> \<exists>p. kv t' (fst e) = (entry_key e)\<lparr>nt_parent := p\<rparr>"
    "\<And>e. e \<in> set ns \<Longrightarrow> \<exists>b \<in> set xs. name_path (kv t' b) = name_path (entry_key e)"
    using names_built [OF assms(1,2)] by blast
  define q where "q = name_path (name_tree_key qname qlen (length qs + 1) qclass)"
  define r where "r = last_opt (filter (\<lambda>a. prefix (name_path (kv t' a)) q) xs)"
  have run: "name_tree_lookup t' qname qlen (length qs + 1) qclass = Some r"
    using name_tree_lookup_ok [OF b(3,4) assms(3) refl] by (simp add: r_def q_def)
  have ok: "entry_ok raw e" if "e \<in> set ns" for e using assms(2) that by (simp add: list_all_iff)
  note ar = entry_around_path(1) [OF ok assms(3), of _ qlen qclass, folded q_def] entry_around_path(2) [OF ok assms(3)]
  have path: "name_path (kv t' (fst e)) = name_path (entry_key e)" if "e \<in> set ns" for e
    using b(6) [OF that] by (auto simp: name_path_def)
  have t: "rb_table name_keys t' xs" "rb_cmp t' = name_tree_compare" using b(3) by (simp_all add: name_tree_ok_def)
  have "case r of
       None \<Rightarrow> \<forall>e \<in> set ns. \<not> entry_around qs qclass e
     | Some a \<Rightarrow> \<exists>e \<in> set ns. fst e = a \<and> entry_around qs qclass e \<and>
         (\<forall>e' \<in> set ns. entry_around qs qclass e' \<longrightarrow> entry_labs e' \<le> entry_labs e)"
  proof (cases r)
    case None
    then have "\<forall>a \<in> set xs. \<not> prefix (name_path (kv t' a)) q" unfolding r_def last_opt_filter_None .
    then show ?thesis using b(7) ar(1) None by fastforce
  next
    case (Some a)
    note l = names.last_around [OF t Some [unfolded r_def]]
    obtain e where e: "e \<in> set ns" "fst e = a" using l(1) b(5) by auto
    have "entry_labs e' \<le> entry_labs e" if e': "e' \<in> set ns" "entry_around qs qclass e'" for e'
    proof -
      obtain c where c: "c \<in> set xs" "name_path (kv t' c) = name_path (entry_key e')" using b(7) [OF e'(1)] by blast
      then have "prefix (name_path (kv t' c)) (name_path (kv t' a))" using ar(1) [OF e'(1)] e'(2) by (intro l(3)) simp_all
      then have "length (name_path (entry_key e')) \<le> length (name_path (entry_key e))"
        using c(2) path [OF e(1)] e(2) by (metis prefix_length_le)
      then show ?thesis using ar(2) [OF e(1)] ar(2) [OF e'(1)] by simp
    qed
    moreover have "entry_around qs qclass e" using l(2) path [OF e(1)] e(2) ar(1) [OF e(1)] by simp
    ultimately show ?thesis using e Some by auto
  qed
  with b(1,2) run show ?thesis by blast
qed

text \<open>Entries for the names . , com. and A.com. in class 1, and com. in class 3.\<close>

definition some_nodes :: "name_tree_node rbtree" where
  "some_nodes = \<lparr>rb_root = None, rb_count = 0, rb_cmp = name_tree_compare,
     rb_mem = (\<lambda>_. Some \<lparr>rb_parent = None, rb_left = None, rb_right = None, rb_key = name_tree_key [0] 1 1 1, rb_color = BLACK\<rparr>)\<rparr>"

definition some_entries :: "name_entry list" where
  "some_entries = [(1, [1, 65, 3, 99, 111, 109, 0], 7, 3, 1), (2, [0], 1, 1, 1), (3, [3, 99, 111, 109, 0], 5, 2, 1),
     (4, [3, 99, 111, 109, 0], 5, 2, 3)]"

lemma some_entries_ok: "distinct (map fst some_entries)" "list_all (entry_ok some_nodes) some_entries"
  by (simp_all add: some_entries_def some_nodes_def)

theorem name_tree_lookup_closest_witness:
  "\<exists>t t'. insert_names some_entries (name_tree_init some_nodes) = Some t \<and> name_tree_init_parents t = Some t' \<and>
    name_tree_lookup t' [1, 98, 3, 67, 111, 109, 0] 7 3 1 = Some (Some 3)"
proof -
  have l: "labels_of [1, 98, 3, 67, 111, 109, 0] = Some [[98], [67, 111, 109]]" by simp
  have q: "entry_around [[98], [67, 111, 109]] 1 e \<and> e \<in> set some_entries \<longleftrightarrow>
      e = (2, [0], 1, 1, 1) \<or> e = (3, [3, 99, 111, 109, 0], 5, 2, 1)" for e
    by (auto simp: some_entries_def name_around_def c_tolower_def suffix_def)
  have n: "length [[98 :: byte], [67, 111, 109]] + 1 = 3" by simp
  from name_tree_lookup_closest [OF some_entries_ok l, of 7 1, unfolded n] obtain t t' r where
    1: "insert_names some_entries (name_tree_init some_nodes) = Some t" "name_tree_init_parents t = Some t'"
      "name_tree_lookup t' [1, 98, 3, 67, 111, 109, 0] 7 3 1 = Some r"
    and 2: "case r of
       None \<Rightarrow> \<forall>e \<in> set some_entries. \<not> entry_around [[98], [67, 111, 109]] 1 e
     | Some a \<Rightarrow> \<exists>e \<in> set some_entries. fst e = a \<and> entry_around [[98], [67, 111, 109]] 1 e \<and>
         (\<forall>e' \<in> set some_entries. entry_around [[98], [67, 111, 109]] 1 e' \<longrightarrow> entry_labs e' \<le> entry_labs e)" by blast
  have "r = Some 3"
  proof (cases r)
    case None
    with 2 q [of "(2, [0], 1, 1, 1)"] show ?thesis by auto
  next
    case (Some a)
    with 2 obtain e where e: "e \<in> set some_entries" "fst e = a" "entry_around [[98], [67, 111, 109]] 1 e"
      "\<forall>e' \<in> set some_entries. entry_around [[98], [67, 111, 109]] 1 e' \<longrightarrow> entry_labs e' \<le> entry_labs e" by auto
    have "entry_labs (3, [3, 99, 111, 109, 0], 5, 2, 1) \<le> entry_labs e" using e(4) q [of "(3, [3, 99, 111, 109, 0], 5, 2, 1)"] by blast
    then show ?thesis using q [of e] e Some by auto
  qed
  with 1 show ?thesis by blast
qed

section \<open>The closest netblock\<close>

definition in_netblock :: "addr_tree_node \<Rightarrow> sockaddr_storage \<Rightarrow> nat \<Rightarrow> bool" where
  "in_netblock k a len \<longleftrightarrow> at_addrlen k = len \<and> sin_family (at_addr k) = sin_family a \<and>
     take (at_net k) (addr_bits a len) = take (at_net k) (addr_bits (at_addr k) len)"

lemma in_netblock_path:
  assumes "k \<in> addr_keys" "inet_addr a len"
  shows "prefix (addr_path k) ([len, sin_family a] @ map of_bool (addr_bits a len)) \<longleftrightarrow> in_netblock k a len"
proof (cases "at_addrlen k = len \<and> sin_family (at_addr k) = sin_family a")
  case True
  have "prefix (map of_bool xs :: nat list) (map of_bool ys) \<longleftrightarrow> prefix xs ys" for xs ys
    using prefix_map_inj [of "of_bool :: bool \<Rightarrow> nat" "\<lambda>x. x" xs ys] by simp
  moreover have "length (at_addr k) = 128" "length a = 128" using assms by (auto simp: addr_keys_def inet_addr_def)
  then have "length (addr_bits (at_addr k) len) = addr_width (at_addr k) len" by (intro length_addr_bits)
  moreover have "at_net k \<le> addr_width (at_addr k) len" using assms(1) True by (simp add: addr_keys_def)
  moreover have "prefix (take n xs) ys \<longleftrightarrow> take n ys = take n xs" if "n \<le> length xs" for n and xs ys :: "bool list"
    using that by (auto simp: prefix_def) (metis append_take_drop_id)
  ultimately show ?thesis using True by (simp add: addr_path_def in_netblock_def)
qed (auto simp: addr_path_def in_netblock_def)

text \<open>
  C10. The lookup in a tree of netblocks is a longest prefix match: in a tree whose netblocks have no bits
  set behind the prefix, after \<open>addr_tree_init_parents\<close>, \<open>addr_tree_lookup\<close> finds a netblock that contains
  the address, and of those that contain it one with the most bits; it reports none only if no netblock
  contains the address. It does not depend on the bytes of the stack behind the copied address.
\<close>

theorem addr_tree_lookup_longest:
  assumes "addr_tree_ok t xs" "inet_addr a len" "length raw = 128"
  shows "\<exists>t' r. addr_tree_init_parents t = Some t' \<and> addr_tree_ok t' xs \<and> addr_tree_lookup raw t' a len = Some r \<and>
    (case r of
       None \<Rightarrow> \<forall>b \<in> set xs. \<not> in_netblock (kv t b) a len
     | Some b \<Rightarrow> b \<in> set xs \<and> in_netblock (kv t b) a len \<and>
         (\<forall>c \<in> set xs. in_netblock (kv t c) a len \<longrightarrow> at_net (kv t c) \<le> at_net (kv t b)))"
proof -
  from addr_tree_init_parents_ok [OF assms(1)] obtain t' where
    1: "addr_tree_init_parents t = Some t'" "addr_tree_ok t' xs" "netblocks.same_but_parents t t'"
    "netblocks.parents_right t' xs (set xs)" by blast
  define r where "r = last_opt (filter (\<lambda>q. prefix (addr_path (kv t' q)) ([len, sin_family a] @ map of_bool (addr_bits a len))) xs)"
  have run: "addr_tree_lookup raw t' a len = Some r" using addr_tree_lookup_ok [OF 1(2,4) assms(2,3)] by (simp add: r_def)
  have T: "rb_table addr_keys t xs" "rb_cmp t = addr_tree_compare" using assms(1) by (simp_all add: addr_tree_ok_def)
  note srt = netblocks.table_sorted [OF T]
  have r: "r = last_opt (filter (\<lambda>q. prefix (addr_path (kv t q)) ([len, sin_family a] @ map of_bool (addr_bits a len))) xs)"
    unfolding r_def netblocks.same_but_parents_path [OF 1(3)] ..
  note inb = in_netblock_path [OF srt(2) assms(2)]
  have "case r of
       None \<Rightarrow> \<forall>b \<in> set xs. \<not> in_netblock (kv t b) a len
     | Some b \<Rightarrow> b \<in> set xs \<and> in_netblock (kv t b) a len \<and>
         (\<forall>c \<in> set xs. in_netblock (kv t c) a len \<longrightarrow> at_net (kv t c) \<le> at_net (kv t b))"
  proof (cases r)
    case None
    then have "\<forall>b \<in> set xs. \<not> in_netblock (kv t b) a len" using inb unfolding r last_opt_filter_None by blast
    with None show ?thesis by simp
  next
    case (Some b)
    note l = netblocks.last_around [OF T Some [unfolded r]]
    have "at_net (kv t c) \<le> at_net (kv t b)" if c: "c \<in> set xs" "in_netblock (kv t c) a len" for c
    proof -
      have "prefix (addr_path (kv t c)) (addr_path (kv t b))" using inb [OF c(1)] c by (intro l(3)) simp_all
      then have "length (addr_path (kv t c)) \<le> length (addr_path (kv t b))" by (rule prefix_length_le)
      then show ?thesis using netblocks.depth_path [OF srt(2) [OF l(1)]] netblocks.depth_path [OF srt(2) [OF c(1)]] by (simp add: addr_ops_def)
    qed
    then show ?thesis using l(1,2) inb [OF l(1)] Some by simp
  qed
  with 1(1,2) run show ?thesis by blast
qed

definition some_addr_nodes :: "addr_tree_node rbtree" where
  "some_addr_nodes = \<lparr>rb_root = None, rb_count = 0, rb_cmp = addr_tree_compare,
     rb_mem = (\<lambda>_. Some \<lparr>rb_parent = None, rb_left = None, rb_right = None,
       rb_key = \<lparr>at_parent = None, at_addr = replicate 128 0, at_addrlen = 0, at_net = 0\<rparr>, rb_color = BLACK\<rparr>)\<rparr>"

lemma some_nets_ok: "net_ok (sample_ip4 [10, 0, 0, 0]) 16 8" "net_ok (sample_ip4 [10, 1, 0, 0]) 16 16"
    "inet_addr (sample_ip4 [10, 1, 2, 3]) 16"
  by code_simp+

lemma some_netblocks:
  obtains t xs where "addr_tree_ok t xs" "set xs = {1, 2}"
    "kv t 1 = addr_tree_key (replicate 128 0) (sample_ip4 [10, 0, 0, 0]) 16 8"
    "kv t 2 = addr_tree_key (replicate 128 0) (sample_ip4 [10, 1, 0, 0]) 16 16"
proof -
  let ?t = "addr_tree_init some_addr_nodes"
  let ?k1 = "addr_tree_key (replicate 128 0) (sample_ip4 [10, 0, 0, 0]) 16 8"
  let ?k2 = "addr_tree_key (replicate 128 0) (sample_ip4 [10, 1, 0, 0]) 16 16"
  have m: "rb_mem ?t a \<noteq> None" "at_addr (kv ?t a) = replicate 128 0" for a
    by (simp_all add: addr_tree_init_def rb_init_view some_addr_nodes_def kv_def ky_def)
  from addr_tree_insert_ok [OF addr_tree_init_ok [of some_addr_nodes], of 1, OF _ m(1) _ some_nets_ok(1) refl] m obtain t1 xs1 where
    1: "kv t1 = (kv ?t)(1 := ?k1)" "dom (rb_mem t1) = dom (rb_mem ?t)" "addr_tree_ok t1 xs1" "set xs1 = {1}" by auto
  have m1: "rb_mem t1 2 \<noteq> None" "at_addr (kv t1 2) = replicate 128 0" using m(1) [of 2] m(2) [of 2] 1(1,2) by (auto simp: domIff)
  have "addr_path ?k1 \<noteq> addr_path ?k2" by code_simp
  then have "\<not> (\<exists>b \<in> set xs1. addr_path (kv t1 b) = addr_path ?k2)" using 1 by simp
  with addr_tree_insert_ok [OF 1(3), of 2, OF _ m1(1) _ some_nets_ok(2) refl] m1(2) 1(4) obtain t2 xs2 where
    "kv t2 = (kv t1)(2 := ?k2)" "addr_tree_ok t2 xs2" "set xs2 = {2, 1}" by auto
  with 1(1) show thesis by (intro that [of t2 xs2]) auto
qed

theorem addr_tree_lookup_longest_witness:
  "\<exists>t xs t'. addr_tree_ok t xs \<and> set xs = {1, 2} \<and> addr_tree_init_parents t = Some t' \<and>
    addr_tree_lookup (replicate 128 7) t' (sample_ip4 [10, 1, 2, 3]) 16 = Some (Some 2)"
proof -
  obtain t xs where t: "addr_tree_ok t xs" "set xs = {1, 2}"
    "kv t 1 = addr_tree_key (replicate 128 0) (sample_ip4 [10, 0, 0, 0]) 16 8"
    "kv t 2 = addr_tree_key (replicate 128 0) (sample_ip4 [10, 1, 0, 0]) 16 16" by (rule some_netblocks)
  have n: "in_netblock (kv t 2) (sample_ip4 [10, 1, 2, 3]) 16" "at_net (kv t 2) = 16" "at_net (kv t 1) = 8"
    unfolding t(3,4) by code_simp+
  from addr_tree_lookup_longest [OF t(1) some_nets_ok(3), of "replicate 128 7"] obtain t' r where
    1: "addr_tree_init_parents t = Some t'" "addr_tree_lookup (replicate 128 7) t' (sample_ip4 [10, 1, 2, 3]) 16 = Some r"
    and 2: "case r of
       None \<Rightarrow> \<forall>b \<in> set xs. \<not> in_netblock (kv t b) (sample_ip4 [10, 1, 2, 3]) 16
     | Some b \<Rightarrow> b \<in> set xs \<and> in_netblock (kv t b) (sample_ip4 [10, 1, 2, 3]) 16 \<and>
         (\<forall>c \<in> set xs. in_netblock (kv t c) (sample_ip4 [10, 1, 2, 3]) 16 \<longrightarrow> at_net (kv t c) \<le> at_net (kv t b))" by auto
  have "r = Some 2" using 2 n t(2) by (cases r) auto
  with 1 t(1,2) show ?thesis by blast
qed

section \<open>The classes with a root\<close>

definition has_root :: "name_tree_node rbtree \<Rightarrow> addr list \<Rightarrow> u16 \<Rightarrow> bool" where
  "has_root t xs c \<longleftrightarrow> (\<exists>a \<in> set xs. nt_dclass (kv t a) = c \<and> labels_of (nt_name (kv t a)) = Some [])"

definition least_root :: "name_tree_node rbtree \<Rightarrow> addr list \<Rightarrow> u16 \<Rightarrow> bool \<times> u16 \<Rightarrow> bool" where
  "least_root t xs d r \<longleftrightarrow> (if fst r then d \<le> snd r \<and> has_root t xs (snd r) \<and> (\<forall>c. d \<le> c \<and> has_root t xs c \<longrightarrow> snd r \<le> c)
     else \<forall>c. d \<le> c \<longrightarrow> \<not> has_root t xs c)"

definition labs_right :: "name_tree_node rbtree \<Rightarrow> addr list \<Rightarrow> bool" where
  "labs_right t xs \<longleftrightarrow> (\<forall>a \<in> set xs. 0 < nt_labs (kv t a))"

lemma not_ptr: "unat b \<le> 63 \<Longrightarrow> \<not> LABEL_IS_PTR b"
  using word_and_le1 [of b "0xc0"] word_and_le2 [of b "0xc0"] by (auto simp: LABEL_IS_PTR_def word_le_nat_alt)

lemma dname_is_root_labels: "labels_of d = Some ls \<Longrightarrow> dname_is_root d = Some (ls = [])"
  by (cases d) (auto simp: dname_is_root_def not_ptr split: if_splits)

lemma class_before:
  assumes "k \<in> name_keys" "0 < nt_labs k"
  shows "name_tree_compare k (name_tree_key [0] 1 0 d) < 0 \<longleftrightarrow> nt_dclass k < d"
    "name_tree_compare (name_tree_key [0] 1 0 d) k \<noteq> 0"
proof -
  have K: "name_tree_key [0] 1 0 d \<in> name_keys" by (simp add: name_tree_key_def name_keys_def)
  have p: "name_path (name_tree_key [0] 1 0 d) = [[unat d]]" "name_path k = [unat (nt_dclass k)] # [] # tl (tl (name_path k))"
    using assms(2) by (simp_all add: name_path_def name_tree_key_def labels_path_def)
  show "name_tree_compare k (name_tree_key [0] 1 0 d) < 0 \<longleftrightarrow> nt_dclass k < d"
    unfolding name_compare_path [OF assms(1) K] p(1)
    by (subst p(2)) (simp add: len_cmp_def then_cmp_def lin_cmp_def word_less_nat_alt)
  show "name_tree_compare (name_tree_key [0] 1 0 d) k \<noteq> 0"
    unfolding names.cmp_zero [OF K assms(1)] p(1) by (subst p(2)) simp
qed

text \<open>The last node of the classes before \<open>d\<close>.\<close>

lemma find_class:
  assumes t: "name_tree_ok t xs" and l: "labs_right t xs" and ex: "\<exists>a \<in> set xs. nt_dclass (kv t a) < d"
  obtains us b vs where "xs = us @ b # vs" "rbtree_find_less_equal t (name_tree_key [0] 1 0 d) = Some (False, Some b)"
    "\<And>a. a \<in> set (us @ [b]) \<Longrightarrow> nt_dclass (kv t a) < d" "\<And>a. a \<in> set vs \<Longrightarrow> d \<le> nt_dclass (kv t a)"
proof -
  let ?k = "name_tree_key [0] 1 0 d"
  have T: "rb_table name_keys t xs" "rb_cmp t = name_tree_compare" using t by (simp_all add: name_tree_ok_def)
  have K: "?k \<in> name_keys" by (simp add: name_tree_key_def name_keys_def)
  note srt = names.table_sorted [OF T]
  have cb: "name_tree_compare (kv t a) ?k < 0 \<longleftrightarrow> nt_dclass (kv t a) < d" "name_tree_compare ?k (kv t a) \<noteq> 0"
    "0 < name_tree_compare ?k (kv t a) \<longleftrightarrow> nt_dclass (kv t a) < d" if "a \<in> set xs" for a
    using class_before [OF srt(2) [OF that], of d] that l comparator.cmp_pos_neg [OF name_tree_comparator K srt(2) [OF that]]
    by (auto simp: labs_right_def)
  have ks: "keys_sorted name_keys t xs" using T(1) by (simp add: rb_table_def)
  from le_find_closest [OF ks K, unfolded T(2)] obtain exact res where
    1: "le_find (\<lambda>a. name_tree_compare ?k (kv t a)) xs None = (exact, res)"
      "exact \<longleftrightarrow> (\<exists>a \<in> set xs. name_tree_compare ?k (kv t a) = 0)"
      "case res of None \<Rightarrow> \<forall>a \<in> set xs. name_tree_compare ?k (kv t a) < 0
       | Some a \<Rightarrow> a \<in> set xs \<and> (if exact then name_tree_compare ?k (kv t a) = 0 else 0 < name_tree_compare ?k (kv t a)) \<and>
         (\<forall>b \<in> set xs. 0 \<le> name_tree_compare ?k (kv t b) \<longrightarrow> b = a \<or> name_tree_compare (kv t b) (kv t a) < 0)"
    by blast
  have e: "\<not> exact" using 1(2) cb(2) by blast
  obtain a0 where a0: "a0 \<in> set xs" "0 < name_tree_compare ?k (kv t a0)" using ex cb(3) by blast
  obtain b where b0: "res = Some b" using 1(3) a0 by (cases res) auto
  then have b1: "b \<in> set xs" "0 < name_tree_compare ?k (kv t b)"
    "\<forall>a \<in> set xs. 0 \<le> name_tree_compare ?k (kv t a) \<longrightarrow> a = b \<or> name_tree_compare (kv t a) (kv t b) < 0"
    using 1(3) e by simp_all
  have b: "res = Some b" "b \<in> set xs" "nt_dclass (kv t b) < d" using b0 b1 cb(3) by blast+
  have mx: "a = b \<or> name_tree_compare (kv t a) (kv t b) < 0" if "a \<in> set xs" "nt_dclass (kv t a) < d" for a
    using b1(3) that cb(3) [OF that(1)] by simp
  obtain us vs where x: "xs = us @ b # vs" using b(2) by (meson split_list)
  have run: "rbtree_find_less_equal t ?k = Some (False, Some b)"
    using rbtree_find_less_equal_ok [OF T(1) K] 1(1) T(2) e b(1) by simp
  have less: "nt_dclass (kv t a) < d" if "a \<in> set (us @ [b])" for a
  proof -
    have "a \<in> set xs" using that x by auto
    moreover have "a = b \<or> name_tree_compare (kv t a) (kv t b) < 0" using that srt(1) by (auto simp: x sorted_wrt_append)
    moreover have "name_tree_compare (kv t b) ?k < 0" using cb(1) [OF b(2)] b(3) by simp
    ultimately show ?thesis using b(3) cb(1) comparator.cmp_less_trans [OF name_tree_comparator srt(2) srt(2) [OF b(2)] K] by blast
  qed
  have more: "d \<le> nt_dclass (kv t a)" if "a \<in> set vs" for a
  proof (rule ccontr)
    assume "\<not> d \<le> nt_dclass (kv t a)"
    then have "a = b \<or> name_tree_compare (kv t a) (kv t b) < 0" using mx [of a] that x by auto
    moreover have lt: "name_tree_compare (kv t b) (kv t a) < 0" using srt(1) that by (auto simp: x sorted_wrt_append)
    ultimately show False
      using comparator.cmp_antisym [OF name_tree_comparator srt(2) [OF b(2)] srt(2), of a] that x by auto
  qed
  show thesis using that [OF x run less more] by blast
qed

lemma class_succ: "(c :: u16) \<noteq> - 1 \<Longrightarrow> unat (c + 1) = unat c + 1"
  using unatSuc [of c] by (metis Suc_eq_plus1 add.commute add_eq_0_iff)

lemma class_first:
  assumes t: "name_tree_ok t (ys @ a # zs)" and l: "labs_right t (ys @ a # zs)"
    and c: "\<And>b. b \<in> set ys \<Longrightarrow> nt_dclass (kv t b) < d" "d \<le> nt_dclass (kv t a)"
    and b: "b \<in> set (ys @ a # zs)" "d \<le> nt_dclass (kv t b)"
  shows "nt_dclass (kv t a) \<le> nt_dclass (kv t b)"
    "nt_dclass (kv t b) = nt_dclass (kv t a) \<Longrightarrow> labels_of (nt_name (kv t b)) = Some [] \<Longrightarrow> labels_of (nt_name (kv t a)) = Some []"
proof -
  let ?xs = "ys @ a # zs"
  have T: "rb_table name_keys t ?xs" "rb_cmp t = name_tree_compare" using t by (simp_all add: name_tree_ok_def)
  note srt = names.table_sorted [OF T]
  have Ka: "kv t a \<in> name_keys" and Kb: "kv t b \<in> name_keys" using srt(2) b(1) by auto
  have "b \<notin> set ys" using c(1) b(2) by (auto simp: linorder_not_less [symmetric])
  then have lt: "b = a \<or> name_tree_compare (kv t a) (kv t b) < 0" using b(1) srt(1) by (auto simp: sorted_wrt_append)
  then show "nt_dclass (kv t a) \<le> nt_dclass (kv t b)"
    by (auto simp: name_tree_compare_def split: if_splits)
  assume e: "nt_dclass (kv t b) = nt_dclass (kv t a)" "labels_of (nt_name (kv t b)) = Some []"
  have la: "0 < nt_labs (kv t a)" "0 < nt_labs (kv t b)" using l b(1) by (auto simp: labs_right_def)
  then have p: "prefix (name_path (kv t b)) (name_path (kv t a))" using e by (simp add: name_path_def labels_path_def)
  have "name_path (kv t b) = name_path (kv t a)"
  proof (rule ccontr)
    assume "name_path (kv t b) \<noteq> name_path (kv t a)"
    then have "name_tree_compare (kv t b) (kv t a) < 0" using names.strict_prefix_less [OF Kb Ka] p by (simp add: strict_prefix_def)
    moreover have "name_tree_compare (kv t a) (kv t b) < 0" using lt \<open>_ \<noteq> _\<close> by auto
    ultimately show False using comparator.cmp_antisym [OF name_tree_comparator Ka Kb] by simp
  qed
  moreover obtain ls where ls: "labels_of (nt_name (kv t a)) = Some ls" by (rule name_keysE [OF Ka])
  ultimately show "labels_of (nt_name (kv t a)) = Some []"
    using e(2) la by (simp add: name_path_def labels_path_def)
qed

lemma next_root_step:
  assumes t: "name_tree_ok t (ys @ zs)" and l: "labs_right t (ys @ zs)" and top: "\<And>a. a \<in> set (ys @ zs) \<Longrightarrow> nt_dclass (kv t a) \<noteq> - 1"
    and c: "\<And>b. b \<in> set ys \<Longrightarrow> nt_dclass (kv t b) < d" "\<And>b. b \<in> set zs \<Longrightarrow> d \<le> nt_dclass (kv t b)"
    and IH: "\<And>d'. d < d' \<Longrightarrow> \<exists>a \<in> set (ys @ zs). nt_dclass (kv t a) < d' \<Longrightarrow>
      \<exists>r. name_tree_next_root t d' = Some r \<and> least_root t (ys @ zs) d' r"
  shows "\<exists>r. (case hd_opt zs of None \<Rightarrow> Some (False, d) | Some _ \<Rightarrow> do {
           p \<leftarrow> get_key t (hd_opt zs);
           root \<leftarrow> dname_is_root (nt_name p);
           if root then Some (True, nt_dclass p) else name_tree_next_root t (nt_dclass p + 1) }) = Some r \<and>
    least_root t (ys @ zs) d r"
proof (cases zs)
  case Nil
  then have "\<not> has_root t (ys @ zs) x" if "d \<le> x" for x
    using c(1) that by (fastforce simp: has_root_def linorder_not_less [symmetric])
  then show ?thesis by (simp add: Nil least_root_def)
next
  case (Cons a zs')
  have T: "rb_table name_keys t (ys @ zs)" "rb_cmp t = name_tree_compare" using t by (simp_all add: name_tree_ok_def)
  have a: "a \<in> set (ys @ zs)" "d \<le> nt_dclass (kv t a)" using c(2) Cons by simp_all
  obtain ls where ls: "labels_of (nt_name (kv t a)) = Some ls" by (rule name_keysE [OF names.table_sorted(2) [OF T a(1)]])
  note f = class_first [OF t [unfolded Cons] l [unfolded Cons] c(1) a(2)]
  have least: "nt_dclass (kv t a) \<le> x" if "d \<le> x" "has_root t (ys @ zs) x" for x
    using that f(1) by (auto simp: has_root_def Cons)
  have key: "get_key t (Some a) = Some (kv t a)" using names.table_key [OF T(1) a(1)] .
  show ?thesis
  proof (cases "ls = []")
    case True
    have "has_root t (ys @ zs) (nt_dclass (kv t a))" using a(1) ls True by (auto simp: has_root_def)
    then have "least_root t (ys @ zs) d (True, nt_dclass (kv t a))" using a(2) least by (simp add: least_root_def)
    then show ?thesis using key dname_is_root_labels [OF ls] True by (simp add: Cons)
  next
    case False
    have lt: "nt_dclass (kv t a) < nt_dclass (kv t a) + 1" using class_succ [OF top [OF a(1)]] by (simp add: word_less_nat_alt)
    obtain r where r: "name_tree_next_root t (nt_dclass (kv t a) + 1) = Some r" "least_root t (ys @ zs) (nt_dclass (kv t a) + 1) r"
      using IH [of "nt_dclass (kv t a) + 1"] a lt by (meson order.strict_trans1)
    have no: "\<not> has_root t (ys @ zs) (nt_dclass (kv t a))"
      using f(2) ls False a(2) by (auto simp: has_root_def Cons)
    have "nt_dclass (kv t a) + 1 \<le> x" if "d \<le> x" "has_root t (ys @ zs) x" for x
    proof -
      have "nt_dclass (kv t a) < x" using least [OF that] no that(2) by (cases "x = nt_dclass (kv t a)") auto
      then show ?thesis using class_succ [OF top [OF a(1)]] by (simp add: word_less_nat_alt word_le_nat_alt)
    qed
    then have "least_root t (ys @ zs) d r" using r(2) a(2) lt unfolding least_root_def
      by (meson order.strict_implies_order order.trans)
    then show ?thesis using key dname_is_root_labels [OF ls] False r(1) by (simp add: Cons)
  qed
qed

lemma next_root_ok:
  assumes t: "name_tree_ok t xs" and l: "labs_right t xs" and top: "\<And>a. a \<in> set xs \<Longrightarrow> nt_dclass (kv t a) \<noteq> - 1"
    and d: "d = 0 \<or> (\<exists>a \<in> set xs. nt_dclass (kv t a) < d)"
  shows "\<exists>r. name_tree_next_root t d = Some r \<and> least_root t xs d r"
  using d
proof (induction "65536 - unat d" arbitrary: d rule: less_induct)
  case less
  have IH: "\<exists>r. name_tree_next_root t d' = Some r \<and> least_root t xs d' r"
    if "d < d'" "\<exists>a \<in> set xs. nt_dclass (kv t a) < d'" for d'
  proof -
    have "unat d' < 65536" using unsigned_less [of d'] by simp
    then have "65536 - unat d' < 65536 - unat d" using that(1) by (simp add: word_less_nat_alt)
    then show ?thesis using less.hyps [of d'] that(2) by blast
  qed
  have T: "rb_table name_keys t xs" using t by (simp add: name_tree_ok_def)
  show ?case
  proof (cases "d = 0")
    case True
    have "rbtree_first t = Some (hd_opt xs)" by (rule rbtree_first_ok [OF T])
    with next_root_step [of t "[]" xs d] t l top IH True show ?thesis by (subst name_tree_next_root.simps) simp
  next
    case False
    then have ex: "\<exists>a \<in> set xs. nt_dclass (kv t a) < d" using less.prems by blast
    show ?thesis
    proof (rule find_class [OF t l ex])
      fix us b vs
      assume f: "xs = us @ b # vs" "rbtree_find_less_equal t (name_tree_key [0] 1 0 d) = Some (False, Some b)"
        "\<And>a. a \<in> set (us @ [b]) \<Longrightarrow> nt_dclass (kv t a) < d" "\<And>a. a \<in> set vs \<Longrightarrow> d \<le> nt_dclass (kv t a)"
      have n: "rbtree_next t (Some b) = Some (hd_opt vs)" using rbtree_next_ok [of name_keys t us b vs] T f(1) by simp
      have x: "xs = (us @ [b]) @ vs" using f(1) by simp
      note step = next_root_step [of t "us @ [b]" vs d, folded x, OF t l top f(3,4) IH]
      show ?thesis using step False f(2) n by (subst name_tree_next_root.simps) simp
    qed
  qed
qed

fun entry_class :: "name_entry \<Rightarrow> u16" where
  "entry_class (a, name, len, labs, dclass) = dclass"

fun entry_root :: "name_entry \<Rightarrow> bool" where
  "entry_root (a, name, len, labs, dclass) \<longleftrightarrow> labels_of name = Some []"

definition root_class :: "name_entry list \<Rightarrow> u16 \<Rightarrow> bool" where
  "root_class ns c \<longleftrightarrow> (\<exists>e \<in> set ns. entry_class e = c \<and> entry_root e)"

lemma entry_key_simps: "nt_dclass (entry_key e) = entry_class e"
    "labels_of (nt_name (entry_key e)) = Some [] \<longleftrightarrow> entry_root e" "entry_ok raw e \<Longrightarrow> 0 < nt_labs (entry_key e)"
  by (cases e; auto simp: name_tree_key_def split: option.splits)+

text \<open>Without a class before \<open>d\<close> the search finds no node to go on from.\<close>

lemma next_root_none_below:
  assumes t: "name_tree_ok t xs" and l: "labs_right t xs" and d: "d \<noteq> 0" and no: "\<And>a. a \<in> set xs \<Longrightarrow> d \<le> nt_dclass (kv t a)"
  shows "name_tree_next_root t d = Some (False, d)"
proof -
  let ?k = "name_tree_key [0] 1 0 d"
  have T: "rb_table name_keys t xs" "rb_cmp t = name_tree_compare" using t by (simp_all add: name_tree_ok_def)
  have K: "?k \<in> name_keys" by (simp add: name_tree_key_def name_keys_def)
  have cb: "name_tree_compare ?k (kv t a) < 0" if a: "a \<in> set xs" for a
  proof -
    have k: "kv t a \<in> name_keys" using names.table_sorted(2) [OF T a] .
    have "\<not> name_tree_compare (kv t a) ?k < 0" "name_tree_compare ?k (kv t a) \<noteq> 0"
      using class_before [OF k, of d] l a no [OF a] by (auto simp: labs_right_def)
    then show ?thesis using comparator.cmp_pos_neg [OF name_tree_comparator K k] by linarith
  qed
  have "keys_sorted name_keys t xs" using T(1) by (simp add: rb_table_def)
  from le_find_closest [OF this K, unfolded T(2)] obtain exact res where
    1: "le_find (\<lambda>a. name_tree_compare ?k (kv t a)) xs None = (exact, res)"
      "exact \<longleftrightarrow> (\<exists>a \<in> set xs. name_tree_compare ?k (kv t a) = 0)"
      "case res of None \<Rightarrow> \<forall>a \<in> set xs. name_tree_compare ?k (kv t a) < 0
       | Some a \<Rightarrow> a \<in> set xs \<and> (if exact then name_tree_compare ?k (kv t a) = 0 else 0 < name_tree_compare ?k (kv t a)) \<and>
         (\<forall>b \<in> set xs. 0 \<le> name_tree_compare ?k (kv t b) \<longrightarrow> b = a \<or> name_tree_compare (kv t b) (kv t a) < 0)"
    by blast
  have "\<not> exact" using 1(2) cb by force
  moreover have "res = None"
  proof (cases res)
    case (Some a)
    with 1(3) \<open>\<not> exact\<close> have "a \<in> set xs" "0 < name_tree_compare ?k (kv t a)" by simp_all
    with cb [of a] show ?thesis by simp
  qed simp
  ultimately have "rbtree_find_less_equal t ?k = Some (False, None)"
    using rbtree_find_less_equal_ok [OF T(1) K] 1(1) T(2) by simp
  with d show ?thesis by (subst name_tree_next_root.simps) simp
qed

text \<open>Entries with the same path are of the same class, and both for the root or none.\<close>

lemma same_path_entry:
  assumes "entry_ok raw e" "entry_ok raw e'" "name_path (entry_key e') = name_path (entry_key e)"
  shows "entry_class e' = entry_class e" "entry_root e \<Longrightarrow> labels_of (nt_name (entry_key e')) = Some []"
proof -
  show "entry_class e' = entry_class e" using assms(3) by (simp add: name_path_def entry_key_simps word_unat_eq_iff)
  assume "entry_root e"
  then have "length (name_path (entry_key e)) = 2"
    using assms(1) by (cases e) (simp add: name_path_def name_tree_key_def labels_path_def)
  then have "length (name_path (entry_key e')) = 2" using assms(3) by simp
  then show "labels_of (nt_name (entry_key e')) = Some []" using assms(2)
    by (cases e') (auto simp: name_path_def name_tree_key_def labels_path_def split: option.splits)
qed

text \<open>What the tree says about classes and roots after entries were inserted.\<close>

lemma inserted_roots:
  assumes "distinct (map fst ns)" "list_all (entry_ok raw) ns" "list_all (\<lambda>e. entry_class e \<noteq> 65535) ns"
  obtains t xs where "insert_names ns (name_tree_init raw) = Some t" "name_tree_ok t xs" "labs_right t xs"
    "\<And>a. a \<in> set xs \<Longrightarrow> nt_dclass (kv t a) \<noteq> - 1" "\<And>c. has_root t xs c \<longleftrightarrow> root_class ns c"
    "(\<lambda>a. nt_dclass (kv t a)) ` set xs = entry_class ` set ns"
proof -
  have "entry_ok (name_tree_init raw) = entry_ok raw"
    by (rule ext) (rule entry_ok_dom, simp add: name_tree_init_def rb_init_view)
  with insert_names_ok [OF name_tree_init_ok, of ns raw] assms(1,2) obtain t xs where
    1: "insert_names ns (name_tree_init raw) = Some t" "name_tree_ok t xs" "set xs \<subseteq> fst ` set ns"
    "\<forall>e \<in> set ns. kv t (fst e) = entry_key e" "\<forall>e \<in> set ns. \<exists>b \<in> set xs. name_path (kv t b) = name_path (entry_key e)"
    by auto
  have kv: "\<exists>e \<in> set ns. kv t a = entry_key e" if "a \<in> set xs" for a using 1(3,4) that by fastforce
  have ok: "entry_ok raw e" "entry_class e \<noteq> 65535" if "e \<in> set ns" for e using assms(2,3) that by (simp_all add: list_all_iff)
  have l: "labs_right t xs" using kv entry_key_simps(3) ok(1) unfolding labs_right_def by metis
  have top: "nt_dclass (kv t a) \<noteq> - 1" if a: "a \<in> set xs" for a
  proof -
    obtain e where "e \<in> set ns" "kv t a = entry_key e" using kv [OF a] by blast
    moreover have "(65535 :: u16) = - 1" by simp
    ultimately show ?thesis using ok(2) [of e] entry_key_simps(1) [of e] by metis
  qed
  have same: "\<exists>b \<in> set xs. nt_dclass (kv t b) = entry_class e \<and> (entry_root e \<longrightarrow> labels_of (nt_name (kv t b)) = Some [])"
    if e: "e \<in> set ns" for e
  proof -
    obtain b where b: "b \<in> set xs" "name_path (kv t b) = name_path (entry_key e)" using 1(5) e by blast
    obtain e' where e': "e' \<in> set ns" "kv t b = entry_key e'" using kv [OF b(1)] by blast
    then show ?thesis using same_path_entry [OF ok(1) [OF e] ok(1) [OF e'(1)]] b entry_key_simps(1) by metis
  qed
  have roots: "has_root t xs c \<longleftrightarrow> root_class ns c" for c
    unfolding has_root_def root_class_def using same kv by (metis entry_key_simps(1,2))
  have "(\<lambda>a. nt_dclass (kv t a)) ` set xs = entry_class ` set ns"
  proof (intro equalityI subsetI)
    fix c
    assume "c \<in> (\<lambda>a. nt_dclass (kv t a)) ` set xs"
    then obtain a where a: "a \<in> set xs" "c = nt_dclass (kv t a)" by blast
    then obtain e where "e \<in> set ns" "kv t a = entry_key e" using kv by blast
    then show "c \<in> entry_class ` set ns" using a(2) entry_key_simps(1) by (metis imageI)
  next
    fix c
    assume "c \<in> entry_class ` set ns"
    then obtain e where "e \<in> set ns" "c = entry_class e" by blast
    with same obtain b where "b \<in> set xs" "nt_dclass (kv t b) = c" by blast
    then show "c \<in> (\<lambda>a. nt_dclass (kv t a)) ` set xs" by blast
  qed
  from that [OF 1(1,2) l top roots this] show thesis .
qed

text \<open>
  C24. Going over the classes with a root ends and finds them in order. In a tree of names without the class
  65535, \<open>name_tree_next_root\<close> returns, from the class 0 or from a class above some class of the tree, the least class from
  there on that has an entry for the root, and reports none only if there is none. From any other class, that is one other than 0 with no
  lower class in the tree, it reports none and leaves the class as it was, even if there is a root of this class or of
  a higher one.
\<close>

theorem name_tree_next_root_least:
  assumes "distinct (map fst ns)" "list_all (entry_ok raw) ns" "list_all (\<lambda>e. entry_class e \<noteq> 65535) ns"
  shows "\<exists>t found c. insert_names ns (name_tree_init raw) = Some t \<and> name_tree_next_root t d = Some (found, c) \<and>
    (if d \<noteq> 0 \<and> (\<forall>e \<in> set ns. d \<le> entry_class e) then \<not> found \<and> c = d
     else if found then d \<le> c \<and> root_class ns c \<and> (\<forall>c'. d \<le> c' \<and> root_class ns c' \<longrightarrow> c \<le> c')
     else \<forall>c'. d \<le> c' \<longrightarrow> \<not> root_class ns c')"
proof -
  obtain t xs where t: "insert_names ns (name_tree_init raw) = Some t" "name_tree_ok t xs" "labs_right t xs"
    "\<And>a. a \<in> set xs \<Longrightarrow> nt_dclass (kv t a) \<noteq> - 1" and roots: "\<And>c. has_root t xs c \<longleftrightarrow> root_class ns c"
    and classes: "(\<lambda>a. nt_dclass (kv t a)) ` set xs = entry_class ` set ns"
    using inserted_roots [OF assms] by blast
  have low: "(\<forall>a \<in> set xs. d \<le> nt_dclass (kv t a)) \<longleftrightarrow> (\<forall>e \<in> set ns. d \<le> entry_class e)"
    using arg_cong [OF classes, of "\<lambda>S. \<forall>c \<in> S. d \<le> c"] by simp
  show ?thesis
  proof (cases "d \<noteq> 0 \<and> (\<forall>e \<in> set ns. d \<le> entry_class e)")
    case True
    then have "name_tree_next_root t d = Some (False, d)" using next_root_none_below [OF t(2,3)] low by blast
    with True t(1) show ?thesis by auto
  next
    case False
    then have "d = 0 \<or> (\<exists>a \<in> set xs. nt_dclass (kv t a) < d)" using low by (auto simp: not_le)
    from next_root_ok [OF t(2-4) this] obtain r where "name_tree_next_root t d = Some r" "least_root t xs d r" by blast
    with t(1) False show ?thesis unfolding least_root_def roots by (cases r) auto
  qed
qed

theorem name_tree_next_root_least_witness:
  "\<exists>t. insert_names some_entries (name_tree_init some_nodes) = Some t \<and> name_tree_next_root t 0 = Some (True, 1) \<and>
     root_class some_entries 1 \<and> name_tree_next_root t 1 = Some (False, 1)"
proof -
  have c: "list_all (\<lambda>e. entry_class e \<noteq> 65535) some_entries" by (simp add: some_entries_def)
  have r: "root_class some_entries c \<longleftrightarrow> c = 1" for c :: u16 by (auto simp: root_class_def some_entries_def)
  have low: "\<forall>e \<in> set some_entries. 1 \<le> entry_class e" by (simp add: some_entries_def)
  from name_tree_next_root_least [OF some_entries_ok c, of 0] obtain t found c where
    1: "insert_names some_entries (name_tree_init some_nodes) = Some t" "name_tree_next_root t 0 = Some (found, c)"
    "if found then 0 \<le> c \<and> c = 1 \<and> (\<forall>c'. 0 \<le> c' \<and> c' = 1 \<longrightarrow> c \<le> c') else \<forall>c'. 0 \<le> c' \<longrightarrow> c' \<noteq> (1 :: u16)"
    unfolding r by auto
  moreover from name_tree_next_root_least [OF some_entries_ok c, of 1] low 1(1) have
    "name_tree_next_root t 1 = Some (False, 1)" by auto
  ultimately show ?thesis using r by (cases found) auto
qed

text \<open>
  With a name of class 65535 first in the tree, the class wraps around to 0 and the recursion does not end.
\<close>

lemma name_tree_next_root_endless:
  assumes "rbtree_first t = Some (Some a)" "get_key t (Some a) = Some k" "nt_dclass k = - 1" "dname_is_root (nt_name k) = Some False"
  shows "name_tree_next_root t 0 = None"
proof (rule ccontr)
  assume "name_tree_next_root t 0 \<noteq> None"
  then obtain r where r: "name_tree_next_root t 0 = Some r" by blast
  have "(t, 0 :: u16) \<noteq> (t, 0)"
  proof (rule name_tree_next_root.raw_induct [where P = "\<lambda>t' d r. (t', d) \<noteq> (t, 0)", OF _ r])
    fix f t' d and r :: "bool \<times> u16"
    assume IH: "\<And>t' d r. f t' d = Some r \<Longrightarrow> (t', d) \<noteq> (t, 0)"
      and "(if d = 0 then do {
        n \<leftarrow> rbtree_first t';
        (case n of None \<Rightarrow> Some (False, d) | Some _ \<Rightarrow> do {
           p \<leftarrow> get_key t' n;
           root \<leftarrow> dname_is_root (nt_name p);
           if root then Some (True, nt_dclass p) else f t' (nt_dclass p + 1) }) }
      else do {
        (exact, n) \<leftarrow> rbtree_find_less_equal t' (name_tree_key [0] 1 0 d);
        if exact then Some (True, d)
        else (case n of None \<Rightarrow> Some (False, d) | Some _ \<Rightarrow> do {
          n \<leftarrow> rbtree_next t' n;
          (case n of None \<Rightarrow> Some (False, d) | Some _ \<Rightarrow> do {
             p \<leftarrow> get_key t' n;
             root \<leftarrow> dname_is_root (nt_name p);
             if root then Some (True, nt_dclass p) else f t' (nt_dclass p + 1) }) }) }) = Some r"
    then show "(t', d) \<noteq> (t, 0)" using assms IH [of t 0 r] by auto
  qed
  then show False by simp
qed

end
