(* ===== verification/Infra_Limits.thy ===== *)
theory Infra_Limits
  imports Infra_Rate Dnstree_Props Dname_Read
begin

text \<open>
  The limits that the configuration sets for domains: what the tree of limits holds after the configuration is
  read, and the limit that a lookup finds, as a function of the entries of the configuration.
\<close>

section \<open>The limit that the configuration gives\<close>

text \<open>The value that the entries give to a name, in lower case; the last entry for the name counts.\<close>

definition cfg_value :: "(byte list \<times> byte list) list \<Rightarrow> label list \<Rightarrow> int" where
  "cfg_value ps n = fold (\<lambda>(str, str2) v. if map_option lowers (read_name 256 str) = Some n then c_atoi str2 else v) ps (-1)"

text \<open>The value for the closest domain above a name that has one.\<close>

fun first_below :: "(label list \<Rightarrow> int) \<Rightarrow> int \<Rightarrow> label list \<Rightarrow> int" where
  "first_below B dflt [] = dflt"
| "first_below B dflt (l # ls) = (if B ls \<noteq> -1 then B ls else first_below B dflt ls)"

definition limit_for :: "(label list \<Rightarrow> int) \<Rightarrow> (label list \<Rightarrow> int) \<Rightarrow> int \<Rightarrow> label list \<Rightarrow> int" where
  "limit_for F B dflt q = (if F q \<noteq> -1 then F q else first_below B dflt q)"

section \<open>The tree of limits\<close>

text \<open>The name of a node, in lower case.\<close>

definition node_name :: "name_tree_node \<Rightarrow> label list" where
  "node_name k = lowers (the (labels_of (nt_name k)))"

definition in_node :: "name_tree_node \<Rightarrow> bool" where
  "in_node k \<longleftrightarrow> nt_dclass k = LDNS_RR_CLASS_IN \<and> (\<exists>ls. labels_of (nt_name k) = Some ls \<and> nt_labs k = length ls + 1)"

text \<open>The nodes hold the values of \<open>F\<close> for exact matches and of \<open>B\<close> for subdomains.\<close>

definition limits_hold ::
    "(label list \<Rightarrow> int) \<Rightarrow> (label list \<Rightarrow> int) \<Rightarrow> name_tree_node rbtree \<Rightarrow> (addr \<Rightarrow> domain_limit_data option) \<Rightarrow> addr list \<Rightarrow> bool" where
  "limits_hold F B t dat xs \<longleftrightarrow> name_tree_ok t xs \<and> finite (dom (rb_mem t)) \<and>
     (\<forall>a \<in> set xs. in_node (kv t a) \<and> dat a = Some \<lparr>dl_lim = F (node_name (kv t a)), dl_below = B (node_name (kv t a))\<rparr>) \<and>
     (\<forall>n. n \<notin> (\<lambda>a. node_name (kv t a)) ` set xs \<longrightarrow> F n = -1 \<and> B n = -1)"

lemma map_label_key_eq: "map label_key xs = map label_key ys \<longleftrightarrow> lowers xs = lowers ys"
proof (induction xs arbitrary: ys)
  case (Cons x xs)
  have "label_key x = label_key y \<longleftrightarrow> lower x = lower y" for y by (simp add: label_key_eq)
  with Cons show ?case by (cases ys) simp_all
qed simp

lemma in_node_path:
  assumes "in_node k"
  shows "\<exists>ls. labels_of (nt_name k) = Some ls \<and> node_name k = lowers ls \<and> nt_labs k = length ls + 1 \<and> k \<in> name_keys \<and>
    name_path k = [unat LDNS_RR_CLASS_IN] # [] # map label_key (rev ls)"
  using assms by (auto simp: in_node_def node_name_def name_path_def labels_path_def name_keys_def)

lemma prefix_label_keys: "prefix (map label_key (rev a)) (map label_key (rev b)) \<longleftrightarrow> suffix (lowers a) (lowers b)"
  using prefix_labels_path [of 0 a 0 b] by (simp add: labels_path_def)

lemma in_node_prefix:
  assumes "in_node k1" "in_node k2"
  shows "prefix (name_path k1) (name_path k2) \<longleftrightarrow> suffix (node_name k1) (node_name k2)"
    "name_path k1 = name_path k2 \<longleftrightarrow> node_name k1 = node_name k2"
proof -
  from in_node_path [OF assms(1)] obtain a where
    a: "node_name k1 = lowers a" "name_path k1 = [unat LDNS_RR_CLASS_IN] # [] # map label_key (rev a)" by blast
  from in_node_path [OF assms(2)] obtain b where
    b: "node_name k2 = lowers b" "name_path k2 = [unat LDNS_RR_CLASS_IN] # [] # map label_key (rev b)" by blast
  show "prefix (name_path k1) (name_path k2) \<longleftrightarrow> suffix (node_name k1) (node_name k2)"
    by (simp add: a b prefix_label_keys)
  show "name_path k1 = name_path k2 \<longleftrightarrow> node_name k1 = node_name k2"
    using map_label_key_eq [of "rev a" "rev b"] by (simp add: a b rev_map [symmetric])
qed

text \<open>Different nodes have different names.\<close>

lemma nodes_distinct:
  assumes t: "name_tree_ok t xs" and n: "\<And>a. a \<in> set xs \<Longrightarrow> in_node (kv t a)"
    and ab: "a \<in> set xs" "b \<in> set xs" "node_name (kv t a) = node_name (kv t b)"
  shows "a = b"
proof (rule ccontr)
  assume ne: "a \<noteq> b"
  have T: "rb_table name_keys t xs" "rb_cmp t = name_tree_compare" using t by (simp_all add: name_tree_ok_def)
  note srt = names.table_sorted [OF T]
  have "name_tree_compare (kv t a) (kv t b) < 0 \<or> name_tree_compare (kv t b) (kv t a) < 0"
    using srt(1) ab(1,2) ne by (induction xs) auto
  moreover have "name_path (kv t a) = name_path (kv t b)" using in_node_prefix(2) n ab by blast
  ultimately show False
    using names.cmp_zero [OF srt(2) [OF ab(1)] srt(2) [OF ab(2)]] names.cmp_zero [OF srt(2) [OF ab(2)] srt(2) [OF ab(1)]] by auto
qed

section \<open>Lookup\<close>

lemma first_below_skip:
  assumes "suffix p q" "p \<noteq> q" "\<And>s. suffix s q \<Longrightarrow> s \<noteq> q \<Longrightarrow> suffix p s \<Longrightarrow> s \<noteq> p \<Longrightarrow> B s = -1"
  shows "first_below B dflt q = (if B p \<noteq> -1 then B p else first_below B dflt p)"
  using assms
proof (induction q)
  case (Cons l q)
  show ?case
  proof (cases "p = q")
    case False
    have pq: "suffix p q" using Cons.prems(1,2) by (auto simp: suffix_Cons)
    have "B q = -1" using Cons.prems(3) [of q] pq False by (simp add: suffix_Cons)
    moreover have "first_below B dflt q = (if B p \<noteq> -1 then B p else first_below B dflt p)"
    proof (rule Cons.IH [OF pq False])
      fix s assume "suffix s q" "s \<noteq> q" "suffix p s" "s \<noteq> p"
      moreover have "s \<noteq> l # q" using \<open>suffix s q\<close> by (auto dest: suffix_length_le)
      ultimately show "B s = -1" using Cons.prems(3) [of s] by (simp add: suffix_Cons)
    qed
    ultimately show ?thesis by simp
  qed simp
qed simp

lemma first_below_none:
  assumes "\<And>s. suffix s q \<Longrightarrow> s \<noteq> q \<Longrightarrow> B s = -1"
  shows "first_below B dflt q = dflt"
  using assms
proof (induction q)
  case (Cons l q)
  have "B s = -1" if "suffix s q" for s
  proof -
    have "s \<noteq> l # q" using that by (auto dest: suffix_length_le)
    with Cons.prems [of s] that show ?thesis by (simp add: suffix_Cons)
  qed
  with Cons.IH show ?case by simp
qed simp

lemma limits_holdD:
  assumes "limits_hold F B t dat xs"
  shows "rb_table name_keys t xs" "rb_cmp t = name_tree_compare" "name_tree_ok t xs" "finite (dom (rb_mem t))"
    "\<And>a. a \<in> set xs \<Longrightarrow> in_node (kv t a)"
    "\<And>a. a \<in> set xs \<Longrightarrow> dat a = Some \<lparr>dl_lim = F (node_name (kv t a)), dl_below = B (node_name (kv t a))\<rparr>"
    "\<And>n. (\<And>a. a \<in> set xs \<Longrightarrow> node_name (kv t a) \<noteq> n) \<Longrightarrow> F n = -1 \<and> B n = -1"
proof -
  fix n assume "\<And>a. a \<in> set xs \<Longrightarrow> node_name (kv t a) \<noteq> n"
  then have "n \<notin> (\<lambda>a. node_name (kv t a)) ` set xs" by blast
  then show "F n = -1 \<and> B n = -1" using assms by (simp add: limits_hold_def)
qed (use assms in \<open>auto simp: limits_hold_def name_tree_ok_def\<close>)

text \<open>The last node around a key: nothing is between it and the key.\<close>

lemma closest_node:
  assumes lh: "limits_hold F B t dat xs" and k: "in_node k"
    and a: "last_opt (filter (\<lambda>q. prefix (name_path (kv t q)) (name_path k) \<and> P q) xs) = Some a"
  shows "a \<in> set xs" "suffix (node_name (kv t a)) (node_name k)" "P a"
    "\<And>b. b \<in> set xs \<Longrightarrow> P b \<Longrightarrow> suffix (node_name (kv t b)) (node_name k) \<Longrightarrow> suffix (node_name (kv t a)) (node_name (kv t b)) \<Longrightarrow>
      node_name (kv t b) = node_name (kv t a)"
proof -
  note L = limits_holdD [OF lh]
  note srt = names.table_sorted [OF L(1,2)]
  note l = last_opt_filter_Some [OF srt(1) a]
  show "a \<in> set xs" "P a" using l(1,2) by blast+
  then show "suffix (node_name (kv t a)) (node_name k)" using l(2) in_node_prefix(1) [OF L(5) k] by blast
  fix b assume b: "b \<in> set xs" "P b" "suffix (node_name (kv t b)) (node_name k)" "suffix (node_name (kv t a)) (node_name (kv t b))"
  show "node_name (kv t b) = node_name (kv t a)"
  proof (rule ccontr)
    assume ne: "node_name (kv t b) \<noteq> node_name (kv t a)"
    then have "strict_prefix (name_path (kv t a)) (name_path (kv t b))"
      using b(4) in_node_prefix [OF L(5) [OF \<open>a \<in> set xs\<close>] L(5) [OF b(1)]] by (auto simp: strict_prefix_def)
    from names.strict_prefix_less [OF srt(2) [OF \<open>a \<in> set xs\<close>] srt(2) [OF b(1)] this]
    have less: "name_tree_compare (kv t a) (kv t b) < 0" .
    have "prefix (name_path (kv t b)) (name_path k)" using b(3) in_node_prefix(1) [OF L(5) [OF b(1)] k] by simp
    with l(3) [OF b(1)] b(2) have "b = a \<or> name_tree_compare (kv t b) (kv t a) < 0" by blast
    with less ne comparator.cmp_antisym [OF name_tree_comparator srt(2) [OF \<open>a \<in> set xs\<close>] srt(2) [OF b(1)]] show False by auto
  qed
qed

lemma no_node_around:
  assumes lh: "limits_hold F B t dat xs" and k: "in_node k"
    and a: "last_opt (filter (\<lambda>q. prefix (name_path (kv t q)) (name_path k) \<and> P q) xs) = None"
    and s: "suffix s (node_name k)" "\<And>b. b \<in> set xs \<Longrightarrow> node_name (kv t b) = s \<Longrightarrow> P b"
  shows "F s = -1" "B s = -1"
proof -
  note L = limits_holdD [OF lh]
  have "node_name (kv t b) \<noteq> s" if b: "b \<in> set xs" for b
  proof
    assume e: "node_name (kv t b) = s"
    then have "prefix (name_path (kv t b)) (name_path k)" using s(1) in_node_prefix(1) [OF L(5) [OF b] k] by simp
    with a b s(2) [OF b e] show False unfolding last_opt_filter_None by blast
  qed
  from L(7) [OF this] show "F s = -1" "B s = -1" by auto
qed

lemma below_loop_step:
  assumes lh: "limits_hold F B t dat xs" and a: "a \<in> set xs"
  shows "below_loop t dat dflt (Some a) =
    (if B (node_name (kv t a)) \<noteq> -1 then Some (B (node_name (kv t a))) else below_loop t dat dflt (nt_parent (kv t a)))"
proof -
  note L = limits_holdD [OF lh]
  have "get_key t (Some a) = Some (kv t a)" by (rule names.table_key [OF L(1) a])
  then show ?thesis by (subst below_loop.simps) (simp add: L(6) [OF a])
qed

lemma below_parent_ok:
  assumes lh: "limits_hold F B t dat xs" and par: "names.parents_right t xs (set xs)" and a: "a \<in> set xs"
  shows "below_loop t dat dflt (nt_parent (kv t a)) = Some (first_below B dflt (node_name (kv t a)))"
  using a
proof (induction "length (node_name (kv t a))" arbitrary: a rule: less_induct)
  case less
  note L = limits_holdD [OF lh] and a = less.prems
  define n where "n = node_name (kv t a)"
  define P where "P q \<longleftrightarrow> node_name (kv t q) \<noteq> n" for q
  have "filter (\<lambda>q. strict_prefix (name_path (kv t q)) (name_path (kv t a))) xs =
      filter (\<lambda>q. prefix (name_path (kv t q)) (name_path (kv t a)) \<and> P q) xs"
    using in_node_prefix(2) [OF L(5) L(5) [OF a]] by (intro filter_cong) (auto simp: strict_prefix_def P_def n_def)
  then have p: "nt_parent (kv t a) = last_opt (filter (\<lambda>q. prefix (name_path (kv t q)) (name_path (kv t a)) \<and> P q) xs)"
    using par a unfolding names.parents_right_def by (simp add: name_ops_def)
  show ?case
  proof (cases "nt_parent (kv t a)")
    case None
    have "first_below B dflt n = dflt"
    proof (rule first_below_none)
      fix s assume s: "suffix s n" "s \<noteq> n"
      show "B s = -1"
        by (rule no_node_around(2) [OF lh L(5) [OF a] None [unfolded p] s(1) [unfolded n_def]]) (use s(2) in \<open>auto simp: P_def\<close>)
    qed
    with None show ?thesis by (simp add: below_loop.simps n_def)
  next
    case (Some b)
    note c = closest_node [OF lh L(5) [OF a] Some [unfolded p]]
    have bn: "suffix (node_name (kv t b)) n" "node_name (kv t b) \<noteq> n" using c(2,3) by (simp_all add: n_def P_def)
    have "length (node_name (kv t b)) < length n"
      using bn by (metis suffix_length_le suffix_def append_eq_append_conv append_Nil le_neq_implies_less)
    then have "below_loop t dat dflt (nt_parent (kv t b)) = Some (first_below B dflt (node_name (kv t b)))"
      using less.hyps c(1) by (simp add: n_def)
    moreover have "first_below B dflt n =
        (if B (node_name (kv t b)) \<noteq> -1 then B (node_name (kv t b)) else first_below B dflt (node_name (kv t b)))"
    proof (rule first_below_skip [OF bn])
      fix s assume s: "suffix s n" "s \<noteq> n" "suffix (node_name (kv t b)) s" "s \<noteq> node_name (kv t b)"
      have "node_name (kv t d) \<noteq> s" if d: "d \<in> set xs" for d
        using c(4) [OF d] s by (auto simp: P_def n_def)
      from L(7) [OF this] show "B s = -1" by blast
    qed
    ultimately show ?thesis using Some below_loop_step [OF lh c(1), of dflt] by (simp add: n_def)
  qed
qed

lemma infra_find_ratelimit_ok:
  assumes lh: "limits_hold F B (domain_limits infra) (limit_data infra) xs"
    and par: "names.parents_right (domain_limits infra) xs (set xs)"
  shows "infra_find_ratelimit g infra name namelen = Some (limit_for F B (infra_dp_ratelimit g) (name_key name))"
proof -
  note L = limits_holdD [OF lh]
  let ?t = "domain_limits infra" and ?dat = "limit_data infra" and ?dflt = "infra_dp_ratelimit g"
  obtain qs where qs: "labels_of (name_bytes name) = Some qs" by (rule name_bytes_labels)
  define k where "k = name_tree_key (name_bytes name) namelen (length qs + 1) LDNS_RR_CLASS_IN"
  have k: "in_node k" "node_name k = name_key name" "length (node_name k) = length qs"
    using qs by (simp_all add: k_def name_tree_key_def in_node_def node_name_def name_key_def)
  define d where "d = last_opt (filter (\<lambda>q. prefix (name_path (kv ?t q)) (name_path k) \<and> True) xs)"
  have look: "name_tree_lookup ?t (name_bytes name) namelen (length qs + 1) LDNS_RR_CLASS_IN = Some d"
    using name_tree_lookup_ok [OF L(3) par qs refl] by (simp add: d_def k_def)
  show ?thesis
  proof (cases d)
    case None
    note no = no_node_around [OF lh k(1) None [unfolded d_def]]
    have "F (node_name k) = -1" by (rule no) simp_all
    moreover have "first_below B ?dflt (node_name k) = ?dflt" by (rule first_below_none, rule no) simp_all
    ultimately show ?thesis
      using look None labels_of_count [OF qs] by (simp add: infra_find_ratelimit_def limit_for_def k(2))
  next
    case (Some a)
    note c = closest_node [OF lh k(1) Some [unfolded d_def]]
    have key: "get_key ?t (Some a) = Some (kv ?t a)" by (rule names.table_key [OF L(1) c(1)])
    from in_node_path [OF L(5) [OF c(1)]] obtain ks where
      ks: "nt_labs (kv ?t a) = length ks + 1" "node_name (kv ?t a) = lowers ks" by blast
    have labs: "nt_labs (kv ?t a) = length qs + 1 \<longleftrightarrow> node_name (kv ?t a) = node_name k"
    proof
      assume "nt_labs (kv ?t a) = length qs + 1"
      with ks k(3) c(2) show "node_name (kv ?t a) = node_name k"
        by (metis add_right_imp_eq length_map suffix_def append_eq_append_conv append_Nil)
    next
      assume "node_name (kv ?t a) = node_name k"
      then have "length (node_name (kv ?t a)) = length qs" using k(3) by simp
      with ks show "nt_labs (kv ?t a) = length qs + 1" by simp
    qed
    have unf: "infra_find_ratelimit g infra name namelen =
        (if node_name (kv ?t a) = node_name k \<and> F (node_name (kv ?t a)) \<noteq> -1 then Some (F (node_name (kv ?t a)))
         else below_loop ?t ?dat ?dflt (if node_name (kv ?t a) = node_name k then nt_parent (kv ?t a) else Some a))"
      using look Some labels_of_count [OF qs] key L(6) [OF c(1)] labs
      by (cases "node_name (kv ?t a) = node_name k") (simp_all add: infra_find_ratelimit_def)
    show ?thesis
    proof (cases "node_name (kv ?t a) = node_name k")
      case True
      have "below_loop ?t ?dat ?dflt (nt_parent (kv ?t a)) = Some (first_below B ?dflt (node_name (kv ?t a)))"
        by (rule below_parent_ok [OF lh par c(1)])
      with unf True show ?thesis by (simp add: limit_for_def k(2))
    next
      case False
      have no: "node_name (kv ?t b) \<noteq> node_name k" if b: "b \<in> set xs" for b
        using c(4) [OF b] c(2) False by auto
      from L(7) [OF this] have "F (node_name k) = -1" by blast
      moreover have "first_below B ?dflt (node_name k) =
          (if B (node_name (kv ?t a)) \<noteq> -1 then B (node_name (kv ?t a)) else first_below B ?dflt (node_name (kv ?t a)))"
      proof (rule first_below_skip [OF c(2) False])
        fix s assume s: "suffix s (node_name k)" "s \<noteq> node_name k" "suffix (node_name (kv ?t a)) s" "s \<noteq> node_name (kv ?t a)"
        have "node_name (kv ?t b) \<noteq> s" if b: "b \<in> set xs" for b using c(4) [OF b] s by auto
        from L(7) [OF this] show "B s = -1" by blast
      qed
      ultimately show ?thesis using unf False below_loop_step [OF lh c(1), of ?dflt] below_parent_ok [OF lh par c(1), of ?dflt] by (simp add: limit_for_def k(2))
    qed
  qed
qed

section \<open>Building the tree\<close>

lemma new_node_ok:
  assumes t: "name_tree_ok t xs" and a: "rb_mem t a = None"
  shows "name_tree_ok (t\<lparr>rb_mem := (rb_mem t)(a \<mapsto> n)\<rparr>) xs" "a \<notin> set xs"
    "\<And>b. b \<in> set xs \<Longrightarrow> kv (t\<lparr>rb_mem := (rb_mem t)(a \<mapsto> n)\<rparr>) b = kv t b"
proof -
  let ?t = "t\<lparr>rb_mem := (rb_mem t)(a \<mapsto> n)\<rparr>"
  have T: "rb_table name_keys t xs" "rb_cmp t = name_tree_compare" using t by (simp_all add: name_tree_ok_def)
  show ax: "a \<notin> set xs" using names.table_key [OF T(1), of a] a by (auto simp: get_key_def)
  show kv: "\<And>b. b \<in> set xs \<Longrightarrow> kv ?t b = kv t b" using ax by (auto simp: kv_def ky_def)
  from T(1) obtain S where S: "rb_holds t S" "rb_inv (cl t) S" "inorder S = xs" "keys_sorted name_keys t xs" "rb_count t = of_nat (length xs)"
    by (rule rb_tableE)
  have aS: "a \<notin> set_tree S" using ax S(3) by (metis set_inorder)
  have "lk ?t b = lk t b" "cl ?t b = cl t b" if "b \<in> set_tree S" for b using aS that by (auto simp: lk_def cl_def)
  then have "rb_holds ?t S" "rb_inv (cl ?t) S"
    using S(1,2) tree_at_cong [of S "lk ?t" "lk t" None] rcol_cong [of S "cl ?t" "cl t"] nored_cong [of S "cl ?t" "cl t"] bal_cong [of S "cl ?t" "cl t"]
    by (auto simp: rb_holds_def rb_inv_def)
  moreover have "keys_sorted name_keys ?t xs" using keys_sorted_cong [of ?t t xs] kv S(4) by simp
  ultimately show "name_tree_ok ?t xs" using S(3,5) T(2) by (auto simp: name_tree_ok_def rb_table_def)
qed

definition holds_data ::
    "(label list \<Rightarrow> domain_limit_data) \<Rightarrow> name_tree_node rbtree \<Rightarrow> (addr \<Rightarrow> domain_limit_data option) \<Rightarrow> addr list \<Rightarrow> bool" where
  "holds_data D t dat xs \<longleftrightarrow> limits_hold (\<lambda>n. dl_lim (D n)) (\<lambda>n. dl_below (D n)) t dat xs"

definition limit_malloc_ok :: "limit_malloc \<Rightarrow> bool" where
  "limit_malloc_ok mk \<longleftrightarrow> length (lm_raw mk) = 256 \<and> lm_name mk \<and> lm_node mk"

lemma holds_data_at:
  assumes "holds_data D t dat xs" "a \<in> set xs"
  shows "dat a = Some (D (node_name (kv t a)))"
  using limits_holdD(6) [OF assms(1) [unfolded holds_data_def] assms(2)] by simp

lemma domain_limit_findcreate_found:
  assumes lh: "holds_data D (domain_limits infra) (limit_data infra) xs" and raw: "length (lm_raw mk) = 256" "lm_name mk"
    and str: "read_name 256 str = Some ls"
  shows "domain_limit_findcreate mk str infra = Some (None, infra) \<and> \<not> lm_node mk \<or>
    (\<exists>a t' dat' ys. domain_limit_findcreate mk str infra = Some (Some a, infra\<lparr>domain_limits := t', limit_data := dat'\<rparr>) \<and>
       holds_data D t' dat' ys \<and> a \<in> set ys \<and> node_name (kv t' a) = lowers ls)"
proof -
  note L = limits_holdD [OF lh [unfolded holds_data_def]]
  let ?t = "domain_limits infra" and ?dat = "limit_data infra"
  have ls: "dname_ok ls" using read_name_ok [OF str] by simp
  have lab: "labels_of (wire ls) = Some ls" using labels_of_wire [of ls "[]"] ls by (simp add: dname_ok_def)
  have parse: "sldns_str2wire_dname (lm_raw mk) (lm_name mk) str = Some (Some (wire ls), length (wire ls))"
    using sldns_str2wire_dname_ok [OF raw(1), of True str] raw(2) str by simp
  define key where "key = name_tree_key (wire ls) (length (wire ls)) (length ls + 1) LDNS_RR_CLASS_IN"
  have key: "in_node key" "node_name key = lowers ls"
    using lab by (simp_all add: key_def name_tree_key_def in_node_def node_name_def)
  define r where "r = find (\<lambda>a. name_path (kv ?t a) = name_path key) xs"
  have found: "name_tree_find ?t (wire ls) (length (wire ls)) (length ls + 1) LDNS_RR_CLASS_IN = Some r"
    using name_tree_find_ok [OF L(3) lab refl] by (simp add: r_def key_def)
  show ?thesis
  proof (cases r)
    case (Some a)
    then have a: "a \<in> set xs" "name_path (kv ?t a) = name_path key" by (auto simp: r_def find_Some_iff)
    then have "node_name (kv ?t a) = lowers ls" using in_node_prefix(2) [OF L(5) [OF a(1)] key(1)] key(2) by simp
    moreover have "domain_limit_findcreate mk str infra = Some (Some a, infra\<lparr>domain_limits := ?t, limit_data := ?dat\<rparr>)"
      using Some found parse labels_of_count [OF lab] by (simp add: domain_limit_findcreate_def)
    ultimately show ?thesis using lh a(1) by blast
  next
    case None
    show ?thesis
    proof (cases "lm_node mk")
      case False
      with None found parse labels_of_count [OF lab] show ?thesis by (simp add: domain_limit_findcreate_def)
    next
      case mk: True
      from None have new: "\<And>b. b \<in> set xs \<Longrightarrow> name_path (kv ?t b) \<noteq> name_path key" by (auto simp: r_def find_None_iff)
      then have newn: "\<And>b. b \<in> set xs \<Longrightarrow> node_name (kv ?t b) \<noteq> lowers ls"
        using in_node_prefix(2) [OF L(5) key(1)] key(2) by auto
      from L(7) [OF this] have dn: "D (lowers ls) = \<lparr>dl_lim = -1, dl_below = -1\<rparr>" by simp
      define a where "a = new_node_addr ?t"
      have am: "rb_mem ?t a = None"
        using Max_ge [of "insert 0 (dom (rb_mem ?t))" a] L(4) unfolding a_def new_node_addr_def by (metis Suc_n_not_le_n domIff finite_insert insertCI)
      define t1 where "t1 = ?t\<lparr>rb_mem := (rb_mem ?t)(a \<mapsto> zero_node\<lparr>rb_key := key\<rparr>)\<rparr>"
      have N: "name_tree_ok t1 xs" "a \<notin> set xs" "\<And>b. b \<in> set xs \<Longrightarrow> kv t1 b = kv ?t b"
        unfolding t1_def by (rule new_node_ok [OF L(3) am], assumption?)+
      have kv1: "name_path (kv t1 b) = name_path (kv ?t b)" if "b \<in> set xs" for b using N(3) [OF that] by simp
      have "rb_mem t1 a \<noteq> None" by (simp add: t1_def)
      from name_tree_insert_ok [OF N(1,2) this lab refl key_def] kv1 new obtain t' ys where
        t': "name_tree_insert t1 a (wire ls) (length (wire ls)) (length ls + 1) LDNS_RR_CLASS_IN = Some (True, t')"
        "kv t' = (kv t1)(a := key)" "dom (rb_mem t') = dom (rb_mem t1)" "name_tree_ok t' ys" "set ys = insert a (set xs)"
        by (auto split: if_splits)
      define dat' where "dat' = ?dat(a \<mapsto> \<lparr>dl_lim = -1, dl_below = -1\<rparr>)"
      have "domain_limit_findcreate mk str infra = Some (Some a, infra\<lparr>domain_limits := t', limit_data := dat'\<rparr>)"
        using None found parse labels_of_count [OF lab] mk t'(1)
        by (simp add: domain_limit_findcreate_def Let_def a_def [symmetric] t1_def key_def name_tree_key_def dat'_def)
      moreover have kvb: "kv t' b = (if b = a then key else kv ?t b)" if "b \<in> set ys" for b
        using that t'(2,5) N(3) by auto
      have "holds_data D t' dat' ys"
        unfolding holds_data_def limits_hold_def
      proof (intro conjI ballI allI impI)
        show "name_tree_ok t' ys" by fact
        show "finite (dom (rb_mem t'))" using t'(3) L(4) by (simp add: t1_def)
        fix b assume b: "b \<in> set ys"
        show "in_node (kv t' b)" using kvb [OF b] b t'(5) key(1) L(5) by auto
        show "dat' b = Some \<lparr>dl_lim = dl_lim (D (node_name (kv t' b))), dl_below = dl_below (D (node_name (kv t' b)))\<rparr>"
          using kvb [OF b] b t'(5) key(2) dn L(6) [of b] by (auto simp: dat'_def)
      next
        fix n assume n: "n \<notin> (\<lambda>a. node_name (kv t' a)) ` set ys"
        have "node_name (kv ?t b) \<noteq> n" if b: "b \<in> set xs" for b
        proof -
          have "b \<in> set ys" "kv t' b = kv ?t b" using b kvb [of b] t'(5) N(2) by auto
          then show ?thesis using n by (metis imageI)
        qed
        from L(7) [OF this] show "dl_lim (D n) = -1" "dl_below (D n) = -1" by auto
      qed
      moreover have "a \<in> set ys" "node_name (kv t' a) = lowers ls" using t'(2,5) key(2) by auto
      ultimately show ?thesis by blast
    qed
  qed
qed

text \<open>For any text and any outcome of the allocations.\<close>

lemma domain_limit_findcreate_ok:
  assumes lh: "holds_data D (domain_limits infra) (limit_data infra) xs" and raw: "length (lm_raw mk) = 256"
  shows "\<exists>r t' dat' ys. domain_limit_findcreate mk str infra = Some (r, infra\<lparr>domain_limits := t', limit_data := dat'\<rparr>) \<and>
    holds_data D t' dat' ys \<and>
    (case r of Some a \<Rightarrow> a \<in> set ys \<and> read_name 256 str \<noteq> None \<and> map_option lowers (read_name 256 str) = Some (node_name (kv t' a))
     | None \<Rightarrow> \<not> (limit_malloc_ok mk \<and> read_name 256 str \<noteq> None))"
proof (cases "read_name 256 str")
  case None
  then have "domain_limit_findcreate mk str infra = Some (None, infra\<lparr>domain_limits := domain_limits infra, limit_data := limit_data infra\<rparr>)"
    using sldns_str2wire_dname_ok [OF raw, of "lm_name mk" str] by (simp add: domain_limit_findcreate_def)
  with lh None show ?thesis
    by (intro exI [of _ None] exI [of _ "domain_limits infra"] exI [of _ "limit_data infra"] exI [of _ xs]) simp
next
  case (Some ls)
  show ?thesis
  proof (cases "lm_name mk")
    case False
    then have "domain_limit_findcreate mk str infra = Some (None, infra\<lparr>domain_limits := domain_limits infra, limit_data := limit_data infra\<rparr>)"
      using sldns_str2wire_dname_ok [OF raw, of False str] Some by (simp add: domain_limit_findcreate_def)
    with lh False show ?thesis
      by (intro exI [of _ None] exI [of _ "domain_limits infra"] exI [of _ "limit_data infra"] exI [of _ xs]) (simp add: limit_malloc_ok_def)
  next
    case True
    from domain_limit_findcreate_found [OF lh raw True Some] show ?thesis
    proof (elim disjE conjE exE)
      assume "domain_limit_findcreate mk str infra = Some (None, infra)" "\<not> lm_node mk"
      then have "domain_limit_findcreate mk str infra = Some (None, infra\<lparr>domain_limits := domain_limits infra, limit_data := limit_data infra\<rparr>)"
        "\<not> limit_malloc_ok mk" by (simp_all add: limit_malloc_ok_def)
      with lh show ?thesis
        by (intro exI [of _ None] exI [of _ "domain_limits infra"] exI [of _ "limit_data infra"] exI [of _ xs]) simp
    next
      fix a t' dat' ys
      assume "domain_limit_findcreate mk str infra = Some (Some a, infra\<lparr>domain_limits := t', limit_data := dat'\<rparr>)"
        "holds_data D t' dat' ys" "a \<in> set ys" "node_name (kv t' a) = lowers ls"
      with Some show ?thesis by (intro exI [of _ "Some a"] exI [of _ t'] exI [of _ dat'] exI [of _ ys]) simp
    qed
  qed
qed

lemma holds_data_set:
  assumes lh: "holds_data D t dat xs" and a: "a \<in> set xs" "node_name (kv t a) = n"
  shows "holds_data (D(n := x)) t (dat(a \<mapsto> x)) xs"
  unfolding holds_data_def limits_hold_def
proof (intro conjI ballI allI impI)
  note L = limits_holdD [OF lh [unfolded holds_data_def]]
  show "name_tree_ok t xs" "finite (dom (rb_mem t))" by (rule L)+
  fix b assume b: "b \<in> set xs"
  show "in_node (kv t b)" using L(5) [OF b] .
  have "node_name (kv t b) = n \<longleftrightarrow> b = a" using nodes_distinct [OF L(3,5) b a(1)] a(2) by auto
  then show "(dat(a \<mapsto> x)) b = Some \<lparr>dl_lim = dl_lim ((D(n := x)) (node_name (kv t b))), dl_below = dl_below ((D(n := x)) (node_name (kv t b)))\<rparr>"
    using L(6) [OF b] by auto
next
  note L = limits_holdD [OF lh [unfolded holds_data_def]]
  fix m assume m: "m \<notin> (\<lambda>a. node_name (kv t a)) ` set xs"
  then have "m \<noteq> n" using a by blast
  moreover have "dl_lim (D m) = -1 \<and> dl_below (D m) = -1" by (rule L(7)) (use m in blast)
  ultimately show "dl_lim ((D(n := x)) m) = -1" "dl_below ((D(n := x)) m) = -1" by simp_all
qed

text \<open>What the entries make of the data for a name.\<close>

definition cfg_data :: "(int \<Rightarrow> domain_limit_data \<Rightarrow> domain_limit_data) \<Rightarrow> (byte list \<times> byte list) list \<Rightarrow> label list \<Rightarrow> domain_limit_data \<Rightarrow> domain_limit_data" where
  "cfg_data sf ps n = fold (\<lambda>(str, str2) x. if map_option lowers (read_name 256 str) = Some n then sf (c_atoi str2) x else x) ps"

definition cfg_names_ok :: "(byte list \<times> byte list) list \<Rightarrow> bool" where
  "cfg_names_ok ps \<longleftrightarrow> (\<forall>p \<in> set ps. read_name 256 (fst p) \<noteq> None)"

lemma cfg_insert_loop_ok:
  assumes "holds_data D (domain_limits infra) (limit_data infra) xs" "\<forall>i. length (lm_raw (mk i)) = 256"
  shows "\<exists>ok t' dat' ys D'. cfg_insert_loop sf mk ps infra = Some (ok, infra\<lparr>domain_limits := t', limit_data := dat'\<rparr>) \<and>
    holds_data D' t' dat' ys \<and> (ok \<longrightarrow> (\<forall>n. D' n = cfg_data sf ps n (D n))) \<and>
    (cfg_names_ok ps \<and> (\<forall>i. limit_malloc_ok (mk i)) \<longrightarrow> ok)"
  using assms
proof (induction ps arbitrary: D infra xs mk)
  case Nil
  then show ?case
    by (intro exI [of _ True] exI [of _ "domain_limits infra"] exI [of _ "limit_data infra"] exI [of _ xs] exI [of _ D]) (simp add: cfg_data_def)
next
  case (Cons p ps)
  obtain str str2 where p: "p = (str, str2)" by (cases p)
  from domain_limit_findcreate_ok [OF Cons.prems(1) Cons.prems(2) [rule_format, of 0], of str] obtain r t1 dat1 ys where
    1: "domain_limit_findcreate (mk 0) str infra = Some (r, infra\<lparr>domain_limits := t1, limit_data := dat1\<rparr>)" "holds_data D t1 dat1 ys"
    "case r of Some a \<Rightarrow> a \<in> set ys \<and> read_name 256 str \<noteq> None \<and> map_option lowers (read_name 256 str) = Some (node_name (kv t1 a))
     | None \<Rightarrow> \<not> (limit_malloc_ok (mk 0) \<and> read_name 256 str \<noteq> None)" by blast
  show ?case
  proof (cases r)
    case None
    with 1(3) have "\<not> (cfg_names_ok (p # ps) \<and> (\<forall>i. limit_malloc_ok (mk i)))" by (auto simp: cfg_names_ok_def p)
    moreover have "cfg_insert_loop sf mk (p # ps) infra = Some (False, infra\<lparr>domain_limits := t1, limit_data := dat1\<rparr>)"
      using 1(1) None by (simp add: p)
    ultimately show ?thesis using 1(2) by blast
  next
    case (Some a)
    define nm where "nm = node_name (kv t1 a)"
    have a: "a \<in> set ys" "map_option lowers (read_name 256 str) = Some nm" using 1(3) Some by (simp_all add: nm_def)
    define x where "x = sf (c_atoi str2) (D nm)"
    let ?infra = "infra\<lparr>domain_limits := t1, limit_data := dat1(a \<mapsto> x)\<rparr>"
    have "holds_data (D(nm := x)) t1 (dat1(a \<mapsto> x)) ys" by (rule holds_data_set [OF 1(2) a(1) nm_def [symmetric]])
    then have 2: "holds_data (D(nm := x)) (domain_limits ?infra) (limit_data ?infra) ys" by simp
    from Cons.IH [OF 2, of "\<lambda>i. mk (Suc i)"] Cons.prems(2) obtain ok t' dat' zs D' where
      3: "cfg_insert_loop sf (\<lambda>i. mk (Suc i)) ps ?infra = Some (ok, ?infra\<lparr>domain_limits := t', limit_data := dat'\<rparr>)"
      "holds_data D' t' dat' zs" "ok \<longrightarrow> (\<forall>n. D' n = cfg_data sf ps n ((D(nm := x)) n))"
      "cfg_names_ok ps \<and> (\<forall>i. limit_malloc_ok (mk (Suc i))) \<longrightarrow> ok" by blast
    have e: "cfg_data sf ps n ((D(nm := x)) n) = cfg_data sf (p # ps) n (D n)" for n
      using a(2) by (auto simp: cfg_data_def p x_def)
    have "cfg_insert_loop sf mk (p # ps) infra = Some (ok, infra\<lparr>domain_limits := t', limit_data := dat'\<rparr>)"
      using 1(1) holds_data_at [OF 1(2) a(1)] 3(1) Some by (simp add: p x_def nm_def)
    moreover have "ok \<longrightarrow> (\<forall>n. D' n = cfg_data sf (p # ps) n (D n))" using 3(3) by (simp only: e)
    moreover have "cfg_names_ok (p # ps) \<and> (\<forall>i. limit_malloc_ok (mk i)) \<longrightarrow> ok" using 3(4) by (simp add: cfg_names_ok_def)
    ultimately show ?thesis using 3(2) by blast
  qed
qed

lemma cfg_data_fields:
  "dl_lim (cfg_data (\<lambda>v l. l\<lparr>dl_lim := v\<rparr>) ps n x) =
     fold (\<lambda>(str, str2) v. if map_option lowers (read_name 256 str) = Some n then c_atoi str2 else v) ps (dl_lim x)"
  "dl_below (cfg_data (\<lambda>v l. l\<lparr>dl_lim := v\<rparr>) ps n x) = dl_below x"
  "dl_below (cfg_data (\<lambda>v l. l\<lparr>dl_below := v\<rparr>) ps n x) =
     fold (\<lambda>(str, str2) v. if map_option lowers (read_name 256 str) = Some n then c_atoi str2 else v) ps (dl_below x)"
  "dl_lim (cfg_data (\<lambda>v l. l\<lparr>dl_below := v\<rparr>) ps n x) = dl_lim x"
  unfolding cfg_data_def by (induction ps arbitrary: x) auto

text \<open>The limits are those of the configuration, and the links to the parents are set.\<close>

definition limits_ready :: "infra_config \<Rightarrow> name_tree_node rbtree \<Rightarrow> (addr \<Rightarrow> domain_limit_data option) \<Rightarrow> bool" where
  "limits_ready cfg t dat \<longleftrightarrow> (\<exists>xs.
     limits_hold (cfg_value (cfg_ratelimit_for_domain cfg)) (cfg_value (cfg_ratelimit_below_domain cfg)) t dat xs \<and>
     names.parents_right t xs (set xs))"

lemma init_parents_limits:
  assumes lh: "limits_hold F B t dat xs"
  shows "\<exists>t'. name_tree_init_parents t = Some t' \<and> limits_hold F B t' dat xs \<and> names.parents_right t' xs (set xs)"
proof -
  note L = limits_holdD [OF lh]
  from name_tree_init_parents_ok [OF L(3)] obtain t' where
    3: "name_tree_init_parents t = Some t'" "name_tree_ok t' xs" "names.same_but_parents t t'" "names.parents_right t' xs (set xs)" by blast
  have kv: "kv t' b = (kv t b)\<lparr>nt_parent := nt_parent (kv t' b)\<rparr>" for b
    using 3(3) unfolding names.same_but_parents_def by (simp add: name_ops_def)
  have nn: "node_name (kv t' b) = node_name (kv t b)" "in_node (kv t' b) = in_node (kv t b)" for b
    by (subst kv, simp add: node_name_def in_node_def)+
  have "dom (rb_mem t') = dom (rb_mem t)" using 3(3) by (simp add: names.same_but_parents_def)
  with 3(2) lh have "limits_hold F B t' dat xs" unfolding limits_hold_def nn by simp
  with 3 show ?thesis by blast
qed

lemma setup_domain_limits_ok:
  assumes fin: "finite (dom (rb_mem (domain_limits infra)))"
    and mk: "\<forall>i. length (lm_raw (mk1 i)) = 256" "\<forall>i. length (lm_raw (mk2 i)) = 256"
  shows "\<exists>ok t' dat' F B ys. setup_domain_limits mk1 mk2 cfg infra = Some (ok, infra\<lparr>domain_limits := t', limit_data := dat'\<rparr>) \<and>
    limits_hold F B t' dat' ys \<and> (ok \<longrightarrow> limits_ready cfg t' dat') \<and>
    (cfg_names_ok (cfg_ratelimit_for_domain cfg) \<and> cfg_names_ok (cfg_ratelimit_below_domain cfg) \<and>
      (\<forall>i. limit_malloc_ok (mk1 i)) \<and> (\<forall>i. limit_malloc_ok (mk2 i)) \<longrightarrow> ok)"
proof -
  define D0 :: "label list \<Rightarrow> domain_limit_data" where "D0 = (\<lambda>n. \<lparr>dl_lim = -1, dl_below = -1\<rparr>)"
  define infra0 where "infra0 = infra\<lparr>domain_limits := name_tree_init (domain_limits infra)\<rparr>"
  let ?sl = "\<lambda>v l. l\<lparr>dl_lim := v\<rparr>" and ?sb = "\<lambda>v l. l\<lparr>dl_below := v\<rparr>"
  let ?p1 = "cfg_ratelimit_for_domain cfg" and ?p2 = "cfg_ratelimit_below_domain cfg"
  have "holds_data D0 (domain_limits infra0) (limit_data infra0) []"
    using name_tree_init_ok fin by (simp add: holds_data_def limits_hold_def infra0_def D0_def name_tree_init_def rb_init_view)
  from cfg_insert_loop_ok [OF this mk(1), of ?sl ?p1] obtain ok1 t1 dat1 ys D1 where
    1: "cfg_insert_loop ?sl mk1 ?p1 infra0 = Some (ok1, infra0\<lparr>domain_limits := t1, limit_data := dat1\<rparr>)"
    "holds_data D1 t1 dat1 ys" "ok1 \<longrightarrow> (\<forall>n. D1 n = cfg_data ?sl ?p1 n (D0 n))"
    "cfg_names_ok ?p1 \<and> (\<forall>i. limit_malloc_ok (mk1 i)) \<longrightarrow> ok1" by blast
  let ?infra1 = "infra0\<lparr>domain_limits := t1, limit_data := dat1\<rparr>"
  show ?thesis
  proof (cases ok1)
    case False
    then have "setup_domain_limits mk1 mk2 cfg infra = Some (False, infra\<lparr>domain_limits := t1, limit_data := dat1\<rparr>)"
      using 1(1) by (simp add: setup_domain_limits_def infra_ratelimit_cfg_insert_def infra0_def Let_def)
    with 1(2) [unfolded holds_data_def] 1(4) False show ?thesis by blast
  next
    case ok1: True
    have "holds_data D1 (domain_limits ?infra1) (limit_data ?infra1) ys" using 1(2) by simp
    from cfg_insert_loop_ok [OF this mk(2), of ?sb ?p2] obtain ok2 t2 dat2 zs D2 where
      2: "cfg_insert_loop ?sb mk2 ?p2 ?infra1 = Some (ok2, ?infra1\<lparr>domain_limits := t2, limit_data := dat2\<rparr>)"
      "holds_data D2 t2 dat2 zs" "ok2 \<longrightarrow> (\<forall>n. D2 n = cfg_data ?sb ?p2 n (D1 n))"
      "cfg_names_ok ?p2 \<and> (\<forall>i. limit_malloc_ok (mk2 i)) \<longrightarrow> ok2" by blast
    show ?thesis
    proof (cases ok2)
      case False
      then have "setup_domain_limits mk1 mk2 cfg infra = Some (False, infra\<lparr>domain_limits := t2, limit_data := dat2\<rparr>)"
        using 1(1) ok1 2(1) by (simp add: setup_domain_limits_def infra_ratelimit_cfg_insert_def infra0_def Let_def)
      with 2(2) [unfolded holds_data_def] 2(4) False show ?thesis by blast
    next
      case ok2: True
      have FB: "(\<lambda>n. dl_lim (D2 n)) = cfg_value ?p1" "(\<lambda>n. dl_below (D2 n)) = cfg_value ?p2"
        using ok1 ok2 1(3) 2(3) by (simp_all add: cfg_data_fields cfg_value_def D0_def fun_eq_iff)
      from init_parents_limits [OF 2(2) [unfolded holds_data_def FB]] obtain t' where
        3: "name_tree_init_parents t2 = Some t'" "limits_hold (cfg_value ?p1) (cfg_value ?p2) t' dat2 zs" "names.parents_right t' zs (set zs)" by blast
      have "setup_domain_limits mk1 mk2 cfg infra = Some (True, infra\<lparr>domain_limits := t', limit_data := dat2\<rparr>)"
        using 1(1) 2(1) 3(1) ok1 ok2 by (simp add: setup_domain_limits_def infra_ratelimit_cfg_insert_def infra0_def Let_def)
      moreover have "limits_ready cfg t' dat2" using 3(2,3) by (auto simp: limits_ready_def)
      ultimately show ?thesis using 3(2) by blast
    qed
  qed
qed

end
