(* ===== verification/Infra_Rate_Map.thy ===== *)
theory Infra_Rate_Map
  imports Keyed_Table Infra_Limits Infra_Host_Map
begin

text \<open>
  The two tables of query rates as maps, and the functions that count queries in terms of these maps. The two tables are
  used in the same way, so the lemmas are proved once, for a state that has a table as a field.
\<close>

section \<open>A state with a table\<close>

text \<open>What the functions do with a table: look up, read and write data through the pointer, count a query.\<close>

definition store_find ::
    "('q \<Rightarrow> 'k) \<Rightarrow> ('q \<Rightarrow> u32 option) \<Rightarrow> ('s \<Rightarrow> ('k, 'd) slabhash option) \<Rightarrow> (('k, 'd) slabhash \<Rightarrow> 's \<Rightarrow> 's) \<Rightarrow> 'q \<Rightarrow> 's \<Rightarrow>
     (entry_ptr option \<times> 's) option" where
  "store_find key hash tab put q s = do {
     h \<leftarrow> hash q;
     sl \<leftarrow> tab s;
     (r, sl) \<leftarrow> slabhash_lookup h (key q) sl;
     Some (map_option (\<lambda>a. (h, a)) r, put sl s) }"

definition store_data :: "('s \<Rightarrow> ('k, 'd) slabhash option) \<Rightarrow> 's \<Rightarrow> entry_ptr \<Rightarrow> 'd option" where
  "store_data tab s p = do { sl \<leftarrow> tab s; entry_data sl (fst p) (snd p) }"

definition store_set ::
    "('s \<Rightarrow> ('k, 'd) slabhash option) \<Rightarrow> (('k, 'd) slabhash \<Rightarrow> 's \<Rightarrow> 's) \<Rightarrow> entry_ptr \<Rightarrow> 'd \<Rightarrow> 's \<Rightarrow> 's option" where
  "store_set tab put p d s = do {
     sl \<leftarrow> tab s;
     sl \<leftarrow> set_entry_data (fst p) (snd p) d sl;
     Some (put sl s) }"

definition store_new ::
    "('q \<Rightarrow> 'k) \<Rightarrow> ('q \<Rightarrow> u32 option) \<Rightarrow> ('s \<Rightarrow> ('k, 'd) slabhash option) \<Rightarrow> (('k, 'd) slabhash \<Rightarrow> 's \<Rightarrow> 's) \<Rightarrow> bool \<Rightarrow> bool \<Rightarrow> 'd \<Rightarrow> 'q \<Rightarrow> 's \<Rightarrow> 's option" where
  "store_new key hash tab put grow alloc d q s = do {
     h \<leftarrow> hash q;
     if \<not> alloc then Some s
     else do {
       sl \<leftarrow> tab s;
       sl \<leftarrow> rate_insert grow h (key q) d sl;
       Some (put sl s) } }"

definition store_count ::
    "('q \<Rightarrow> 'k) \<Rightarrow> ('q \<Rightarrow> u32 option) \<Rightarrow> ('s \<Rightarrow> ('k, rate_data) slabhash option) \<Rightarrow> (('k, rate_data) slabhash \<Rightarrow> 's \<Rightarrow> 's) \<Rightarrow> bool \<Rightarrow> bool \<Rightarrow>
     int \<Rightarrow> bool \<Rightarrow> 'q \<Rightarrow> 's \<Rightarrow> ((int \<times> int) option \<times> 's) option" where
  "store_count key hash tab put grow alloc timenow backoff q s = do {
     (e, s) \<leftarrow> store_find key hash tab put q s;
     (case e of
        Some p \<Rightarrow> do {
          d \<leftarrow> store_data tab s p;
          (premax, m, d) \<leftarrow> rate_count timenow backoff d;
          s \<leftarrow> store_set tab put p d s;
          Some (Some (premax, m), s) }
      | None \<Rightarrow> do {
          s \<leftarrow> store_new key hash tab put grow alloc (new_rate_data timenow) q s;
          Some (None, s) }) }"

definition store_view :: "('q \<Rightarrow> 'k) \<Rightarrow> ('q \<Rightarrow> u32 option) \<Rightarrow> ('s \<Rightarrow> ('k, 'd) slabhash option) \<Rightarrow> 's \<Rightarrow> 'q \<Rightarrow> 'd option" where
  "store_view key hash tab s q = do { sl \<leftarrow> tab s; table_view key hash sl q }"

definition store_inv :: "('k \<Rightarrow> 'k \<Rightarrow> int) \<Rightarrow> ('k \<Rightarrow> 'd \<Rightarrow> u64) \<Rightarrow> ('s \<Rightarrow> ('k, 'd) slabhash option) \<Rightarrow> 's \<Rightarrow> bool" where
  "store_inv cmp szf tab s \<longleftrightarrow> (\<exists>sl. tab s = Some sl \<and> slab_cache cmp szf sl)"

lemma rate_count_total: "\<exists>premax m d'. rate_count timenow backoff d = Some (premax, m, d')"
  by (auto simp: rate_count_def infra_rate_give_second_def infra_rate_find_second_or_none_def Let_def split: option.splits)

locale rate_store = keyed_table cmp szf key hash ok
  for cmp :: "'k \<Rightarrow> 'k \<Rightarrow> int" and szf :: "'k \<Rightarrow> rate_data \<Rightarrow> u64" and key :: "'q \<Rightarrow> 'k" and hash :: "'q \<Rightarrow> u32 option" and ok :: "'q \<Rightarrow> bool" +
  fixes tab :: "'s \<Rightarrow> ('k, rate_data) slabhash option" and put :: "('k, rate_data) slabhash \<Rightarrow> 's \<Rightarrow> 's"
  assumes tab_put: "tab (put sl s) = Some sl" and put_put: "put sl (put sl' s) = put sl s"
begin

lemma find_ok:
  assumes inv: "store_inv cmp szf tab s" and q: "ok q"
  shows "\<exists>r sl1. store_find key hash tab put q s = Some (r, put sl1 s) \<and> store_inv cmp szf tab (put sl1 s) \<and>
    store_view key hash tab (put sl1 s) = store_view key hash tab s \<and>
    (case r of None \<Rightarrow> store_view key hash tab s q = None
     | Some p \<Rightarrow> store_data tab (put sl1 s) p = store_view key hash tab s q \<and> store_view key hash tab s q \<noteq> None \<and>
         (\<forall>d. \<exists>sl2. store_set tab put p d (put sl1 s) = Some (put sl2 s) \<and> store_inv cmp szf tab (put sl2 s) \<and>
            (\<forall>q'. ok q' \<longrightarrow> store_view key hash tab (put sl2 s) q' = (if cmp (key q) (key q') = 0 then Some d else store_view key hash tab s q'))))"
proof -
  obtain sl where sl: "tab s = Some sl" "slab_cache cmp szf sl" using inv by (auto simp: store_inv_def)
  obtain h where h: "hash q = Some h" using hash_total [OF q] by blast
  have v: "store_view key hash tab s q' = table_view key hash sl q'" for q' by (simp add: store_view_def sl)
  from view_lookup [OF sl(2) q h] obtain r sl1 where
    1: "slabhash_lookup h (key q) sl = Some (r, sl1)" "slab_cache cmp szf sl1" "table_view key hash sl1 = table_view key hash sl"
    "case r of None \<Rightarrow> table_view key hash sl q = None
     | Some a \<Rightarrow> entry_data sl1 h a = table_view key hash sl q \<and> table_view key hash sl q \<noteq> None \<and>
         (\<forall>d. \<exists>sl2. set_entry_data h a d sl1 = Some sl2 \<and> slab_cache cmp szf sl2 \<and>
            (\<forall>q'. ok q' \<longrightarrow> table_view key hash sl2 q' = (if cmp (key q) (key q') = 0 then Some d else table_view key hash sl q')))" by blast
  have find: "store_find key hash tab put q s = Some (map_option (\<lambda>a. (h, a)) r, put sl1 s)"
    using h sl(1) 1(1) by (simp add: store_find_def)
  have b: "store_inv cmp szf tab (put sl1 s)" "store_view key hash tab (put sl1 s) = store_view key hash tab s"
    using 1(2,3) sl by (auto simp: store_inv_def store_view_def tab_put fun_eq_iff)
  show ?thesis
  proof (cases r)
    case None
    with find b 1(4) show ?thesis by (intro exI [of _ None] exI [of _ sl1]) (simp add: v)
  next
    case (Some a)
    have "\<exists>sl2. store_set tab put (h, a) d (put sl1 s) = Some (put sl2 s) \<and> store_inv cmp szf tab (put sl2 s) \<and>
        (\<forall>q'. ok q' \<longrightarrow> store_view key hash tab (put sl2 s) q' = (if cmp (key q) (key q') = 0 then Some d else store_view key hash tab s q'))" for d
    proof -
      from 1(4) Some obtain sl2 where
        2: "set_entry_data h a d sl1 = Some sl2" "slab_cache cmp szf sl2"
        "\<forall>q'. ok q' \<longrightarrow> table_view key hash sl2 q' = (if cmp (key q) (key q') = 0 then Some d else table_view key hash sl q')" by auto
      then show ?thesis
        by (intro exI [of _ sl2]) (auto simp: store_set_def store_inv_def store_view_def tab_put put_put sl(1))
    qed
    moreover have "store_data tab (put sl1 s) (h, a) = store_view key hash tab s q" "store_view key hash tab s q \<noteq> None"
      using 1(4) Some by (simp_all add: store_data_def tab_put v)
    ultimately show ?thesis using find b Some by (intro exI [of _ "Some (h, a)"] exI [of _ sl1]) simp
  qed
qed

lemma new_ok:
  assumes inv: "store_inv cmp szf tab s" and q: "ok q"
  shows "\<exists>s'. store_new key hash tab put grow alloc d q s = Some s' \<and> store_inv cmp szf tab s' \<and> (s' = s \<or> (\<exists>sl. s' = put sl s)) \<and>
    (if alloc then store_view key hash tab s' q = Some d \<and>
       (\<forall>q'. ok q' \<longrightarrow> store_view key hash tab s' q' = None \<or>
          store_view key hash tab s' q' = (if cmp (key q) (key q') = 0 then Some d else store_view key hash tab s q'))
     else s' = s)"
proof -
  obtain sl where sl: "tab s = Some sl" "slab_cache cmp szf sl" using inv by (auto simp: store_inv_def)
  obtain h where h: "hash q = Some h" using hash_total [OF q] by blast
  from view_insert [OF sl(2) q h, of grow d] obtain sl2 where
    "rate_insert grow h (key q) d sl = Some sl2" "slab_cache cmp szf sl2" "table_view key hash sl2 q = Some d"
    "\<forall>q'. ok q' \<longrightarrow> table_view key hash sl2 q' = None \<or>
       table_view key hash sl2 q' = (if cmp (key q) (key q') = 0 then Some d else table_view key hash sl q')" by blast
  with sl h inv show ?thesis
    by (cases alloc) (auto simp: store_new_def store_inv_def store_view_def tab_put)
qed

text \<open>Counting a query: the new data for the key, and what happens to the others.\<close>

lemma count_ok:
  assumes inv: "store_inv cmp szf tab s" and q: "ok q"
  shows "\<exists>x s'. store_count key hash tab put grow alloc timenow backoff q s = Some (x, s') \<and> store_inv cmp szf tab s' \<and> (\<exists>sl. s' = put sl s) \<and>
    (case store_view key hash tab s q of
       None \<Rightarrow> x = None \<and> store_view key hash tab s' q = (if alloc then Some (new_rate_data timenow) else None)
     | Some d \<Rightarrow> \<exists>premax m d'. rate_count timenow backoff d = Some (premax, m, d') \<and> x = Some (premax, m) \<and> store_view key hash tab s' q = Some d') \<and>
    (\<forall>q'. ok q' \<and> cmp (key q) (key q') \<noteq> 0 \<longrightarrow> store_view key hash tab s' q' = None \<or> store_view key hash tab s' q' = store_view key hash tab s q')"
proof -
  from find_ok [OF inv q] obtain r sl1 where
    1: "store_find key hash tab put q s = Some (r, put sl1 s)" "store_inv cmp szf tab (put sl1 s)"
    "store_view key hash tab (put sl1 s) = store_view key hash tab s"
    "case r of None \<Rightarrow> store_view key hash tab s q = None
     | Some p \<Rightarrow> store_data tab (put sl1 s) p = store_view key hash tab s q \<and> store_view key hash tab s q \<noteq> None \<and>
         (\<forall>d. \<exists>sl2. store_set tab put p d (put sl1 s) = Some (put sl2 s) \<and> store_inv cmp szf tab (put sl2 s) \<and>
            (\<forall>q'. ok q' \<longrightarrow> store_view key hash tab (put sl2 s) q' = (if cmp (key q) (key q') = 0 then Some d else store_view key hash tab s q')))"
    by blast
  show ?thesis
  proof (cases r)
    case None
    from new_ok [OF 1(2) q, of grow alloc "new_rate_data timenow"] obtain s' where
      2: "store_new key hash tab put grow alloc (new_rate_data timenow) q (put sl1 s) = Some s'" "store_inv cmp szf tab s'"
      "s' = put sl1 s \<or> (\<exists>sl. s' = put sl (put sl1 s))"
      "if alloc then store_view key hash tab s' q = Some (new_rate_data timenow) \<and>
         (\<forall>q'. ok q' \<longrightarrow> store_view key hash tab s' q' = None \<or>
            store_view key hash tab s' q' = (if cmp (key q) (key q') = 0 then Some (new_rate_data timenow) else store_view key hash tab (put sl1 s) q'))
       else s' = put sl1 s" by blast
    have v: "store_view key hash tab s q = None" using 1(4) None by simp
    have "store_count key hash tab put grow alloc timenow backoff q s = Some (None, s')"
      using 1(1) 2(1) None by (simp add: store_count_def)
    moreover have "\<exists>sl. s' = put sl s" using 2(3) by (auto simp: put_put)
    moreover have "store_view key hash tab s' q = (if alloc then Some (new_rate_data timenow) else None)"
      using 2(4) 1(3) v by (auto split: if_splits)
    moreover have "\<forall>q'. ok q' \<and> cmp (key q) (key q') \<noteq> 0 \<longrightarrow> store_view key hash tab s' q' = None \<or> store_view key hash tab s' q' = store_view key hash tab s q'"
      using 2(4) 1(3) by (auto split: if_splits)
    ultimately show ?thesis using 2(2) v by simp
  next
    case (Some p)
    then obtain d where d: "store_view key hash tab s q = Some d" "store_data tab (put sl1 s) p = Some d" using 1(4) by auto
    obtain premax m d' where c: "rate_count timenow backoff d = Some (premax, m, d')" using rate_count_total by blast
    from 1(4) Some obtain sl2 where
      2: "store_set tab put p d' (put sl1 s) = Some (put sl2 s)" "store_inv cmp szf tab (put sl2 s)"
      "\<forall>q'. ok q' \<longrightarrow> store_view key hash tab (put sl2 s) q' = (if cmp (key q) (key q') = 0 then Some d' else store_view key hash tab s q')" by auto
    have "store_count key hash tab put grow alloc timenow backoff q s = Some (Some (premax, m), put sl2 s)"
      using 1(1) Some d(2) c 2(1) by (simp add: store_count_def)
    moreover have "store_view key hash tab (put sl2 s) q = Some d'" using 2(3) q cmp_refl [of "key q"] by simp
    ultimately show ?thesis using 2 d(1) c
      by (intro exI [of _ "Some (premax, m)"] exI [of _ "put sl2 s"]) auto
  qed
qed

end

section \<open>The tables of the cache\<close>

definition put_rates :: "(rate_key, rate_data) slabhash \<Rightarrow> 'z infra_cache_scheme \<Rightarrow> 'z infra_cache_scheme" where
  "put_rates sl infra = infra\<lparr>domain_rates := Some sl\<rparr>"

definition put_ip_rates :: "(ip_rate_key, rate_data) slabhash \<Rightarrow> 'z infra_cache_scheme \<Rightarrow> 'z infra_cache_scheme" where
  "put_ip_rates sl infra = infra\<lparr>client_ip_rates := Some sl\<rparr>"

interpretation zone_store: rate_store rate_compfunc "rate_sizefunc sz" zone_key "zone_hash env" "\<lambda>_. True" domain_rates put_rates for sz env
  by unfold_locales (simp_all add: put_rates_def)

interpretation client_store: rate_store ip_rate_compfunc "ip_rate_sizefunc sz" client_key "client_hash env" client_ok client_ip_rates put_ip_rates for sz env
  by unfold_locales (simp_all add: put_ip_rates_def)

abbreviation zone_inv :: "struct_sizes \<Rightarrow> 'z infra_cache_scheme \<Rightarrow> bool" where
  "zone_inv sz \<equiv> store_inv rate_compfunc (rate_sizefunc sz) domain_rates"

abbreviation zone_view :: "infra_env \<Rightarrow> 'z infra_cache_scheme \<Rightarrow> zone \<Rightarrow> rate_data option" where
  "zone_view env \<equiv> store_view zone_key (zone_hash env) domain_rates"

abbreviation client_inv :: "struct_sizes \<Rightarrow> 'z infra_cache_scheme \<Rightarrow> bool" where
  "client_inv sz \<equiv> store_inv ip_rate_compfunc (ip_rate_sizefunc sz) client_ip_rates"

abbreviation client_view :: "infra_env \<Rightarrow> 'z infra_cache_scheme \<Rightarrow> client \<Rightarrow> rate_data option" where
  "client_view env \<equiv> store_view client_key (client_hash env) client_ip_rates"

lemmas store_defs = store_find_def store_data_def store_set_def store_new_def put_rates_def put_ip_rates_def
  zone_key_def zone_hash_def client_key_def client_hash_def

lemma zone_functions:
  "infra_find_ratedata env name len infra = store_find zone_key (zone_hash env) domain_rates put_rates (name, len) infra"
  "zone_data infra p = store_data domain_rates infra p"
  "set_zone_data p d infra = store_set domain_rates put_rates p d infra"
  "infra_create_ratedata env mk name len timenow infra =
     store_new zone_key (zone_hash env) domain_rates put_rates (ie_grow_ok env) (rm_key mk \<and> rm_data mk \<and> len \<noteq> 0 \<and> rm_name mk) (new_rate_data timenow) (name, len) infra"
  by (simp_all add: infra_find_ratedata_def zone_data_def set_zone_data_def store_defs)
    (cases "rm_key mk"; cases "rm_data mk"; cases "len = 0"; cases "rm_name mk"; simp add: infra_create_ratedata_def store_defs)

lemma client_functions:
  "infra_find_ip_ratedata env a len infra = store_find client_key (client_hash env) client_ip_rates put_ip_rates (a, len) infra"
  "ip_data infra p = store_data client_ip_rates infra p"
  "set_ip_data p d infra = store_set client_ip_rates put_ip_rates p d infra"
  "infra_ip_create_ratedata env mk a len timenow infra =
     store_new client_key (client_hash env) client_ip_rates put_ip_rates (ie_grow_ok env) (rm_key mk \<and> rm_data mk) (new_rate_data timenow) (a, len) infra"
  by (simp_all add: infra_find_ip_ratedata_def ip_data_def set_ip_data_def store_defs)
    (cases "rm_key mk"; cases "rm_data mk"; simp add: infra_ip_create_ratedata_def store_defs)

lemma infra_ratelimit_inc_count:
  assumes "infra_dp_ratelimit g \<noteq> 0" "infra_find_ratelimit g infra name len = Some l" "l \<noteq> 0"
  shows "infra_ratelimit_inc g env mk name len timenow backoff infra =
    map_option (\<lambda>(x, s). ((case x of None \<Rightarrow> 1 | Some (premax, m) \<Rightarrow> m) \<le> l, s))
      (store_count zone_key (zone_hash env) domain_rates put_rates (ie_grow_ok env) (rm_key mk \<and> rm_data mk \<and> len \<noteq> 0 \<and> rm_name mk) timenow backoff (name, len) infra)"
proof (cases "store_find zone_key (zone_hash env) domain_rates put_rates (name, len) infra")
  case None
  with assms show ?thesis by (simp add: infra_ratelimit_inc_def zone_functions store_count_def)
next
  case (Some es)
  obtain e s where es: "es = (e, s)" by (cases es)
  show ?thesis
    unfolding infra_ratelimit_inc_def zone_functions store_count_def Some es using assms
    by (cases e) (simp_all add: map_option_bind case_prod_unfold comp_def)
qed

lemma infra_ip_ratelimit_inc_count:
  assumes "infra_ip_ratelimit g \<noteq> 0"
  shows "infra_ip_ratelimit_inc g env mk a len timenow has_cookie backoff infra =
    map_option (\<lambda>(x, s). ((case x of None \<Rightarrow> True | Some (premax, m) \<Rightarrow> check_ip_ratelimit g premax m has_cookie), s))
      (store_count client_key (client_hash env) client_ip_rates put_ip_rates (ie_grow_ok env) (rm_key mk \<and> rm_data mk) timenow backoff (a, len) infra)"
proof (cases "store_find client_key (client_hash env) client_ip_rates put_ip_rates (a, len) infra")
  case None
  with assms show ?thesis by (simp add: infra_ip_ratelimit_inc_def client_functions store_count_def)
next
  case (Some es)
  obtain e s where es: "es = (e, s)" by (cases es)
  show ?thesis
    unfolding infra_ip_ratelimit_inc_def client_functions store_count_def Some es using assms
    by (cases e) (simp_all add: map_option_bind case_prod_unfold comp_def)
qed

end
