(* ===== verification/Rate_Count.thy ===== *)
theory Rate_Count
  imports Infra_Rate_Map
begin

text \<open>
  What the two counters of an entry say about the queries so far. For queries in order of time they hold the exact numbers for the two
  latest seconds that had queries; in general they never count more queries than there were.
\<close>

section \<open>The rate of a history of queries\<close>

text \<open>The times of the queries so far, the latest is the last. The second with queries before a second is 0 if there is none.\<close>

definition prev_second :: "int \<Rightarrow> int list \<Rightarrow> int" where
  "prev_second t hs = (case filter (\<lambda>s. s < t) hs of [] \<Rightarrow> 0 | xs \<Rightarrow> last xs)"

text \<open>The number of queries in the second of the last query; with backoff also that in the second before it that had queries,
  unless it is more than two seconds ago.\<close>

definition window_rate :: "bool \<Rightarrow> int list \<Rightarrow> int" where
  "window_rate backoff hs =
     (let t = last hs; s = prev_second t hs
      in max (int (count_list hs t)) (if backoff \<and> t - s \<le> 2 then int (count_list hs s) else 0))"

text \<open>The rates after each of a list of queries.\<close>

fun window_rates :: "bool \<Rightarrow> int list \<Rightarrow> int list \<Rightarrow> int list" where
  "window_rates backoff hs [] = []"
| "window_rates backoff hs (t # ts) = window_rate backoff (hs @ [t]) # window_rates backoff (hs @ [t]) ts"

section \<open>Queries in order of time\<close>

lemma rate_slots [simp]: "RATE_SLOTS = [0, 1]"
  by (simp add: RATE_SLOTS_def RATE_WINDOW_def upt_rec numeral_2_eq_2)

definition two_slots :: "rate_data \<Rightarrow> int \<Rightarrow> int \<Rightarrow> int \<Rightarrow> int \<Rightarrow> bool" where
  "two_slots d t n s m \<longleftrightarrow> s < t \<and> (d = \<lparr>qps = [n, m], timestamp = [t, s]\<rparr> \<or> d = \<lparr>qps = [m, n], timestamp = [s, t]\<rparr>)"

definition tracks :: "int list \<Rightarrow> rate_data \<Rightarrow> bool" where
  "tracks hs d \<longleftrightarrow> hs \<noteq> [] \<and>
     (let t = last hs; s = prev_second t hs in two_slots d t (int (count_list hs t)) s (int (count_list hs s)))"

lemma rate_max_two_slots:
  assumes "two_slots d t n s m" "0 \<le> n" "0 \<le> m"
  shows "infra_rate_max d t backoff = max n (if backoff \<and> t - s \<le> 2 then m else 0)"
proof -
  consider "d = \<lparr>qps = [n, m], timestamp = [t, s]\<rparr>" | "d = \<lparr>qps = [m, n], timestamp = [s, t]\<rparr>"
    using assms(1) by (auto simp: two_slots_def)
  moreover have "s \<noteq> t" using assms(1) by (simp add: two_slots_def)
  ultimately show ?thesis using assms(2,3)
    by cases (simp_all add: infra_rate_max_def RATE_WINDOW_def max_def)
qed

lemma rate_count_same_second:
  assumes "two_slots d t n s m" "0 \<le> n" "n + 1 < 2 ^ 31" "0 \<le> m"
  shows "\<exists>premax d'. rate_count t backoff d = Some (premax, max (n + 1) (if backoff \<and> t - s \<le> 2 then m else 0), d') \<and>
    two_slots d' t (n + 1) s m"
proof -
  have "i32 (n + 1) = n + 1" using assms by (intro i32_id) auto
  then obtain d' where d': "rate_count t backoff d = Some (infra_rate_max d t backoff, infra_rate_max d' t backoff, d')" "two_slots d' t (n + 1) s m"
    using assms(1) by (auto simp: two_slots_def rate_count_def Let_def infra_rate_give_second_def infra_rate_find_second_or_none_def)
  with rate_max_two_slots [OF d'(2)] assms show ?thesis by simp
qed

lemma rate_count_next_second:
  assumes "two_slots d t n s m" "t < u" "0 \<le> n"
  shows "\<exists>premax d'. rate_count u backoff d = Some (premax, max 1 (if backoff \<and> u - t \<le> 2 then n else 0), d') \<and>
    two_slots d' u 1 t n"
proof -
  have "i32 1 = 1" by (simp add: i32_id)
  then obtain d' where d': "rate_count u backoff d = Some (infra_rate_max d u backoff, infra_rate_max d' u backoff, d')" "two_slots d' u 1 t n"
    using assms(1,2) by (auto simp: two_slots_def rate_count_def Let_def infra_rate_give_second_def infra_rate_find_second_or_none_def)
  with rate_max_two_slots [OF d'(2)] assms show ?thesis by simp
qed

lemma prev_second_less: "0 < t \<Longrightarrow> prev_second t hs < t"
proof (cases "filter (\<lambda>s. s < t) hs")
  case (Cons a xs)
  then have "last (a # xs) \<in> set (filter (\<lambda>s. s < t) hs)" by (metis last_in_set list.distinct(1))
  then have "last (a # xs) < t" by (simp del: last.simps)
  then show ?thesis using Cons by (simp add: prev_second_def del: last.simps)
qed (simp add: prev_second_def)

lemma prev_second_snoc:
  "prev_second t (hs @ [t]) = prev_second t hs"
  "hs \<noteq> [] \<Longrightarrow> \<forall>s \<in> set hs. s < t \<Longrightarrow> prev_second t (hs @ [t]) = last hs"
  by (auto simp: prev_second_def filter_id_conv split: list.split)

lemma tracks_first: "0 < t \<Longrightarrow> tracks [t] (new_rate_data t)" "0 < t \<Longrightarrow> window_rate backoff [t] = 1"
  by (auto simp: tracks_def two_slots_def prev_second_def new_rate_data_def RATE_WINDOW_def numeral_2_eq_2 window_rate_def)

lemma tracks_count:
  assumes d: "tracks hs d" and ord: "sorted (hs @ [t])" "0 < t" "length hs + 1 < 2 ^ 31"
  shows "\<exists>premax d'. rate_count t backoff d = Some (premax, window_rate backoff (hs @ [t]), d') \<and> tracks (hs @ [t]) d'"
proof -
  let ?c = "\<lambda>hs s. int (count_list hs s)"
  define u where "u = last hs"
  have hs: "hs \<noteq> []" and slots: "two_slots d u (?c hs u) (prev_second u hs) (?c hs (prev_second u hs))"
    using d by (auto simp: tracks_def Let_def u_def)
  have "u \<in> set hs" using hs by (simp add: u_def)
  then have ut: "u \<le> t" using ord(1) by (auto simp: sorted_append)
  have le_u: "s \<le> u" if "s \<in> set hs" for s
    using that ord(1) hs by (auto simp: u_def sorted_append in_set_conv_nth last_conv_nth intro!: sorted_nth_mono)
  show ?thesis
  proof (cases "u = t")
    case True
    have c: "?c hs u + 1 < 2 ^ 31" using count_le_length [of hs u] ord(3) by (simp only: of_nat_less_iff [where ?'a = int, symmetric] of_nat_add of_nat_1 of_nat_power of_nat_numeral of_nat_le_iff [where ?'a = int, symmetric])
    have p: "prev_second t hs \<noteq> t" using prev_second_less [OF ord(2), of hs] by simp
    from rate_count_same_second [OF slots _ c, of backoff] obtain premax d' where
      1: "rate_count t backoff d = Some (premax, max (?c hs t + 1) (if backoff \<and> t - prev_second t hs \<le> 2 then ?c hs (prev_second t hs) else 0), d')"
      "two_slots d' t (?c hs t + 1) (prev_second t hs) (?c hs (prev_second t hs))" unfolding True by auto
    have "window_rate backoff (hs @ [t]) = max (?c hs t + 1) (if backoff \<and> t - prev_second t hs \<le> 2 then ?c hs (prev_second t hs) else 0)"
      using p by (simp add: window_rate_def Let_def prev_second_snoc(1))
    moreover have "tracks (hs @ [t]) d'" using 1(2) p by (simp add: tracks_def Let_def prev_second_snoc(1) add.commute)
    ultimately show ?thesis using 1(1) by simp
  next
    case False
    with ut le_u have less: "\<forall>s \<in> set hs. s < t" by force
    then have "count_list hs t = 0" by (auto simp: count_list_0_iff)
    note 0 = this prev_second_snoc(2) [OF hs less, folded u_def]
    from rate_count_next_second [OF slots, of t backoff] ut False obtain premax d' where
      1: "rate_count t backoff d = Some (premax, max 1 (if backoff \<and> t - u \<le> 2 then ?c hs u else 0), d')"
      "two_slots d' t 1 u (?c hs u)" by auto
    have "window_rate backoff (hs @ [t]) = max 1 (if backoff \<and> t - u \<le> 2 then ?c hs u else 0)"
      using 0 False by (simp add: window_rate_def Let_def)
    moreover have "tracks (hs @ [t]) d'" using 1(2) 0 False by (simp add: tracks_def Let_def)
    ultimately show ?thesis using 1(1) by simp
  qed
qed

section \<open>The counters of a table\<close>

text \<open>The rate that counting a query reports; the first query of an entry has the rate 1.\<close>

definition reported :: "(int \<times> int) option \<Rightarrow> int" where
  "reported x = (case x of None \<Rightarrow> 1 | Some (premax, m) \<Rightarrow> m)"

fun store_counts ::
    "('q \<Rightarrow> 'k) \<Rightarrow> ('q \<Rightarrow> u32 option) \<Rightarrow> ('s \<Rightarrow> ('k, rate_data) slabhash option) \<Rightarrow> (('k, rate_data) slabhash \<Rightarrow> 's \<Rightarrow> 's) \<Rightarrow> bool \<Rightarrow>
     bool \<Rightarrow> 'q \<Rightarrow> int list \<Rightarrow> 's \<Rightarrow> ((int \<times> int) option list \<times> 's) option" where
  "store_counts key hash tab put grow backoff q [] s = Some ([], s)"
| "store_counts key hash tab put grow backoff q (t # ts) s = do {
     (x, s) \<leftarrow> store_count key hash tab put grow True t backoff q s;
     (xs, s) \<leftarrow> store_counts key hash tab put grow backoff q ts s;
     Some (x # xs, s) }"

definition view_tracks :: "int list \<Rightarrow> rate_data option \<Rightarrow> bool" where
  "view_tracks hs v \<longleftrightarrow> (case v of None \<Rightarrow> hs = [] | Some d \<Rightarrow> tracks hs d)"

context rate_store
begin

lemma counts_ok:
  assumes "store_inv cmp szf tab s" "ok q" "view_tracks hs (store_view key hash tab s q)"
    "sorted (hs @ ts)" "\<forall>t \<in> set ts. 0 < t" "length hs + length ts < 2 ^ 31"
  shows "\<exists>xs s'. store_counts key hash tab put grow backoff q ts s = Some (xs, s') \<and> store_inv cmp szf tab s' \<and>
    map reported xs = window_rates backoff hs ts"
  using assms
proof (induction ts arbitrary: hs s)
  case (Cons t ts)
  from count_ok [OF Cons.prems(1,2), of grow True t backoff] obtain x s1 where
    1: "store_count key hash tab put grow True t backoff q s = Some (x, s1)" "store_inv cmp szf tab s1"
    "case store_view key hash tab s q of
       None \<Rightarrow> x = None \<and> store_view key hash tab s1 q = Some (new_rate_data t)
     | Some d \<Rightarrow> \<exists>premax m d'. rate_count t backoff d = Some (premax, m, d') \<and> x = Some (premax, m) \<and> store_view key hash tab s1 q = Some d'"
    by (simp only: if_True) blast
  have t: "0 < t" "sorted (hs @ [t])" "length hs + 1 < 2 ^ 31"
    using Cons.prems(4-6) by (auto simp: sorted_append)
  have x: "reported x = window_rate backoff (hs @ [t]) \<and> view_tracks (hs @ [t]) (store_view key hash tab s1 q)"
  proof (cases "store_view key hash tab s q")
    case None
    with Cons.prems(3) 1(3) tracks_first [OF t(1)] show ?thesis by (simp add: view_tracks_def reported_def)
  next
    case (Some d)
    with Cons.prems(3) have "tracks hs d" by (simp add: view_tracks_def)
    from tracks_count [OF this t(2,1,3), of backoff] Some 1(3) show ?thesis by (auto simp: view_tracks_def reported_def)
  qed
  have "sorted ((hs @ [t]) @ ts)" "\<forall>t \<in> set ts. 0 < t" "length (hs @ [t]) + length ts < 2 ^ 31" using Cons.prems(4-6) by simp_all
  from Cons.IH [OF 1(2) Cons.prems(2) _ this] x obtain xs s2 where
    "store_counts key hash tab put grow backoff q ts s1 = Some (xs, s2)" "store_inv cmp szf tab s2"
    "map reported xs = window_rates backoff (hs @ [t]) ts" by blast
  with 1(1) x show ?case by simp
qed simp

end

end
