(* ===== verification/Rate_Bound.thy ===== *)
theory Rate_Bound
  imports Rate_Count
begin

text \<open>
  Counters under any sequence of operations on any zones, with failing allocations, evictions and clocks that jump: they
  never count more queries than there were.
\<close>

section \<open>One entry\<close>

definition undercounts :: "(int \<Rightarrow> nat) \<Rightarrow> rate_data \<Rightarrow> bool" where
  "undercounts f d \<longleftrightarrow> (\<exists>a b s t. d = \<lparr>qps = [a, b], timestamp = [s, t]\<rparr> \<and> 0 \<le> a \<and> a \<le> int (f s) \<and> 0 \<le> b \<and> b \<le> int (f t))"

text \<open>The seconds that count at a time.\<close>

definition in_window :: "bool \<Rightarrow> int \<Rightarrow> int \<Rightarrow> bool" where
  "in_window backoff now s \<longleftrightarrow> (if backoff then now - s \<le> 2 else s = now)"

lemma in_window_now: "in_window backoff now now"
  by (simp add: in_window_def)

lemma undercounts_max:
  assumes "undercounts f d"
  shows "\<exists>s. in_window backoff now s \<and> infra_rate_max d now backoff \<le> int (f s)"
proof -
  from assms obtain a b s t where d: "d = \<lparr>qps = [a, b], timestamp = [s, t]\<rparr>" "0 \<le> a" "a \<le> int (f s)" "0 \<le> b" "b \<le> int (f t)"
    by (auto simp: undercounts_def)
  define m where "m = infra_rate_max d now backoff"
  have "m = a \<and> in_window backoff now s \<or> m = b \<and> in_window backoff now t \<or> m = 0"
    by (simp add: m_def d(1) infra_rate_max_def RATE_WINDOW_def in_window_def)
  then consider "m = a" "in_window backoff now s" | "m = b" "in_window backoff now t" | "m = 0" by blast
  then show ?thesis unfolding m_def [symmetric]
  proof cases
    case 3
    then show "\<exists>s. in_window backoff now s \<and> m \<le> int (f s)" by (intro exI [of _ now]) (simp add: in_window_now)
  qed (use d in auto)
qed

lemma undercounts_mono: "undercounts f d \<Longrightarrow> (\<And>s. f s \<le> g s) \<Longrightarrow> undercounts g d"
  unfolding undercounts_def by clarify (intro exI conjI, rule refl, auto intro: order_trans)

lemma undercounts_new: "0 < f t \<Longrightarrow> undercounts f (new_rate_data t)"
  by (simp add: undercounts_def new_rate_data_def RATE_WINDOW_def numeral_2_eq_2)

lemma undercounts_count:
  assumes d: "undercounts f d" and f: "\<And>s. f s + 1 < 2 ^ 31" and g: "g t = f t + 1" "\<And>s. f s \<le> g s"
  shows "\<exists>premax m d'. rate_count t backoff d = Some (premax, m, d') \<and> undercounts g d' \<and>
    (\<exists>s. in_window backoff t s \<and> m \<le> int (g s))"
proof -
  from d obtain a b s u where 1: "d = \<lparr>qps = [a, b], timestamp = [s, u]\<rparr>" "0 \<le> a" "a \<le> int (f s)" "0 \<le> b" "b \<le> int (f u)"
    by (auto simp: undercounts_def)
  have small: "int (f s) + 1 < 2 ^ 31" for s using f [of s] by simp
  have w: "i32 (a + 1) = a + 1" "i32 (b + 1) = b + 1" "i32 1 = 1" using 1 small [of s] small [of u] by (simp_all add: i32_id)
  have gm: "int (f s) \<le> int (g s)" "int (f u) \<le> int (g u)" "int (g t) = int (f t) + 1" using g by simp_all
  have "\<exists>d'. rate_count t backoff d = Some (infra_rate_max d t backoff, infra_rate_max d' t backoff, d') \<and> undercounts g d'"
    using 1(2-5) w gm
    by (cases "s = t"; cases "u = t"; cases "u < s")
      (simp_all add: 1(1) rate_count_def Let_def infra_rate_give_second_def infra_rate_find_second_or_none_def undercounts_def)
  with undercounts_max [of g _ backoff t] show ?thesis by blast
qed

section \<open>Sequences of operations\<close>

datatype rate_op = RInc zone int bool rate_malloc | RDec zone int | RExceeded zone int bool

text \<open>The answer is whether the zone is within its limit.\<close>

definition rate_step :: "rate_globals \<Rightarrow> infra_env \<Rightarrow> rate_op \<Rightarrow> 'z infra_cache_scheme \<Rightarrow> (bool \<times> 'z infra_cache_scheme) option" where
  "rate_step g env op infra = (case op of
     RInc z t backoff mk \<Rightarrow> infra_ratelimit_inc g env mk (fst z) (snd z) t backoff infra
   | RDec z t \<Rightarrow> map_option (\<lambda>infra. (True, infra)) (infra_ratelimit_dec g env (fst z) (snd z) t infra)
   | RExceeded z t backoff \<Rightarrow> map_option (\<lambda>(x, infra). (\<not> x, infra)) (infra_ratelimit_exceeded g env (fst z) (snd z) t backoff infra))"

fun rate_run :: "rate_globals \<Rightarrow> infra_env \<Rightarrow> rate_op list \<Rightarrow> 'z infra_cache_scheme \<Rightarrow> (bool list \<times> 'z infra_cache_scheme) option" where
  "rate_run g env [] infra = Some ([], infra)"
| "rate_run g env (op # ops) infra = do {
     (r, infra) \<leftarrow> rate_step g env op infra;
     (rs, infra) \<leftarrow> rate_run g env ops infra;
     Some (r # rs, infra) }"

definition same_zone :: "zone \<Rightarrow> zone \<Rightarrow> bool" where
  "same_zone z z' \<longleftrightarrow> snd z = snd z' \<and> name_key (fst z) = name_key (fst z')"

text \<open>The number of queries counted for a zone in a second.\<close>

definition zone_queries :: "rate_op list \<Rightarrow> zone \<Rightarrow> int \<Rightarrow> nat" where
  "zone_queries ops z s = length (filter (\<lambda>op. case op of RInc z' t _ _ \<Rightarrow> t = s \<and> same_zone z' z | _ \<Rightarrow> False) ops)"

text \<open>A refusal is right if the zone has had more queries than its limit in one of the seconds that count.\<close>

definition refusal_right :: "(zone \<Rightarrow> int) \<Rightarrow> rate_op list \<Rightarrow> rate_op \<Rightarrow> bool" where
  "refusal_right lims hs op = (case op of
     RInc z t backoff _ \<Rightarrow> \<exists>s. in_window backoff t s \<and> lims z < int (zone_queries (hs @ [op]) z s)
   | RDec z t \<Rightarrow> False
   | RExceeded z t backoff \<Rightarrow> \<exists>s. in_window backoff t s \<and> lims z < int (zone_queries hs z s))"

lemma rate_cmp_same: "rate_compfunc (zone_key z) (zone_key z') = 0 \<longleftrightarrow> same_zone z z'"
  by (auto simp: rate_compfunc_eq_0 zone_key_def rate_name_key_def same_zone_def)

lemma zone_queries_snoc:
  "zone_queries (hs @ [RInc z t backoff mk]) z' s = zone_queries hs z' s + (if t = s \<and> same_zone z z' then 1 else 0)"
  "zone_queries (hs @ [RDec z t]) z' s = zone_queries hs z' s"
  "zone_queries (hs @ [RExceeded z t backoff]) z' s = zone_queries hs z' s"
  by (auto simp: zone_queries_def)

lemma zone_queries_same: "same_zone z z' \<Longrightarrow> zone_queries hs z = zone_queries hs z'"
proof
  fix s assume z: "same_zone z z'"
  have "(case op of RInc y t _ _ \<Rightarrow> t = s \<and> same_zone y z | _ \<Rightarrow> False) = (case op of RInc y t _ _ \<Rightarrow> t = s \<and> same_zone y z' | _ \<Rightarrow> False)" for op
    using z by (auto simp: same_zone_def split: rate_op.split)
  then show "zone_queries hs z s = zone_queries hs z' s" by (simp add: zone_queries_def)
qed

lemma zone_queries_le: "zone_queries hs z s \<le> length hs"
  by (simp add: zone_queries_def)

lemma zone_view_same:
  assumes "zone_inv sz infra" "same_zone z z'"
  shows "zone_view env infra z = zone_view env infra z'"
proof -
  obtain sl where sl: "domain_rates infra = Some sl" "slab_cache rate_compfunc (rate_sizefunc sz) sl"
    using assms(1) by (auto simp: store_inv_def)
  have k: "rate_compfunc (zone_key z) (zone_key z') = 0" using assms(2) by (simp add: rate_cmp_same)
  then have h: "zone_hash env z' = zone_hash env z" by (intro zones.hash_same) simp_all
  show ?thesis
    using domain_rates.slab_get_same [OF sl(2) k] by (simp add: store_view_def sl(1) table_view_def h)
qed

definition rates_under :: "struct_sizes \<Rightarrow> infra_env \<Rightarrow> rate_op list \<Rightarrow> 'z infra_cache_scheme \<Rightarrow> bool" where
  "rates_under sz env hs infra \<longleftrightarrow> zone_inv sz infra \<and>
     (\<forall>z d. zone_view env infra z = Some d \<longrightarrow> undercounts (zone_queries hs z) d)"

lemma rates_underD:
  "rates_under sz env hs infra \<Longrightarrow> zone_inv sz infra"
  "rates_under sz env hs infra \<Longrightarrow> zone_view env infra z = Some d \<Longrightarrow> undercounts (zone_queries hs z) d"
  unfolding rates_under_def by blast+

lemma rates_under_le:
  assumes "rates_under sz env hs infra" "zone_inv sz infra'"
    and "\<And>z. zone_view env infra' z = None \<or> zone_view env infra' z = zone_view env infra z"
    and "\<And>z s. zone_queries hs z s \<le> zone_queries hs' z s"
  shows "rates_under sz env hs' infra'"
  unfolding rates_under_def
proof (intro conjI allI impI)
  fix z d assume "zone_view env infra' z = Some d"
  with rates_underD(2) [OF assms(1), of z d] assms(3) [of z] have "undercounts (zone_queries hs z) d" by auto
  then show "undercounts (zone_queries hs' z) d" by (rule undercounts_mono) (rule assms(4))
qed (rule assms(2))

lemma find_ratelimit_put [simp]: "infra_find_ratelimit g (put_rates sl infra) name len = infra_find_ratelimit g infra name len"
  by (simp add: infra_find_ratelimit_def put_rates_def cong: option.case_cong if_cong)

text \<open>The tables and the limits do not depend on each other.\<close>

definition rates_only :: "'z infra_cache_scheme \<Rightarrow> 'z infra_cache_scheme \<Rightarrow> bool" where
  "rates_only infra infra' \<longleftrightarrow> infra' = infra \<or> (\<exists>sl. infra' = put_rates sl infra)"

lemma rates_only_ratelimit: "rates_only infra infra' \<Longrightarrow> infra_find_ratelimit g infra' = infra_find_ratelimit g infra"
  by (auto simp: rates_only_def fun_eq_iff)

text \<open>What a step gives: the answer is right, and the counters still undercount.\<close>

definition step_right :: "(zone \<Rightarrow> int) \<Rightarrow> struct_sizes \<Rightarrow> infra_env \<Rightarrow> rate_op list \<Rightarrow> rate_op \<Rightarrow> 'z infra_cache_scheme \<Rightarrow>
    (bool \<times> 'z infra_cache_scheme) option \<Rightarrow> bool" where
  "step_right lims sz env hs op infra r \<longleftrightarrow> (\<exists>ok infra'. r = Some (ok, infra') \<and> rates_only infra infra' \<and>
     rates_under sz env (hs @ [op]) infra' \<and> (ok \<or> refusal_right lims hs op))"

lemma step_rightI:
  "r = Some (ok, infra') \<Longrightarrow> rates_only infra infra' \<Longrightarrow> rates_under sz env (hs @ [op]) infra' \<Longrightarrow> ok \<or> refusal_right lims hs op \<Longrightarrow>
   step_right lims sz env hs op infra r"
  by (auto simp: step_right_def)

lemma zone_queries_grow: "zone_queries hs z s \<le> zone_queries (hs @ [op]) z s"
  by (simp add: zone_queries_def)

lemma rate_inc_right:
  assumes u: "rates_under sz env hs infra" and lims: "infra_find_ratelimit g infra (fst z) (snd z) = Some (lims z)"
    and len: "length hs + 1 < 2 ^ 31"
  shows "step_right lims sz env hs (RInc z t backoff mk) infra (infra_ratelimit_inc g env mk (fst z) (snd z) t backoff infra)"
proof (cases "infra_dp_ratelimit g = 0 \<or> lims z = 0")
  case True
  then have "infra_ratelimit_inc g env mk (fst z) (snd z) t backoff infra = Some (True, infra)"
    using lims by (auto simp: infra_ratelimit_inc_def)
  moreover have "rates_under sz env (hs @ [RInc z t backoff mk]) infra"
    using u zone_queries_grow by (intro rates_under_le [OF u]) (simp_all add: rates_under_def)
  ultimately show ?thesis by (intro step_rightI [where ok = True]) (simp_all add: rates_only_def)
next
  case False
  let ?op = "RInc z t backoff mk"
  let ?al = "rm_key mk \<and> rm_data mk \<and> snd z \<noteq> 0 \<and> rm_name mk"
  let ?hs = "hs @ [?op]"
  have inv: "zone_inv sz infra" by (rule rates_underD(1) [OF u])
  from zone_store.count_ok [OF inv, where q = z and env = env and grow = "ie_grow_ok env" and alloc = ?al and timenow = t and backoff = backoff] obtain x infra' where
    1: "store_count zone_key (zone_hash env) domain_rates put_rates (ie_grow_ok env) ?al t backoff z infra = Some (x, infra')"
    "zone_inv sz infra'" "\<exists>sl. infra' = put_rates sl infra"
    "case zone_view env infra z of
       None \<Rightarrow> x = None \<and> zone_view env infra' z = (if ?al then Some (new_rate_data t) else None)
     | Some d \<Rightarrow> \<exists>premax m d'. rate_count t backoff d = Some (premax, m, d') \<and> x = Some (premax, m) \<and> zone_view env infra' z = Some d'"
    "\<forall>z'. \<not> same_zone z z' \<longrightarrow> zone_view env infra' z' = None \<or> zone_view env infra' z' = zone_view env infra z'"
    by (simp only: rate_cmp_same simp_thms) blast
  have q: "zone_queries ?hs z t = zone_queries hs z t + 1" by (simp add: zone_queries_snoc same_zone_def)
  have here: "(\<forall>d'. zone_view env infra' z = Some d' \<longrightarrow> undercounts (zone_queries ?hs z) d') \<and>
      (\<exists>s. in_window backoff t s \<and> reported x \<le> int (zone_queries ?hs z s))"
  proof (cases "zone_view env infra z")
    case None
    with 1(4) q undercounts_new [of "zone_queries ?hs z" t] in_window_now [of backoff t] show ?thesis by (auto simp: reported_def split: if_splits)
  next
    case (Some d)
    then have "undercounts (zone_queries hs z) d" by (rule rates_underD(2) [OF u])
    moreover have "zone_queries hs z s + 1 < 2 ^ 31" for s using zone_queries_le [of hs z s] len by linarith
    ultimately have "\<exists>premax m d'. rate_count t backoff d = Some (premax, m, d') \<and> undercounts (zone_queries ?hs z) d' \<and>
        (\<exists>s. in_window backoff t s \<and> m \<le> int (zone_queries ?hs z s))"
      by (rule undercounts_count [where f = "zone_queries hs z" and g = "zone_queries ?hs z"]) (simp_all only: q zone_queries_grow)
    with Some 1(4) show ?thesis by (auto simp: reported_def)
  qed
  have "rates_under sz env ?hs infra'"
    unfolding rates_under_def
  proof (intro conjI allI impI)
    fix z' d assume d: "zone_view env infra' z' = Some d"
    show "undercounts (zone_queries ?hs z') d"
    proof (cases "same_zone z z'")
      case True
      with here d zone_view_same [OF 1(2) True, of env] zone_queries_same [OF True, of ?hs] show ?thesis by simp
    next
      case False
      with 1(5) d have "zone_view env infra z' = Some d" by (metis option.distinct(1))
      then have "undercounts (zone_queries hs z') d" by (rule rates_underD(2) [OF u])
      then show ?thesis by (rule undercounts_mono) (rule zone_queries_grow)
    qed
  qed (rule 1(2))
  moreover have "infra_ratelimit_inc g env mk (fst z) (snd z) t backoff infra = Some (reported x \<le> lims z, infra')"
    using infra_ratelimit_inc_count [OF _ lims, of env mk t backoff] False 1(1) by (simp add: reported_def)
  moreover have "reported x \<le> lims z \<or> refusal_right lims hs ?op"
    using here by (auto simp: refusal_right_def)
  ultimately show ?thesis using 1(3) by (intro step_rightI) (auto simp: rates_only_def)
qed

lemma rate_exceeded_right:
  assumes u: "rates_under sz env hs infra" and lims: "infra_find_ratelimit g infra (fst z) (snd z) = Some (lims z)"
  shows "step_right lims sz env hs (RExceeded z t backoff) infra
    (map_option (\<lambda>(x, infra). (\<not> x, infra)) (infra_ratelimit_exceeded g env (fst z) (snd z) t backoff infra))"
proof (cases "infra_dp_ratelimit g = 0 \<or> lims z = 0")
  case True
  then have "infra_ratelimit_exceeded g env (fst z) (snd z) t backoff infra = Some (False, infra)"
    using lims by (auto simp: infra_ratelimit_exceeded_def)
  moreover have "rates_under sz env (hs @ [RExceeded z t backoff]) infra"
    using u by (intro rates_under_le [OF u]) (simp_all add: rates_under_def zone_queries_snoc)
  ultimately show ?thesis by (intro step_rightI [where ok = True]) (simp_all add: rates_only_def)
next
  case False
  have inv: "zone_inv sz infra" by (rule rates_underD(1) [OF u])
  from zone_store.find_ok [OF inv, where q = z and env = env] obtain r sl1 where
    1: "infra_find_ratedata env (fst z) (snd z) infra = Some (r, put_rates sl1 infra)" "zone_inv sz (put_rates sl1 infra)"
    "zone_view env (put_rates sl1 infra) = zone_view env infra"
    "case r of None \<Rightarrow> True | Some p \<Rightarrow> zone_data (put_rates sl1 infra) p = zone_view env infra z \<and> zone_view env infra z \<noteq> None"
    by (simp only: prod.collapse zone_functions simp_thms) (force split: option.splits)
  have under: "rates_under sz env (hs @ [RExceeded z t backoff]) (put_rates sl1 infra)"
    by (intro rates_under_le [OF u 1(2)]) (simp_all add: 1(3) zone_queries_snoc)
  show ?thesis
  proof (cases r)
    case None
    then have "infra_ratelimit_exceeded g env (fst z) (snd z) t backoff infra = Some (False, put_rates sl1 infra)"
      using False lims 1(1) by (simp add: infra_ratelimit_exceeded_def)
    with under show ?thesis by (intro step_rightI [where ok = True]) (auto simp: rates_only_def)
  next
    case (Some p)
    with 1(4) obtain d where d: "zone_view env infra z = Some d" "zone_data (put_rates sl1 infra) p = Some d" by auto
    then have "infra_ratelimit_exceeded g env (fst z) (snd z) t backoff infra = Some (infra_rate_max d t backoff > lims z, put_rates sl1 infra)"
      using False lims 1(1) Some by (simp add: infra_ratelimit_exceeded_def)
    moreover have "undercounts (zone_queries hs z) d" by (rule rates_underD(2) [OF u d(1)])
    from undercounts_max [OF this, of backoff t] have "\<not> infra_rate_max d t backoff > lims z \<or> refusal_right lims hs (RExceeded z t backoff)"
      by (auto simp: refusal_right_def)
    ultimately show ?thesis using under by (intro step_rightI) (auto simp: rates_only_def)
  qed
qed

lemma undercounts_dec:
  assumes "undercounts f d" "infra_rate_get_second t d = (Some i, d1)" "qps d1 ! i > 0"
  shows "undercounts f (d1\<lparr>qps := (qps d1)[i := qps d1 ! i - 1]\<rparr>)"
  using assms by (auto simp: undercounts_def infra_rate_get_second_def infra_rate_find_second_or_none_def split: if_splits)

lemma rate_dec_right:
  assumes u: "rates_under sz env hs infra"
  shows "step_right lims sz env hs (RDec z t) infra (map_option (\<lambda>infra. (True, infra)) (infra_ratelimit_dec g env (fst z) (snd z) t infra))"
proof (cases "infra_dp_ratelimit g = 0")
  case True
  moreover have "rates_under sz env (hs @ [RDec z t]) infra"
    using u by (intro rates_under_le [OF u]) (simp_all add: rates_under_def zone_queries_snoc)
  ultimately show ?thesis by (intro step_rightI [where ok = True]) (simp_all add: rates_only_def infra_ratelimit_dec_def)
next
  case False
  have inv: "zone_inv sz infra" by (rule rates_underD(1) [OF u])
  from zone_store.find_ok [OF inv, where q = z and env = env] obtain r sl1 where
    1: "infra_find_ratedata env (fst z) (snd z) infra = Some (r, put_rates sl1 infra)" "zone_inv sz (put_rates sl1 infra)"
    "zone_view env (put_rates sl1 infra) = zone_view env infra"
    "case r of None \<Rightarrow> True | Some p \<Rightarrow> zone_data (put_rates sl1 infra) p = zone_view env infra z \<and> zone_view env infra z \<noteq> None \<and>
         (\<forall>d. \<exists>sl2. set_zone_data p d (put_rates sl1 infra) = Some (put_rates sl2 infra) \<and> zone_inv sz (put_rates sl2 infra) \<and>
            (\<forall>z'. zone_view env (put_rates sl2 infra) z' = (if same_zone z z' then Some d else zone_view env infra z')))"
    by (simp only: prod.collapse zone_functions simp_thms rate_cmp_same) (force split: option.splits)
  have under: "rates_under sz env (hs @ [RDec z t]) (put_rates sl1 infra)"
    by (intro rates_under_le [OF u 1(2)]) (simp_all add: 1(3) zone_queries_snoc)
  have same: ?thesis if "infra_ratelimit_dec g env (fst z) (snd z) t infra = Some (put_rates sl1 infra)"
    using that under by (intro step_rightI [where ok = True]) (auto simp: rates_only_def)
  show ?thesis
  proof (cases r)
    case None
    with False 1(1) show ?thesis by (intro same) (simp add: infra_ratelimit_dec_def)
  next
    case (Some p)
    with 1(4) obtain d where d: "zone_view env infra z = Some d" "zone_data (put_rates sl1 infra) p = Some d" by auto
    obtain c d1 where c: "infra_rate_get_second t d = (c, d1)" by (cases "infra_rate_get_second t d")
    show ?thesis
    proof (cases "\<exists>i. c = Some i \<and> qps d1 ! i > 0")
      case no: False
      with False 1(1) Some d(2) c show ?thesis by (intro same) (cases c; simp add: infra_ratelimit_dec_def)
    next
      case True
      then obtain i where i: "c = Some i" "qps d1 ! i > 0" by blast
      define d2 where "d2 = d1\<lparr>qps := (qps d1)[i := qps d1 ! i - 1]\<rparr>"
      from 1(4) [unfolded Some option.case] obtain sl2 where 2: "set_zone_data p d2 (put_rates sl1 infra) = Some (put_rates sl2 infra)" "zone_inv sz (put_rates sl2 infra)"
        "\<And>z'. zone_view env (put_rates sl2 infra) z' = (if same_zone z z' then Some d2 else zone_view env infra z')" by blast
      have "undercounts (zone_queries hs z) d" by (rule rates_underD(2) [OF u d(1)])
      from undercounts_dec [OF this, of t i d1] c i have d2: "undercounts (zone_queries hs z) d2" by (simp add: d2_def)
      have "rates_under sz env (hs @ [RDec z t]) (put_rates sl2 infra)"
        unfolding rates_under_def
      proof (intro conjI allI impI)
        fix z' d' assume v: "zone_view env (put_rates sl2 infra) z' = Some d'"
        show "undercounts (zone_queries (hs @ [RDec z t]) z') d'"
        proof (cases "same_zone z z'")
          case True
          with v 2(3) d2 zone_queries_same [OF True, of hs] show ?thesis by (simp add: zone_queries_snoc [abs_def])
        next
          case False
          with v 2(3) rates_underD(2) [OF u, of z' d'] show ?thesis by (simp add: zone_queries_snoc [abs_def])
        qed
      qed (rule 2(2))
      moreover have "infra_ratelimit_dec g env (fst z) (snd z) t infra = Some (put_rates sl2 infra)"
        using False 1(1) Some d(2) c i 2(1) by (simp add: infra_ratelimit_dec_def d2_def)
      ultimately show ?thesis by (intro step_rightI [where ok = True]) (auto simp: rates_only_def)
    qed
  qed
qed

lemma rate_step_right:
  assumes "rates_under sz env hs infra" "\<And>z. infra_find_ratelimit g infra (fst z) (snd z) = Some (lims z)" "length hs + 1 < 2 ^ 31"
  shows "step_right lims sz env hs op infra (rate_step g env op infra)"
proof (cases op)
  case (RInc z t backoff mk)
  with rate_inc_right [where lims = lims and z = z, OF assms(1) assms(2) assms(3), of t backoff mk] show ?thesis by (simp add: rate_step_def)
next
  case (RExceeded z t backoff)
  with rate_exceeded_right [where lims = lims and z = z, OF assms(1) assms(2), of t backoff] show ?thesis by (simp add: rate_step_def)
next
  case (RDec z t)
  with rate_dec_right [OF assms(1)] show ?thesis by (simp add: rate_step_def)
qed

text \<open>Every refusal in a list of answers is right.\<close>

fun refusals_right :: "(zone \<Rightarrow> int) \<Rightarrow> rate_op list \<Rightarrow> rate_op list \<Rightarrow> bool list \<Rightarrow> bool" where
  "refusals_right lims hs (op # ops) (ok # oks) \<longleftrightarrow> (ok \<or> refusal_right lims hs op) \<and> refusals_right lims (hs @ [op]) ops oks"
| "refusals_right lims hs ops oks \<longleftrightarrow> ops = [] \<and> oks = []"

lemma rate_run_right:
  assumes "rates_under sz env hs infra" "\<And>z. infra_find_ratelimit g infra (fst z) (snd z) = Some (lims z)" "length hs + length ops < 2 ^ 31"
  shows "\<exists>oks infra'. rate_run g env ops infra = Some (oks, infra') \<and> zone_inv sz infra' \<and> refusals_right lims hs ops oks"
  using assms
proof (induction ops arbitrary: hs infra)
  case Nil
  then show ?case by (simp add: rates_under_def)
next
  case (Cons op ops)
  have "length hs + 1 < 2 ^ 31" using Cons.prems(3) by simp
  from rate_step_right [OF Cons.prems(1,2) this, of op] obtain ok infra1 where
    1: "rate_step g env op infra = Some (ok, infra1)" "rates_only infra infra1" "rates_under sz env (hs @ [op]) infra1"
    "ok \<or> refusal_right lims hs op" by (auto simp: step_right_def)
  have "infra_find_ratelimit g infra1 (fst z) (snd z) = Some (lims z)" for z
    using rates_only_ratelimit [OF 1(2), of g] Cons.prems(2) [of z] by simp
  from Cons.IH [OF 1(3) this] Cons.prems(3) obtain oks infra2 where
    "rate_run g env ops infra1 = Some (oks, infra2)" "zone_inv sz infra2" "refusals_right lims (hs @ [op]) ops oks" by auto
  with 1(1,4) show ?case by simp
qed

end
