(* ===== verification/Infra_Create.thy ===== *)
theory Infra_Create
  imports Rate_Bound
begin

text \<open>
  Creation, adjustment and deletion of the infrastructure cache: for every outcome of the allocations they run through
  and give a well-formed cache with the limits of the configuration, or none.
\<close>

section \<open>Deletion\<close>

definition well_formed_table :: "('k \<Rightarrow> 'k \<Rightarrow> int) \<Rightarrow> ('k \<Rightarrow> 'd \<Rightarrow> u64) \<Rightarrow> ('k, 'd) slabhash option \<Rightarrow> bool" where
  "well_formed_table cmp szf p \<longleftrightarrow> (\<forall>sl. p = Some sl \<longrightarrow> slab_cache cmp szf sl)"

text \<open>No entry is left in the tables that were deleted.\<close>

definition all_released :: "('k, 'd) deleted \<Rightarrow> bool" where
  "all_released rs \<longleftrightarrow> (\<forall>r \<in> set rs. \<forall>h l. r = Some (h, l) \<longrightarrow> h = Map.empty)"

lemma slabhash_delete_ok:
  assumes "well_formed_table cmp szf p"
  shows "\<exists>rs. slabhash_delete p = Some rs \<and> all_released rs"
proof (cases p)
  case None
  then show ?thesis by (simp add: slabhash_delete_def all_released_def)
next
  case (Some sl)
  with assms obtain mx rss where h: "slab_holds cmp szf mx sl rss" by (auto simp: well_formed_table_def slab_cache_def)
  have "\<forall>p \<in> set (sl_array sl). \<forall>t. p = Some t \<longrightarrow> (\<exists>rs. lru_table t rs)"
    using h by (auto simp: slab_holds_def in_set_conv_nth) (metis option.inject)
  from delete_tables_ok [OF this] obtain rs where
    "delete_tables (sl_array sl) = Some rs" "length rs = length (sl_array sl)"
    "\<forall>i < length (sl_array sl). rs ! i = None \<and> sl_array sl ! i = None \<or> sl_array sl ! i \<noteq> None \<and> (\<exists>l. rs ! i = Some (Map.empty, l))" by blast
  then show ?thesis using Some by (auto simp: slabhash_delete_def all_released_def in_set_conv_nth) (metis option.distinct(1) option.inject prod.inject)
qed

lemma free_limits_ok:
  assumes lh: "limits_hold F B t dat xs"
  shows "\<exists>t' dat'. traverse_postorder domain_limit_free t dat = Some (t', dat') \<and> dat' = dat |` (- set xs) \<and>
    finite (dom (rb_mem t'))"
proof -
  have l: "local_callback domain_limit_free (\<lambda>a dat. dat(a := None))" by (simp add: local_callback_def domain_limit_free_def)
  obtain T where T: "rb_holds t T" "inorder T = xs" using limits_holdD(1) [OF lh] by (rule rb_tableE)
  then have "tree_at (lk t) None T" "distinct (inorder T)" "rb_root t = rp T" by (simp_all add: rb_holds_def)
  from traverse_post_ok [OF l this(1,2), of dat] this(3) obtain t' where
    1: "traverse_postorder domain_limit_free t dat = Some (t', fold (\<lambda>a dat. dat(a := None)) (postorder T) dat)"
    "\<forall>b. b \<notin> set_tree T \<longrightarrow> rb_mem t' b = rb_mem t b" by (auto simp: traverse_postorder_def)
  have f: "fold (\<lambda>a dat. dat(a := None)) ys d = d |` (- set ys)" for ys and d :: "addr \<Rightarrow> domain_limit_data option"
    by (induction ys arbitrary: d) (auto simp: fun_eq_iff restrict_map_def)
  have "set (postorder T) = set xs" using T(2) by (metis set_inorder set_postorder)
  moreover have "dom (rb_mem t') \<subseteq> dom (rb_mem t) \<union> set_tree T" using 1(2) by (auto simp: dom_def)
  then have "finite (dom (rb_mem t'))" by (rule finite_subset) (simp add: limits_holdD(4) [OF lh])
  ultimately show ?thesis using 1(1) by (simp add: f)
qed

definition deletable :: "infra_sizes \<Rightarrow> infra_cache \<Rightarrow> bool" where
  "deletable sz infra \<longleftrightarrow> well_formed_table infra_compfunc (infra_sizefunc (is_hosts sz)) (Some (hosts infra)) \<and>
     well_formed_table rate_compfunc (rate_sizefunc (is_rates sz)) (domain_rates infra) \<and>
     well_formed_table ip_rate_compfunc (ip_rate_sizefunc (is_ip_rates sz)) (client_ip_rates infra) \<and>
     (\<exists>F B xs. limits_hold F B (domain_limits infra) (limit_data infra) xs)"

lemma infra_delete_ok:
  assumes "deletable sz infra"
  shows "\<exists>r. infra_delete (Some infra) = Some (Some r) \<and> all_released (rest_hosts r) \<and> all_released (rest_domain_rates r) \<and>
    all_released (rest_client_ip_rates r) \<and>
    (\<forall>F B xs. limits_hold F B (domain_limits infra) (limit_data infra) xs \<longrightarrow> rest_limit_data r = limit_data infra |` (- set xs))"
proof -
  from assms obtain F B xs where lh: "limits_hold F B (domain_limits infra) (limit_data infra) xs" by (auto simp: deletable_def)
  from free_limits_ok [OF lh] obtain t dat where 1: "traverse_postorder domain_limit_free (domain_limits infra) (limit_data infra) = Some (t, dat)" by blast
  from assms obtain a b c where "slabhash_delete (Some (hosts infra)) = Some a" "all_released a"
    "slabhash_delete (domain_rates infra) = Some b" "all_released b" "slabhash_delete (client_ip_rates infra) = Some c" "all_released c"
    unfolding deletable_def using slabhash_delete_ok by metis
  moreover have "dat = limit_data infra |` (- set ys)" if "limits_hold F' B' (domain_limits infra) (limit_data infra) ys" for F' B' ys
    using free_limits_ok [OF that] 1 by auto
  ultimately show ?thesis using 1 by (auto simp: infra_delete_def)
qed

section \<open>Creation\<close>

definition slabs_ok :: "infra_config \<Rightarrow> bool" where
  "slabs_ok cfg \<longleftrightarrow> (\<forall>n \<in> {cfg_infra_cache_slabs cfg, cfg_ratelimit_slabs cfg, cfg_ip_ratelimit_slabs cfg}. \<exists>k \<le> 32. n = 2 ^ k)"

definition table_alloc_ok :: "nat \<Rightarrow> slab_allocs \<Rightarrow> bool" where
  "table_alloc_ok slabs al \<longleftrightarrow> fst al \<and> fst (snd al) \<and> (\<forall>i < slabs. fst (snd (snd al) i) \<and> snd (snd (snd al) i))"

definition raws_ok :: "infra_allocs \<Rightarrow> bool" where
  "raws_ok al \<longleftrightarrow> (\<forall>i. length (lm_raw (al_for al i)) = 256) \<and> (\<forall>i. length (lm_raw (al_below al i)) = 256)"

text \<open>Every allocation succeeds, and the names in the configuration can be read.\<close>

definition setup_can_succeed :: "infra_allocs \<Rightarrow> infra_config \<Rightarrow> bool" where
  "setup_can_succeed al cfg \<longleftrightarrow> cfg_names_ok (cfg_ratelimit_for_domain cfg) \<and> cfg_names_ok (cfg_ratelimit_below_domain cfg) \<and>
     (\<forall>i. limit_malloc_ok (al_for al i)) \<and> (\<forall>i. limit_malloc_ok (al_below al i))"

definition create_can_succeed :: "infra_allocs \<Rightarrow> infra_config \<Rightarrow> bool" where
  "create_can_succeed al cfg \<longleftrightarrow> al_infra al \<and> table_alloc_ok (cfg_infra_cache_slabs cfg) (al_hosts al) \<and>
     table_alloc_ok (cfg_ratelimit_slabs cfg) (al_rates al) \<and> table_alloc_ok (cfg_ip_ratelimit_slabs cfg) (al_ip_rates al) \<and>
     setup_can_succeed al cfg"

lemma create_table_ok:
  assumes "hash_callbacks cmp szf" "\<exists>k \<le> 32. slabs = 2 ^ k"
  shows "\<exists>r. create_table slabs maxmem szf cmp al = Some r \<and> (r = None \<longleftrightarrow> \<not> table_alloc_ok slabs al) \<and>
    (\<forall>sl. r = Some sl \<longrightarrow> slab_cache cmp szf sl \<and> (\<forall>h k. slab_get sl h k = None))"
proof -
  obtain k where k: "k \<le> 32" "slabs = 2 ^ k" using assms(2) by blast
  from slabhash_create_cases [OF assms(1) k(1), of 5 maxmem None "fst al" "fst (snd al)" "snd (snd al)"] obtain r rest where
    r: "slabhash_create (2 ^ k) (2 ^ 5) maxmem szf cmp None (fst al) (fst (snd al)) (snd (snd al)) = Some (r, rest)"
    "r = None \<longleftrightarrow> \<not> (fst al \<and> fst (snd al) \<and> (\<forall>i < 2 ^ k. fst (snd (snd al) i) \<and> snd (snd (snd al) i)))"
    "\<forall>sl. r = Some sl \<longrightarrow> slab_holds cmp szf (maxmem div of_nat (2 ^ k)) sl (\<lambda>i. [])" by auto
  have "slab_cache cmp szf sl \<and> (\<forall>h k. slab_get sl h k = None)" if "r = Some sl" for sl
  proof -
    have h: "slab_holds cmp szf (maxmem div of_nat (2 ^ k)) sl (\<lambda>i. [])" using r(3) that by blast
    then show ?thesis by (auto simp: slab_cache_def slab_get_rows [OF h] spec_find_def)
  qed
  with r(1,2) show ?thesis by (auto simp: create_table_def INFRA_HOST_STARTSIZE_def table_alloc_ok_def k(2))
qed

text \<open>A cache in use: the tables are there, and the limits are those of a configuration.\<close>

definition infra_ok :: "infra_sizes \<Rightarrow> infra_config \<Rightarrow> infra_cache \<Rightarrow> bool" where
  "infra_ok sz cfg infra \<longleftrightarrow> slab_cache infra_compfunc (infra_sizefunc (is_hosts sz)) (hosts infra) \<and>
     zone_inv (is_rates sz) infra \<and> client_inv (is_ip_rates sz) infra \<and> limits_ready cfg (domain_limits infra) (limit_data infra)"

definition infra_empty :: "infra_cache \<Rightarrow> bool" where
  "infra_empty infra \<longleftrightarrow> (\<forall>h k. slab_get (hosts infra) h k = None) \<and>
     (\<forall>sl. domain_rates infra = Some sl \<longrightarrow> (\<forall>h k. slab_get sl h k = None)) \<and>
     (\<forall>sl. client_ip_rates infra = Some sl \<longrightarrow> (\<forall>h k. slab_get sl h k = None))"

lemma infra_ok_deletable: "infra_ok sz cfg infra \<Longrightarrow> deletable sz infra"
  by (auto simp: infra_ok_def deletable_def well_formed_table_def store_inv_def limits_ready_def)

lemma zero_limits_hold: "limits_hold (\<lambda>_. -1) (\<lambda>_. -1) zero_limits Map.empty []"
  using name_tree_init_ok [of zero_limits] by (simp add: limits_hold_def zero_limits_def name_tree_init_def rbtree_init_def)

lemma infra_create_ok:
  assumes "slabs_ok cfg" "raws_ok al"
  shows "\<exists>r g'. infra_create sz al cfg g = Some (r, g') \<and> (create_can_succeed al cfg \<longrightarrow> r \<noteq> None) \<and>
    infra_ip_ratelimit_cookie g' = infra_ip_ratelimit_cookie g \<and>
    (\<forall>infra. r = Some infra \<longrightarrow> infra_ok sz cfg infra \<and> infra_empty infra \<and> host_ttl infra = cfg_host_ttl cfg \<and>
       infra_keep_probing infra = cfg_infra_keep_probing cfg \<and>
       g' = g\<lparr>infra_dp_ratelimit := cfg_ratelimit cfg, infra_ip_ratelimit := cfg_ip_ratelimit cfg\<rparr>)"
proof (cases "al_infra al")
  case False
  then show ?thesis by (simp add: infra_create_def create_can_succeed_def)
next
  case al: True
  from assms(1) have k: "\<exists>k \<le> 32. cfg_infra_cache_slabs cfg = 2 ^ k" "\<exists>k \<le> 32. cfg_ratelimit_slabs cfg = 2 ^ k" "\<exists>k \<le> 32. cfg_ip_ratelimit_slabs cfg = 2 ^ k"
    by (simp_all add: slabs_ok_def)
  from create_table_ok [OF infra_hosts.hash_callbacks_axioms [of "is_hosts sz"] k(1), of "hosts_maxmem sz cfg" "al_hosts al"] obtain hs :: "(infra_key, infra_data) slabhash option" where
    1: "create_table (cfg_infra_cache_slabs cfg) (hosts_maxmem sz cfg) (infra_sizefunc (is_hosts sz)) infra_compfunc (al_hosts al) = Some hs"
    "hs = None \<longleftrightarrow> \<not> table_alloc_ok (cfg_infra_cache_slabs cfg) (al_hosts al)"
    "\<And>sl. hs = Some sl \<Longrightarrow> slab_cache infra_compfunc (infra_sizefunc (is_hosts sz)) sl \<and> (\<forall>h k. slab_get sl h k = None)" by blast
  from create_table_ok [OF domain_rates.hash_callbacks_axioms [of "is_rates sz"] k(2), of "cfg_ratelimit_size cfg" "al_rates al"] obtain dr :: "(rate_key, rate_data) slabhash option" where
    2: "create_table (cfg_ratelimit_slabs cfg) (cfg_ratelimit_size cfg) (rate_sizefunc (is_rates sz)) rate_compfunc (al_rates al) = Some dr"
    "dr = None \<longleftrightarrow> \<not> table_alloc_ok (cfg_ratelimit_slabs cfg) (al_rates al)"
    "\<And>sl. dr = Some sl \<Longrightarrow> slab_cache rate_compfunc (rate_sizefunc (is_rates sz)) sl \<and> (\<forall>h k. slab_get sl h k = None)" by blast
  from create_table_ok [OF client_ip_rates.hash_callbacks_axioms [of "is_ip_rates sz"] k(3), of "cfg_ip_ratelimit_size cfg" "al_ip_rates al"] obtain ip :: "(ip_rate_key, rate_data) slabhash option" where
    3: "create_table (cfg_ip_ratelimit_slabs cfg) (cfg_ip_ratelimit_size cfg) (ip_rate_sizefunc (is_ip_rates sz)) ip_rate_compfunc (al_ip_rates al) = Some ip"
    "ip = None \<longleftrightarrow> \<not> table_alloc_ok (cfg_ip_ratelimit_slabs cfg) (al_ip_rates al)"
    "\<And>sl. ip = Some sl \<Longrightarrow> slab_cache ip_rate_compfunc (ip_rate_sizefunc (is_ip_rates sz)) sl \<and> (\<forall>h k. slab_get sl h k = None)" by blast
  show ?thesis
  proof (cases hs)
    case None
    with al 1 show ?thesis by (simp add: infra_create_def create_can_succeed_def)
  next
    case hs: (Some hs')
    define g1 where "g1 = g\<lparr>infra_dp_ratelimit := cfg_ratelimit cfg\<rparr>"
    define infra1 where "infra1 = \<lparr>hosts = hs', host_ttl = cfg_host_ttl cfg, infra_keep_probing = cfg_infra_keep_probing cfg,
      domain_rates = dr, domain_limits = zero_limits, limit_data = Map.empty, client_ip_rates = None\<rparr>"
    have del: "deletable sz (infra1\<lparr>domain_limits := t, limit_data := dat\<rparr>)" if "limits_hold F B t dat xs" for F B t dat xs
      using that 1(3) [OF hs] 2(3) by (auto simp: deletable_def infra1_def well_formed_table_def)
    have del1: "deletable sz infra1" using del [OF zero_limits_hold] by (simp add: infra1_def)
    have start: "infra_create sz al cfg g =
        (if dr = None then do { _ \<leftarrow> infra_delete (Some infra1); Some (None, g1) }
         else do {
           (ok, infra) \<leftarrow> setup_domain_limits (al_for al) (al_below al) cfg infra1;
           if \<not> ok then do { _ \<leftarrow> infra_delete (Some infra); Some (None, g1) }
           else let infra = infra\<lparr>client_ip_rates := ip\<rparr>; g2 = g1\<lparr>infra_ip_ratelimit := cfg_ip_ratelimit cfg\<rparr>
                in if ip = None then do { _ \<leftarrow> infra_delete (Some infra); Some (None, g2) } else Some (Some infra, g2) })"
      using al 1(1) 2(1) 3(1) hs by (simp add: infra_create_def g1_def infra1_def Let_def cong: if_cong)
    show ?thesis
    proof (cases dr)
      case None
      with infra_delete_ok [OF del1] 2(2) show ?thesis by (auto simp: start create_can_succeed_def g1_def)
    next
      case dr: (Some dr')
      have "finite (dom (rb_mem (domain_limits infra1)))" by (simp add: infra1_def zero_limits_def)
      from setup_domain_limits_ok [OF this, of "al_for al" "al_below al" cfg] assms(2) obtain ok t dat F B ys where
        4: "setup_domain_limits (al_for al) (al_below al) cfg infra1 = Some (ok, infra1\<lparr>domain_limits := t, limit_data := dat\<rparr>)"
        "limits_hold F B t dat ys" "ok \<longrightarrow> limits_ready cfg t dat" "setup_can_succeed al cfg \<longrightarrow> ok"
        unfolding raws_ok_def setup_can_succeed_def by blast
      let ?infra2 = "infra1\<lparr>domain_limits := t, limit_data := dat\<rparr>"
      note del2 = del [OF 4(2)]
      show ?thesis
      proof (cases ok)
        case False
        with infra_delete_ok [OF del2] 4(1,4) dr show ?thesis by (auto simp: start create_can_succeed_def g1_def)
      next
        case ok: True
        show ?thesis
        proof (cases ip)
          case None
          have "?infra2\<lparr>client_ip_rates := None\<rparr> = ?infra2" by (simp add: infra1_def)
          with infra_delete_ok [OF del2] 4(1) dr ok None 3(2) show ?thesis by (auto simp: start create_can_succeed_def g1_def Let_def)
        next
          case ip: (Some ip')
          have "infra_ok sz cfg (?infra2\<lparr>client_ip_rates := ip\<rparr>)" "infra_empty (?infra2\<lparr>client_ip_rates := ip\<rparr>)"
            using 1(3) [OF hs] 2(3) [OF dr] 3(3) [OF ip] 4(3) ok
            by (auto simp: infra_ok_def infra_empty_def infra1_def store_inv_def dr ip)
          with 4(1) dr ok ip show ?thesis by (simp add: start Let_def g1_def infra1_def)
        qed
      qed
    qed
  qed
qed

section \<open>Adjustment\<close>

lemma slabhash_is_size_ok:
  assumes "slab_cache cmp szf sl"
  shows "\<exists>b. slabhash_is_size (Some sl) sz n = Some b"
proof -
  obtain mx rss where "slab_holds cmp szf mx sl rss" using assms by (auto simp: slab_cache_def)
  from slabhash_get_size_ok [OF this] show ?thesis by (auto simp: slabhash_is_size_def)
qed

text \<open>Whether the tables can stay: they have the sizes that the configuration asks for.\<close>

definition sizes_match :: "infra_sizes \<Rightarrow> infra_config \<Rightarrow> infra_cache \<Rightarrow> bool" where
  "sizes_match sz cfg infra \<longleftrightarrow> slabhash_is_size (Some (hosts infra)) (hosts_maxmem sz cfg) (cfg_infra_cache_slabs cfg) = Some True \<and>
     slabhash_is_size (domain_rates infra) (cfg_ratelimit_size cfg) (cfg_ratelimit_slabs cfg) = Some True \<and>
     slabhash_is_size (client_ip_rates infra) (cfg_ip_ratelimit_size cfg) (cfg_ip_ratelimit_slabs cfg) = Some True"

definition same_tables :: "infra_cache \<Rightarrow> infra_cache \<Rightarrow> bool" where
  "same_tables infra infra' \<longleftrightarrow> hosts infra' = hosts infra \<and> domain_rates infra' = domain_rates infra \<and> client_ip_rates infra' = client_ip_rates infra"

lemma infra_adjust_ok:
  assumes ok: "infra_ok sz cfg0 infra0" and cfg: "slabs_ok cfg" "raws_ok al"
  shows "\<exists>r g'. infra_adjust sz al cfg (Some infra0) g = Some (r, g') \<and> (create_can_succeed al cfg \<longrightarrow> r \<noteq> None) \<and>
    infra_ip_ratelimit_cookie g' = infra_ip_ratelimit_cookie g \<and>
    (\<forall>infra. r = Some infra \<longrightarrow> infra_ok sz cfg infra \<and>
       (if sizes_match sz cfg infra0 then same_tables infra0 infra else infra_empty infra) \<and> host_ttl infra = cfg_host_ttl cfg \<and>
       infra_keep_probing infra = cfg_infra_keep_probing cfg \<and>
       g' = g\<lparr>infra_dp_ratelimit := cfg_ratelimit cfg, infra_ip_ratelimit := cfg_ip_ratelimit cfg\<rparr>)"
proof -
  define infra1 where "infra1 = infra0\<lparr>host_ttl := cfg_host_ttl cfg, infra_keep_probing := cfg_infra_keep_probing cfg\<rparr>"
  define g1 where "g1 = g\<lparr>infra_dp_ratelimit := cfg_ratelimit cfg, infra_ip_ratelimit := cfg_ip_ratelimit cfg\<rparr>"
  obtain dr ip where t: "domain_rates infra0 = Some dr" "client_ip_rates infra0 = Some ip"
    "slab_cache infra_compfunc (infra_sizefunc (is_hosts sz)) (hosts infra0)" "slab_cache rate_compfunc (rate_sizefunc (is_rates sz)) dr"
    "slab_cache ip_rate_compfunc (ip_rate_sizefunc (is_ip_rates sz)) ip" using ok by (auto simp: infra_ok_def store_inv_def)
  from slabhash_is_size_ok [OF t(3)] slabhash_is_size_ok [OF t(4)] slabhash_is_size_ok [OF t(5)] obtain b1 b2 b3 where
    b: "slabhash_is_size (Some (hosts infra0)) (hosts_maxmem sz cfg) (cfg_infra_cache_slabs cfg) = Some b1"
    "slabhash_is_size (domain_rates infra0) (cfg_ratelimit_size cfg) (cfg_ratelimit_slabs cfg) = Some b2"
    "slabhash_is_size (client_ip_rates infra0) (cfg_ip_ratelimit_size cfg) (cfg_ip_ratelimit_slabs cfg) = Some b3" unfolding t by metis
  have m: "sizes_match sz cfg infra0 \<longleftrightarrow> b1 \<and> b2 \<and> b3" by (simp add: sizes_match_def b)
  have "infra_ok sz cfg0 infra1" using ok by (simp add: infra_ok_def infra1_def store_inv_def)
  then have del: "deletable sz infra1" by (rule infra_ok_deletable)
  have start: "infra_adjust sz al cfg (Some infra0) g =
      (if \<not> sizes_match sz cfg infra0 then do { _ \<leftarrow> infra_delete (Some infra1); infra_create sz al cfg g1 }
       else do {
         (t, dat) \<leftarrow> traverse_postorder domain_limit_free (domain_limits infra1) (limit_data infra1);
         (ok, infra) \<leftarrow> setup_domain_limits (al_for al) (al_below al) cfg (infra1\<lparr>domain_limits := t, limit_data := dat\<rparr>);
         if \<not> ok then do { _ \<leftarrow> infra_delete (Some infra); Some (None, g1) } else Some (Some infra, g1) })"
    unfolding m by (cases b1; cases b2; cases b3) (simp_all add: infra_adjust_def Let_def infra1_def g1_def b cong: if_cong)
  show ?thesis
  proof (cases "sizes_match sz cfg infra0")
    case False
    from infra_delete_ok [OF del] infra_create_ok [OF cfg, of sz g1] False show ?thesis by (auto simp: start g1_def)
  next
    case match: True
    obtain F B xs where "limits_hold F B (domain_limits infra1) (limit_data infra1) xs" using del by (auto simp: deletable_def)
    from free_limits_ok [OF this] obtain t1 dat1 where
      1: "traverse_postorder domain_limit_free (domain_limits infra1) (limit_data infra1) = Some (t1, dat1)" "finite (dom (rb_mem t1))" by blast
    let ?infra = "infra1\<lparr>domain_limits := t1, limit_data := dat1\<rparr>"
    have "finite (dom (rb_mem (domain_limits ?infra)))" using 1(2) by simp
    from setup_domain_limits_ok [OF this, of "al_for al" "al_below al" cfg] cfg(2) obtain k t2 dat2 F B ys where
      2: "setup_domain_limits (al_for al) (al_below al) cfg ?infra = Some (k, ?infra\<lparr>domain_limits := t2, limit_data := dat2\<rparr>)"
      "limits_hold F B t2 dat2 ys" "k \<longrightarrow> limits_ready cfg t2 dat2" "setup_can_succeed al cfg \<longrightarrow> k"
      unfolding raws_ok_def setup_can_succeed_def by blast
    let ?infra2 = "infra1\<lparr>domain_limits := t2, limit_data := dat2\<rparr>"
    have "deletable sz ?infra2" using del 2(2) by (auto simp: deletable_def)
    from infra_delete_ok [OF this] obtain r where r: "infra_delete (Some ?infra2) = Some (Some r)" by blast
    show ?thesis
    proof (cases k)
      case False
      with match 1(1) 2 r show ?thesis by (auto simp: start g1_def create_can_succeed_def)
    next
      case True
      with 2(3) \<open>infra_ok sz cfg0 infra1\<close> have "infra_ok sz cfg ?infra2" by (simp add: infra_ok_def store_inv_def)
      with match 1(1) 2(1) True show ?thesis by (simp add: start g1_def infra1_def same_tables_def)
    qed
  qed
qed

end
