(* ===== verification/Infra_Rate_Props.thy ===== *)
theory Infra_Rate_Props
  imports Infra_Create Infra_Host_Props
begin

text \<open>
  What the rest of the resolver relies on: the limits on the rate of queries are those of the configuration, queries are
  refused exactly when a limit is exceeded, and a reload of the configuration leaves a well-formed cache.
\<close>

section \<open>Sequences of queries\<close>

fun ratelimit_incs ::
    "rate_globals \<Rightarrow> infra_env \<Rightarrow> rate_malloc \<Rightarrow> zone \<Rightarrow> bool \<Rightarrow> int list \<Rightarrow> 'z infra_cache_scheme \<Rightarrow> (bool list \<times> 'z infra_cache_scheme) option" where
  "ratelimit_incs g env mk z backoff [] infra = Some ([], infra)"
| "ratelimit_incs g env mk z backoff (t # ts) infra = do {
     (ok, infra) \<leftarrow> infra_ratelimit_inc g env mk (fst z) (snd z) t backoff infra;
     (oks, infra) \<leftarrow> ratelimit_incs g env mk z backoff ts infra;
     Some (ok # oks, infra) }"

fun ip_ratelimit_incs ::
    "rate_globals \<Rightarrow> infra_env \<Rightarrow> rate_malloc \<Rightarrow> client \<Rightarrow> bool \<Rightarrow> bool \<Rightarrow> int list \<Rightarrow> 'z infra_cache_scheme \<Rightarrow>
     (bool list \<times> 'z infra_cache_scheme) option" where
  "ip_ratelimit_incs g env mk c has_cookie backoff [] infra = Some ([], infra)"
| "ip_ratelimit_incs g env mk c has_cookie backoff (t # ts) infra = do {
     (ok, infra) \<leftarrow> infra_ip_ratelimit_inc g env mk (fst c) (snd c) t has_cookie backoff infra;
     (oks, infra) \<leftarrow> ip_ratelimit_incs g env mk c has_cookie backoff ts infra;
     Some (ok # oks, infra) }"

definition mallocs_ok :: "rate_malloc \<Rightarrow> bool" where
  "mallocs_ok mk \<longleftrightarrow> rm_key mk \<and> rm_data mk \<and> rm_name mk"

lemma zone_count_limit:
  assumes "store_count zone_key (zone_hash env) domain_rates put_rates grow alloc t backoff z infra = Some (x, infra')"
  shows "infra_find_ratelimit g infra' name len = infra_find_ratelimit g infra name len"
  using assms by (auto simp: store_count_def store_find_def store_set_def store_new_def split: bind_splits option.splits if_splits)

lemma ratelimit_incs_counts:
  assumes "store_counts zone_key (zone_hash env) domain_rates put_rates (ie_grow_ok env) backoff z ts infra = Some (xs, infra')"
    "infra_dp_ratelimit g \<noteq> 0" "infra_find_ratelimit g infra (fst z) (snd z) = Some l" "l \<noteq> 0" "mallocs_ok mk" "snd z \<noteq> 0"
  shows "ratelimit_incs g env mk z backoff ts infra = Some (map (\<lambda>r. r \<le> l) (map reported xs), infra')"
  using assms
proof (induction ts arbitrary: infra xs)
  case (Cons t ts)
  from Cons.prems(1) obtain x infra1 xs1 where
    1: "store_count zone_key (zone_hash env) domain_rates put_rates (ie_grow_ok env) True t backoff z infra = Some (x, infra1)"
    "store_counts zone_key (zone_hash env) domain_rates put_rates (ie_grow_ok env) backoff z ts infra1 = Some (xs1, infra')" "xs = x # xs1"
    by (auto split: bind_splits)
  have "infra_ratelimit_inc g env mk (fst z) (snd z) t backoff infra = Some (reported x \<le> l, infra1)"
    using infra_ratelimit_inc_count [OF Cons.prems(2-4), of env mk t backoff] 1(1) Cons.prems(5,6) by (simp add: mallocs_ok_def reported_def)
  moreover have "infra_find_ratelimit g infra1 (fst z) (snd z) = Some l" using zone_count_limit [OF 1(1)] Cons.prems(3) by simp
  ultimately show ?case using Cons.IH [OF 1(2) Cons.prems(2) _ Cons.prems(4-6)] 1(3) by simp
qed simp

definition client_limit :: "rate_globals \<Rightarrow> bool \<Rightarrow> int" where
  "client_limit g has_cookie = (if has_cookie then infra_ip_ratelimit_cookie g else infra_ip_ratelimit g)"

lemma ip_ratelimit_incs_counts:
  assumes "store_counts client_key (client_hash env) client_ip_rates put_ip_rates (ie_grow_ok env) backoff c ts infra = Some (xs, infra')"
    "infra_ip_ratelimit g \<noteq> 0" "0 \<le> client_limit g has_cookie" "mallocs_ok mk"
  shows "ip_ratelimit_incs g env mk c has_cookie backoff ts infra =
    Some (map (\<lambda>r. client_limit g has_cookie = 0 \<or> r \<le> client_limit g has_cookie) (map reported xs), infra')"
  using assms
proof (induction ts arbitrary: infra xs)
  case (Cons t ts)
  from Cons.prems(1) obtain x infra1 xs1 where
    1: "store_count client_key (client_hash env) client_ip_rates put_ip_rates (ie_grow_ok env) True t backoff c infra = Some (x, infra1)"
    "store_counts client_key (client_hash env) client_ip_rates put_ip_rates (ie_grow_ok env) backoff c ts infra1 = Some (xs1, infra')" "xs = x # xs1"
    by (auto split: bind_splits)
  have "infra_ip_ratelimit_inc g env mk (fst c) (snd c) t has_cookie backoff infra =
      Some (case x of None \<Rightarrow> True | Some (premax, m) \<Rightarrow> check_ip_ratelimit g premax m has_cookie, infra1)"
    using infra_ip_ratelimit_inc_count [OF Cons.prems(2), of env mk "fst c" "snd c" t has_cookie backoff infra] 1(1) Cons.prems(4)
    by (simp add: mallocs_ok_def)
  moreover have "(case x of None \<Rightarrow> True | Some (premax, m) \<Rightarrow> check_ip_ratelimit g premax m has_cookie) =
      (client_limit g has_cookie = 0 \<or> reported x \<le> client_limit g has_cookie)"
    using Cons.prems(3) by (auto simp: reported_def check_ip_ratelimit_def client_limit_def split: option.split)
  ultimately show ?case using Cons.IH [OF 1(2) Cons.prems(2-4)] 1(3) by simp
qed simp

lemma refusals_right_nth:
  "refusals_right lims hs ops oks \<Longrightarrow> length oks = length ops \<and>
     (\<forall>k < length ops. \<not> oks ! k \<longrightarrow> refusal_right lims (hs @ take k ops) (ops ! k))"
proof (induction lims hs ops oks rule: refusals_right.induct)
  case (1 lims hs op ops ok oks)
  then show ?case by (auto simp: less_Suc_eq_0_disj)
qed simp_all

definition cfg_limit :: "infra_config \<Rightarrow> wire_name \<Rightarrow> int" where
  "cfg_limit cfg name =
     limit_for (cfg_value (cfg_ratelimit_for_domain cfg)) (cfg_value (cfg_ratelimit_below_domain cfg)) (cfg_ratelimit cfg) (name_key name)"

lemma infra_ok_limit:
  assumes "infra_ok sz cfg infra" "infra_dp_ratelimit g = cfg_ratelimit cfg"
  shows "infra_find_ratelimit g infra name len = Some (cfg_limit cfg name)"
proof -
  from assms(1) obtain xs where
    "limits_hold (cfg_value (cfg_ratelimit_for_domain cfg)) (cfg_value (cfg_ratelimit_below_domain cfg)) (domain_limits infra) (limit_data infra) xs"
    "names.parents_right (domain_limits infra) xs (set xs)" by (auto simp: infra_ok_def limits_ready_def)
  from infra_find_ratelimit_ok [OF this] show ?thesis by (simp add: cfg_limit_def assms(2))
qed

lemma infra_empty_views:
  assumes "infra_empty infra"
  shows "zone_view env infra z = None" "client_view env infra c = None"
  using assms by (auto simp: infra_empty_def store_view_def table_view_def bind_eq_None_conv)

section \<open>Sample values\<close>

text \<open>A limit of 3 for the zone \<open>abc\<close>, of 2 for the domains below the root, of 5 for the root, and of 2 for clients.\<close>

definition sample_cfg :: infra_config where
  "sample_cfg = \<lparr>cfg_infra_cache_numhosts = 10000, cfg_infra_cache_slabs = 4, cfg_host_ttl = 900, cfg_infra_keep_probing = False,
     cfg_ratelimit = 5, cfg_ratelimit_slabs = 4, cfg_ratelimit_size = 4000000,
     cfg_ip_ratelimit = 2, cfg_ip_ratelimit_slabs = 4, cfg_ip_ratelimit_size = 4000000,
     cfg_ratelimit_for_domain = [([97, 98, 99, 46], [51])], cfg_ratelimit_below_domain = [([46], [50])]\<rparr>"

definition sample_globals :: rate_globals where
  "sample_globals = \<lparr>infra_dp_ratelimit = 0, infra_ip_ratelimit = 0, infra_ip_ratelimit_cookie = 0\<rparr>"

definition cfg_globals :: "infra_config \<Rightarrow> rate_globals" where
  "cfg_globals cfg = \<lparr>infra_dp_ratelimit = cfg_ratelimit cfg, infra_ip_ratelimit = cfg_ip_ratelimit cfg, infra_ip_ratelimit_cookie = 0\<rparr>"

definition sample_infra_sizes :: infra_sizes where
  "sample_infra_sizes = \<lparr>is_hosts = sample_sizes, is_rates = sample_sizes, is_ip_rates = sample_sizes\<rparr>"

definition sample_allocs :: infra_allocs where
  "sample_allocs = (let tab = (True, True, \<lambda>i. (True, True)); node = \<lambda>i. \<lparr>lm_raw = replicate 256 7, lm_name = True, lm_node = True\<rparr>
     in \<lparr>al_infra = True, al_hosts = tab, al_rates = tab, al_ip_rates = tab, al_for = node, al_below = node\<rparr>)"

definition sample_rate_malloc :: rate_malloc where
  "sample_rate_malloc = \<lparr>rm_key = True, rm_data = True, rm_name = True\<rparr>"

lemma sample_cfg_slabs: "slabs_ok sample_cfg"
  by (auto simp: slabs_ok_def sample_cfg_def intro!: exI [of _ 2])

lemma sample_raws: "raws_ok sample_allocs"
  by (simp add: raws_ok_def sample_allocs_def Let_def)

lemma sample_names: "read_name 256 [97, 98, 99, 46] = Some [[97, 98, 99]]" "read_name 256 [46] = Some []"
  by (simp_all add: read_name_def text_name_def label_ok_def)

lemma sample_can_succeed: "create_can_succeed sample_allocs sample_cfg"
  by (simp add: create_can_succeed_def table_alloc_ok_def setup_can_succeed_def cfg_names_ok_def limit_malloc_ok_def
      sample_allocs_def sample_cfg_def Let_def sample_names)

lemma sample_limit: "cfg_limit sample_cfg (sample_name 65) = 3" "cfg_limit sample_cfg (sample_name 66) = 2"
proof -
  have "c_atoi [51] = 3" "c_atoi [50] = 2" by code_simp+
  then show "cfg_limit sample_cfg (sample_name 65) = 3" "cfg_limit sample_cfg (sample_name 66) = 2"
    by (simp_all add: cfg_limit_def limit_for_def cfg_value_def sample_cfg_def sample_names name_key_def sample_name_bytes c_tolower_def)
qed

lemma sample_ratelimits: "cfg_ratelimit sample_cfg = 5" "cfg_ip_ratelimit sample_cfg = 2"
  by (simp_all add: sample_cfg_def)

lemma sample_infra:
  "\<exists>infra. infra_create sample_infra_sizes sample_allocs sample_cfg sample_globals = Some (Some infra, cfg_globals sample_cfg) \<and>
     infra_ok sample_infra_sizes sample_cfg infra \<and> infra_empty infra"
  using infra_create_ok [OF sample_cfg_slabs sample_raws, of sample_infra_sizes sample_globals] sample_can_succeed
  by (auto simp: sample_globals_def cfg_globals_def)

section \<open>Properties\<close>

text \<open>
  C21. Creating the cache applies the configuration. For every outcome of the allocations \<open>infra_create\<close> runs through: no step has
  a fault, the deletion after a failure included, and it succeeds if the allocations do and every name in the
  configuration can be read. The new cache has empty tables, and the limit it finds for any zone is the one of the last entry of
  \<open>ratelimit-for-domain\<close> for the zone, else that of \<open>ratelimit-below-domain\<close> for the closest domain above it that has
  an entry, else the default.
\<close>

theorem infra_create_applies_config:
  assumes "slabs_ok cfg" "raws_ok al"
  shows "\<exists>r g'. infra_create sz al cfg g = Some (r, g') \<and> (create_can_succeed al cfg \<longrightarrow> r \<noteq> None) \<and>
    (\<forall>infra. r = Some infra \<longrightarrow> infra_ok sz cfg infra \<and> infra_empty infra \<and>
       (\<forall>name len. infra_find_ratelimit g' infra name len = Some (cfg_limit cfg name)))"
proof -
  from infra_create_ok [OF assms, of sz g] obtain r g' where
    1: "infra_create sz al cfg g = Some (r, g')" "create_can_succeed al cfg \<longrightarrow> r \<noteq> None"
    "\<And>infra. r = Some infra \<Longrightarrow> infra_ok sz cfg infra \<and> infra_empty infra \<and> infra_dp_ratelimit g' = cfg_ratelimit cfg" by auto
  with infra_ok_limit show ?thesis by blast
qed

theorem infra_create_applies_config_witness:
  "\<exists>infra g'. infra_create sample_infra_sizes sample_allocs sample_cfg sample_globals = Some (Some infra, g') \<and> infra_empty infra \<and>
     infra_find_ratelimit g' infra (sample_name 65) 5 = Some 3 \<and> infra_find_ratelimit g' infra (sample_name 66) 5 = Some 2"
  using infra_create_applies_config [OF sample_cfg_slabs sample_raws, of sample_infra_sizes sample_globals] sample_can_succeed
  by (auto simp: sample_limit)

text \<open>
  C22. Reloading the configuration. For a cache in use and every outcome of the allocations \<open>infra_adjust\<close> runs through, and if the
  result is a cache then it has the limits of the new configuration. The learned data and the counters
  are kept if the sizes of the tables stay the same, and else the tables are empty. The limit for clients with a
  cookie is not changed by a reload.
\<close>

theorem infra_adjust_applies_config:
  assumes "infra_ok sz cfg0 infra0" "slabs_ok cfg" "raws_ok al"
  shows "\<exists>r g'. infra_adjust sz al cfg (Some infra0) g = Some (r, g') \<and> (create_can_succeed al cfg \<longrightarrow> r \<noteq> None) \<and>
    infra_ip_ratelimit_cookie g' = infra_ip_ratelimit_cookie g \<and>
    (\<forall>infra. r = Some infra \<longrightarrow> infra_ok sz cfg infra \<and>
       (if sizes_match sz cfg infra0 then same_tables infra0 infra else infra_empty infra) \<and>
       host_ttl infra = cfg_host_ttl cfg \<and> infra_ip_ratelimit g' = cfg_ip_ratelimit cfg \<and>
       (\<forall>name len. infra_find_ratelimit g' infra name len = Some (cfg_limit cfg name)))"
proof -
  from infra_adjust_ok [OF assms, of g] obtain r g' where
    1: "infra_adjust sz al cfg (Some infra0) g = Some (r, g')" "create_can_succeed al cfg \<longrightarrow> r \<noteq> None"
    "infra_ip_ratelimit_cookie g' = infra_ip_ratelimit_cookie g"
    "\<And>infra. r = Some infra \<Longrightarrow> infra_ok sz cfg infra \<and>
       (if sizes_match sz cfg infra0 then same_tables infra0 infra else infra_empty infra) \<and> host_ttl infra = cfg_host_ttl cfg \<and>
       infra_dp_ratelimit g' = cfg_ratelimit cfg \<and> infra_ip_ratelimit g' = cfg_ip_ratelimit cfg" by auto
  with infra_ok_limit show ?thesis by blast
qed

theorem infra_adjust_applies_config_witness:
  "\<exists>infra0 infra g'. infra_ok sample_infra_sizes sample_cfg infra0 \<and>
     infra_adjust sample_infra_sizes sample_allocs (sample_cfg\<lparr>cfg_ratelimit_for_domain := []\<rparr>) (Some infra0) (cfg_globals sample_cfg) = Some (Some infra, g') \<and>
     infra_find_ratelimit g' infra (sample_name 65) 5 = Some 2"
proof -
  let ?cfg = "sample_cfg\<lparr>cfg_ratelimit_for_domain := []\<rparr>"
  obtain infra0 where ok: "infra_ok sample_infra_sizes sample_cfg infra0" using sample_infra by blast
  have "slabs_ok ?cfg" "create_can_succeed sample_allocs ?cfg"
    using sample_cfg_slabs sample_can_succeed by (simp_all add: slabs_ok_def create_can_succeed_def setup_can_succeed_def cfg_names_ok_def)
  moreover have "c_atoi [50] = 2" by code_simp
  then have "cfg_limit ?cfg (sample_name 65) = 2"
    by (simp add: cfg_limit_def limit_for_def cfg_value_def sample_cfg_def sample_names name_key_def sample_name_bytes c_tolower_def)
  ultimately show ?thesis using infra_adjust_applies_config [OF ok _ sample_raws, of ?cfg "cfg_globals sample_cfg"] ok by auto
qed

text \<open>
  C19. The limit for a zone is enforced exactly. For queries for a zone in order of time, the answer to each is whether the
  rate at that moment is within the limit that the configuration has for the zone: the number of queries in the current second, or with
  backoff the higher of that number and that of the previous second with queries, if it is at most two seconds ago.
\<close>

theorem infra_ratelimit_exact:
  assumes "infra_ok sz cfg infra" "infra_dp_ratelimit g = cfg_ratelimit cfg" "cfg_ratelimit cfg \<noteq> 0" "cfg_limit cfg (fst z) \<noteq> 0"
    "zone_view env infra z = None" "mallocs_ok mk" "snd z \<noteq> 0" "sorted ts" "\<forall>t \<in> set ts. 0 < t" "length ts < 2 ^ 31"
  shows "\<exists>infra'. ratelimit_incs g env mk z backoff ts infra = Some (map (\<lambda>r. r \<le> cfg_limit cfg (fst z)) (window_rates backoff [] ts), infra')"
proof -
  have inv: "zone_inv (is_rates sz) infra" using assms(1) by (simp add: infra_ok_def)
  have v: "view_tracks [] (zone_view env infra z)" using assms(5) by (simp add: view_tracks_def)
  have "sorted ([] @ ts)" "length ([] :: int list) + length ts < 2 ^ 31" using assms(8,10) by simp_all
  from zone_store.counts_ok [OF inv _ v this(1) assms(9) this(2), of "ie_grow_ok env" backoff] obtain xs infra' where
    1: "store_counts zone_key (zone_hash env) domain_rates put_rates (ie_grow_ok env) backoff z ts infra = Some (xs, infra')"
    "map reported xs = window_rates backoff [] ts" by blast
  have "infra_find_ratelimit g infra (fst z) (snd z) = Some (cfg_limit cfg (fst z))" by (rule infra_ok_limit [OF assms(1,2)])
  from ratelimit_incs_counts [OF 1(1) _ this assms(4,6,7)] assms(2,3) 1(2) show ?thesis by simp
qed

theorem infra_ratelimit_exact_witness:
  "\<exists>infra infra'. infra_ok sample_infra_sizes sample_cfg infra \<and>
     ratelimit_incs (cfg_globals sample_cfg) sample_env sample_rate_malloc (sample_name 65, 5) True [10, 10, 10, 10, 11, 12, 13] infra =
       Some ([True, True, True, False, False, True, True], infra')"
proof -
  obtain infra where ok: "infra_ok sample_infra_sizes sample_cfg infra" "infra_empty infra" using sample_infra by blast
  have w: "window_rates True [] [10, 10, 10, 10, 11, 12, 13] = [1, 2, 3, 4, 4, 1, 1]" by code_simp
  from infra_ratelimit_exact [OF ok(1), of "cfg_globals sample_cfg" "(sample_name 65, 5)" sample_env sample_rate_malloc "[10, 10, 10, 10, 11, 12, 13]" True]
    infra_empty_views(1) [OF ok(2)] obtain infra' where
    "ratelimit_incs (cfg_globals sample_cfg) sample_env sample_rate_malloc (sample_name 65, 5) True [10, 10, 10, 10, 11, 12, 13] infra =
       Some (map (\<lambda>r. r \<le> 3) [1, 2, 3, 4, 4, 1, 1 :: int], infra')"
    unfolding w by (auto simp: sample_limit sample_ratelimits cfg_globals_def mallocs_ok_def sample_rate_malloc_def simp del: ratelimit_incs.simps)
  with ok(1) show ?thesis by (auto simp del: ratelimit_incs.simps)
qed

text \<open>
  C23. The limit for a client is enforced exactly, in the same way: for queries of a client in order of time, each is accepted
  if and only if the limit that applies to it is 0 or the rate at that moment is within the limit. The limit is the one for clients with a cookie or
  the one for clients without.
\<close>

theorem infra_ip_ratelimit_exact:
  assumes "infra_ok sz cfg infra" "client_ok c" "infra_ip_ratelimit g \<noteq> 0" "0 \<le> client_limit g has_cookie"
    "client_view env infra c = None" "mallocs_ok mk" "sorted ts" "\<forall>t \<in> set ts. 0 < t" "length ts < 2 ^ 31"
  shows "\<exists>infra'. ip_ratelimit_incs g env mk c has_cookie backoff ts infra =
    Some (map (\<lambda>r. client_limit g has_cookie = 0 \<or> r \<le> client_limit g has_cookie) (window_rates backoff [] ts), infra')"
proof -
  have inv: "client_inv (is_ip_rates sz) infra" using assms(1) by (simp add: infra_ok_def)
  have v: "view_tracks [] (client_view env infra c)" using assms(5) by (simp add: view_tracks_def)
  have "sorted ([] @ ts)" "length ([] :: int list) + length ts < 2 ^ 31" using assms(7,9) by simp_all
  from client_store.counts_ok [OF inv assms(2) v this(1) assms(8) this(2), of "ie_grow_ok env" backoff] obtain xs infra' where
    1: "store_counts client_key (client_hash env) client_ip_rates put_ip_rates (ie_grow_ok env) backoff c ts infra = Some (xs, infra')"
    "map reported xs = window_rates backoff [] ts" by blast
  from ip_ratelimit_incs_counts [OF 1(1) assms(3,4,6)] 1(2) show ?thesis by simp
qed

theorem infra_ip_ratelimit_exact_witness:
  "\<exists>infra infra'. infra_ok sample_infra_sizes sample_cfg infra \<and>
     ip_ratelimit_incs (cfg_globals sample_cfg) sample_env sample_rate_malloc (sample_sockaddr 1, 16) False False [10, 10, 10, 11] infra =
       Some ([True, True, False, True], infra')"
proof -
  obtain infra where ok: "infra_ok sample_infra_sizes sample_cfg infra" "infra_empty infra" using sample_infra by blast
  have w: "window_rates False [] [10, 10, 10, 11] = [1, 2, 3, 1]" by code_simp
  from infra_ip_ratelimit_exact [OF ok(1), of "(sample_sockaddr 1, 16)" "cfg_globals sample_cfg" False sample_env sample_rate_malloc "[10, 10, 10, 11]" False]
    infra_empty_views(2) [OF ok(2)] obtain infra' where
    "ip_ratelimit_incs (cfg_globals sample_cfg) sample_env sample_rate_malloc (sample_sockaddr 1, 16) False False [10, 10, 10, 11] infra =
       Some (map (\<lambda>r. r \<le> 2) [1, 2, 3, 1 :: int], infra')"
    unfolding w by (auto simp: client_limit_def sample_ratelimits cfg_globals_def mallocs_ok_def sample_rate_malloc_def client_ok_def sample_sockaddr_ok simp del: ip_ratelimit_incs.simps)
  with ok(1) show ?thesis by (auto simp del: ip_ratelimit_incs.simps)
qed

text \<open>
  C20. No zone is refused without reason. After any sequence of counting, discounting and checking queries for any zones, at any times,
  with failing allocations and evictions, a zone is reported to exceed its limit only if it has had more queries
  than its limit in a single second: the current one, or with backoff one at most two seconds ago.
\<close>

theorem infra_ratelimit_refusals_right:
  assumes "infra_ok sz cfg infra" "infra_empty infra" "infra_dp_ratelimit g = cfg_ratelimit cfg" "length ops < 2 ^ 31"
  shows "\<exists>oks infra'. rate_run g env ops infra = Some (oks, infra') \<and> zone_inv (is_rates sz) infra' \<and> length oks = length ops \<and>
    (\<forall>k < length ops. \<not> oks ! k \<longrightarrow> refusal_right (\<lambda>z. cfg_limit cfg (fst z)) (take k ops) (ops ! k))"
proof -
  have "rates_under (is_rates sz) env [] infra"
    using assms(1) by (simp add: rates_under_def infra_ok_def infra_empty_views [OF assms(2)])
  from rate_run_right [OF this infra_ok_limit [OF assms(1,3)], of ops] assms(4) obtain oks infra' where
    "rate_run g env ops infra = Some (oks, infra')" "zone_inv (is_rates sz) infra'" "refusals_right (\<lambda>z. cfg_limit cfg (fst z)) [] ops oks" by auto
  with refusals_right_nth [of "\<lambda>z. cfg_limit cfg (fst z)" "[]" ops oks] show ?thesis by auto
qed

theorem infra_ratelimit_refusals_right_witness:
  "\<exists>infra oks infra'. infra_ok sample_infra_sizes sample_cfg infra \<and>
     rate_run (cfg_globals sample_cfg) sample_env [RInc (sample_name 65, 5) 10 False sample_rate_malloc, RExceeded (sample_name 65, 5) 10 True] infra = Some (oks, infra') \<and>
     length oks = 2 \<and> oks ! 1"
proof -
  let ?ops = "[RInc (sample_name 65, 5) 10 False sample_rate_malloc, RExceeded (sample_name 65, 5) 10 True]"
  obtain infra where ok: "infra_ok sample_infra_sizes sample_cfg infra" "infra_empty infra" using sample_infra by blast
  have "\<not> refusal_right (\<lambda>z. cfg_limit sample_cfg (fst z)) (take 1 ?ops) (?ops ! 1)"
    by (simp add: refusal_right_def zone_queries_def sample_limit)
  moreover from infra_ratelimit_refusals_right [OF ok, of "cfg_globals sample_cfg" ?ops sample_env] obtain oks infra' where
    "rate_run (cfg_globals sample_cfg) sample_env ?ops infra = Some (oks, infra')" "length oks = length ?ops"
    "\<forall>k < length ?ops. \<not> oks ! k \<longrightarrow> refusal_right (\<lambda>z. cfg_limit sample_cfg (fst z)) (take k ?ops) (?ops ! k)"
    by (auto simp: cfg_globals_def simp del: rate_run.simps)
  moreover have "1 < length ?ops" "length ?ops = 2" by simp_all
  ultimately show ?thesis using ok(1) by metis
qed

end
