(* ===== verification/Spec2Isabelle.thy ===== *)
theory Spec2Isabelle
  imports Dname_Props Dname_Text_Props Slabhash_Props Addr_Props Infra_Host_Props Infra_Rate_Props Dnstree_Props
begin

text \<open>
  A verification of the data structures at the core of the resolver in \<open>src/unbound-dns\<close>.

  \<^bold>\<open>The program.\<close> CWD Gate is an appliance for filtering DNS: the Unbound resolver, WireGuard tools,
  and scripts and web pages for installation and administration. The part with algorithms of its own
  is the resolver. It parses names from packets that come from the network (\<open>sldns/sbuffer\<close>,
  \<open>util/data/dname.c\<close>), keeps what it learns in caches (\<open>util/storage/lruhash.c\<close>,
  \<open>util/storage/slabhash.c\<close>, with hash values from \<open>util/storage/lookup3.c\<close>) and in sorted trees
  (\<open>util/rbtree.c\<close>, \<open>util/storage/dnstree.c\<close>), compares and masks addresses (\<open>util/net_help.c\<close>), and decides from measured
  round trip times (\<open>util/rtt.c\<close>) that it keeps per server (\<open>services/cache/infra.c\<close>) where to send
  queries and when to give up on them, and counts queries to limit their rate. These parts call each other and are modelled together.

  \<^bold>\<open>Conventions.\<close> C integers are words where they wrap around and \<open>int\<close> or \<open>nat\<close> where a lemma shows that
  they stay in range or where the wrap-around is written out. An access outside of an object, a failed
  assertion, a use of memory that is not there and a loop that does not end are the result \<open>None\<close> of
  the model, so a theorem that a function gives \<open>Some\<close> result says that none of these happens.
  Whether an allocation succeeds is an argument. Locks are not part of the model: every operation runs
  alone, which is what the locks provide.

  \<^bold>\<open>Theories.\<close>

  \<^item> \<open>Prelude\<close>: machine types, bytes of C objects, options as failures. \<open>Comparators\<close>: the contract of
    the comparison functions, a locale that the trees and the hash tables assume and that the
    comparison functions of the program provide.

  \<^item> \<open>Sbuffer\<close>: the packet buffer of \<open>sldns/sbuffer.h\<close> and \<open>sldns/sbuffer.c\<close>, a record with position,
    limit, capacity and data. Every sequence of operations keeps it well formed; what is written is read back.

  \<^item> \<open>Lookup3\<close>: \<open>hashlittle\<close> and \<open>hashword\<close>, with the three paths for the alignments of the data,
    which give the same value.

  \<^item> \<open>Dname\<close>: every function of \<open>util/data/dname.c\<close>. \<open>Dname_Labels\<close> relates them to lists of labels,
    \<open>Dname_Packet\<close> treats names with compression pointers, \<open>Dname_Props\<close> has the properties: parsing is safe
    on every packet, comparisons are the orders they claim to be, hashes agree with comparisons, and
    operations on compressed names agree with those on their copies.

  \<^item> \<open>Dname_Text\<close>: domain names as text, the functions of \<open>sldns/str2wire.c\<close>, \<open>sldns/parseutil.c\<close> and
    \<open>sldns/wire2str.c\<close> that read and print them. \<open>Dname_Read\<close> describes which texts are names,
    \<open>Dname_Print\<close> the text of a name and the bounds of the printing functions; \<open>Dname_Text_Props\<close> shows that what is
    printed is read back, and that printing is safe on every packet.

  \<^item> \<open>Lruhash\<close>: the hash table of \<open>util/storage/lruhash.c\<close> on a memory of entries. \<open>Lruhash_Lists\<close>
    describes the linked lists in the memory, \<open>Lruhash_Inv\<close> the invariant, \<open>Lruhash_Room\<close> eviction,
    \<open>Lruhash_Ops\<close> each operation; \<open>Lruhash_Props\<close> shows that the table refines a list of rows in
    order of use. \<open>Hash_Cache\<close> is the contract of a cache as a locale; the LRU table and the table of \<open>Slabhash\<close>
    (\<open>util/storage/slabhash.c\<close>) interpret it, the latter in \<open>Slabhash_Props\<close>, which also has creation with the clean-up after a failed allocation. \<open>Slab_Data\<close> is the
    change of data through a pointer that a lookup returned.

  \<^item> \<open>Sockaddr\<close> and \<open>Addr_Parse\<close>: socket addresses of \<open>util/net_help.c\<close> and the reading of addresses from
    text; \<open>Addr_Props\<close> shows that masks and common prefixes agree.

  \<^item> \<open>Rtt\<close>: \<open>util/rtt.c\<close>, with the 32-bit wrap-around written out: the change of the estimates by a measurement, the clamped timeout, and
    the growth of the timeout by losses.

  \<^item> \<open>Infra_Keys\<close>, \<open>Infra_Host\<close>: keys and operations of the cache of servers of
    \<open>services/cache/infra.c\<close>, on top of the partitioned hash table. \<open>Infra_Host_Map\<close> abstracts the
    cache to a map from servers to data, \<open>Infra_Host_Props\<close> has the properties of sequences of operations.

  \<^item> \<open>Infra_Rate\<close>: the rest of \<open>services/cache/infra.c\<close>: the limits on the rate of queries per zone and per client, and
    creation, reload and deletion of the cache. \<open>Keyed_Table\<close> and \<open>Infra_Rate_Map\<close> treat the two tables of rates as maps,
    with one locale for both; \<open>Infra_Limits\<close> the tree of configured limits; \<open>Rate_Count\<close> and \<open>Rate_Bound\<close>
    the counters; \<open>Infra_Create\<close> creation, reload and deletion. \<open>Infra_Rate_Props\<close> shows that the limits are
    those of the configuration and that they are enforced.

  \<^item> \<open>Rbtree\<close>: \<open>util/rbtree.c\<close>, pointer by pointer, with the sentinel node that all trees share.
    \<open>Rbtree_Links\<close> relates the links to trees and their contexts, \<open>Rbtree_Insert\<close> and
    \<open>Rbtree_Fixup\<close> treat the fix-up loops, \<open>Rbtree_Search\<close>, \<open>Rbtree_Walk\<close> and \<open>Rbtree_Delete\<close> the
    operations, and \<open>Rbtree_Props\<close> shows that a tree refines a sorted list, that its height is
    logarithmic and that loops over it visit every node once.

  \<^item> \<open>Dnstree\<close>: the trees of names and of netblocks of \<open>util/storage/dnstree.c\<close>, on top of the red-black tree.
    \<open>Dnstree_Encl\<close> has what the two kinds of tree share, a locale for the order of an enclosure relation, which
    \<open>Dnstree_Names\<close> and \<open>Dnstree_Addrs\<close> interpret; \<open>Dnstree_Props\<close> shows that lookups find the closest
    enclosing name and the longest matching netblock, and from which classes the search for the next root finds it.

  \<^bold>\<open>Termination.\<close> Loops over names and buffers are functions with a measure. Loops over pointers may run
  forever on a memory with a cycle, so they are partial functions with the result \<open>None\<close> in that case,
  and the lemmas show that they give a result on every memory that satisfies the invariant. No
  definition uses fuel.

  \<^bold>\<open>Not modelled.\<close> The iterator, the validator, the services (mesh of queries, local zones, authority
  zones, response policy zones, message and record caches) and the daemon work on modules, regions,
  events and sockets that reach through most of the source tree, so that none of them can be treated
  alone; network and file input and output, OpenSSL, and the event library are outside of the source tree. The
  parsers and printers of zone files, apart from domain names, and of the configuration are tables and generated
  code for the most part. The scripts, web pages and packages of the appliance start other programs. WireGuard's
  tools talk to the kernel. In the modelled files, functions that only log, print or release memory
  are left out where they have no other effect.
\<close>

end
